(* ===== verification/Prelude.thy ===== *)
theory Prelude
  imports
    Main
    "HOL-Library.Word"
    "HOL-Library.Sublist"
    "HOL-Library.Product_Lexorder"
begin

text \<open>
  Shared vocabulary of the development: the types every component uses, the errors of
  \<^verbatim>\<open>src/error.rs\<close>, the two sequencing combinators for fallible code, the occurrence
  relation between byte strings, and the lemma collections the components extend.

  A byte string is a \<^typ>\<open>char list\<close>: a HOL character is exactly one byte, so one type
  serves \<^verbatim>\<open>Vec<u8>\<close>, \<^verbatim>\<open>&[u8]\<close>, \<^verbatim>\<open>String\<close> and \<^verbatim>\<open>&str\<close>; that a
  \<^verbatim>\<open>String\<close> is valid UTF-8 is a predicate of theory \<open>Rust_Str\<close>.
\<close>

section \<open>Types\<close>

type_synonym bytes = "char list"
type_synonym u8 = "8 word"
type_synonym u64 = "64 word"

section \<open>Errors (\<open>src/error.rs\<close>)\<close>

text \<open>
  The constructors of \<^verbatim>\<open>CrebroError\<close>. A message carries the fixed text of the source; the
  text of a wrapped third-party error (\<^verbatim>\<open>{err}\<close>) is left out. The four transparent
  variants carry no payload of their own.
\<close>

datatype crebro_error =
    Config string
  | Hardening string
  | Secret string
  | Redaction string
  | UnregisteredCredential string
  | Restore string
  | Gateway string
  | Upstream string
  | Child string
  | Io
  | Json
  | Sqlite
  | Http

section \<open>Sequencing of fallible code\<close>

text \<open>
  \<open>and_then\<close> is the \<^verbatim>\<open>?\<close> operator on a pure \<^verbatim>\<open>Result\<close>. \<open>and_then_st\<close> is the
  same for code that works on \<^verbatim>\<open>&mut\<close> state: the state reached when an error is raised
  is kept, as the mutations made before an early return are.
\<close>

definition and_then :: "'e + 'a \<Rightarrow> ('a \<Rightarrow> 'e + 'b) \<Rightarrow> 'e + 'b" where
  "and_then r f = (case r of Inl e \<Rightarrow> Inl e | Inr a \<Rightarrow> f a)"

definition and_then_st ::
  "('e + 'a) \<times> 's \<Rightarrow> ('a \<Rightarrow> 's \<Rightarrow> ('e + 'b) \<times> 's) \<Rightarrow> ('e + 'b) \<times> 's" where
  "and_then_st r f = (case r of (Inl e, s) \<Rightarrow> (Inl e, s) | (Inr a, s) \<Rightarrow> f a s)"

definition ok_or :: "'e \<Rightarrow> 'a option \<Rightarrow> 'e + 'a" where
  "ok_or e x = (case x of None \<Rightarrow> Inl e | Some a \<Rightarrow> Inr a)"

lemma and_then_simps [simp]:
  "and_then (Inl e) f = Inl e"
  "and_then (Inr a) g = g a"
  by (simp_all add: and_then_def)

lemma and_then_st_simps [simp]:
  "and_then_st (Inl e, s) f = (Inl e, s)"
  "and_then_st (Inr a, s) g = g a s"
  by (simp_all add: and_then_st_def)

lemma ok_or_simps [simp]:
  "ok_or e None = Inl e"
  "ok_or e (Some a) = Inr a"
  by (simp_all add: ok_or_def)

lemma and_then_eq_Inr [simp]:
  "and_then r f = Inr b \<longleftrightarrow> (\<exists>a. r = Inr a \<and> f a = Inr b)"
  by (cases r) simp_all

lemma and_then_st_eq_Inr:
  "and_then_st r f = (Inr b, t) \<longleftrightarrow> (\<exists>a s. r = (Inr a, s) \<and> f a s = (Inr b, t))"
  by (cases r; cases "fst r") auto

lemma ok_or_eq_Inr [simp]: "ok_or e x = Inr a \<longleftrightarrow> x = Some a"
  by (cases x) simp_all

lemma and_then_cong [fundef_cong]:
  "r = r' \<Longrightarrow> (\<And>a. r' = Inr a \<Longrightarrow> f a = f' a) \<Longrightarrow> and_then r f = and_then r' f'"
  by (cases r') simp_all

lemma and_then_st_cong [fundef_cong]:
  "r = r' \<Longrightarrow> (\<And>a s. r' = (Inr a, s) \<Longrightarrow> f a s = f' a s) \<Longrightarrow>
   and_then_st r f = and_then_st r' f'"
  by (cases r'; cases "fst r'") auto

lemma and_then_st_snd:
  assumes "P (snd r)" and "\<And>a s. r = (Inr a, s) \<Longrightarrow> P (snd (f a s))"
  shows "P (snd (and_then_st r f))"
  using assms by (cases r; cases "fst r") auto

lemma and_then_st_snd_const [simp]: "snd (and_then_st x (\<lambda>a s. (f a s, s))) = snd x"
  by (cases x; cases "fst x") auto

lemma and_then_st_assoc:
  "and_then_st (and_then_st x f) g = and_then_st x (\<lambda>a s. and_then_st (f a s) g)"
  by (cases x; cases "fst x") auto

lemma and_then_st_return [simp]: "and_then_st x (\<lambda>a s. (Inr a, s)) = x"
  by (cases x; cases "fst x") auto

lemma and_then_st_return_pair [simp]: "and_then_st x (\<lambda>(a, b) s. (Inr (a, b), s)) = x"
  by (cases x; cases "fst x") auto

section \<open>Slices\<close>

text \<open>
  \<open>sub_bytes bs i j\<close> is the slice \<^verbatim>\<open>&bs[i..j]\<close>. The source panics unless
  \<^prop>\<open>i \<le> j\<close> and \<^prop>\<open>j \<le> length bs\<close>; the components prove that their slices are in range.
\<close>

definition sub_bytes :: "'a list \<Rightarrow> nat \<Rightarrow> nat \<Rightarrow> 'a list" where
  "sub_bytes bs i j = take (j - i) (drop i bs)"

lemma length_sub_bytes [simp]: "j \<le> length bs \<Longrightarrow> length (sub_bytes bs i j) = j - i"
  by (simp add: sub_bytes_def)

lemma sub_bytes_full [simp]: "sub_bytes bs 0 (length bs) = bs"
  by (simp add: sub_bytes_def)

lemma sub_bytes_self [simp]: "sub_bytes bs i i = []"
  by (simp add: sub_bytes_def)

lemma sub_bytes_from_zero: "sub_bytes bs 0 j = take j bs"
  by (simp add: sub_bytes_def)

lemma sub_bytes_to_end: "length bs \<le> j \<Longrightarrow> sub_bytes bs i j = drop i bs"
  by (simp add: sub_bytes_def)

lemma sub_bytes_append:
  "i \<le> j \<Longrightarrow> j \<le> k \<Longrightarrow> sub_bytes bs i j @ sub_bytes bs j k = sub_bytes bs i k"
proof -
  assume ij: "i \<le> j" and jk: "j \<le> k"
  have "take (k - i) (drop i bs) = take ((j - i) + (k - j)) (drop i bs)"
    using ij jk by simp
  also have "\<dots> = take (j - i) (drop i bs) @ take (k - j) (drop (j - i) (drop i bs))"
    by (rule take_add)
  also have "drop (j - i) (drop i bs) = drop j bs"
    using ij by simp
  finally show ?thesis
    by (simp add: sub_bytes_def)
qed

lemma sub_bytes_drop: "i \<le> j \<Longrightarrow> sub_bytes bs i j @ drop j bs = drop i bs"
proof -
  assume "i \<le> j"
  have "take (j - i) (drop i bs) @ drop (j - i) (drop i bs) = drop i bs"
    by (rule append_take_drop_id)
  with \<open>i \<le> j\<close> show ?thesis
    by (simp add: sub_bytes_def)
qed

lemma sub_bytes_shift: "sub_bytes (drop k bs) i j = sub_bytes bs (k + i) (k + j)"
  by (simp add: sub_bytes_def add.commute)

section \<open>Occurrences\<close>

definition occurs_at :: "'a list \<Rightarrow> 'a list \<Rightarrow> nat \<Rightarrow> bool" where
  "occurs_at pat bs i \<longleftrightarrow> i + length pat \<le> length bs \<and> sub_bytes bs i (i + length pat) = pat"

definition occurs_in :: "'a list \<Rightarrow> 'a list \<Rightarrow> bool" where
  "occurs_in pat bs \<longleftrightarrow> (\<exists>i\<le>length bs. occurs_at pat bs i)"

lemma occurs_atD:
  assumes "occurs_at pat bs i"
  shows "i + length pat \<le> length bs" "sub_bytes bs i (i + length pat) = pat"
  using assms by (auto simp: occurs_at_def)

lemma occurs_at_bound: "occurs_at pat bs i \<Longrightarrow> i \<le> length bs"
  by (simp add: occurs_at_def)

lemma occurs_inI: "occurs_at pat bs i \<Longrightarrow> occurs_in pat bs"
  unfolding occurs_in_def using occurs_at_bound by blast

lemma occurs_at_split:
  "occurs_at pat bs i \<longleftrightarrow> (\<exists>u v. bs = u @ pat @ v \<and> length u = i)"
proof
  assume o: "occurs_at pat bs i"
  have "bs = take i bs @ pat @ drop (i + length pat) bs"
    using o sub_bytes_drop [of i "i + length pat" bs] by (simp add: occurs_at_def)
  moreover have "length (take i bs) = i"
    using o by (simp add: occurs_at_def)
  ultimately show "\<exists>u v. bs = u @ pat @ v \<and> length u = i"
    by blast
next
  assume "\<exists>u v. bs = u @ pat @ v \<and> length u = i"
  then show "occurs_at pat bs i"
    by (auto simp: occurs_at_def sub_bytes_def)
qed

lemma occurs_in_split: "occurs_in pat bs \<longleftrightarrow> (\<exists>u v. bs = u @ pat @ v)"
proof
  assume "occurs_in pat bs"
  then show "\<exists>u v. bs = u @ pat @ v"
    by (auto simp: occurs_in_def occurs_at_split)
next
  assume "\<exists>u v. bs = u @ pat @ v"
  then obtain u v where "bs = u @ pat @ v"
    by blast
  then have "occurs_at pat bs (length u)"
    by (auto simp: occurs_at_split)
  then show "occurs_in pat bs"
    by (rule occurs_inI)
qed

lemma occurs_at_nth: "occurs_at pat bs i \<Longrightarrow> k < length pat \<Longrightarrow> bs ! (i + k) = pat ! k"
  by (auto simp: occurs_at_split nth_append)

lemma occurs_at_sub_bytes:
  assumes "i \<le> k" and "k + length pat \<le> j" and "j \<le> length bs"
  shows "occurs_at pat (sub_bytes bs i j) (k - i) \<longleftrightarrow> occurs_at pat bs k"
proof -
  have "sub_bytes (sub_bytes bs i j) (k - i) (k - i + length pat) = sub_bytes bs k (k + length pat)"
    using assms by (simp add: sub_bytes_def drop_take min_def)
  then show ?thesis
    using assms by (auto simp: occurs_at_def)
qed

lemma occurs_at_prefix: "occurs_at pat bs i \<longleftrightarrow> i \<le> length bs \<and> prefix pat (drop i bs)"
  by (auto simp: occurs_at_split prefix_def) (metis append_take_drop_id length_take min.absorb2)

lemma occurs_at_append_left [simp]: "occurs_at pat (u @ bs) (length u + i) \<longleftrightarrow> occurs_at pat bs i"
  by (simp add: occurs_at_prefix)

lemma occurs_in_append1: "occurs_in pat u \<Longrightarrow> occurs_in pat (u @ v)"
  unfolding occurs_in_split by (metis append.assoc)

lemma occurs_in_append2: "occurs_in pat v \<Longrightarrow> occurs_in pat (u @ v)"
  unfolding occurs_in_split by (metis append.assoc)

section \<open>Replacing ranges\<close>

text \<open>
  The reference for every routine of the program that copies a byte string while replacing
  ranges of it: redaction, restoration and the replacement of stored conversations. An edit
  \<open>(s, e, r)\<close> replaces the bytes from \<open>s\<close> up to \<open>e\<close> by \<open>r\<close>.
\<close>

type_synonym edit = "nat \<times> nat \<times> bytes"

fun replace_edits :: "bytes \<Rightarrow> nat \<Rightarrow> edit list \<Rightarrow> bytes" where
  "replace_edits bs cur [] = drop cur bs"
| "replace_edits bs cur ((s, e, r) # es) = sub_bytes bs cur s @ r @ replace_edits bs e es"

text \<open>Edits that are in range, in order and do not overlap.\<close>

fun edits_ok :: "nat \<Rightarrow> nat \<Rightarrow> edit list \<Rightarrow> bool" where
  "edits_ok n cur [] \<longleftrightarrow> cur \<le> n"
| "edits_ok n cur ((s, e, r) # es) \<longleftrightarrow> cur \<le> s \<and> s \<le> e \<and> edits_ok n e es"

lemma edits_ok_bound: "edits_ok n cur es \<Longrightarrow> cur \<le> n"
  by (induction n cur es rule: edits_ok.induct) auto

lemma replace_edits_same:
  assumes "edits_ok (length bs) cur es" and "\<forall>(s, e, r) \<in> set es. r = sub_bytes bs s e"
  shows "replace_edits bs cur es = drop cur bs"
  using assms
proof (induction es arbitrary: cur)
  case Nil
  then show ?case by simp
next
  case (Cons x es)
  obtain s e r where x: "x = (s, e, r)" by (cases x) auto
  have "replace_edits bs cur (x # es) = sub_bytes bs cur s @ sub_bytes bs s e @ drop e bs"
    using Cons x by auto
  also have "\<dots> = drop cur bs"
    using Cons.prems x by (simp add: sub_bytes_drop)
  finally show ?case .
qed

lemma replace_edits_length:
  assumes "edits_ok (length bs) cur es" and "\<forall>(s, e, r) \<in> set es. length r = e - s"
  shows "length (replace_edits bs cur es) = length bs - cur"
  using assms
proof (induction es arbitrary: cur)
  case Nil
  then show ?case by simp
next
  case (Cons x es)
  obtain s e r where x: "x = (s, e, r)" by (cases x) auto
  have "e \<le> length bs"
    using Cons.prems x by (auto dest: edits_ok_bound)
  with Cons x show ?case by auto
qed

text \<open>
  The fragments of the input that survive a replacement, and the result woven from them and
  the replacements.
\<close>

fun kept_fragments :: "bytes \<Rightarrow> nat \<Rightarrow> edit list \<Rightarrow> bytes list" where
  "kept_fragments bs cur [] = [drop cur bs]"
| "kept_fragments bs cur ((s, e, r) # es) = sub_bytes bs cur s # kept_fragments bs e es"

fun weave :: "bytes list \<Rightarrow> bytes list \<Rightarrow> bytes" where
  "weave (x # xs) (y # ys) = x @ y @ weave xs ys"
| "weave xs ys = concat xs @ concat ys"

lemma replace_edits_weave:
  "replace_edits bs cur es = weave (kept_fragments bs cur es) (map (\<lambda>(s, e, r). r) es)"
  by (induction bs cur es rule: replace_edits.induct) auto

lemma length_kept_fragments [simp]: "length (kept_fragments bs cur es) = Suc (length es)"
  by (induction bs cur es rule: kept_fragments.induct) auto

lemma kept_fragment_occurrence:
  assumes "edits_ok (length bs) cur es" and "g \<in> set (kept_fragments bs cur es)"
    and "occurs_at p g k" and "p \<noteq> []"
  shows "\<exists>i\<ge>cur. occurs_at p bs i \<and> (\<forall>(s, e, r) \<in> set es. \<not> (s < i + length p \<and> i < e))"
  using assms
proof (induction es arbitrary: cur)
  case Nil
  then have "occurs_at p bs (cur + k)"
    by (auto simp: occurs_at_prefix add.commute)
  then show ?case
    by (intro exI [of _ "cur + k"]) auto
next
  case (Cons x es)
  obtain s e r where x: "x = (s, e, r)" by (cases x) auto
  have ok: "cur \<le> s" "s \<le> e" "edits_ok (length bs) e es"
    using Cons.prems(1) x by auto
  have rest: "\<forall>(s', e', r') \<in> set es. e \<le> s'"
    using ok(3)
  proof (induction es arbitrary: e)
    case (Cons y ys)
    obtain s' e' r' where "y = (s', e', r')" by (cases y) auto
    then show ?case
      using Cons.prems Cons.IH [of e'] by force
  qed simp
  show ?case
  proof (cases "g = sub_bytes bs cur s")
    case True
    have "e \<le> length bs"
      using ok(3) by (rule edits_ok_bound)
    then have k: "cur + k + length p \<le> s"
      using Cons.prems(3) True ok(1,2) by (auto dest!: occurs_atD(1))
    then have "occurs_at p bs (cur + k)"
      using Cons.prems(3) True \<open>e \<le> length bs\<close> ok(2) occurs_at_sub_bytes [of cur "cur + k" p s bs]
      by simp
    moreover have "\<forall>(s', e', r') \<in> set (x # es). \<not> (s' < cur + k + length p \<and> cur + k < e')"
      using k rest ok(2) x by force
    ultimately show ?thesis
      by (intro exI [of _ "cur + k"]) auto
  next
    case False
    then have "g \<in> set (kept_fragments bs e es)"
      using Cons.prems(2) x by simp
    then obtain i where "e \<le> i" "occurs_at p bs i"
      "\<forall>(s, e, r) \<in> set es. \<not> (s < i + length p \<and> i < e)"
      using Cons.IH [OF ok(3)] Cons.prems(3,4) by blast
    then show ?thesis
      using x ok by (intro exI [of _ i]) auto
  qed
qed

section \<open>Loops that collect\<close>

text \<open>\<^verbatim>\<open>for x in xs { out.extend(f(x)?); }\<close>\<close>

fun try_collect :: "('a \<Rightarrow> 'e + 'b list) \<Rightarrow> 'a list \<Rightarrow> 'e + 'b list" where
  "try_collect f [] = Inr []"
| "try_collect f (x # xs) =
     and_then (f x) (\<lambda>ys. and_then (try_collect f xs) (\<lambda>zs. Inr (ys @ zs)))"

lemma try_collect_total:
  "(\<And>x. x \<in> set xs \<Longrightarrow> f x = Inr (g x)) \<Longrightarrow> try_collect f xs = Inr (concat (map g xs))"
  by (induction xs) auto

lemma try_collect_InrE:
  assumes "try_collect f xs = Inr ys"
  obtains g where "\<And>x. x \<in> set xs \<Longrightarrow> f x = Inr (g x)" "ys = concat (map g xs)"
proof
  show f: "f x = Inr ((\<lambda>x. projr (f x)) x)" if "x \<in> set xs" for x
    using assms that by (induction xs arbitrary: ys) auto
  show "ys = concat (map (\<lambda>x. projr (f x)) xs)"
    using assms try_collect_total [of xs f "\<lambda>x. projr (f x)"] f by simp
qed

section \<open>Lists\<close>

lemma sorted_wrt_pairwise:
  assumes "sorted_wrt R xs" and "x \<in> set xs" and "y \<in> set xs" and "x \<noteq> y"
  shows "R x y \<or> R y x"
  using assms by (induction xs) auto

lemma nth_mem_list_find: "List.find P xs = Some x \<Longrightarrow> x \<in> set xs \<and> P x"
  by (auto simp: find_Some_iff)

lemma list_find_None: "List.find P xs = None \<longleftrightarrow> (\<forall>x\<in>set xs. \<not> P x)"
  by (auto simp: find_None_iff)


lemma list_all2_mem2: "list_all2 P xs ys \<Longrightarrow> y \<in> set ys \<Longrightarrow> \<exists>x \<in> set xs. P x y"
  by (induction xs ys rule: list_all2_induct) auto

lemma list_all2_mem1: "list_all2 P xs ys \<Longrightarrow> x \<in> set xs \<Longrightarrow> \<exists>y \<in> set ys. P x y"
  by (induction xs ys rule: list_all2_induct) auto

end
