(* ===== verification/Rust_Str.thy ===== *)
theory Rust_Str
  imports Prelude
begin

text \<open>
  The parts of Rust's standard library on \<^verbatim>\<open>u8\<close>, \<^verbatim>\<open>[u8]\<close> and \<^verbatim>\<open>str\<close> that the
  program uses: ASCII classes and case folding, substring search, splitting and trimming,
  UTF-8 validation (as the automaton over the table of well-formed sequences), lossy decoding
  and the parsing and printing of unsigned numbers. Strings are byte strings; an index is a
  byte index, as in Rust.
\<close>

section \<open>ASCII\<close>

abbreviation byte_val :: "char \<Rightarrow> nat" where
  "byte_val c \<equiv> of_char c"

definition is_ascii_digit :: "char \<Rightarrow> bool" where
  "is_ascii_digit c \<longleftrightarrow> 48 \<le> byte_val c \<and> byte_val c \<le> 57"

definition is_ascii_upper :: "char \<Rightarrow> bool" where
  "is_ascii_upper c \<longleftrightarrow> 65 \<le> byte_val c \<and> byte_val c \<le> 90"

definition is_ascii_lower :: "char \<Rightarrow> bool" where
  "is_ascii_lower c \<longleftrightarrow> 97 \<le> byte_val c \<and> byte_val c \<le> 122"

definition is_ascii_alphanumeric :: "char \<Rightarrow> bool" where
  "is_ascii_alphanumeric c \<longleftrightarrow> is_ascii_digit c \<or> is_ascii_upper c \<or> is_ascii_lower c"

text \<open>\<^verbatim>\<open>u8::is_ascii_whitespace\<close>: space, tab, line feed, form feed, carriage return.\<close>

definition is_ascii_whitespace :: "char \<Rightarrow> bool" where
  "is_ascii_whitespace c \<longleftrightarrow> byte_val c \<in> {9, 10, 12, 13, 32}"

definition to_ascii_upper :: "char \<Rightarrow> char" where
  "to_ascii_upper c = (if is_ascii_lower c then char_of (byte_val c - 32) else c)"

definition to_ascii_lower :: "char \<Rightarrow> char" where
  "to_ascii_lower c = (if is_ascii_upper c then char_of (byte_val c + 32) else c)"

definition to_ascii_uppercase :: "bytes \<Rightarrow> bytes" where
  "to_ascii_uppercase = map to_ascii_upper"

definition to_ascii_lowercase :: "bytes \<Rightarrow> bytes" where
  "to_ascii_lowercase = map to_ascii_lower"

definition eq_ignore_ascii_case :: "bytes \<Rightarrow> bytes \<Rightarrow> bool" where
  "eq_ignore_ascii_case a b \<longleftrightarrow> to_ascii_lowercase a = to_ascii_lowercase b"

abbreviation CR :: char where "CR \<equiv> CHR 0x0D"
abbreviation LF :: char where "LF \<equiv> CHR 0x0A"
abbreviation CRLF :: bytes where "CRLF \<equiv> [CR, LF]"

section \<open>Substring search\<close>

text \<open>\<^verbatim>\<open>hay.find(pat)\<close>: the byte index of the first occurrence.\<close>

fun str_find :: "bytes \<Rightarrow> bytes \<Rightarrow> nat option" where
  "str_find pat [] = (if pat = [] then Some 0 else None)"
| "str_find pat (c # cs) =
     (if prefix pat (c # cs) then Some 0 else map_option Suc (str_find pat cs))"

definition str_contains :: "bytes \<Rightarrow> bytes \<Rightarrow> bool" where
  "str_contains hay pat \<longleftrightarrow> str_find pat hay \<noteq> None"

definition starts_with :: "bytes \<Rightarrow> bytes \<Rightarrow> bool" where
  "starts_with s pat \<longleftrightarrow> prefix pat s"

definition ends_with :: "bytes \<Rightarrow> bytes \<Rightarrow> bool" where
  "ends_with s pat \<longleftrightarrow> suffix pat s"

definition strip_prefix :: "bytes \<Rightarrow> bytes \<Rightarrow> bytes option" where
  "strip_prefix pat s = (if prefix pat s then Some (drop (length pat) s) else None)"

lemma occurs_at_0: "occurs_at pat bs 0 \<longleftrightarrow> prefix pat bs"
  by (simp add: occurs_at_prefix)

lemma occurs_at_Suc: "occurs_at pat (c # cs) (Suc i) \<longleftrightarrow> occurs_at pat cs i"
  by (simp add: occurs_at_prefix)

lemma str_find_Some:
  "str_find pat bs = Some i \<longleftrightarrow> occurs_at pat bs i \<and> (\<forall>j<i. \<not> occurs_at pat bs j)"
proof (induction bs arbitrary: i)
  case Nil
  then show ?case
    by (auto simp: occurs_at_prefix)
next
  case (Cons c cs)
  show ?case
  proof (cases "prefix pat (c # cs)")
    case True
    then show ?thesis
      by (auto simp: occurs_at_0)
  next
    case False
    then have "\<not> occurs_at pat (c # cs) 0"
      by (simp add: occurs_at_0)
    then show ?thesis
      using False Cons.IH
      by (cases i) (auto simp: occurs_at_Suc less_Suc_eq_0_disj)
  qed
qed

lemma str_find_None: "str_find pat bs = None \<longleftrightarrow> (\<forall>i. \<not> occurs_at pat bs i)"
proof (induction bs)
  case Nil
  then show ?case
    by (auto simp: occurs_at_prefix)
next
  case (Cons c cs)
  have "(\<forall>i. \<not> occurs_at pat (c # cs) i) \<longleftrightarrow>
      \<not> occurs_at pat (c # cs) 0 \<and> (\<forall>i. \<not> occurs_at pat cs i)"
    by (metis occurs_at_Suc not0_implies_Suc)
  with Cons show ?case
    by (auto simp: occurs_at_0)
qed

lemma str_contains_iff: "str_contains hay pat \<longleftrightarrow> occurs_in pat hay"
  by (auto simp: str_contains_def str_find_None occurs_in_def dest: occurs_at_bound)

section \<open>UTF-8\<close>

text \<open>
  The table of well-formed sequences: for a lead byte, the ranges of the bytes that must
  follow it; \<^const>\<open>None\<close> for a byte that cannot lead.
\<close>

definition utf8_ranges :: "nat \<Rightarrow> (nat \<times> nat) list option" where
  "utf8_ranges b =
     (if b < 0x80 then Some []
      else if 0xC2 \<le> b \<and> b \<le> 0xDF then Some [(0x80, 0xBF)]
      else if b = 0xE0 then Some [(0xA0, 0xBF), (0x80, 0xBF)]
      else if b = 0xED then Some [(0x80, 0x9F), (0x80, 0xBF)]
      else if 0xE1 \<le> b \<and> b \<le> 0xEF then Some [(0x80, 0xBF), (0x80, 0xBF)]
      else if b = 0xF0 then Some [(0x90, 0xBF), (0x80, 0xBF), (0x80, 0xBF)]
      else if 0xF1 \<le> b \<and> b \<le> 0xF3 then Some [(0x80, 0xBF), (0x80, 0xBF), (0x80, 0xBF)]
      else if b = 0xF4 then Some [(0x80, 0x8F), (0x80, 0xBF), (0x80, 0xBF)]
      else None)"

text \<open>
  The validation automaton: a state is the list of ranges still expected; \<^term>\<open>[]\<close> is the
  boundary between two characters.
\<close>

fun utf8_run :: "(nat \<times> nat) list \<Rightarrow> bytes \<Rightarrow> (nat \<times> nat) list option" where
  "utf8_run st [] = Some st"
| "utf8_run [] (c # cs) =
     (case utf8_ranges (byte_val c) of None \<Rightarrow> None | Some st \<Rightarrow> utf8_run st cs)"
| "utf8_run ((lo, hi) # st) (c # cs) =
     (if lo \<le> byte_val c \<and> byte_val c \<le> hi then utf8_run st cs else None)"

text \<open>\<^verbatim>\<open>str::from_utf8(bs).is_ok()\<close>\<close>

definition utf8_valid :: "bytes \<Rightarrow> bool" where
  "utf8_valid bs \<longleftrightarrow> utf8_run [] bs = Some []"

definition is_continuation :: "char \<Rightarrow> bool" where
  "is_continuation c \<longleftrightarrow> 0x80 \<le> byte_val c \<and> byte_val c < 0xC0"

text \<open>\<^verbatim>\<open>str::is_char_boundary\<close>\<close>

definition is_char_boundary :: "bytes \<Rightarrow> nat \<Rightarrow> bool" where
  "is_char_boundary s i \<longleftrightarrow>
     i = 0 \<or> (if length s \<le> i then i = length s else \<not> is_continuation (s ! i))"

text \<open>\<^verbatim>\<open>str::get(i..j)\<close>: \<^const>\<open>None\<close> out of range or off a character boundary.\<close>

definition str_get :: "bytes \<Rightarrow> nat \<Rightarrow> nat \<Rightarrow> bytes option" where
  "str_get s i j =
     (if i \<le> j \<and> is_char_boundary s i \<and> is_char_boundary s j
      then Some (sub_bytes s i j) else None)"

lemma utf8_run_append:
  "utf8_run st (a @ b) = (case utf8_run st a of None \<Rightarrow> None | Some st' \<Rightarrow> utf8_run st' b)"
  by (induction st a rule: utf8_run.induct) (auto split: option.splits)

lemma utf8_valid_Nil [simp]: "utf8_valid []"
  by (simp add: utf8_valid_def)

lemma utf8_valid_append [intro]: "utf8_valid a \<Longrightarrow> utf8_valid b \<Longrightarrow> utf8_valid (a @ b)"
  by (simp add: utf8_valid_def utf8_run_append)

lemma utf8_valid_append_iff: "utf8_valid a \<Longrightarrow> utf8_valid (a @ b) \<longleftrightarrow> utf8_valid b"
  by (simp add: utf8_valid_def utf8_run_append)

lemma utf8_valid_concat: "(\<And>x. x \<in> set xs \<Longrightarrow> utf8_valid x) \<Longrightarrow> utf8_valid (concat xs)"
  by (induction xs) auto

lemma utf8_valid_ascii: "(\<And>c. c \<in> set s \<Longrightarrow> byte_val c < 0x80) \<Longrightarrow> utf8_valid s"
  by (induction s) (auto simp: utf8_valid_def utf8_ranges_def)

text \<open>Every range the automaton can be waiting for is a range of continuation bytes.\<close>

definition cont_ranges :: "(nat \<times> nat) list \<Rightarrow> bool" where
  "cont_ranges st \<longleftrightarrow> (\<forall>(lo, hi) \<in> set st. 0x80 \<le> lo \<and> hi < 0xC0)"

lemma cont_ranges_lead: "utf8_ranges b = Some st \<Longrightarrow> cont_ranges st"
  by (auto simp: utf8_ranges_def cont_ranges_def split: if_splits)

lemma cont_ranges_run: "cont_ranges st \<Longrightarrow> utf8_run st bs = Some st' \<Longrightarrow> cont_ranges st'"
proof (induction st bs rule: utf8_run.induct)
  case (2 c cs)
  then show ?case by (auto split: option.splits dest: cont_ranges_lead)
next
  case (3 lo hi st c cs)
  then show ?case by (auto simp: cont_ranges_def split: if_splits)
qed simp

lemma utf8_lead_not_continuation: "utf8_ranges (byte_val c) = Some st \<Longrightarrow> \<not> is_continuation c"
  by (auto simp: utf8_ranges_def is_continuation_def split: if_splits)

lemma utf8_run_boundary:
  assumes "cont_ranges st" and "utf8_run st (c # cs) \<noteq> None" and "\<not> is_continuation c"
  shows "st = []"
  using assms by (cases st) (auto simp: cont_ranges_def is_continuation_def split: if_splits)

text \<open>UTF-8 synchronises: a valid string inside a valid string starts and ends at boundaries.\<close>

lemma utf8_valid_split:
  assumes v: "utf8_valid (a @ c # cs)" and nc: "\<not> is_continuation c"
  shows "utf8_valid a" "utf8_valid (c # cs)"
proof -
  from v obtain st where st: "utf8_run [] a = Some st" and rest: "utf8_run st (c # cs) = Some []"
    by (auto simp: utf8_valid_def utf8_run_append split: option.splits)
  have "cont_ranges st"
    using st cont_ranges_run [of "[]"] by (simp add: cont_ranges_def)
  then have "st = []"
    using rest nc utf8_run_boundary [of st c cs] by simp
  with st rest show "utf8_valid a" "utf8_valid (c # cs)"
    by (simp_all add: utf8_valid_def)
qed

lemma utf8_valid_head:
  assumes "utf8_valid (c # cs)" shows "\<not> is_continuation c"
  using assms by (auto simp: utf8_valid_def split: option.splits dest: utf8_lead_not_continuation)

lemma utf8_valid_infix:
  assumes "utf8_valid (a @ b @ c)" and "utf8_valid b" and "b \<noteq> []"
  shows "utf8_valid a" "utf8_valid c"
proof -
  obtain d ds where b: "b = d # ds"
    using assms(3) by (cases b) auto
  then have "\<not> is_continuation d"
    using assms(2) utf8_valid_head by simp
  then have "utf8_valid a" "utf8_valid (b @ c)"
    using assms(1) b utf8_valid_split [of a d "ds @ c"] by simp_all
  then show "utf8_valid a" "utf8_valid c"
    using assms(2) by (simp_all add: utf8_valid_append_iff)
qed

lemma utf8_valid_at_boundary:
  assumes "utf8_valid s" and "is_char_boundary s i"
  shows "utf8_valid (take i s)" "utf8_valid (drop i s)"
proof -
  have "utf8_valid (take i s) \<and> utf8_valid (drop i s)"
  proof (cases "i = 0 \<or> length s \<le> i")
    case True
    then show ?thesis
      using assms by (auto simp: is_char_boundary_def)
  next
    case False
    then have s: "s = take i s @ s ! i # drop (Suc i) s" and d: "drop i s = s ! i # drop (Suc i) s"
      by (simp_all add: Cons_nth_drop_Suc)
    have "\<not> is_continuation (s ! i)"
      using False assms(2) by (simp add: is_char_boundary_def)
    then show ?thesis
      using assms(1) s d utf8_valid_split [of "take i s" "s ! i" "drop (Suc i) s"] by simp
  qed
  then show "utf8_valid (take i s)" "utf8_valid (drop i s)"
    by simp_all
qed

lemma str_get_valid:
  assumes "utf8_valid s" and "str_get s i j = Some t"
  shows "utf8_valid t"
proof -
  from assms(2) have ij: "i \<le> j" "is_char_boundary s i" "is_char_boundary s j" "t = sub_bytes s i j"
    by (auto simp: str_get_def split: if_splits)
  have "take j s = take i s @ t"
    using ij(1,4) by (metis le0 sub_bytes_append sub_bytes_from_zero)
  then show ?thesis
    using utf8_valid_at_boundary [OF assms(1) ij(2)] utf8_valid_at_boundary [OF assms(1) ij(3)]
    by (metis utf8_valid_append_iff)
qed

end
