(* ===== verification/Secrets_Crypto.thy ===== *)
theory Secrets_Crypto
  imports Rust_Str
begin

text \<open>
  The keyed primitives of \<^verbatim>\<open>src/secrets/\<close>: digests and fingerprints
  (\<^verbatim>\<open>fingerprint.rs\<close>), labels (\<^verbatim>\<open>SecretLabel\<close> in \<^verbatim>\<open>registry.rs\<close>), placeholders
  (\<^verbatim>\<open>placeholder.rs\<close>) and encrypted capsules (\<^verbatim>\<open>capsule.rs\<close>).

  HMAC-SHA256, ChaCha20-Poly1305, the operating system's random source and the \<^verbatim>\<open>hex\<close>
  crate are not part of the repository. They are the fields of the record \<open>crypto\<close>, an
  argument of every definition that uses them; what is documented of them is stated by the
  predicates \<open>hmac_total\<close>, \<open>aead_correct\<close> and \<open>hex_lowercase\<close>.
\<close>

section \<open>Third-party primitives\<close>

text \<open>
  \<open>hmac_sha256 k m\<close> is \<^verbatim>\<open>new_from_slice(k)\<close>, \<^verbatim>\<open>update(m)\<close>, \<^verbatim>\<open>finalize()\<close>,
  \<^const>\<open>None\<close> when the key is refused; several updates are one on the concatenation.
  \<open>chacha_seal key nonce plain\<close> and \<open>chacha_open key nonce cipher\<close> are the AEAD's
  \<^verbatim>\<open>encrypt\<close> and \<^verbatim>\<open>decrypt\<close>. \<open>os_rng n\<close> is what the \<open>n\<close>-th draw from
  \<^verbatim>\<open>OsRng\<close> returns.
\<close>

record crypto =
  hmac_sha256 :: "bytes \<Rightarrow> bytes \<Rightarrow> bytes option"
  chacha_seal :: "bytes \<Rightarrow> bytes \<Rightarrow> bytes \<Rightarrow> bytes option"
  chacha_open :: "bytes \<Rightarrow> bytes \<Rightarrow> bytes \<Rightarrow> bytes option"
  os_rng :: "nat \<Rightarrow> bytes"
  hex_encode :: "bytes \<Rightarrow> bytes"

text \<open>HMAC takes a key of any length.\<close>

definition hmac_total :: "crypto \<Rightarrow> bool" where
  "hmac_total c \<longleftrightarrow> (\<forall>k m. hmac_sha256 c k m \<noteq> None)"

lemma hmac_totalE: "hmac_total c \<Longrightarrow> \<exists>d. hmac_sha256 c k m = Some d"
  unfolding hmac_total_def by blast

text \<open>What was sealed opens to the same plaintext.\<close>

definition aead_correct :: "crypto \<Rightarrow> bool" where
  "aead_correct c \<longleftrightarrow>
     (\<forall>k n m ct. chacha_seal c k n m = Some ct \<longrightarrow> chacha_open c k n ct = Some m)"

definition hex_digits :: bytes where
  "hex_digits = ''0123456789abcdef''"

text \<open>\<^verbatim>\<open>hex::encode\<close> writes lowercase hexadecimal digits.\<close>

definition hex_lowercase :: "crypto \<Rightarrow> bool" where
  "hex_lowercase c \<longleftrightarrow> (\<forall>bs. set (hex_encode c bs) \<subseteq> set hex_digits)"

section \<open>Little-endian integers\<close>

fun le_digits :: "nat \<Rightarrow> nat \<Rightarrow> bytes" where
  "le_digits 0 n = []"
| "le_digits (Suc k) n = char_of (n mod 256) # le_digits k (n div 256)"

fun le_value :: "bytes \<Rightarrow> nat" where
  "le_value [] = 0"
| "le_value (c # cs) = byte_val c + 256 * le_value cs"

text \<open>\<^verbatim>\<open>u64::to_le_bytes\<close> and \<^verbatim>\<open>u64::from_le_bytes\<close>\<close>

definition to_le_bytes :: "u64 \<Rightarrow> bytes" where
  "to_le_bytes w = le_digits 8 (unat w)"

definition from_le_bytes :: "bytes \<Rightarrow> u64" where
  "from_le_bytes bs = word_of_nat (le_value bs)"

lemma length_le_digits [simp]: "length (le_digits k n) = k"
  by (induction k arbitrary: n) auto

lemma le_value_digits: "le_value (le_digits k n) = n mod 256 ^ k"
proof (induction k arbitrary: n)
  case (Suc k)
  have "n mod (256 * 256 ^ k) = 256 * (n div 256 mod 256 ^ k) + n mod 256"
    by (rule mod_mult2_eq)
  with Suc show ?case by simp
qed simp

lemma from_to_le_bytes [simp]: "from_le_bytes (to_le_bytes w) = w"
proof -
  have "unat w < 2 ^ LENGTH(64)"
    by (rule unsigned_less)
  then have "unat w < 256 ^ 8"
    by simp
  then show ?thesis
    by (simp add: from_le_bytes_def to_le_bytes_def le_value_digits)
qed

lemma to_le_bytes_inj: "to_le_bytes v = to_le_bytes w \<longleftrightarrow> v = w"
  by (metis from_to_le_bytes)

lemma length_to_le_bytes [simp]: "length (to_le_bytes w) = 8"
  by (simp add: to_le_bytes_def)

section \<open>Digests and fingerprints (\<open>src/secrets/fingerprint.rs\<close>)\<close>

definition keyed_digest :: "crypto \<Rightarrow> bytes \<Rightarrow> bytes \<Rightarrow> crebro_error + bytes" where
  "keyed_digest c key bs = ok_or (Secret ''invalid HMAC key'') (hmac_sha256 c key bs)"

definition keyed_fingerprint :: "crypto \<Rightarrow> bytes \<Rightarrow> bytes \<Rightarrow> crebro_error + u64" where
  "keyed_fingerprint c key bs =
     and_then (keyed_digest c key bs) (\<lambda>d. Inr (from_le_bytes (take 8 d)))"

definition hmac_cache_key :: "crypto \<Rightarrow> bytes \<Rightarrow> u64 \<Rightarrow> bytes \<Rightarrow> crebro_error + bytes" where
  "hmac_cache_key c key version bs =
     ok_or (Secret ''invalid cache HMAC key'')
       (hmac_sha256 c key (to_le_bytes version @ bs))"

lemma keyed_digest_total: "hmac_total c \<Longrightarrow> \<exists>d. keyed_digest c key bs = Inr d"
  using hmac_totalE [of c key bs] by (auto simp: keyed_digest_def)

lemma keyed_fingerprint_total: "hmac_total c \<Longrightarrow> \<exists>w. keyed_fingerprint c key bs = Inr w"
  using keyed_digest_total [of c key bs] by (auto simp: keyed_fingerprint_def)

lemma hmac_cache_key_total: "hmac_total c \<Longrightarrow> \<exists>k. hmac_cache_key c key v bs = Inr k"
  using hmac_totalE [of c key "to_le_bytes v @ bs"] by (auto simp: hmac_cache_key_def)

section \<open>Labels (\<open>SecretLabel\<close> in \<open>src/secrets/registry.rs\<close>)\<close>

definition label_char :: "char \<Rightarrow> bool" where
  "label_char ch \<longleftrightarrow> is_ascii_alphanumeric ch \<or> ch = CHR ''_'' \<or> ch = CHR ''-''"

text \<open>
  \<^verbatim>\<open>SecretLabel::new\<close> maps over characters: of a multi-byte character its lead byte becomes
  the underscore and its continuation bytes disappear.
\<close>

definition secret_label :: "bytes \<Rightarrow> bytes" where
  "secret_label label =
     (let cleaned = map (\<lambda>ch. if label_char ch then ch else CHR ''_'')
                        (filter (\<lambda>ch. \<not> is_continuation ch) label)
      in if cleaned = [] then ''SECRET'' else cleaned)"

lemma label_char_literals [simp]:
  "label_char (CHR ''_'')" "label_char (CHR ''-'')"
  "\<not> label_char (CHR ''{'')" "\<not> label_char (CHR ''}'')" "\<not> label_char (CHR '':'')"
  by (simp_all add: label_char_def is_ascii_alphanumeric_def is_ascii_digit_def
      is_ascii_upper_def is_ascii_lower_def)

text \<open>What \<^verbatim>\<open>SecretLabel::new\<close> guarantees of every value of type \<^verbatim>\<open>SecretLabel\<close>.\<close>

definition label_ok :: "bytes \<Rightarrow> bool" where
  "label_ok l \<longleftrightarrow> l \<noteq> [] \<and> list_all label_char l"

lemma secret_label_chars: "list_all label_char (secret_label s)"
proof -
  have "list_all label_char ''SECRET''"
    by (simp add: label_char_def is_ascii_alphanumeric_def is_ascii_upper_def)
  then show ?thesis
    by (auto simp: secret_label_def Let_def list_all_iff)
qed

lemma secret_label_ne: "secret_label s \<noteq> []"
  by (simp add: secret_label_def Let_def)

lemma secret_label_ok [simp, intro]: "label_ok (secret_label s)"
  by (simp add: label_ok_def secret_label_chars secret_label_ne)

lemma secret_label_idem: "secret_label (secret_label s) = secret_label s"
proof -
  have l: "list_all label_char (secret_label s)"
    by (rule secret_label_chars)
  have nc: "\<not> is_continuation ch" if "label_char ch" for ch
    using that
    by (auto simp: label_char_def is_continuation_def is_ascii_alphanumeric_def
        is_ascii_digit_def is_ascii_upper_def is_ascii_lower_def)
  have "filter (\<lambda>ch. \<not> is_continuation ch) (secret_label s) = secret_label s"
    using l nc by (auto simp: list_all_iff intro: filter_True)
  moreover have "map (\<lambda>ch. if label_char ch then ch else CHR ''_'') (secret_label s) = secret_label s"
    using l by (auto simp: list_all_iff intro: map_idI)
  ultimately show ?thesis
    using secret_label_ne [of s] by (subst secret_label_def) (simp add: Let_def)
qed

section \<open>Placeholders (\<open>src/secrets/placeholder.rs\<close>)\<close>

definition placeholder_new ::
  "crypto \<Rightarrow> bytes \<Rightarrow> bytes \<Rightarrow> bytes \<Rightarrow> crebro_error + bytes" where
  "placeholder_new c label digest key =
     and_then (ok_or (Secret ''invalid placeholder HMAC key'') (hmac_sha256 c key (label @ digest)))
       (\<lambda>out. Inr (''{{CREBRO_SECRET:v1:'' @ label @ '':s_'' @ hex_encode c (take 6 out) @ ''}}''))"

lemma placeholder_new_total: "hmac_total c \<Longrightarrow> \<exists>p. placeholder_new c label d key = Inr p"
  using hmac_totalE [of c key "label @ d"] by (auto simp: placeholder_new_def)

text \<open>
  The shape every placeholder has: two opening braces, a body free of braces, two closing
  braces. Two distinct occurrences of strings of this shape never overlap.
\<close>

definition brace_shape :: "bytes \<Rightarrow> bool" where
  "brace_shape p \<longleftrightarrow>
     (\<exists>body. p = ''{{'' @ body @ ''}}'' \<and> CHR ''{'' \<notin> set body \<and> CHR ''}'' \<notin> set body)"

lemma brace_length: "brace_shape p \<Longrightarrow> 4 \<le> length p"
  by (auto simp: brace_shape_def)

lemma brace_nth_open: "brace_shape p \<Longrightarrow> k < length p \<Longrightarrow> p ! k = CHR ''{'' \<longleftrightarrow> k < 2"
  by (auto simp: brace_shape_def nth_append nth_Cons' in_set_conv_nth split: if_splits)

lemma brace_nth_close:
  "brace_shape p \<Longrightarrow> k < length p \<Longrightarrow> p ! k = CHR ''}'' \<longleftrightarrow> length p \<le> k + 2"
  by (auto simp: brace_shape_def nth_append nth_Cons' in_set_conv_nth split: if_splits)

lemma brace_apart:
  assumes p: "brace_shape p" "occurs_at p bs i" and q: "brace_shape q" "occurs_at q bs j"
    and ij: "i < j"
  shows "i + length p \<le> j"
proof (rule ccontr)
  assume "\<not> i + length p \<le> j"
  then have k: "j - i < length p"
    using ij by arith
  have q2: "2 < length q" "2 < length p"
    using brace_length p q by force+
  have "p ! (j - i) = bs ! j"
    using occurs_at_nth [OF p(2) k] ij by simp
  also have "bs ! j = CHR ''{''"
    using occurs_at_nth [OF q(2), of 0] brace_nth_open [OF q(1), of 0] q2(1) by force
  finally have "j = Suc i"
    using brace_nth_open [OF p(1) k] ij by simp
  then have "p ! 2 = bs ! (j + 1)"
    using occurs_at_nth [OF p(2) q2(2)] by simp
  also have "bs ! (j + 1) = CHR ''{''"
    using occurs_at_nth [OF q(2), of 1] brace_nth_open [OF q(1), of 1] q2 by simp
  finally show False
    using brace_nth_open [OF p(1) q2(2)] by simp
qed

lemma brace_same_start_le:
  assumes p: "brace_shape p" "occurs_at p bs i" and q: "brace_shape q" "occurs_at q bs i"
  shows "length q \<le> length p"
proof (rule ccontr)
  assume "\<not> length q \<le> length p"
  then have lt: "length p < length q"
    by simp
  have p4: "4 \<le> length p"
    using p brace_length by simp
  have "q ! (length p - 2) = bs ! (i + (length p - 2))"
    using occurs_at_nth [OF q(2)] lt by simp
  also have "\<dots> = p ! (length p - 2)"
    using occurs_at_nth [OF p(2), of "length p - 2"] p4 by simp
  also have "\<dots> = CHR ''}''"
    using brace_nth_close [OF p(1), of "length p - 2"] p4 by simp
  finally show False
    using brace_nth_close [OF q(1), of "length p - 2"] lt p4 by simp
qed

lemma brace_same_start:
  assumes p: "brace_shape p" "occurs_at p bs i" and q: "brace_shape q" "occurs_at q bs i"
  shows "p = q"
proof -
  have "length p = length q"
    using brace_same_start_le [OF p q] brace_same_start_le [OF q p] by simp
  then show ?thesis
    using p(2) q(2) by (simp add: occurs_at_def)
qed

lemma placeholder_shape:
  assumes "placeholder_new c l d key = Inr p" and "label_ok l" and "hex_lowercase c"
  shows "brace_shape p"
proof -
  obtain out where
    p: "p = ''{{'' @ (''CREBRO_SECRET:v1:'' @ l @ '':s_'' @ hex_encode c (take 6 out)) @ ''}}''"
    using assms(1) by (auto simp: placeholder_new_def)
  have lab: "CHR ''{'' \<notin> set l" "CHR ''}'' \<notin> set l"
    using assms(2) by (auto simp: label_ok_def list_all_iff)
  have hex: "CHR ''{'' \<notin> set (hex_encode c (take 6 out))" "CHR ''}'' \<notin> set (hex_encode c (take 6 out))"
    using assms(3) by (auto simp: hex_lowercase_def hex_digits_def)
  show ?thesis
    unfolding brace_shape_def p
    by (rule exI, rule conjI, rule refl) (use lab hex in simp)
qed

section \<open>Capsules (\<open>src/secrets/capsule.rs\<close>)\<close>

record session_keys =
  k_master :: bytes
  k_match :: bytes
  k_cache :: bytes
  k_placeholder :: bytes
  k_prefilter :: bytes

text \<open>\<^verbatim>\<open>SessionKeys::generate\<close>: five draws in the order of the source.\<close>

definition session_keys_generate :: "crypto \<Rightarrow> nat \<Rightarrow> session_keys \<times> nat" where
  "session_keys_generate c n =
     (\<lparr>k_master = os_rng c n, k_match = os_rng c (n + 1), k_cache = os_rng c (n + 2),
       k_placeholder = os_rng c (n + 3), k_prefilter = os_rng c (n + 4)\<rparr>, n + 5)"

record secret_capsule =
  cap_nonce :: bytes
  cap_ciphertext :: bytes

text \<open>\<^verbatim>\<open>SecretCapsule::encrypt\<close>; the nonce is the draw at position \<open>n\<close>.\<close>

definition capsule_encrypt ::
  "crypto \<Rightarrow> bytes \<Rightarrow> bytes \<Rightarrow> nat \<Rightarrow> crebro_error + secret_capsule" where
  "capsule_encrypt c secret key n =
     and_then (ok_or (Secret ''secret encryption failed'') (chacha_seal c key (os_rng c n) secret))
       (\<lambda>ct. Inr \<lparr>cap_nonce = os_rng c n, cap_ciphertext = ct\<rparr>)"

definition capsule_decrypt ::
  "crypto \<Rightarrow> secret_capsule \<Rightarrow> bytes \<Rightarrow> crebro_error + bytes" where
  "capsule_decrypt c cap key =
     ok_or (Secret ''secret decryption failed'')
       (chacha_open c key (cap_nonce cap) (cap_ciphertext cap))"

text \<open>\<^verbatim>\<open>SecretCapsule::restore_to_vec\<close>\<close>

definition capsule_restore_to_vec ::
  "crypto \<Rightarrow> secret_capsule \<Rightarrow> bytes \<Rightarrow> bytes \<Rightarrow> crebro_error + bytes" where
  "capsule_restore_to_vec c cap key out =
     and_then (capsule_decrypt c cap key) (\<lambda>plain. Inr (out @ plain))"

lemma capsule_round_trip:
  "aead_correct c \<Longrightarrow> capsule_encrypt c secret key n = Inr cap \<Longrightarrow>
   capsule_decrypt c cap key = Inr secret"
  by (auto simp: capsule_encrypt_def capsule_decrypt_def aead_correct_def)

end
