(* ===== verification/Registry.thy ===== *)
theory Registry
  imports Secrets_Crypto "HOL-Library.AList"
begin

text \<open>
  \<^verbatim>\<open>src/secrets/registry.rs\<close>: the in-memory secret registry. The record \<open>registry\<close> has the
  fields of \<^verbatim>\<open>SecretRegistry\<close>; \<open>reg_draws\<close> is the position in the operating system's random
  stream, from which \<^verbatim>\<open>SecretCapsule::encrypt\<close> takes its nonces. A \<^verbatim>\<open>HashMap\<close> that is only
  looked up is a map; \<^verbatim>\<open>by_placeholder\<close>, which is also iterated, is an association list.
\<close>

section \<open>State\<close>

record secret_entry =
  e_id :: u64
  e_label :: bytes
  e_len :: nat
  e_digest :: bytes
  e_prefilter :: u64
  e_placeholder :: bytes
  e_capsule :: secret_capsule

record registry =
  reg_keys :: session_keys
  reg_entries :: "secret_entry list"
  reg_index :: "nat \<times> u64 \<Rightarrow> u64 list option"
  reg_placeholders :: "(bytes \<times> u64) list"
  reg_version :: u64
  reg_draws :: nat

definition registry_new :: "session_keys \<Rightarrow> nat \<Rightarrow> registry" where
  "registry_new keys draws =
     \<lparr>reg_keys = keys, reg_entries = [], reg_index = Map.empty, reg_placeholders = [],
      reg_version = 0, reg_draws = draws\<rparr>"

definition with_generated_keys :: "crypto \<Rightarrow> nat \<Rightarrow> registry" where
  "with_generated_keys c n = (let (keys, n') = session_keys_generate c n in registry_new keys n')"

text \<open>\<^verbatim>\<open>u64::saturating_add(1)\<close>\<close>

definition saturating_inc :: "u64 \<Rightarrow> u64" where
  "saturating_inc w = (if w = - 1 then w else w + 1)"

section \<open>Registration\<close>

definition push_entry :: "secret_entry \<Rightarrow> registry \<Rightarrow> registry" where
  "push_entry e r =
     (let key = (e_len e, e_prefilter e);
          ids = (case reg_index r key of None \<Rightarrow> [] | Some ids \<Rightarrow> ids)
      in r\<lparr>reg_index := (reg_index r)(key \<mapsto> ids @ [e_id e]),
           reg_placeholders := AList.update (e_placeholder e) (e_id e) (reg_placeholders r),
           reg_entries := reg_entries r @ [e],
           reg_version := saturating_inc (reg_version r)\<rparr>)"

definition register_new ::
  "crypto \<Rightarrow> bytes \<Rightarrow> bytes \<Rightarrow> bytes \<Rightarrow> registry \<Rightarrow> (crebro_error + u64) \<times> registry" where
  "register_new c label secret digest r =
     and_then_st (keyed_fingerprint c (k_prefilter (reg_keys r)) secret, r) (\<lambda>pf r.
     and_then_st (placeholder_new c label digest (k_placeholder (reg_keys r)), r) (\<lambda>ph r.
     and_then_st (capsule_encrypt c secret (k_master (reg_keys r)) (reg_draws r),
                  r\<lparr>reg_draws := Suc (reg_draws r)\<rparr>) (\<lambda>cap r.
       let ident = word_of_nat (length (reg_entries r) + 1);
           e = \<lparr>e_id = ident, e_label = label, e_len = length secret, e_digest = digest,
                e_prefilter = pf, e_placeholder = ph, e_capsule = cap\<rparr>
       in (Inr ident, push_entry e r))))"

definition ingest ::
  "crypto \<Rightarrow> bytes \<Rightarrow> bytes \<Rightarrow> registry \<Rightarrow> (crebro_error + u64) \<times> registry" where
  "ingest c label secret r =
     (if secret = [] then (Inl (Secret ''empty secret cannot be registered''), r)
      else
        and_then_st (keyed_digest c (k_match (reg_keys r)) secret, r) (\<lambda>digest r.
          case List.find (\<lambda>e. e_digest e = digest \<and> e_len e = length secret) (reg_entries r) of
            Some e \<Rightarrow> (Inr (e_id e), r)
          | None \<Rightarrow> register_new c label secret digest r))"

section \<open>Queries\<close>

definition registry_is_empty :: "registry \<Rightarrow> bool" where
  "registry_is_empty r \<longleftrightarrow> reg_entries r = []"

definition min_secret_len :: "registry \<Rightarrow> nat option" where
  "min_secret_len r =
     (if reg_entries r = [] then None else Some (Min (set (map e_len (reg_entries r)))))"

definition max_secret_len :: "registry \<Rightarrow> nat" where
  "max_secret_len r =
     (if reg_entries r = [] then 0 else Max (set (map e_len (reg_entries r))))"

definition max_placeholder_len :: "registry \<Rightarrow> nat" where
  "max_placeholder_len r =
     (if reg_entries r = [] then 0
      else Max (set (map (\<lambda>e. length (e_placeholder e)) (reg_entries r))))"

definition registry_lengths :: "registry \<Rightarrow> nat list" where
  "registry_lengths r = remdups_adj (sort (map e_len (reg_entries r)))"

text \<open>\<^verbatim>\<open>id.0.checked_sub(1)? as usize\<close>, then \<^verbatim>\<open>entries.get(index)\<close>.\<close>

definition entry_of :: "registry \<Rightarrow> u64 \<Rightarrow> secret_entry option" where
  "entry_of r ident =
     (if ident = 0 then None
      else let index = unat (ident - 1)
           in if index < length (reg_entries r) then Some (reg_entries r ! index) else None)"

definition candidates :: "registry \<Rightarrow> nat \<Rightarrow> u64 \<Rightarrow> secret_entry list" where
  "candidates r len prefilter =
     (case reg_index r (len, prefilter) of
        None \<Rightarrow> []
      | Some ids \<Rightarrow> List.map_filter (entry_of r) ids)"

definition placeholder_for :: "registry \<Rightarrow> u64 \<Rightarrow> bytes option" where
  "placeholder_for r ident = map_option e_placeholder (entry_of r ident)"

definition stats_identity_for :: "registry \<Rightarrow> u64 \<Rightarrow> (bytes \<times> bytes) option" where
  "stats_identity_for r ident = map_option (\<lambda>e. (e_placeholder e, e_label e)) (entry_of r ident)"

definition verify_window :: "crypto \<Rightarrow> registry \<Rightarrow> secret_entry \<Rightarrow> bytes \<Rightarrow> crebro_error + bool" where
  "verify_window c r e window =
     and_then (keyed_digest c (k_match (reg_keys r)) window) (\<lambda>d. Inr (d = e_digest e))"

definition prefilter_window :: "crypto \<Rightarrow> registry \<Rightarrow> bytes \<Rightarrow> crebro_error + u64" where
  "prefilter_window c r window = keyed_fingerprint c (k_prefilter (reg_keys r)) window"

definition registry_cache_key :: "crypto \<Rightarrow> registry \<Rightarrow> bytes \<Rightarrow> crebro_error + bytes" where
  "registry_cache_key c r bs = hmac_cache_key c (k_cache (reg_keys r)) (reg_version r) bs"

definition restore_to_vec :: "crypto \<Rightarrow> registry \<Rightarrow> u64 \<Rightarrow> bytes \<Rightarrow> crebro_error + bytes" where
  "restore_to_vec c r ident out =
     and_then (ok_or (Restore ''unknown secret id'') (entry_of r ident))
       (\<lambda>e. capsule_restore_to_vec c (e_capsule e) (k_master (reg_keys r)) out)"

section \<open>Well-formed registries\<close>

text \<open>
  An entry is well formed when its capsule opens to a non-empty secret from which every other
  field was computed.
\<close>

definition secret_of :: "crypto \<Rightarrow> registry \<Rightarrow> secret_entry \<Rightarrow> bytes option" where
  "secret_of c r e =
     chacha_open c (k_master (reg_keys r)) (cap_nonce (e_capsule e)) (cap_ciphertext (e_capsule e))"

definition entry_wf :: "crypto \<Rightarrow> session_keys \<Rightarrow> secret_entry \<Rightarrow> bool" where
  "entry_wf c keys e \<longleftrightarrow>
     (case chacha_open c (k_master keys) (cap_nonce (e_capsule e)) (cap_ciphertext (e_capsule e)) of
        None \<Rightarrow> False
      | Some s \<Rightarrow>
          s \<noteq> [] \<and> e_len e = length s \<and> label_ok (e_label e) \<and>
          keyed_digest c (k_match keys) s = Inr (e_digest e) \<and>
          keyed_fingerprint c (k_prefilter keys) s = Inr (e_prefilter e) \<and>
          placeholder_new c (e_label e) (e_digest e) (k_placeholder keys) = Inr (e_placeholder e))"

definition ids_for :: "secret_entry list \<Rightarrow> nat \<times> u64 \<Rightarrow> u64 list" where
  "ids_for es key = map e_id (filter (\<lambda>e. (e_len e, e_prefilter e) = key) es)"

definition index_of :: "secret_entry list \<Rightarrow> nat \<times> u64 \<Rightarrow> u64 list option" where
  "index_of es key = (if ids_for es key = [] then None else Some (ids_for es key))"

text \<open>
  The invariant of the registry: identifiers number the entries from 1, the version counts
  them, every entry is well formed and no two hold the same digest at the same length, and
  both indexes agree with the entries.
\<close>

definition registry_wf :: "crypto \<Rightarrow> registry \<Rightarrow> bool" where
  "registry_wf c r \<longleftrightarrow>
     length (reg_entries r) < 2 ^ 64 \<and>
     map e_id (reg_entries r) = map (\<lambda>i. word_of_nat (Suc i)) [0..<length (reg_entries r)] \<and>
     reg_version r = word_of_nat (length (reg_entries r)) \<and>
     list_all (entry_wf c (reg_keys r)) (reg_entries r) \<and>
     distinct (map (\<lambda>e. (e_digest e, e_len e)) (reg_entries r)) \<and>
     reg_index r = index_of (reg_entries r) \<and>
     distinct (map fst (reg_placeholders r)) \<and>
     map_of (reg_placeholders r) = map_of (map (\<lambda>e. (e_placeholder e, e_id e)) (rev (reg_entries r)))"

text \<open>\<open>r'\<close> holds every entry of \<open>r\<close> under the same keys, in front of what was added.\<close>

definition registry_extends :: "registry \<Rightarrow> registry \<Rightarrow> bool" where
  "registry_extends r r' \<longleftrightarrow>
     reg_keys r' = reg_keys r \<and> prefix (reg_entries r) (reg_entries r')"

text \<open>The registered secrets, in the order of registration.\<close>

definition secrets_of :: "crypto \<Rightarrow> registry \<Rightarrow> bytes list" where
  "secrets_of c r = List.map_filter (secret_of c r) (reg_entries r)"

section \<open>Identifiers and lookups\<close>

lemma unat_id: "i < 2 ^ 64 - 1 \<Longrightarrow> unat (word_of_nat (Suc i) :: u64) = Suc i"
  by (simp add: unat_of_nat take_bit_nat_eq_self del: of_nat_Suc)

lemma entry_of_nth:
  assumes "registry_wf c r" and "i < length (reg_entries r)"
  shows "entry_of r (word_of_nat (Suc i)) = Some (reg_entries r ! i)"
proof -
  have i: "i < 2 ^ 64 - 1"
    using assms by (simp add: registry_wf_def)
  then have ne: "(word_of_nat (Suc i) :: u64) \<noteq> 0"
    using unat_id [OF i] by (metis nat.simps(3) unat_0)
  have "(word_of_nat (Suc i) :: u64) - 1 = word_of_nat i"
    by simp
  moreover have "unat (word_of_nat i :: u64) = i"
    using i by (simp add: unat_of_nat take_bit_nat_eq_self)
  ultimately show ?thesis
    using assms(2) ne by (simp add: entry_of_def Let_def del: of_nat_Suc)
qed

lemma entry_id_nth:
  assumes "registry_wf c r" and "i < length (reg_entries r)"
  shows "e_id (reg_entries r ! i) = word_of_nat (Suc i)"
proof -
  have "map e_id (reg_entries r) ! i = map (\<lambda>i. word_of_nat (Suc i)) [0..<length (reg_entries r)] ! i"
    using assms(1) by (simp add: registry_wf_def)
  then show ?thesis
    using assms(2) by simp
qed

lemma entry_of_id: "registry_wf c r \<Longrightarrow> e \<in> set (reg_entries r) \<Longrightarrow> entry_of r (e_id e) = Some e"
  by (auto simp: in_set_conv_nth entry_id_nth entry_of_nth simp del: of_nat_Suc)

lemma entry_of_SomeD:
  assumes "registry_wf c r" and "entry_of r ident = Some e"
  shows "e \<in> set (reg_entries r)" "e_id e = ident"
proof -
  define i where "i = unat (ident - 1)"
  have i: "ident \<noteq> 0" "i < length (reg_entries r)" "e = reg_entries r ! i"
    using assms(2) by (auto simp: entry_of_def Let_def i_def split: if_splits)
  then show "e \<in> set (reg_entries r)"
    by simp
  have "word_of_nat (Suc i) = ident"
    by (simp add: i_def)
  then show "e_id e = ident"
    using entry_id_nth [OF assms(1) i(2)] i(3) by simp
qed

lemma candidates_eq:
  assumes "registry_wf c r"
  shows "candidates r len pf =
    filter (\<lambda>e. e_len e = len \<and> e_prefilter e = pf) (reg_entries r)"
proof -
  have "map (entry_of r) (map e_id es) = map Some es" if "set es \<subseteq> set (reg_entries r)" for es
    using that entry_of_id [OF assms] by (induction es) auto
  then have mf: "List.map_filter (entry_of r) (map e_id es) = es" if "set es \<subseteq> set (reg_entries r)" for es
    using that entry_of_id [OF assms] by (induction es) (auto simp: map_filter_simps)
  have "reg_index r = index_of (reg_entries r)"
    using assms by (simp add: registry_wf_def)
  then show ?thesis
    using mf [of "filter (\<lambda>e. e_len e = len \<and> e_prefilter e = pf) (reg_entries r)"]
    by (auto simp: candidates_def index_of_def ids_for_def map_filter_simps)
qed

lemma entry_wfD:
  assumes "registry_wf c r" and "e \<in> set (reg_entries r)"
  obtains s where "secret_of c r e = Some s" "s \<noteq> []" "e_len e = length s"
    "keyed_digest c (k_match (reg_keys r)) s = Inr (e_digest e)"
    "prefilter_window c r s = Inr (e_prefilter e)"
    "placeholder_new c (e_label e) (e_digest e) (k_placeholder (reg_keys r)) = Inr (e_placeholder e)"
    "label_ok (e_label e)"
proof -
  have "entry_wf c (reg_keys r) e"
    using assms by (auto simp: registry_wf_def list_all_iff)
  then show ?thesis
    using that by (auto simp: entry_wf_def secret_of_def prefilter_window_def split: option.splits)
qed

lemma secrets_of_iff:
  "s \<in> set (secrets_of c r) \<longleftrightarrow> (\<exists>e \<in> set (reg_entries r). secret_of c r e = Some s)"
  by (force simp: secrets_of_def map_filter_def)

lemma secrets_of_nonempty: "registry_wf c r \<Longrightarrow> s \<in> set (secrets_of c r) \<Longrightarrow> s \<noteq> []"
  by (auto simp: secrets_of_iff elim!: entry_wfD)

text \<open>Restoring an identifier appends the secret its capsule holds.\<close>

lemma restore_to_vec_eq:
  assumes "entry_of r ident = Some e" and "secret_of c r e = Some s"
  shows "restore_to_vec c r ident out = Inr (out @ s)"
  using assms
  by (simp add: restore_to_vec_def capsule_restore_to_vec_def capsule_decrypt_def secret_of_def)

section \<open>Registration keeps the registry well formed\<close>

lemma registry_wf_new: "registry_wf c (registry_new keys n)"
  by (auto simp: registry_wf_def registry_new_def index_of_def ids_for_def)

lemma registry_extends_refl [simp, intro]: "registry_extends r r"
  by (simp add: registry_extends_def)

lemma registry_extends_trans [trans]:
  "registry_extends r s \<Longrightarrow> registry_extends s t \<Longrightarrow> registry_extends r t"
  by (auto simp: registry_extends_def intro: prefix_order.trans)

lemma ids_for_snoc:
  "ids_for (es @ [e]) key = ids_for es key @ (if (e_len e, e_prefilter e) = key then [e_id e] else [])"
  by (simp add: ids_for_def)

lemma index_of_snoc:
  "index_of (es @ [e]) =
     (index_of es)((e_len e, e_prefilter e) \<mapsto> ids_for es (e_len e, e_prefilter e) @ [e_id e])"
  by (rule ext) (auto simp: index_of_def ids_for_snoc)

lemma saturating_inc_of_nat:
  assumes "Suc n < 2 ^ 64"
  shows "saturating_inc (word_of_nat n) = word_of_nat (Suc n)"
proof -
  have "(word_of_nat n :: u64) \<noteq> - 1"
  proof
    assume "(word_of_nat n :: u64) = - 1"
    then have "(word_of_nat (Suc n) :: u64) = 0"
      by simp
    moreover have "unat (word_of_nat (Suc n) :: u64) = Suc n"
      using assms by (intro unat_id) simp
    ultimately show False
      by (metis nat.simps(3) unat_0)
  qed
  then show ?thesis
    by (simp add: saturating_inc_def add.commute)
qed

lemma push_entry_wf:
  assumes wf: "registry_wf c r" and e: "entry_wf c (reg_keys r) e"
    and ident: "e_id e = word_of_nat (Suc (length (reg_entries r)))"
    and bound: "Suc (length (reg_entries r)) < 2 ^ 64"
    and fresh: "(e_digest e, e_len e) \<notin> (\<lambda>e. (e_digest e, e_len e)) ` set (reg_entries r)"
  shows "registry_wf c (push_entry e r)"
proof -
  have idx: "(case reg_index r (e_len e, e_prefilter e) of None \<Rightarrow> [] | Some ids \<Rightarrow> ids) =
      ids_for (reg_entries r) (e_len e, e_prefilter e)"
    using wf by (simp add: registry_wf_def index_of_def)
  have ph: "map_of (AList.update (e_placeholder e) (e_id e) (reg_placeholders r)) =
      map_of (map (\<lambda>e. (e_placeholder e, e_id e)) (rev (reg_entries r @ [e])))"
    using wf by (auto simp: registry_wf_def update_conv)
  have "distinct (map fst (AList.update (e_placeholder e) (e_id e) (reg_placeholders r)))"
    using wf by (simp add: registry_wf_def distinct_update)
  then show ?thesis
    using wf e ident bound fresh idx ph
    by (simp add: registry_wf_def push_entry_def Let_def index_of_snoc saturating_inc_of_nat
        image_iff del: of_nat_Suc)
qed

lemma registry_wf_draws [simp]: "registry_wf c (r\<lparr>reg_draws := n\<rparr>) = registry_wf c r"
  by (simp add: registry_wf_def)

lemma push_entry_simps [simp]:
  "reg_entries (push_entry e r) = reg_entries r @ [e]"
  "reg_keys (push_entry e r) = reg_keys r"
  by (simp_all add: push_entry_def Let_def)

lemma registry_extends_push [simp, intro]:
  "registry_extends r (push_entry e (r\<lparr>reg_draws := n\<rparr>))"
  by (simp add: registry_extends_def)

text \<open>The three ways a registration can end.\<close>

lemma ingest_cases [consumes 1, case_names refused known fresh]:
  assumes "ingest c label secret r = (res, r')"
  obtains (refused) err n where "res = Inl err" "r' = r\<lparr>reg_draws := n\<rparr>"
  | (known) e digest where "res = Inr (e_id e)" "r' = r" "e \<in> set (reg_entries r)"
      "keyed_digest c (k_match (reg_keys r)) secret = Inr digest"
      "e_digest e = digest" "e_len e = length secret"
  | (fresh) e where "res = Inr (e_id e)" "r' = push_entry e (r\<lparr>reg_draws := Suc (reg_draws r)\<rparr>)"
      "e_id e = word_of_nat (Suc (length (reg_entries r)))" "e_label e = label"
      "e_len e = length secret" "secret \<noteq> []"
      "keyed_digest c (k_match (reg_keys r)) secret = Inr (e_digest e)"
      "keyed_fingerprint c (k_prefilter (reg_keys r)) secret = Inr (e_prefilter e)"
      "placeholder_new c label (e_digest e) (k_placeholder (reg_keys r)) = Inr (e_placeholder e)"
      "capsule_encrypt c secret (k_master (reg_keys r)) (reg_draws r) = Inr (e_capsule e)"
      "(e_digest e, e_len e) \<notin> (\<lambda>e. (e_digest e, e_len e)) ` set (reg_entries r)"
proof -
  have draws: "r\<lparr>reg_draws := reg_draws r\<rparr> = r"
    by simp
  show ?thesis
  proof (cases "secret = []")
    case True
    then show ?thesis
      using assms refused [of _ "reg_draws r"] draws by (auto simp: ingest_def)
  next
    case ne: False
    show ?thesis
    proof (cases "keyed_digest c (k_match (reg_keys r)) secret")
      case (Inl err)
      then show ?thesis
        using assms ne refused [of _ "reg_draws r"] draws by (auto simp: ingest_def)
    next
      case d: (Inr digest)
      show ?thesis
      proof (cases "List.find (\<lambda>e. e_digest e = digest \<and> e_len e = length secret) (reg_entries r)")
        case (Some e)
        then show ?thesis
          using assms ne d known [of e digest] nth_mem_list_find [OF Some]
          by (simp add: ingest_def)
      next
        case None
        then have new: "(digest, length secret) \<notin> (\<lambda>e. (e_digest e, e_len e)) ` set (reg_entries r)"
          by (auto simp: list_find_None)
        have run: "register_new c label secret digest r = (res, r')"
          using assms ne d None by (simp add: ingest_def)
        show ?thesis
        proof (cases "keyed_fingerprint c (k_prefilter (reg_keys r)) secret")
          case (Inl err)
          then show ?thesis
            using run refused [of err "reg_draws r"] draws by (simp add: register_new_def)
        next
          case pf: (Inr pf)
          show ?thesis
          proof (cases "placeholder_new c label digest (k_placeholder (reg_keys r))")
            case (Inl err)
            then show ?thesis
              using run pf refused [of err "reg_draws r"] draws by (simp add: register_new_def)
          next
            case ph: (Inr ph)
            show ?thesis
            proof (cases "capsule_encrypt c secret (k_master (reg_keys r)) (reg_draws r)")
              case (Inl err)
              then show ?thesis
                using run pf ph refused [of err "Suc (reg_draws r)"]
                by (auto simp: register_new_def)
            next
              case (Inr cap)
              then show ?thesis
                using run pf ph d ne new
                  fresh [of "\<lparr>e_id = word_of_nat (Suc (length (reg_entries r))), e_label = label,
                    e_len = length secret, e_digest = digest, e_prefilter = pf,
                    e_placeholder = ph, e_capsule = cap\<rparr>"]
                by (simp add: register_new_def Let_def)
            qed
          qed
        qed
      qed
    qed
  qed
qed

lemma ingest_extends: "registry_extends r (snd (ingest c label secret r))"
proof (cases "ingest c label secret r")
  case (Pair res r')
  from Pair show ?thesis
    by (cases rule: ingest_cases) (auto simp: registry_extends_def Pair)
qed

text \<open>
  A Rust vector cannot hold \<open>2 ^ 64\<close> elements, so every registry of a running program
  \<open>fits\<close>; within that bound identifiers and the version never wrap.
\<close>

definition registry_fits :: "registry \<Rightarrow> bool" where
  "registry_fits r \<longleftrightarrow> length (reg_entries r) < 2 ^ 64"

lemma ingest_wf:
  assumes "registry_wf c r" and "aead_correct c" and "label_ok label"
    and "registry_fits (snd (ingest c label secret r))"
  shows "registry_wf c (snd (ingest c label secret r))"
proof (cases "ingest c label secret r")
  case (Pair res r')
  from Pair show ?thesis
  proof (cases rule: ingest_cases)
    case (fresh e)
    have "chacha_open c (k_master (reg_keys r)) (cap_nonce (e_capsule e)) (cap_ciphertext (e_capsule e))
        = Some secret"
      using capsule_round_trip [OF assms(2) fresh(10)] by (simp add: capsule_decrypt_def)
    then have "entry_wf c (reg_keys r) e"
      using fresh assms(3) by (simp add: entry_wf_def)
    then show ?thesis
      using assms fresh Pair
      by (auto simp: registry_fits_def intro!: push_entry_wf)
  qed (use assms Pair in auto)
qed

text \<open>With working primitives a non-empty secret is always accepted.\<close>

definition aead_accepts :: "crypto \<Rightarrow> bytes \<Rightarrow> bool" where
  "aead_accepts c m \<longleftrightarrow> (\<forall>k n. chacha_seal c k n m \<noteq> None)"

lemma ingest_accepts:
  assumes "hmac_total c" and "aead_accepts c secret" and "secret \<noteq> []"
  shows "\<exists>ident. fst (ingest c label secret r) = Inr ident"
proof -
  obtain d where d: "keyed_digest c (k_match (reg_keys r)) secret = Inr d"
    using keyed_digest_total [OF assms(1)] by blast
  obtain pf where pf: "keyed_fingerprint c (k_prefilter (reg_keys r)) secret = Inr pf"
    using keyed_fingerprint_total [OF assms(1)] by blast
  obtain ph where ph: "placeholder_new c label d (k_placeholder (reg_keys r)) = Inr ph"
    using placeholder_new_total [OF assms(1)] by blast
  obtain ct where "chacha_seal c (k_master (reg_keys r)) (os_rng c (reg_draws r)) secret = Some ct"
    using assms(2) unfolding aead_accepts_def by blast
  then show ?thesis
    using d pf ph assms(3)
    by (auto simp: ingest_def register_new_def capsule_encrypt_def Let_def split: option.split)
qed

section \<open>The registry as a store\<close>

text \<open>
  \<open>registry_holds c r ident s\<close>: the identifier resolves to the secret \<open>s\<close>.
  \<open>registry_step c r r'\<close> is what every operation of the program that works on
  \<^verbatim>\<open>&mut SecretRegistry\<close> guarantees: entries are only added, and a well-formed registry
  stays well formed as long as it fits.
\<close>

definition registry_holds :: "crypto \<Rightarrow> registry \<Rightarrow> u64 \<Rightarrow> bytes \<Rightarrow> bool" where
  "registry_holds c r ident s \<longleftrightarrow>
     (case entry_of r ident of None \<Rightarrow> False | Some e \<Rightarrow> secret_of c r e = Some s)"

definition registry_step :: "crypto \<Rightarrow> registry \<Rightarrow> registry \<Rightarrow> bool" where
  "registry_step c r r' \<longleftrightarrow>
     registry_extends r r' \<and>
     (aead_correct c \<and> registry_wf c r \<and> registry_fits r' \<longrightarrow> registry_wf c r')"

lemma registry_step_refl [simp, intro]: "registry_step c r r"
  by (simp add: registry_step_def)

lemma registry_extends_fits: "registry_extends r r' \<Longrightarrow> registry_fits r' \<Longrightarrow> registry_fits r"
  by (auto simp: registry_extends_def registry_fits_def dest: prefix_length_le)

lemma registry_step_trans [trans]:
  "registry_step c r s \<Longrightarrow> registry_step c s t \<Longrightarrow> registry_step c r t"
  by (auto simp: registry_step_def intro: registry_extends_trans registry_extends_fits)

lemma registry_stepD:
  assumes "registry_step c r r'"
  shows "registry_extends r r'"
    "aead_correct c \<Longrightarrow> registry_wf c r \<Longrightarrow> registry_fits r' \<Longrightarrow> registry_wf c r'"
  using assms by (auto simp: registry_step_def)

lemma ingest_step: "label_ok label \<Longrightarrow> registry_step c r (snd (ingest c label secret r))"
  by (simp add: registry_step_def ingest_extends ingest_wf)

lemma secret_of_extends: "registry_extends r r' \<Longrightarrow> secret_of c r' e = secret_of c r e"
  by (simp add: registry_extends_def secret_of_def)

lemma entry_of_extends:
  assumes "registry_extends r r'" and "entry_of r ident = Some e"
  shows "entry_of r' ident = Some e"
  using assms
  by (auto simp: entry_of_def registry_extends_def prefix_def Let_def nth_append split: if_splits)

lemma registry_holds_step:
  "registry_step c r r' \<Longrightarrow> registry_holds c r ident s \<Longrightarrow> registry_holds c r' ident s"
  by (auto simp: registry_holds_def registry_step_def secret_of_extends
      split: option.splits dest: entry_of_extends)

lemma registry_holds_iff:
  "registry_holds c r ident s \<longleftrightarrow> (\<exists>e. entry_of r ident = Some e \<and> secret_of c r e = Some s)"
  by (auto simp: registry_holds_def split: option.splits)

text \<open>
  What an identifier returned by a registration resolves to: a secret of the same length and
  digest, so the registered one unless HMAC collides.
\<close>

definition same_digest :: "crypto \<Rightarrow> session_keys \<Rightarrow> bytes \<Rightarrow> bytes \<Rightarrow> bool" where
  "same_digest c keys s t \<longleftrightarrow>
     length s = length t \<and> keyed_digest c (k_match keys) s = keyed_digest c (k_match keys) t"

lemma ingest_holds:
  assumes "registry_wf c r" and "aead_correct c" and "label_ok label"
    and run: "ingest c label secret r = (Inr ident, r')" and fits: "registry_fits r'"
  shows "\<exists>s. registry_holds c r' ident s \<and> same_digest c (reg_keys r) s secret"
proof -
  have wf': "registry_wf c r'"
    using ingest_wf [OF assms(1-3), of secret] run fits by simp
  from run show ?thesis
  proof (cases rule: ingest_cases)
    case (known e digest)
    obtain s where "secret_of c r e = Some s" "e_len e = length s"
      "keyed_digest c (k_match (reg_keys r)) s = Inr (e_digest e)"
      using entry_wfD [OF assms(1) known(3)] by blast
    then show ?thesis
      using known entry_of_id [OF assms(1) known(3)]
      by (auto simp: registry_holds_iff same_digest_def)
  next
    case (fresh e)
    have "e \<in> set (reg_entries r')"
      using fresh by simp
    then have "entry_of r' (e_id e) = Some e"
      by (rule entry_of_id [OF wf'])
    moreover have "secret_of c r' e = Some secret"
      using capsule_round_trip [OF assms(2) fresh(10)] fresh(2)
      by (simp add: secret_of_def capsule_decrypt_def)
    ultimately show ?thesis
      using fresh(1) by (auto simp: registry_holds_iff same_digest_def)
  qed simp
qed

section \<open>The interface its clients use\<close>

text \<open>
  Directives, pattern matches, observed headers and start-up discovery all feed secrets to
  the registry one after the other and then resolve identifiers. What they rely on: a
  registration only moves the store forward (\<open>step\<close>), what an identifier resolves to never
  changes, and an accepted secret is held (up to \<open>same\<close>, the equality of digests).
\<close>

fun put_all ::
  "(bytes \<Rightarrow> bytes \<Rightarrow> 'r \<Rightarrow> ('e + u64) \<times> 'r) \<Rightarrow> (bytes \<times> bytes) list \<Rightarrow> 'r \<Rightarrow> ('e + unit) \<times> 'r" where
  "put_all put [] r = (Inr (), r)"
| "put_all put ((label, s) # xs) r = and_then_st (put label s r) (\<lambda>_ r. put_all put xs r)"

text \<open>
  \<^verbatim>\<open>for candidate in ... { registry.ingest(candidate.label, candidate.value)?; }\<close> as at the
  start of \<^verbatim>\<open>run_with_cli\<close>.
\<close>

definition ingest_all ::
  "crypto \<Rightarrow> (bytes \<times> bytes) list \<Rightarrow> registry \<Rightarrow> (crebro_error + unit) \<times> registry" where
  "ingest_all c = put_all (ingest c)"

locale secret_store =
  fixes put :: "bytes \<Rightarrow> bytes \<Rightarrow> 'r \<Rightarrow> ('e + u64) \<times> 'r"
    and lab :: "bytes \<Rightarrow> bool"
    and inv :: "'r \<Rightarrow> bool"
    and step :: "'r \<Rightarrow> 'r \<Rightarrow> bool"
    and holds :: "'r \<Rightarrow> u64 \<Rightarrow> bytes \<Rightarrow> bool"
    and same :: "'r \<Rightarrow> bytes \<Rightarrow> bytes \<Rightarrow> bool"
  assumes step_refl: "step r r"
    and step_trans: "step r r1 \<Longrightarrow> step r1 r2 \<Longrightarrow> step r r2"
    and put_step: "lab l \<Longrightarrow> step r (snd (put l s r))"
    and holds_step: "step r r' \<Longrightarrow> holds r i s \<Longrightarrow> holds r' i s"
    and same_step: "step r r' \<Longrightarrow> same r' a b \<longleftrightarrow> same r a b"
    and inv_back: "step r r' \<Longrightarrow> inv r \<Longrightarrow> step r' r'' \<Longrightarrow> inv r'' \<Longrightarrow> inv r'"
    and put_holds:
      "inv r \<Longrightarrow> lab l \<Longrightarrow> put l s r = (Inr i, r') \<Longrightarrow> inv r' \<Longrightarrow>
       \<exists>s'. holds r' i s' \<and> same r s' s"
begin

lemma put_all_step: "\<forall>(l, s) \<in> set xs. lab l \<Longrightarrow> step r (snd (put_all put xs r))"
proof (induction xs arbitrary: r)
  case Nil
  then show ?case by (simp add: step_refl)
next
  case (Cons x xs)
  obtain l s where x: "x = (l, s)" by (cases x)
  obtain res r1 where p: "put l s r = (res, r1)" by (cases "put l s r")
  have "step r r1"
    using put_step [of l r s] Cons.prems x p by simp
  moreover have "step r1 (snd (put_all put xs r1))"
    using Cons by simp
  ultimately show ?case
    using x p by (cases res) (auto intro: step_trans)
qed

lemma put_all_holds:
  assumes "\<forall>(l, s) \<in> set xs. lab l" and "inv r" and "put_all put xs r = (Inr (), r')" and "inv r'"
    and "(l, s) \<in> set xs"
  shows "\<exists>i s'. holds r' i s' \<and> same r s' s"
  using assms
proof (induction xs arbitrary: r)
  case Nil
  then show ?case by simp
next
  case (Cons x xs)
  obtain l' t where x: "x = (l', t)" by (cases x)
  obtain i r1 where p: "put l' t r = (Inr i, r1)" and rest: "put_all put xs r1 = (Inr (), r')"
    using Cons.prems(3) x by (auto simp: and_then_st_eq_Inr)
  have s1: "step r r1"
    using put_step [of l' r t] Cons.prems(1) x p by simp
  have s2: "step r1 r'"
    using put_all_step [of xs r1] Cons.prems(1) rest by simp
  have i1: "inv r1"
    using inv_back [OF s1 Cons.prems(2) s2 Cons.prems(4)] .
  show ?case
  proof (cases "(l, s) = x")
    case True
    obtain s' where "holds r1 i s'" "same r s' s"
      using put_holds [OF Cons.prems(2) _ p i1] Cons.prems(1) x True by auto
    then show ?thesis
      using holds_step [OF s2] by blast
  next
    case False
    then have "\<exists>i s'. holds r' i s' \<and> same r1 s' s"
      using Cons.IH [OF _ i1 rest Cons.prems(4)] Cons.prems(1,5) by simp
    then show ?thesis
      using same_step [OF s1] by blast
  qed
qed

end

lemma same_digest_step:
  "registry_step c r r' \<Longrightarrow> same_digest c (reg_keys r') a b \<longleftrightarrow> same_digest c (reg_keys r) a b"
  by (simp add: registry_step_def registry_extends_def)

definition registry_inv :: "crypto \<Rightarrow> registry \<Rightarrow> bool" where
  "registry_inv c r \<longleftrightarrow> aead_correct c \<and> registry_wf c r \<and> registry_fits r"

interpretation store: secret_store
  "ingest c" label_ok "registry_inv c" "registry_step c" "registry_holds c"
  "\<lambda>r. same_digest c (reg_keys r)" for c
proof unfold_locales
  fix r r' r'' assume "registry_step c r r'" "registry_inv c r" "registry_step c r' r''" "registry_inv c r''"
  then show "registry_inv c r'"
    by (auto simp: registry_inv_def registry_step_def dest: registry_extends_fits)
next
  fix r l s i r'
  assume "registry_inv c r" "label_ok l" "ingest c l s r = (Inr i, r')" "registry_inv c r'"
  then show "\<exists>s'. registry_holds c r' i s' \<and> same_digest c (reg_keys r) s' s"
    using ingest_holds by (simp add: registry_inv_def)
qed (blast intro: registry_step_refl registry_step_trans ingest_step registry_holds_step
    same_digest_step [THEN iffD1] same_digest_step [THEN iffD2])+

end
