(* ===== verification/Selection.thy ===== *)
theory Selection
  imports Prelude "HOL-Library.Multiset"
begin

text \<open>
  The program selects a set of non-overlapping ranges three times: redaction spans
  (\<^verbatim>\<open>src/redact/span.rs\<close>), matches of credential patterns (\<^verbatim>\<open>src/patterns/mod.rs\<close>) and
  replacement spans of stored conversations (\<^verbatim>\<open>src/sanitize.rs\<close>). Each sorts the candidates
  by descending length, keeps a candidate unless one already kept overlaps it, and sorts what
  is left by position. This theory has the loop the three share, its lemmas, and the locale
  \<open>range_selection\<close> that states what their clients rely on.
\<close>

section \<open>The selection loop\<close>

text \<open>
  \<^verbatim>\<open>for span in spans { if selected.iter().any(|s| s.overlaps(&span)) { continue; }
  selected.push(span); }\<close>
\<close>

fun keep_disjoint :: "('s \<Rightarrow> 's \<Rightarrow> bool) \<Rightarrow> 's list \<Rightarrow> 's list \<Rightarrow> 's list" where
  "keep_disjoint ov sel [] = sel"
| "keep_disjoint ov sel (x # xs) =
     (if list_ex (\<lambda>s. ov s x) sel then keep_disjoint ov sel xs
      else keep_disjoint ov (sel @ [x]) xs)"

lemma keep_disjoint_mono: "set sel \<subseteq> set (keep_disjoint ov sel xs)"
  by (induction ov sel xs rule: keep_disjoint.induct) auto

lemma keep_disjoint_subset: "set (keep_disjoint ov sel xs) \<subseteq> set sel \<union> set xs"
  by (induction ov sel xs rule: keep_disjoint.induct) auto

lemma keep_disjoint_disjoint:
  "sorted_wrt (\<lambda>a b. \<not> ov a b) sel \<Longrightarrow> sorted_wrt (\<lambda>a b. \<not> ov a b) (keep_disjoint ov sel xs)"
  by (induction ov sel xs rule: keep_disjoint.induct) (auto simp: sorted_wrt_append list_ex_iff)

text \<open>
  The relation \<open>R\<close> between what was kept and what comes later is the sort order: a dropped
  candidate overlaps a kept one that precedes it in that order.
\<close>

lemma keep_disjoint_maximal:
  assumes "sorted_wrt R (sel @ xs)" and "x \<in> set xs"
  shows "x \<in> set (keep_disjoint ov sel xs) \<or>
         (\<exists>s \<in> set (keep_disjoint ov sel xs). ov s x \<and> R s x)"
  using assms
proof (induction ov sel xs rule: keep_disjoint.induct)
  case (1 ov sel)
  then show ?case by simp
next
  case (2 ov sel y ys)
  show ?case
  proof (cases "list_ex (\<lambda>s. ov s y) sel")
    case True
    have "sorted_wrt R (sel @ ys)"
      using "2.prems"(1) by (auto simp: sorted_wrt_append)
    moreover have "\<exists>s \<in> set (keep_disjoint ov sel ys). ov s y \<and> R s y"
      using True "2.prems"(1) keep_disjoint_mono [of sel ov ys]
      by (auto simp: list_ex_iff sorted_wrt_append)
    ultimately show ?thesis
      using "2.IH"(1) True "2.prems"(2) by auto
  next
    case False
    have "y \<in> set (keep_disjoint ov (sel @ [y]) ys)"
      using keep_disjoint_mono [of "sel @ [y]" ov ys] by auto
    then show ?thesis
      using "2.IH"(2) False "2.prems" by auto
  qed
qed

lemma keep_disjoint_all:
  "sorted_wrt (\<lambda>a b. \<not> ov a b) (sel @ xs) \<Longrightarrow> keep_disjoint ov sel xs = sel @ xs"
proof (induction ov sel xs rule: keep_disjoint.induct)
  case (2 ov sel x xs)
  then have "\<not> list_ex (\<lambda>s. ov s x) sel"
    by (auto simp: sorted_wrt_append list_ex_iff)
  with 2 show ?case by simp
qed simp

section \<open>Sorting, selecting, sorting again\<close>

definition select_by ::
  "('s \<Rightarrow> 'k :: linorder) \<Rightarrow> ('s \<Rightarrow> 'l :: linorder) \<Rightarrow> ('s \<Rightarrow> 's \<Rightarrow> bool) \<Rightarrow> 's list \<Rightarrow> 's list" where
  "select_by k1 k2 ov xs = sort_key k2 (keep_disjoint ov [] (sort_key k1 xs))"

lemma select_by_subset: "set (select_by k1 k2 ov xs) \<subseteq> set xs"
  using keep_disjoint_subset [of ov "[]" "sort_key k1 xs"] by (simp add: select_by_def)

lemma select_by_sorted: "sorted (map k2 (select_by k1 k2 ov xs))"
  by (simp add: select_by_def)

lemma sorted_key_wrt: "sorted (map k xs) \<longleftrightarrow> sorted_wrt (\<lambda>a b. k a \<le> k b) xs"
  by (simp add: sorted_wrt_map)

lemma select_by_maximal:
  assumes "x \<in> set xs"
  shows "x \<in> set (select_by k1 k2 ov xs) \<or>
         (\<exists>s \<in> set (select_by k1 k2 ov xs). ov s x \<and> k1 s \<le> k1 x)"
proof -
  have "sorted_wrt (\<lambda>a b. k1 a \<le> k1 b) ([] @ sort_key k1 xs)"
    using sorted_sort_key [of k1 xs] by (simp only: sorted_key_wrt append_Nil)
  moreover have "x \<in> set (sort_key k1 xs)"
    using assms by simp
  ultimately show ?thesis
    using keep_disjoint_maximal [of "\<lambda>a b. k1 a \<le> k1 b" "[]" "sort_key k1 xs" x ov]
    by (simp only: select_by_def set_sort)
qed

lemma sorted_wrt_symp_mset:
  assumes "symp R" and "mset xs = mset ys" and "sorted_wrt R xs"
  shows "sorted_wrt R ys"
  using assms(2,3)
proof (induction ys arbitrary: xs)
  case Nil
  then show ?case by simp
next
  case (Cons y ys)
  then obtain us vs where xs: "xs = us @ y # vs"
    by (metis list.set_intros(1) mset_eq_setD split_list)
  then have m: "mset (us @ vs) = mset ys" and "sorted_wrt R (us @ vs)"
    using Cons.prems by (auto simp: sorted_wrt_append)
  then have "sorted_wrt R ys"
    using Cons.IH by blast
  moreover have "set ys = set us \<union> set vs"
    using mset_eq_setD [OF m] by simp
  moreover have "\<forall>z \<in> set us \<union> set vs. R y z"
    using Cons.prems(2) xs assms(1) by (auto simp: sorted_wrt_append symp_def)
  ultimately show ?case by simp
qed

lemma select_by_disjoint:
  assumes "symp ov"
  shows "sorted_wrt (\<lambda>a b. \<not> ov a b) (select_by k1 k2 ov xs)"
proof (rule sorted_wrt_symp_mset)
  show "symp (\<lambda>a b. \<not> ov a b)"
    using assms by (auto simp: symp_def)
  show "mset (keep_disjoint ov [] (sort_key k1 xs)) = mset (select_by k1 k2 ov xs)"
    by (simp add: select_by_def)
  show "sorted_wrt (\<lambda>a b. \<not> ov a b) (keep_disjoint ov [] (sort_key k1 xs))"
    by (rule keep_disjoint_disjoint) simp
qed

lemma select_by_mset:
  assumes "symp ov" and "sorted_wrt (\<lambda>a b. \<not> ov a b) xs"
  shows "mset (select_by k1 k2 ov xs) = mset xs"
proof -
  have "sorted_wrt (\<lambda>a b. \<not> ov a b) (sort_key k1 xs)"
    using assms(2)
    by (rule sorted_wrt_symp_mset [rotated 2]) (use assms(1) in \<open>auto simp: symp_def\<close>)
  then have "keep_disjoint ov [] (sort_key k1 xs) = sort_key k1 xs"
    using keep_disjoint_all [of ov "[]" "sort_key k1 xs"] by (simp only: append_Nil)
  then show ?thesis
    by (simp only: select_by_def mset_sort)
qed

lemma sorted_apart:
  "sorted (map k xs) \<Longrightarrow> sorted_wrt R xs \<Longrightarrow> sorted_wrt (\<lambda>a b. k a \<le> k b \<and> R a b) xs"
  by (induction xs) auto

section \<open>What a selection promises\<close>

text \<open>
  The interface between a selection and the code that edits a byte string along the selected
  ranges: \<open>lo\<close> and \<open>hi\<close> give a range's start and end.
\<close>

locale range_selection =
  fixes select :: "'s list \<Rightarrow> 's list"
    and lo :: "'s \<Rightarrow> nat"
    and hi :: "'s \<Rightarrow> nat"
  assumes select_subset: "set (select xs) \<subseteq> set xs"
    and select_sorted: "sorted (map lo (select xs))"
    and select_apart:
      "sorted_wrt (\<lambda>a b. \<not> (lo a < hi b \<and> lo b < hi a)) (select xs)"
    and select_longest:
      "x \<in> set xs \<Longrightarrow> x \<in> set (select xs) \<or>
        (\<exists>s \<in> set (select xs). lo s < hi x \<and> lo x < hi s \<and> hi x - lo x \<le> hi s - lo s)"
    and select_keeps_disjoint:
      "sorted_wrt (\<lambda>a b. \<not> (lo a < hi b \<and> lo b < hi a)) xs \<Longrightarrow> mset (select xs) = mset xs"
begin

lemma select_in_order:
  assumes "\<forall>x \<in> set xs. lo x < hi x"
  shows "sorted_wrt (\<lambda>a b. hi a \<le> lo b) (select xs)"
proof (rule sorted_wrt_mono_rel [rotated])
  show "sorted_wrt (\<lambda>a b. lo a \<le> lo b \<and> \<not> (lo a < hi b \<and> lo b < hi a)) (select xs)"
    using select_sorted [of xs] select_apart [of xs] by (rule sorted_apart)
next
  fix a b
  assume "a \<in> set (select xs)" "b \<in> set (select xs)"
    and r: "lo a \<le> lo b \<and> \<not> (lo a < hi b \<and> lo b < hi a)"
  then have "lo b < hi b"
    using assms select_subset by blast
  with r show "hi a \<le> lo b" by linarith
qed

text \<open>The ranges, as edits, satisfy what \<^const>\<open>replace_edits\<close> needs.\<close>

lemma select_edits_ok:
  assumes "\<forall>x \<in> set xs. lo x < hi x \<and> hi x \<le> n"
  shows "edits_ok n 0 (map (\<lambda>x. (lo x, hi x, f x)) (select xs))"
proof -
  have ok: "edits_ok n c (map (\<lambda>x. (lo x, hi x, f x)) ys)"
    if "sorted_wrt (\<lambda>a b. hi a \<le> lo b) ys" and "\<forall>y \<in> set ys. c \<le> lo y" and "c \<le> n"
      and "\<forall>y \<in> set ys. lo y < hi y \<and> hi y \<le> n" for c ys
    using that by (induction ys arbitrary: c) (auto intro: less_imp_le)
  show ?thesis
    using assms select_subset [of xs]
    by (intro ok select_in_order) auto
qed

text \<open>Every candidate range is hit: no candidate lies between two selected ranges.\<close>

lemma candidate_hit:
  assumes "x \<in> set xs" and "lo x < hi x"
  shows "\<exists>s \<in> set (select xs). lo s < hi x \<and> lo x < hi s"
  using select_longest [OF assms(1)] assms(2) by blast

lemma select_idem: "mset (select (select xs)) = mset (select xs)"
  by (rule select_keeps_disjoint) (rule select_apart)

end

end
