(* ===== verification/Scanner.thy ===== *)
theory Scanner
  imports Registry Selection
begin

text \<open>
  \<^verbatim>\<open>src/redact/span.rs\<close> and \<^verbatim>\<open>src/redact/scanner.rs\<close>: finding the registered secrets in a
  byte string and cutting them out. A window is compared through its fingerprint (the index
  of the registry) and its keyed digest, never through the secret itself.
\<close>

section \<open>Spans (\<open>src/redact/span.rs\<close>)\<close>

record redaction_span =
  sp_start :: nat
  sp_len :: nat
  sp_id :: u64
  sp_placeholder :: bytes

definition span_end :: "redaction_span \<Rightarrow> nat" where
  "span_end sp = sp_start sp + sp_len sp"

definition span_overlaps :: "redaction_span \<Rightarrow> redaction_span \<Rightarrow> bool" where
  "span_overlaps a b \<longleftrightarrow> sp_start a < span_end b \<and> sp_start b < span_end a"

text \<open>
  The comparators of \<^verbatim>\<open>sort_by\<close> as sort keys: descending length, then start, then secret
  identifier; for the result start, descending length, identifier. \<^verbatim>\<open>sort_by\<close> is stable, as
  \<^const>\<open>sort_key\<close> is.
\<close>

definition select_longest_non_overlapping :: "redaction_span list \<Rightarrow> redaction_span list" where
  "select_longest_non_overlapping spans =
     (let sorted_spans = sort_key (\<lambda>s. (- int (sp_len s), sp_start s, sp_id s)) spans;
          selected = keep_disjoint span_overlaps [] sorted_spans
      in sort_key (\<lambda>s. (sp_start s, - int (sp_len s), sp_id s)) selected)"

fun apply_spans_from :: "bytes \<Rightarrow> nat \<Rightarrow> redaction_span list \<Rightarrow> bytes" where
  "apply_spans_from bs cursor [] = (if cursor < length bs then drop cursor bs else [])"
| "apply_spans_from bs cursor (sp # spans) =
     (if cursor < sp_start sp then sub_bytes bs cursor (sp_start sp) else []) @
     sp_placeholder sp @ apply_spans_from bs (span_end sp) spans"

definition apply_spans :: "bytes \<Rightarrow> redaction_span list \<Rightarrow> bytes" where
  "apply_spans bs spans = (if spans = [] then bs else apply_spans_from bs 0 spans)"

definition span_edits :: "redaction_span list \<Rightarrow> edit list" where
  "span_edits = map (\<lambda>sp. (sp_start sp, span_end sp, sp_placeholder sp))"

lemma span_overlaps_symp: "symp span_overlaps"
  by (auto simp: symp_def span_overlaps_def)

lemma select_longest_select_by:
  "select_longest_non_overlapping =
   select_by (\<lambda>s. (- int (sp_len s), sp_start s, sp_id s))
     (\<lambda>s. (sp_start s, - int (sp_len s), sp_id s)) span_overlaps"
  by (simp add: fun_eq_iff select_longest_non_overlapping_def select_by_def Let_def)

interpretation span_sel: range_selection select_longest_non_overlapping sp_start span_end
proof (unfold_locales, goal_cases)
  case (1 xs)
  show ?case by (simp add: select_longest_select_by select_by_subset)
next
  case (2 xs)
  have "sorted (map (\<lambda>s. (sp_start s, - int (sp_len s), sp_id s)) (select_longest_non_overlapping xs))"
    by (simp add: select_longest_select_by select_by_sorted)
  then show ?case
    unfolding sorted_map by (rule sorted_wrt_mono_rel [rotated]) (auto simp: less_eq_prod_def)
next
  case (3 xs)
  show ?case
    using select_by_disjoint [OF span_overlaps_symp]
    by (simp add: select_longest_select_by span_overlaps_def [abs_def])
next
  case (4 x xs)
  then show ?case
    using select_by_maximal [OF 4, of "\<lambda>s. (- int (sp_len s), sp_start s, sp_id s)"
        "\<lambda>s. (sp_start s, - int (sp_len s), sp_id s)" span_overlaps]
    by (auto simp: select_longest_select_by span_overlaps_def less_eq_prod_def span_end_def)
next
  case (5 xs)
  then show ?case
    using select_by_mset [OF span_overlaps_symp, of xs]
    by (simp add: select_longest_select_by span_overlaps_def [abs_def])
qed

text \<open>In range and in order, the loop is the reference replacement.\<close>

lemma apply_spans_from_eq:
  assumes "edits_ok (length bs) cur (span_edits spans)"
  shows "apply_spans_from bs cur spans = replace_edits bs cur (span_edits spans)"
  using assms
proof (induction spans arbitrary: cur)
  case Nil
  then show ?case by (simp add: span_edits_def)
next
  case (Cons sp spans)
  then show ?case
    by (cases "cur < sp_start sp") (auto simp: span_edits_def sub_bytes_def)
qed

lemma apply_spans_eq:
  "edits_ok (length bs) 0 (span_edits spans) \<Longrightarrow>
   apply_spans bs spans = replace_edits bs 0 (span_edits spans)"
  using apply_spans_from_eq [of bs 0 spans] by (auto simp: apply_spans_def span_edits_def)

section \<open>The scanner (\<open>src/redact/scanner.rs\<close>)\<close>

definition scan_window ::
  "crypto \<Rightarrow> registry \<Rightarrow> bytes \<Rightarrow> nat \<Rightarrow> nat \<Rightarrow> crebro_error + redaction_span list" where
  "scan_window c r bs len start =
     (let window = sub_bytes bs start (start + len)
      in and_then (prefilter_window c r window) (\<lambda>prefilter.
           try_collect (\<lambda>e.
             and_then (verify_window c r e window) (\<lambda>verified.
               Inr (if verified
                    then [\<lparr>sp_start = start, sp_len = len, sp_id = e_id e,
                           sp_placeholder = e_placeholder e\<rparr>]
                    else [])))
             (candidates r len prefilter)))"

definition scan_length ::
  "crypto \<Rightarrow> registry \<Rightarrow> bytes \<Rightarrow> nat \<Rightarrow> crebro_error + redaction_span list" where
  "scan_length c r bs len =
     (if length bs < len then Inr []
      else try_collect (scan_window c r bs len) [0..<length bs - len + 1])"

definition scan_string_token ::
  "crypto \<Rightarrow> bytes \<Rightarrow> registry \<Rightarrow> crebro_error + redaction_span list" where
  "scan_string_token c bs r =
     (if registry_is_empty r then Inr []
      else if (case min_secret_len r of None \<Rightarrow> False | Some m \<Rightarrow> length bs < m) then Inr []
      else and_then (try_collect (scan_length c r bs) (registry_lengths r))
             (\<lambda>candidates. Inr (select_longest_non_overlapping candidates)))"


subsection \<open>What the scanner finds\<close>

text \<open>
  A hit: a window inside the token that has the length, fingerprint and digest of an entry.
\<close>

definition window_hit :: "crypto \<Rightarrow> registry \<Rightarrow> bytes \<Rightarrow> redaction_span \<Rightarrow> bool" where
  "window_hit c r bs sp \<longleftrightarrow>
     0 < sp_len sp \<and> span_end sp \<le> length bs \<and>
     (\<exists>e \<in> set (reg_entries r).
        sp_id sp = e_id e \<and> sp_placeholder sp = e_placeholder e \<and> sp_len sp = e_len e \<and>
        keyed_digest c (k_match (reg_keys r)) (sub_bytes bs (sp_start sp) (span_end sp)) =
          Inr (e_digest e) \<and>
        prefilter_window c r (sub_bytes bs (sp_start sp) (span_end sp)) = Inr (e_prefilter e))"

lemma window_hitD:
  assumes "window_hit c r bs sp"
  shows "sp_start sp < span_end sp" "span_end sp \<le> length bs"
  using assms by (auto simp: window_hit_def span_end_def)

lemma span_eqI:
  "sp_start a = sp_start b \<Longrightarrow> sp_len a = sp_len b \<Longrightarrow> sp_id a = sp_id b \<Longrightarrow>
   sp_placeholder a = sp_placeholder b \<Longrightarrow> (a :: redaction_span) = b"
  by simp

lemma scan_window_InrD:
  assumes wf: "registry_wf c r" and run: "scan_window c r bs len start = Inr sps"
    and range: "0 < len" "start + len \<le> length bs"
  shows "sp \<in> set sps \<longleftrightarrow> window_hit c r bs sp \<and> sp_start sp = start \<and> sp_len sp = len"
proof -
  let ?w = "sub_bytes bs start (start + len)"
  obtain pf where pf: "prefilter_window c r ?w = Inr pf"
    and all: "try_collect (\<lambda>e. and_then (verify_window c r e ?w) (\<lambda>verified.
        Inr (if verified then [\<lparr>sp_start = start, sp_len = len, sp_id = e_id e,
               sp_placeholder = e_placeholder e\<rparr>] else []))) (candidates r len pf) = Inr sps"
    using run by (auto simp: scan_window_def Let_def)
  from all obtain g where
    g: "\<And>e. e \<in> set (candidates r len pf) \<Longrightarrow>
          and_then (verify_window c r e ?w) (\<lambda>verified.
            Inr (if verified then [\<lparr>sp_start = start, sp_len = len, sp_id = e_id e,
                   sp_placeholder = e_placeholder e\<rparr>] else [])) = Inr (g e)"
    and sps: "sps = concat (map g (candidates r len pf))"
    by (rule try_collect_InrE) blast
  have ge: "sp \<in> set (g e) \<longleftrightarrow>
      keyed_digest c (k_match (reg_keys r)) ?w = Inr (e_digest e) \<and>
      sp = \<lparr>sp_start = start, sp_len = len, sp_id = e_id e, sp_placeholder = e_placeholder e\<rparr>"
    if "e \<in> set (candidates r len pf)" for e
    using g [OF that, symmetric] by (cases "keyed_digest c (k_match (reg_keys r)) ?w")
      (auto simp: verify_window_def)
  have "sp \<in> set sps \<longleftrightarrow> (\<exists>e \<in> set (candidates r len pf). sp \<in> set (g e))"
    by (simp add: sps)
  also have "\<dots> \<longleftrightarrow> (\<exists>e \<in> set (candidates r len pf).
      keyed_digest c (k_match (reg_keys r)) ?w = Inr (e_digest e) \<and>
      sp = \<lparr>sp_start = start, sp_len = len, sp_id = e_id e, sp_placeholder = e_placeholder e\<rparr>)"
    using ge by blast
  also have "\<dots> \<longleftrightarrow> window_hit c r bs sp \<and> sp_start sp = start \<and> sp_len sp = len"
    using pf range by (cases sp) (auto simp: candidates_eq [OF wf] window_hit_def span_end_def)
  finally show ?thesis .
qed

lemma scan_length_InrD:
  assumes wf: "registry_wf c r" and run: "scan_length c r bs len = Inr sps" and pos: "0 < len"
  shows "sp \<in> set sps \<longleftrightarrow> window_hit c r bs sp \<and> sp_len sp = len"
proof (cases "length bs < len")
  case True
  then show ?thesis
    using run by (auto simp: scan_length_def window_hit_def span_end_def)
next
  case False
  then obtain g where
    g: "\<And>i. i \<in> set [0..<length bs - len + 1] \<Longrightarrow> scan_window c r bs len i = Inr (g i)"
    and sps: "sps = concat (map g [0..<length bs - len + 1])"
    using run by (auto simp: scan_length_def elim: try_collect_InrE)
  have gi: "sp \<in> set (g i) \<longleftrightarrow> window_hit c r bs sp \<and> sp_start sp = i \<and> sp_len sp = len"
    if "i < length bs - len + 1" for i
  proof -
    have "i + len \<le> length bs"
      using that False by linarith
    moreover have "scan_window c r bs len i = Inr (g i)"
      by (rule g) (use that in \<open>auto simp: less_Suc_eq\<close>)
    ultimately show ?thesis
      using scan_window_InrD [OF wf _ pos] by blast
  qed
  have "sp \<in> set sps \<longleftrightarrow> (\<exists>i < length bs - len + 1. sp \<in> set (g i))"
    by (auto simp: sps simp del: upt_Suc)
  also have "\<dots> \<longleftrightarrow> (\<exists>i < length bs - len + 1.
      window_hit c r bs sp \<and> sp_start sp = i \<and> sp_len sp = len)"
    using gi by blast
  also have "\<dots> \<longleftrightarrow> window_hit c r bs sp \<and> sp_len sp = len"
    using False by (auto simp: window_hit_def span_end_def less_Suc_eq_le)
  finally show ?thesis .
qed

lemma set_registry_lengths: "set (registry_lengths r) = e_len ` set (reg_entries r)"
  by (simp add: registry_lengths_def)

lemma entry_len_pos: "registry_wf c r \<Longrightarrow> e \<in> set (reg_entries r) \<Longrightarrow> 0 < e_len e"
  by (erule entry_wfD) auto

lemma window_hit_len: "window_hit c r bs sp \<Longrightarrow> sp_len sp \<in> set (registry_lengths r)"
  by (auto simp: window_hit_def set_registry_lengths)

text \<open>The candidates are exactly the hits; the two early exits lose none.\<close>

lemma scan_string_token_InrE:
  assumes "registry_wf c r" and "scan_string_token c bs r = Inr spans"
  obtains cands where "spans = select_longest_non_overlapping cands"
    "\<And>sp. sp \<in> set cands \<longleftrightarrow> window_hit c r bs sp"
proof -
  consider (empty) "reg_entries r = []"
    | (short) m where "min_secret_len r = Some m" "length bs < m" "spans = []"
    | (full) cands where "try_collect (scan_length c r bs) (registry_lengths r) = Inr cands"
        "spans = select_longest_non_overlapping cands" "reg_entries r \<noteq> []"
    using assms(2)
    by (auto simp: scan_string_token_def registry_is_empty_def split: if_splits option.splits)
  then show ?thesis
  proof cases
    case empty
    then have "spans = []"
      using assms(2) by (simp add: scan_string_token_def registry_is_empty_def)
    then show ?thesis
      using empty that [of "[]"]
      by (simp add: window_hit_def select_longest_select_by select_by_def)
  next
    case short
    have "\<not> window_hit c r bs sp" for sp
    proof
      assume h: "window_hit c r bs sp"
      then have "m \<le> sp_len sp"
        using short(1) window_hit_len [OF h]
        by (auto simp: min_secret_len_def set_registry_lengths split: if_splits)
      then show False
        using short(2) h by (auto simp: window_hit_def span_end_def)
    qed
    then show ?thesis
      using short that [of "[]"] by (simp add: select_longest_select_by select_by_def)
  next
    case full
    obtain g where g: "\<And>l. l \<in> set (registry_lengths r) \<Longrightarrow> scan_length c r bs l = Inr (g l)"
      and cands: "cands = concat (map g (registry_lengths r))"
      using full(1) by (rule try_collect_InrE) blast
    have "sp \<in> set (g l) \<longleftrightarrow> window_hit c r bs sp \<and> sp_len sp = l"
      if "l \<in> set (registry_lengths r)" for l sp
      using scan_length_InrD [OF assms(1) g [OF that]] that entry_len_pos [OF assms(1)]
      by (auto simp: set_registry_lengths)
    then have "sp \<in> set cands \<longleftrightarrow> window_hit c r bs sp" for sp
      using window_hit_len by (auto simp: cands)
    then show ?thesis
      using full(2) that by blast
  qed
qed

lemma scan_window_total:
  assumes "hmac_total c"
  shows "\<exists>sps. scan_window c r bs len i = Inr sps"
proof -
  let ?w = "sub_bytes bs i (i + len)"
  obtain pf where "prefilter_window c r ?w = Inr pf"
    using keyed_fingerprint_total [OF assms] by (auto simp: prefilter_window_def)
  moreover obtain d where "keyed_digest c (k_match (reg_keys r)) ?w = Inr d"
    using keyed_digest_total [OF assms] by blast
  ultimately show ?thesis
    by (auto simp: scan_window_def verify_window_def Let_def intro: exI try_collect_total)
qed

text \<open>With a working HMAC the scan never fails.\<close>

lemma try_collect_ex: "(\<And>x. \<exists>ys. f x = Inr ys) \<Longrightarrow> \<exists>ys. try_collect f xs = Inr ys"
  using try_collect_total [of xs f "\<lambda>x. projr (f x)"] by (metis sum.sel(2))

lemma scan_string_token_total:
  assumes "hmac_total c"
  shows "\<exists>spans. scan_string_token c bs r = Inr spans"
proof -
  have "\<exists>sps. scan_length c r bs l = Inr sps" for l
    using try_collect_ex [OF scan_window_total [OF assms]] by (auto simp: scan_length_def)
  from try_collect_ex [OF this] show ?thesis
    by (auto simp: scan_string_token_def split: option.splits)
qed

text \<open>Spans are hits, in order, disjoint and in range.\<close>

lemma scan_sound:
  assumes "registry_wf c r" and "scan_string_token c bs r = Inr spans"
  shows "\<forall>sp \<in> set spans. window_hit c r bs sp"
    and "sorted_wrt (\<lambda>a b. span_end a \<le> sp_start b) spans"
    and "edits_ok (length bs) 0 (span_edits spans)"
proof -
  obtain cands where c: "spans = select_longest_non_overlapping cands"
    "\<And>sp. sp \<in> set cands \<longleftrightarrow> window_hit c r bs sp"
    using scan_string_token_InrE [OF assms] by blast
  show "\<forall>sp \<in> set spans. window_hit c r bs sp"
    using c span_sel.select_subset by blast
  show "sorted_wrt (\<lambda>a b. span_end a \<le> sp_start b) spans"
    unfolding c(1) using c(2) window_hitD(1) by (intro span_sel.select_in_order) blast
  show "edits_ok (length bs) 0 (span_edits spans)"
    unfolding c(1) span_edits_def using c(2) window_hitD by (intro span_sel.select_edits_ok) blast
qed

lemma secret_occurrence_hit:
  assumes wf: "registry_wf c r" and s: "s \<in> set (secrets_of c r)" and o: "occurs_at s bs i"
  shows "\<exists>sp. window_hit c r bs sp \<and> sp_start sp = i \<and> sp_len sp = length s"
proof -
  obtain e where e: "e \<in> set (reg_entries r)" "secret_of c r e = Some s"
    using s by (auto simp: secrets_of_iff)
  obtain t where t: "secret_of c r e = Some t" "t \<noteq> []" "e_len e = length t"
    "keyed_digest c (k_match (reg_keys r)) t = Inr (e_digest e)"
    "prefilter_window c r t = Inr (e_prefilter e)"
    using entry_wfD [OF wf e(1)] by blast
  have "window_hit c r bs
      \<lparr>sp_start = i, sp_len = length s, sp_id = e_id e, sp_placeholder = e_placeholder e\<rparr>"
    using e t o by (auto simp: window_hit_def span_end_def occurs_at_def)
  then show ?thesis
    by (intro exI) auto
qed

lemma scan_complete:
  assumes "registry_wf c r" and "scan_string_token c bs r = Inr spans"
    and "s \<in> set (secrets_of c r)" and "occurs_at s bs i"
  shows "\<exists>sp \<in> set spans. sp_start sp < i + length s \<and> i < span_end sp \<and> length s \<le> sp_len sp"
proof -
  obtain cands where c: "spans = select_longest_non_overlapping cands"
    "\<And>sp. sp \<in> set cands \<longleftrightarrow> window_hit c r bs sp"
    using scan_string_token_InrE [OF assms(1,2)] by blast
  obtain h where h: "h \<in> set cands" "sp_start h = i" "sp_len h = length s"
    using secret_occurrence_hit [OF assms(1,3,4)] c(2) by blast
  then show ?thesis
    using span_sel.select_longest [OF h(1)] secrets_of_nonempty [OF assms(1,3)]
    by (force simp: c(1) span_end_def)
qed

text \<open>The redacted token: its placeholders, and between them fragments free of every secret.\<close>

definition secret_free :: "crypto \<Rightarrow> registry \<Rightarrow> bytes \<Rightarrow> bool" where
  "secret_free c r bs \<longleftrightarrow> (\<forall>s \<in> set (secrets_of c r). \<not> occurs_in s bs)"

lemma kept_fragments_secret_free:
  assumes "registry_wf c r" and "scan_string_token c bs r = Inr spans"
    and "g \<in> set (kept_fragments bs 0 (span_edits spans))"
  shows "secret_free c r g"
  unfolding secret_free_def
proof (intro ballI notI)
  fix s assume s: "s \<in> set (secrets_of c r)" and "occurs_in s g"
  then obtain k where k: "occurs_at s g k"
    by (auto simp: occurs_in_def)
  obtain i where i: "occurs_at s bs i"
    "\<forall>(a, b, r) \<in> set (span_edits spans). \<not> (a < i + length s \<and> i < b)"
    using kept_fragment_occurrence [OF scan_sound(3) [OF assms(1,2)] assms(3) k]
      secrets_of_nonempty [OF assms(1) s] by blast
  obtain sp where "sp \<in> set spans" "sp_start sp < i + length s" "i < span_end sp"
    using scan_complete [OF assms(1,2) s i(1)] by blast
  then show False
    using i(2) by (auto simp: span_edits_def)
qed

lemma apply_spans_weave:
  assumes "registry_wf c r" and "scan_string_token c bs r = Inr spans"
  shows "apply_spans bs spans =
    weave (kept_fragments bs 0 (span_edits spans)) (map sp_placeholder spans)"
  using apply_spans_eq [OF scan_sound(3) [OF assms]]
  by (simp add: replace_edits_weave span_edits_def comp_def)

lemma scan_secret_free:
  assumes "registry_wf c r" and "scan_string_token c bs r = Inr []"
  shows "secret_free c r bs"
  using kept_fragments_secret_free [OF assms] by (simp add: span_edits_def)

end
