(* ===== verification/Restore.thy ===== *)
theory Restore
  imports Scanner "HOL-Library.Multiset"
begin

text \<open>
  \<^verbatim>\<open>src/restore/matcher.rs\<close> and \<^verbatim>\<open>src/restore/stream.rs\<close>: putting the secrets back in
  place of their placeholders in a response that arrives in chunks. The crate
  \<^verbatim>\<open>aho_corasick\<close> is a parameter, with what it documents of non-overlapping matches as a
  predicate; so is the order in which a \<^verbatim>\<open>HashMap\<close> is iterated.
\<close>

section \<open>The matcher\<close>

text \<open>A match is (pattern index, start, end).\<close>

type_synonym automaton = "bytes \<Rightarrow> (nat \<times> nat \<times> nat) list"

record matcher_lib =
  ac_build :: "bytes list \<Rightarrow> automaton option"
  hash_order :: "(bytes \<times> u64) list \<Rightarrow> (bytes \<times> u64) list"

record placeholder_matcher =
  pm_automaton :: "automaton option"
  pm_ids :: "u64 list"
  pm_patterns :: "bytes list"

record placeholder_match =
  mt_start :: nat
  mt_end :: nat
  mt_id :: u64

definition matcher_new ::
  "matcher_lib \<Rightarrow> registry \<Rightarrow> crebro_error + placeholder_matcher" where
  "matcher_new lib r =
     (let pairs = hash_order lib (reg_placeholders r)
      in if pairs = [] then Inr \<lparr>pm_automaton = None, pm_ids = [], pm_patterns = []\<rparr>
         else
           let patterns = map fst pairs; ids = map snd pairs
           in and_then (ok_or (crebro_error.Restore ''placeholder matcher failed'')
                          (ac_build lib patterns)) (\<lambda>automaton.
                Inr \<lparr>pm_automaton = Some automaton, pm_ids = ids, pm_patterns = patterns\<rparr>))"

definition find_in :: "placeholder_matcher \<Rightarrow> bytes \<Rightarrow> placeholder_match list" where
  "find_in m bs =
     (case pm_automaton m of
        None \<Rightarrow> []
      | Some find_iter \<Rightarrow>
          map (\<lambda>(pattern, s, e). \<lparr>mt_start = s, mt_end = e, mt_id = pm_ids m ! pattern\<rparr>)
            (find_iter bs))"

definition max_pattern_len :: "placeholder_matcher \<Rightarrow> nat" where
  "max_pattern_len m = (if pm_patterns m = [] then 0 else Max (set (map length (pm_patterns m))))"

section \<open>The streaming restorer\<close>

record response_restorer =
  rr_matcher :: placeholder_matcher
  rr_buffer :: bytes
  rr_carry :: nat

definition restorer_new :: "matcher_lib \<Rightarrow> registry \<Rightarrow> crebro_error + response_restorer" where
  "restorer_new lib r =
     and_then (matcher_new lib r) (\<lambda>m.
       Inr \<lparr>rr_matcher = m, rr_buffer = [], rr_carry = max_pattern_len m - 1\<rparr>)"

text \<open>The loop of \<^verbatim>\<open>process_until\<close>; its result is (output, cursor, commit).\<close>

fun restore_matches ::
  "crypto \<Rightarrow> registry \<Rightarrow> bytes \<Rightarrow> nat \<Rightarrow> bytes \<Rightarrow> nat \<Rightarrow> nat \<Rightarrow> placeholder_match list \<Rightarrow>
   crebro_error + bytes \<times> nat \<times> nat" where
  "restore_matches c r buffer safe_end out cursor commit [] = Inr (out, cursor, commit)"
| "restore_matches c r buffer safe_end out cursor commit (m # ms) =
     (if safe_end \<le> mt_start m then Inr (out, cursor, commit)
      else if mt_start m < cursor then restore_matches c r buffer safe_end out cursor commit ms
      else and_then (restore_to_vec c r (mt_id m) (out @ sub_bytes buffer cursor (mt_start m)))
        (\<lambda>out. restore_matches c r buffer safe_end out (mt_end m)
                 (if commit < mt_end m then mt_end m else commit) ms))"

definition process_until ::
  "crypto \<Rightarrow> registry \<Rightarrow> nat \<Rightarrow> response_restorer \<Rightarrow> (crebro_error + bytes) \<times> response_restorer" where
  "process_until c r safe_end rr =
     (if safe_end = 0 then (Inr [], rr)
      else
        and_then_st
          (restore_matches c r (rr_buffer rr) safe_end [] 0 safe_end
             (find_in (rr_matcher rr) (rr_buffer rr)), rr)
          (\<lambda>(out, cursor, commit_until) rr.
             (Inr (out @ (if cursor < safe_end then sub_bytes (rr_buffer rr) cursor safe_end else [])),
              rr\<lparr>rr_buffer := drop commit_until (rr_buffer rr)\<rparr>)))"

definition push_chunk ::
  "crypto \<Rightarrow> bytes \<Rightarrow> registry \<Rightarrow> response_restorer \<Rightarrow> (crebro_error + bytes) \<times> response_restorer" where
  "push_chunk c chunk r rr =
     (let rr = rr\<lparr>rr_buffer := rr_buffer rr @ chunk\<rparr>
      in process_until c r (length (rr_buffer rr) - rr_carry rr) rr)"

definition restorer_finish ::
  "crypto \<Rightarrow> registry \<Rightarrow> response_restorer \<Rightarrow> crebro_error + bytes" where
  "restorer_finish c r rr = fst (process_until c r (length (rr_buffer rr)) rr)"

text \<open>
  A whole response: one \<open>push_chunk\<close> per chunk, then \<open>finish\<close>. The registry may have grown in
  between, so each call has its own.
\<close>

fun restore_chunks ::
  "crypto \<Rightarrow> (bytes \<times> registry) list \<Rightarrow> registry \<Rightarrow> response_restorer \<Rightarrow> crebro_error + bytes" where
  "restore_chunks c [] r rr = restorer_finish c r rr"
| "restore_chunks c ((chunk, r') # chunks) r rr =
     (case push_chunk c chunk r' rr of
        (Inl err, rr) \<Rightarrow> Inl err
      | (Inr out, rr) \<Rightarrow> and_then (restore_chunks c chunks r rr) (\<lambda>rest. Inr (out @ rest)))"

section \<open>Patterns that keep apart\<close>

text \<open>
  The interface between the shape of the placeholders and the restoration: occurrences of
  patterns never overlap, and at one place at most one pattern occurs.
\<close>

fun restore_text :: "(bytes \<times> bytes) list \<Rightarrow> bytes \<Rightarrow> bytes" where
  "restore_text table [] = []"
| "restore_text table (ch # cs) =
     (case List.find (\<lambda>(p, s). prefix p (ch # cs)) table of
        None \<Rightarrow> ch # restore_text table cs
      | Some (p, s) \<Rightarrow> s @ restore_text table (drop (length p - 1) cs))"

text \<open>\<open>unsplit table a b\<close>: no pattern begins in \<open>a\<close> and ends in \<open>b\<close>.\<close>

definition unsplit :: "(bytes \<times> bytes) list \<Rightarrow> bytes \<Rightarrow> bytes \<Rightarrow> bool" where
  "unsplit table a b \<longleftrightarrow>
     (\<forall>(p, s) \<in> set table. \<forall>i < length a. occurs_at p (a @ b) i \<longrightarrow> i + length p \<le> length a)"

lemma find_prefix_append:
  assumes "unsplit table (ch # cs) b"
  shows "List.find (\<lambda>(p, s). prefix p ((ch # cs) @ b)) table =
    List.find (\<lambda>(p, s). prefix p (ch # cs)) table"
proof (rule find_cong [OF refl], clarify)
  fix p s assume "(p, s) \<in> set table"
  then have "prefix p ((ch # cs) @ b) \<Longrightarrow> length p \<le> length (ch # cs)"
    using assms by (fastforce simp: unsplit_def occurs_at_0)
  then show "prefix p ((ch # cs) @ b) = prefix p (ch # cs)"
    using prefix_length_prefix [of p "(ch # cs) @ b" "ch # cs"] prefix_prefix [of p "ch # cs" b] by auto
qed

lemma unsplit_drop:
  assumes "unsplit table a b"
  shows "unsplit table (drop k a) b"
  unfolding unsplit_def
proof clarify
  fix p s i assume p: "(p, s) \<in> set table" and i: "i < length (drop k a)"
    and o: "occurs_at p (drop k a @ b) i"
  have "occurs_at p (take k a @ (drop k a @ b)) (length (take k a) + i)"
    using o by (simp only: occurs_at_append_left)
  moreover have "take k a @ (drop k a @ b) = a @ b"
    by (metis append.assoc append_take_drop_id)
  ultimately have "occurs_at p (a @ b) (k + i)"
    using i by simp
  then have "k + i + length p \<le> length a"
    using assms p i by (fastforce simp: unsplit_def)
  then show "i + length p \<le> length (drop k a)"
    by simp
qed

lemma restore_text_append:
  assumes "unsplit table a b" and "\<forall>(p, s) \<in> set table. p \<noteq> []"
  shows "restore_text table (a @ b) = restore_text table a @ restore_text table b"
  using assms
proof (induction table a rule: restore_text.induct)
  case (1 table)
  then show ?case by simp
next
  case (2 table ch cs)
  note fp = find_prefix_append [OF 2(3)]
  show ?case
  proof (cases "List.find (\<lambda>(p, s). prefix p (ch # cs)) table")
    case None
    then show ?thesis
      using 2(1) [OF None _ 2(4)] unsplit_drop [OF 2(3), of 1] fp by simp
  next
    case (Some x)
    obtain p s where x: "x = (p, s)" by (cases x)
    then have ps: "(p, s) \<in> set table" "prefix p (ch # cs)"
      using nth_mem_list_find [OF Some] by auto
    then have len: "length p - 1 \<le> length cs" "p \<noteq> []"
      using 2(4) by (auto dest: prefix_length_le)
    have "unsplit table (drop (length p - 1) cs) b"
      using unsplit_drop [OF 2(3), of "length p"] len by (cases p) simp_all
    then show ?thesis
      using 2(2) [OF Some x [symmetric] _ 2(4)] fp Some x len by simp
  qed
qed

definition pattern_free :: "(bytes \<times> bytes) list \<Rightarrow> bytes \<Rightarrow> bool" where
  "pattern_free table bs \<longleftrightarrow> (\<forall>(p, s) \<in> set table. \<not> occurs_in p bs)"

lemma restore_text_free: "pattern_free table bs \<Longrightarrow> restore_text table bs = bs"
proof (induction table bs rule: restore_text.induct)
  case (2 table ch cs)
  have none: "List.find (\<lambda>(p, s). prefix p (ch # cs)) table = None"
    using 2(3) by (fastforce simp: find_None_iff pattern_free_def occurs_at_0 [symmetric]
        intro: occurs_inI)
  have "pattern_free table cs"
    using 2(3) occurs_in_append2 [of _ cs "[ch]"] by (auto simp: pattern_free_def)
  then show ?case
    using 2(1) [OF none] none by simp
qed simp

locale apart_patterns =
  fixes pat :: "bytes \<Rightarrow> bool"
  assumes pat_nonempty: "pat p \<Longrightarrow> p \<noteq> []"
    and pat_apart:
      "pat p \<Longrightarrow> occurs_at p bs i \<Longrightarrow> pat q \<Longrightarrow> occurs_at q bs j \<Longrightarrow> i < j \<Longrightarrow> i + length p \<le> j"
    and pat_same: "pat p \<Longrightarrow> occurs_at p bs i \<Longrightarrow> pat q \<Longrightarrow> occurs_at q bs i \<Longrightarrow> p = q"
begin

text \<open>The patterns of a table: one replacement for each.\<close>

definition table_ok :: "(bytes \<times> bytes) list \<Rightarrow> bool" where
  "table_ok table \<longleftrightarrow> (\<forall>(p, s) \<in> set table. pat p) \<and> distinct (map fst table)"

lemma table_find:
  assumes "table_ok table" and "(p, s) \<in> set table" and "prefix p bs"
  shows "List.find (\<lambda>(p, s). prefix p bs) table = Some (p, s)"
proof -
  obtain q t where f: "List.find (\<lambda>(p, s). prefix p bs) table = Some (q, t)"
    using assms(2,3) by (cases "List.find (\<lambda>(p, s). prefix p bs) table") (auto simp: find_None_iff)
  then have q: "(q, t) \<in> set table" "prefix q bs"
    using nth_mem_list_find [OF f] by auto
  have "occurs_at p bs 0" "occurs_at q bs 0" "pat p" "pat q"
    using assms q by (auto simp: occurs_at_0 table_ok_def)
  then have "p = q"
    using pat_same by blast
  then show ?thesis
    using f q assms(1,2) by (auto simp: table_ok_def dest: eq_key_imp_eq_value)
qed

lemma unsplit_before:
  assumes "table_ok table" and "pat p"
  shows "unsplit table a (p @ b)"
  unfolding unsplit_def
proof clarify
  fix q s i assume "(q, s) \<in> set table" "i < length a" "occurs_at q (a @ p @ b) i"
  moreover have "occurs_at p (a @ p @ b) (length a)"
    by (auto simp: occurs_at_split)
  ultimately show "i + length q \<le> length a"
    using assms pat_apart by (auto simp: table_ok_def)
qed

lemma unsplit_after:
  assumes "table_ok table" and "pat p"
  shows "unsplit table p b"
  unfolding unsplit_def
proof clarify
  fix q s i assume q: "(q, s) \<in> set table" and i: "i < length p" and o: "occurs_at q (p @ b) i"
  have p: "occurs_at p (p @ b) 0"
    by (simp add: occurs_at_0)
  have "pat q"
    using assms(1) q by (auto simp: table_ok_def)
  show "i + length q \<le> length p"
  proof (cases "i = 0")
    case True
    then show ?thesis
      using pat_same [OF assms(2) p \<open>pat q\<close>] o by simp
  next
    case False
    then show ?thesis
      using pat_apart [OF assms(2) p \<open>pat q\<close> o] i by simp
  qed
qed

lemma table_nonempty: "table_ok table \<Longrightarrow> \<forall>(p, s) \<in> set table. p \<noteq> []"
  using pat_nonempty by (auto simp: table_ok_def)

lemma restore_pattern:
  assumes "table_ok table" and "(p, s) \<in> set table"
  shows "restore_text table (p @ b) = s @ restore_text table b"
proof -
  have p: "pat p"
    using assms by (auto simp: table_ok_def)
  have "restore_text table (p @ b) = restore_text table p @ restore_text table b"
    using restore_text_append [OF unsplit_after [OF assms(1) p] table_nonempty [OF assms(1)]] .
  moreover have "restore_text table p = s"
    using table_find [OF assms, of p] pat_nonempty [OF p] by (cases p) auto
  ultimately show ?thesis by simp
qed

text \<open>Text without patterns, woven with patterns, is restored piece by piece.\<close>

lemma restore_weave:
  assumes "table_ok table" and "\<forall>g \<in> set frags. pattern_free table g"
    and "list_all2 (\<lambda>p s. (p, s) \<in> set table) ps ss" and "length frags = Suc (length ps)"
  shows "restore_text table (weave frags ps) = weave frags ss"
  using assms(2-)
proof (induction ps arbitrary: frags ss)
  case Nil
  then obtain g where "frags = [g]"
    by (cases frags) auto
  then show ?case
    using Nil by (simp add: restore_text_free)
next
  case (Cons p ps)
  then obtain g gs s ss' where *: "frags = g # gs" "ss = s # ss'" "(p, s) \<in> set table"
    "list_all2 (\<lambda>p s. (p, s) \<in> set table) ps ss'"
    by (cases frags; cases ss) auto
  have p: "pat p"
    using assms(1) *(3) by (auto simp: table_ok_def)
  have "restore_text table (g @ p @ weave gs ps) =
      restore_text table g @ restore_text table (p @ weave gs ps)"
    using restore_text_append [OF unsplit_before [OF assms(1) p] table_nonempty [OF assms(1)]] .
  also have "\<dots> = g @ s @ restore_text table (weave gs ps)"
    using restore_pattern [OF assms(1) *(3)] restore_text_free Cons.prems(1) *(1) by simp
  also have "restore_text table (weave gs ps) = weave gs ss'"
    using Cons * by (intro Cons.IH) auto
  finally show ?case
    using * by simp
qed

end

interpretation brace: apart_patterns brace_shape
proof unfold_locales
  fix p assume "brace_shape p"
  then show "p \<noteq> []"
    using brace_length by fastforce
qed (rule brace_apart brace_same_start; assumption)+


section \<open>What the crates promise\<close>

text \<open>
  \<^verbatim>\<open>AhoCorasick::find_iter\<close> with its default match kind: the matches are occurrences of the
  patterns, in order and not overlapping, and an occurrence that is not reported overlaps one
  that is.
\<close>

definition automaton_ok :: "bytes list \<Rightarrow> automaton \<Rightarrow> bool" where
  "automaton_ok pats find_iter \<longleftrightarrow>
     (\<forall>bs.
        (\<forall>k s e. (k, s, e) \<in> set (find_iter bs) \<longrightarrow>
           k < length pats \<and> occurs_at (pats ! k) bs s \<and> e = s + length (pats ! k)) \<and>
        sorted_wrt (\<lambda>(_, _, e) (_, s, _). e \<le> s) (find_iter bs) \<and>
        (\<forall>k < length pats. \<forall>i. occurs_at (pats ! k) bs i \<longrightarrow>
           (\<exists>k' s e. (k', s, e) \<in> set (find_iter bs) \<and> s < i + length (pats ! k) \<and> i < e)))"

lemma automaton_okD:
  assumes "automaton_ok pats find_iter"
  shows "(k, s, e) \<in> set (find_iter bs) \<Longrightarrow>
      k < length pats \<and> occurs_at (pats ! k) bs s \<and> e = s + length (pats ! k)"
    and "sorted_wrt (\<lambda>(_, _, e) (_, s, _). e \<le> s) (find_iter bs)"
    and "k < length pats \<Longrightarrow> occurs_at (pats ! k) bs i \<Longrightarrow>
      \<exists>k' s e. (k', s, e) \<in> set (find_iter bs) \<and> s < i + length (pats ! k) \<and> i < e"
  using assms unfolding automaton_ok_def by blast+

definition lib_ok :: "matcher_lib \<Rightarrow> bool" where
  "lib_ok lib \<longleftrightarrow>
     (\<forall>pats find_iter. ac_build lib pats = Some find_iter \<longrightarrow> automaton_ok pats find_iter) \<and>
     (\<forall>pairs. mset (hash_order lib pairs) = mset pairs)"

text \<open>The placeholders of a registry with the secrets they stand for.\<close>

definition secret_table :: "crypto \<Rightarrow> registry \<Rightarrow> (bytes \<times> bytes) list" where
  "secret_table c r =
     List.map_filter (\<lambda>(ph, ident).
       case entry_of r ident of
         None \<Rightarrow> None
       | Some e \<Rightarrow> map_option (Pair ph) (secret_of c r e)) (reg_placeholders r)"

lemma reg_placeholders_entry:
  assumes wf: "registry_wf c r" and "(ph, ident) \<in> set (reg_placeholders r)"
  obtains e s where "e \<in> set (reg_entries r)" "e_placeholder e = ph" "e_id e = ident"
    "entry_of r ident = Some e" "secret_of c r e = Some s"
proof -
  have d: "distinct (map fst (reg_placeholders r))"
    "map_of (reg_placeholders r) = map_of (map (\<lambda>e. (e_placeholder e, e_id e)) (rev (reg_entries r)))"
    using wf by (simp_all add: registry_wf_def)
  have "map_of (reg_placeholders r) ph = Some ident"
    using d(1) assms(2) by simp
  then have "(ph, ident) \<in> set (map (\<lambda>e. (e_placeholder e, e_id e)) (rev (reg_entries r)))"
    using d(2) by (metis map_of_SomeD)
  then obtain e where e: "e \<in> set (reg_entries r)" "e_placeholder e = ph" "e_id e = ident"
    by auto
  obtain s where "secret_of c r e = Some s"
    using entry_wfD [OF wf e(1)] by blast
  then show ?thesis
    using that e entry_of_id [OF wf e(1)] by simp
qed

lemma secret_table_iff:
  assumes "registry_wf c r"
  shows "(p, s) \<in> set (secret_table c r) \<longleftrightarrow>
    (\<exists>ident. (p, ident) \<in> set (reg_placeholders r) \<and> registry_holds c r ident s)"
  by (force simp: secret_table_def map_filter_def registry_holds_iff split: option.splits)

lemma secret_table_fst:
  assumes "registry_wf c r"
  shows "map fst (secret_table c r) = map fst (reg_placeholders r)"
proof -
  have "map fst (List.map_filter (\<lambda>(ph, ident). case entry_of r ident of
         None \<Rightarrow> None | Some e \<Rightarrow> map_option (Pair ph) (secret_of c r e)) ps) = map fst ps"
    if "set ps \<subseteq> set (reg_placeholders r)" for ps
    using that
  proof (induction ps)
    case (Cons x ps)
    obtain ph ident where x: "x = (ph, ident)" by (cases x)
    have "(ph, ident) \<in> set (reg_placeholders r)"
      using x Cons.prems by simp
    then obtain e s where "entry_of r ident = Some e" "secret_of c r e = Some s"
      by (rule reg_placeholders_entry [OF assms])
    then show ?case
      using Cons x by (simp add: map_filter_simps)
  qed (simp add: map_filter_simps)
  then show ?thesis
    by (simp add: secret_table_def)
qed

lemma entry_placeholder_shape:
  assumes "registry_wf c r" and "hex_lowercase c" and "e \<in> set (reg_entries r)"
  shows "brace_shape (e_placeholder e)"
  using entry_wfD [OF assms(1,3)] placeholder_shape assms(2) by metis

lemma secret_table_ok:
  assumes wf: "registry_wf c r" and hex: "hex_lowercase c"
  shows "brace.table_ok (secret_table c r)"
proof -
  have "brace_shape p" if "(p, s) \<in> set (secret_table c r)" for p s
    using that reg_placeholders_entry [OF wf] entry_placeholder_shape [OF wf hex]
    by (metis secret_table_iff [OF wf])
  moreover have "distinct (map fst (secret_table c r))"
    using wf by (simp add: secret_table_fst registry_wf_def)
  ultimately show ?thesis
    by (auto simp: brace.table_ok_def)
qed

section \<open>The matches are the occurrences\<close>

text \<open>What a list of matches has to be for the loop of \<open>process_until\<close>, from a cursor on.\<close>

definition covers ::
  "crypto \<Rightarrow> registry \<Rightarrow> (bytes \<times> bytes) list \<Rightarrow> bytes \<Rightarrow> nat \<Rightarrow> placeholder_match list \<Rightarrow> bool" where
  "covers c r table bs cursor ms \<longleftrightarrow>
     (\<forall>m \<in> set ms. cursor \<le> mt_start m \<and> (\<exists>p s. (p, s) \<in> set table \<and> p \<noteq> [] \<and>
        occurs_at p bs (mt_start m) \<and> mt_end m = mt_start m + length p \<and>
        registry_holds c r (mt_id m) s)) \<and>
     sorted_wrt (\<lambda>a b. mt_end a \<le> mt_start b) ms \<and>
     (\<forall>(p, s) \<in> set table. \<forall>i \<ge> cursor. occurs_at p bs i \<longrightarrow> (\<exists>m \<in> set ms. mt_start m = i))"

lemma covers_step: "registry_step c r r' \<Longrightarrow> covers c r table bs cur ms \<Longrightarrow> covers c r' table bs cur ms"
  unfolding covers_def using registry_holds_step by blast

lemma covers_found:
  "covers c r table bs cursor ms \<Longrightarrow> (p, s) \<in> set table \<Longrightarrow> cursor \<le> i \<Longrightarrow> occurs_at p bs i \<Longrightarrow>
   \<exists>m \<in> set ms. mt_start m = i"
  by (auto simp: covers_def)

lemma coversI:
  assumes "\<And>m. m \<in> set ms \<Longrightarrow> cursor \<le> mt_start m"
    and "\<And>m. m \<in> set ms \<Longrightarrow> \<exists>p s. (p, s) \<in> set table \<and> p \<noteq> [] \<and>
      occurs_at p bs (mt_start m) \<and> mt_end m = mt_start m + length p \<and> registry_holds c r (mt_id m) s"
    and "sorted_wrt (\<lambda>a b. mt_end a \<le> mt_start b) ms"
    and "\<And>p s i. (p, s) \<in> set table \<Longrightarrow> cursor \<le> i \<Longrightarrow> occurs_at p bs i \<Longrightarrow> \<exists>m \<in> set ms. mt_start m = i"
  shows "covers c r table bs cursor ms"
  using assms by (auto simp: covers_def)

lemma covers_each:
  "covers c r table bs cursor ms \<Longrightarrow> m \<in> set ms \<Longrightarrow> \<exists>p s. (p, s) \<in> set table \<and> p \<noteq> [] \<and>
     occurs_at p bs (mt_start m) \<and> mt_end m = mt_start m + length p \<and> registry_holds c r (mt_id m) s"
  by (simp add: covers_def)

lemma covers_tl:
  assumes "covers c r table bs cursor (m # ms)"
  shows "covers c r table bs (mt_end m) ms"
proof -
  have m: "cursor \<le> mt_start m" "mt_start m < mt_end m"
    using assms by (auto simp: covers_def)
  have "\<exists>x \<in> set ms. mt_start x = i"
    if "(p, s) \<in> set table" "mt_end m \<le> i" "occurs_at p bs i" for p s i
  proof -
    note t = that
    have "cursor \<le> i"
      using m t by simp
    then obtain x where "x \<in> set (m # ms)" "mt_start x = i"
      using covers_found [OF assms t(1) _ t(3)] by blast
    moreover have "x \<noteq> m"
      using calculation m(2) t(2) by auto
    ultimately show ?thesis by auto
  qed
  moreover have "sorted_wrt (\<lambda>a b. mt_end a \<le> mt_start b) ms"
    "\<forall>x \<in> set ms. mt_end m \<le> mt_start x"
    using assms by (simp_all add: covers_def)
  moreover have "\<exists>p s. (p, s) \<in> set table \<and> p \<noteq> [] \<and>
      occurs_at p bs (mt_start x) \<and> mt_end x = mt_start x + length p \<and> registry_holds c r (mt_id x) s"
    if "x \<in> set ms" for x
    using assms that by (auto simp: covers_def)
  ultimately show ?thesis
    by (intro coversI) blast+
qed

lemma covers_free:
  assumes "covers c r table bs cursor ms" and "\<forall>m \<in> set ms. j \<le> mt_start m" and "j \<le> length bs"
    and "brace.table_ok table"
  shows "pattern_free table (sub_bytes bs cursor j)"
  unfolding pattern_free_def
proof clarify
  fix p s assume p: "(p, s) \<in> set table" and "occurs_in p (sub_bytes bs cursor j)"
  then obtain k where k: "occurs_at p (sub_bytes bs cursor j) k"
    by (auto simp: occurs_in_def)
  have ne: "p \<noteq> []"
    using p brace.table_nonempty [OF assms(4)] by auto
  have "k + length p \<le> j - cursor"
    using occurs_atD(1) [OF k] assms(3) by simp
  moreover have "0 < length p"
    using ne by simp
  ultimately have len: "cursor + k + length p \<le> j"
    by arith
  have "occurs_at p bs (cursor + k)"
    using k len assms(3) occurs_at_sub_bytes [of cursor "cursor + k" p j bs] by simp
  then obtain m where "m \<in> set ms" "mt_start m = cursor + k"
    using covers_found [OF assms(1) p, of "cursor + k"] by auto
  then have "j \<le> cursor + k"
    using assms(2) by metis
  then show False
    using len ne by (cases p) auto
qed

text \<open>The loop of \<open>process_until\<close>, against the reference.\<close>

lemma restore_matches_text:
  assumes "covers c r table bs cursor ms" and "brace.table_ok table"
    and "cursor \<le> length bs" and "safe_end \<le> length bs"
  shows "\<exists>out' cursor' commit.
    restore_matches c r bs safe_end out cursor (max safe_end cursor) ms = Inr (out', cursor', commit) \<and>
    commit = max safe_end cursor' \<and> cursor \<le> cursor' \<and> cursor' \<le> length bs \<and>
    out' @ (if cursor' < safe_end then sub_bytes bs cursor' safe_end else []) =
      out @ restore_text table (sub_bytes bs cursor commit) \<and>
    (\<forall>m \<in> set ms. mt_start m < safe_end \<longrightarrow> mt_end m \<le> commit) \<and>
    (cursor' = cursor \<or> (\<exists>m \<in> set ms. mt_end m = cursor' \<and> mt_start m < safe_end))"
  using assms(1,3)
proof (induction ms arbitrary: out cursor)
  case Nil
  then have "pattern_free table (sub_bytes bs cursor (max safe_end cursor))"
    using covers_free [of c r table bs cursor "[]"] assms(2,4) by simp
  then show ?case
    using Nil by (auto simp: restore_text_free max_def)
next
  case (Cons m ms)
  show ?case
  proof (cases "safe_end \<le> mt_start m")
    case True
    have later: "\<forall>x \<in> set (m # ms). max safe_end cursor \<le> mt_start x"
      using Cons.prems(1) True by (fastforce simp: covers_def)
    then have "pattern_free table (sub_bytes bs cursor (max safe_end cursor))"
      using covers_free [OF Cons.prems(1) later] assms(2,4) Cons.prems(2) by simp
    then show ?thesis
      using True later Cons.prems(2) by (auto simp: restore_text_free max_def)
  next
    case False
    obtain p s where p: "(p, s) \<in> set table" "p \<noteq> []" "occurs_at p bs (mt_start m)"
      "mt_end m = mt_start m + length p" "registry_holds c r (mt_id m) s"
      and cur: "cursor \<le> mt_start m"
      using Cons.prems(1) unfolding covers_def by auto
    have e: "mt_end m \<le> length bs"
      using occurs_atD(1) [OF p(3)] p(4) by simp
    have rest: "restore_to_vec c r (mt_id m) out1 = Inr (out1 @ s)" for out1
      using p(5) by (auto simp: registry_holds_iff intro: restore_to_vec_eq)
    let ?frag = "sub_bytes bs cursor (mt_start m)"
    obtain out' cursor' commit where IH:
      "restore_matches c r bs safe_end (out @ ?frag @ s) (mt_end m) (max safe_end (mt_end m)) ms =
         Inr (out', cursor', commit)"
      "commit = max safe_end cursor'" "mt_end m \<le> cursor'" "cursor' \<le> length bs"
      "out' @ (if cursor' < safe_end then sub_bytes bs cursor' safe_end else []) =
         (out @ ?frag @ s) @ restore_text table (sub_bytes bs (mt_end m) commit)"
      "\<forall>m \<in> set ms. mt_start m < safe_end \<longrightarrow> mt_end m \<le> commit"
      "cursor' = mt_end m \<or> (\<exists>m \<in> set ms. mt_end m = cursor' \<and> mt_start m < safe_end)"
      using Cons.IH [OF covers_tl [OF Cons.prems(1)] e] by metis
    have commit: "mt_end m \<le> commit" "commit \<le> length bs"
      using IH(2-4) assms(4) by auto
    have "pattern_free table ?frag"
      using covers_free [OF Cons.prems(1), of "mt_start m"] Cons.prems(1) e p(4) assms(2)
      by (fastforce simp: covers_def)
    moreover have "sub_bytes bs cursor commit = ?frag @ p @ sub_bytes bs (mt_end m) commit"
      using cur p(4) commit occurs_atD(2) [OF p(3)]
      by (metis le_add1 sub_bytes_append order_trans)
    moreover have "brace_shape p"
      using assms(2) p(1) by (auto simp: brace.table_ok_def)
    ultimately have "restore_text table (sub_bytes bs cursor commit) =
        ?frag @ s @ restore_text table (sub_bytes bs (mt_end m) commit)"
      using restore_text_append [OF brace.unsplit_before brace.table_nonempty] assms(2)
        brace.restore_pattern [OF assms(2) p(1)] restore_text_free by metis
    moreover have "(if max safe_end cursor < mt_end m then mt_end m else max safe_end cursor) =
        max safe_end (mt_end m)"
      using cur p(4) by (auto simp: max_def)
    ultimately have run: "restore_matches c r bs safe_end out cursor (max safe_end cursor) (m # ms) =
        Inr (out', cursor', commit)"
      and woven: "out @ restore_text table (sub_bytes bs cursor commit) =
        (out @ ?frag @ s) @ restore_text table (sub_bytes bs (mt_end m) commit)"
      using False cur rest IH(1) by (cases "safe_end < mt_end m"; simp add: not_less max_absorb1 max_absorb2)+
    have "\<forall>x \<in> set (m # ms). mt_start x < safe_end \<longrightarrow> mt_end x \<le> commit"
      "cursor' = cursor \<or> (\<exists>x \<in> set (m # ms). mt_end x = cursor' \<and> mt_start x < safe_end)"
      "cursor \<le> cursor'"
      using IH(3,6,7) commit(1) False cur p(4) by auto
    then show ?thesis
      using run woven IH(2,4,5) by (intro exI [of _ out'] exI [of _ cursor'] exI [of _ commit]) simp
  qed
qed


text \<open>A matcher built from a registry finds, in every text, all placeholders and nothing else.\<close>

definition matcher_for ::
  "crypto \<Rightarrow> registry \<Rightarrow> (bytes \<times> bytes) list \<Rightarrow> placeholder_matcher \<Rightarrow> bool" where
  "matcher_for c r table m \<longleftrightarrow>
     (\<forall>bs. covers c r table bs 0 (find_in m bs)) \<and>
     (\<forall>(p, s) \<in> set table. length p \<le> max_pattern_len m)"

lemma matcher_for_step: "registry_step c r r' \<Longrightarrow> matcher_for c r table m \<Longrightarrow> matcher_for c r' table m"
  unfolding matcher_for_def using covers_step by blast

lemma matcher_new_for:
  assumes lib: "lib_ok lib" and wf: "registry_wf c r" and hex: "hex_lowercase c"
    and run: "matcher_new lib r = Inr m"
  shows "matcher_for c r (secret_table c r) m"
proof (cases "hash_order lib (reg_placeholders r) = []")
  case True
  then have "reg_placeholders r = []"
    using lib by (metis lib_ok_def mset_zero_iff)
  then show ?thesis
    using run True
    by (auto simp: matcher_new_def matcher_for_def secret_table_def map_filter_simps covers_def find_in_def)
next
  case False
  define pairs where "pairs = hash_order lib (reg_placeholders r)"
  obtain f where f: "ac_build lib (map fst pairs) = Some f"
    and m: "m = \<lparr>pm_automaton = Some f, pm_ids = map snd pairs, pm_patterns = map fst pairs\<rparr>"
    using run False by (auto simp: matcher_new_def pairs_def Let_def)
  have ok: "automaton_ok (map fst pairs) f"
    using lib f by (auto simp: lib_ok_def)
  have "mset pairs = mset (reg_placeholders r)"
    using lib by (simp add: lib_ok_def pairs_def)
  then have set_pairs: "set pairs = set (reg_placeholders r)"
    by (rule mset_eq_setD)
  let ?table = "secret_table c r"
  have tab: "brace.table_ok ?table"
    by (rule secret_table_ok [OF wf hex])
  have pat: "\<exists>s. (fst (pairs ! k), s) \<in> set ?table \<and> registry_holds c r (snd (pairs ! k)) s"
    if "k < length pairs" for k
  proof -
    have "pairs ! k \<in> set (reg_placeholders r)"
      using that set_pairs nth_mem by blast
    then have in_r: "(fst (pairs ! k), snd (pairs ! k)) \<in> set (reg_placeholders r)"
      by simp
    obtain e s where "entry_of r (snd (pairs ! k)) = Some e" "secret_of c r e = Some s"
      by (rule reg_placeholders_entry [OF wf in_r])
    then have "registry_holds c r (snd (pairs ! k)) s"
      by (simp add: registry_holds_iff)
    then show ?thesis
      using in_r secret_table_iff [OF wf] by blast
  qed
  have pat2: "\<exists>k < length pairs. fst (pairs ! k) = p" if "(p, s) \<in> set ?table" for p s
  proof -
    have "\<exists>ident. (p, ident) \<in> set pairs"
      using that set_pairs secret_table_iff [OF wf] by blast
    then obtain ident where "(p, ident) \<in> set pairs" ..
    then show ?thesis
      by (metis fst_conv in_set_conv_nth)
  qed
  have "covers c r ?table bs 0 (find_in m bs)" for bs
  proof (rule coversI)
    fix x assume "x \<in> set (find_in m bs)"
    then obtain k st e where x: "(k, st, e) \<in> set (f bs)"
      "x = \<lparr>mt_start = st, mt_end = e, mt_id = map snd pairs ! k\<rparr>"
      by (auto simp: find_in_def m)
    then have k: "k < length pairs" "occurs_at (fst (pairs ! k)) bs st"
      "e = st + length (fst (pairs ! k))"
      using automaton_okD(1) [OF ok x(1)] by auto
    then show "\<exists>p s. (p, s) \<in> set ?table \<and> p \<noteq> [] \<and> occurs_at p bs (mt_start x) \<and>
        mt_end x = mt_start x + length p \<and> registry_holds c r (mt_id x) s"
      using pat [OF k(1)] brace.table_nonempty [OF tab] x by fastforce
  next
    have "sorted_wrt (\<lambda>(_, _, e) (_, s, _). e \<le> s) (f bs)"
      by (rule automaton_okD(2) [OF ok])
    then show "sorted_wrt (\<lambda>a b. mt_end a \<le> mt_start b) (find_in m bs)"
      by (simp add: find_in_def m sorted_wrt_map case_prod_beta')
  next
    fix p s i assume p: "(p, s) \<in> set ?table" and o: "occurs_at p bs i"
    obtain k where k: "k < length pairs" "fst (pairs ! k) = p"
      using pat2 [OF p] by blast
    then obtain k' st e where h: "(k', st, e) \<in> set (f bs)" "st < i + length p" "i < e"
      using automaton_okD(3) [OF ok, of k bs i] o by auto
    then have k': "k' < length pairs" "occurs_at (fst (pairs ! k')) bs st"
      "e = st + length (fst (pairs ! k'))"
      using automaton_okD(1) [OF ok h(1)] by auto
    obtain t where t: "(fst (pairs ! k'), t) \<in> set ?table"
      using pat [OF k'(1)] by blast
    have b: "brace_shape p" "brace_shape (fst (pairs ! k'))"
      using tab p t by (auto simp: brace.table_ok_def)
    have "st = i"
      using brace_apart [OF b(1) o b(2) k'(2)] brace_apart [OF b(2) k'(2) b(1) o] h k'(3) by linarith
    then show "\<exists>x \<in> set (find_in m bs). mt_start x = i"
      using h(1) by (force simp: find_in_def m)
  qed simp
  moreover have "length p \<le> max_pattern_len m" if "(p, s) \<in> set ?table" for p s
  proof -
    obtain k where "k < length pairs" "fst (pairs ! k) = p"
      using pat2 [OF \<open>(p, s) \<in> set ?table\<close>] by blast
    then have "p \<in> set (pm_patterns m)"
      by (metis length_map m nth_map nth_mem placeholder_matcher.select_convs(3))
    then show ?thesis
      by (auto simp: max_pattern_len_def intro: Max_ge)
  qed
  ultimately show ?thesis
    by (auto simp: matcher_for_def)
qed

section \<open>Chunks do not matter\<close>

lemma process_until_text:
  assumes m: "matcher_for c r table (rr_matcher rr)" and tab: "brace.table_ok table"
    and safe: "safe_end \<le> length (rr_buffer rr)"
  obtains k where "process_until c r safe_end rr =
      (Inr (restore_text table (take k (rr_buffer rr))), rr\<lparr>rr_buffer := drop k (rr_buffer rr)\<rparr>)"
    "safe_end \<le> k" "k \<le> length (rr_buffer rr)"
    "\<And>p s i. (p, s) \<in> set table \<Longrightarrow> occurs_at p (rr_buffer rr) i \<Longrightarrow> i < safe_end \<Longrightarrow> i + length p \<le> k"
    "k = safe_end \<or> (\<exists>p s i. (p, s) \<in> set table \<and> occurs_at p (rr_buffer rr) i \<and>
       i < safe_end \<and> k = i + length p)"
proof (cases "safe_end = 0")
  case True
  then show ?thesis
    using that [of 0] by (simp add: process_until_def)
next
  case False
  let ?b = "rr_buffer rr" and ?ms = "find_in (rr_matcher rr) (rr_buffer rr)"
  have cov: "covers c r table ?b 0 ?ms"
    using m by (simp add: matcher_for_def)
  obtain out' cursor' commit where R:
    "restore_matches c r ?b safe_end [] 0 (max safe_end 0) ?ms = Inr (out', cursor', commit)"
    "commit = max safe_end cursor'" "cursor' \<le> length ?b"
    "out' @ (if cursor' < safe_end then sub_bytes ?b cursor' safe_end else []) =
      [] @ restore_text table (sub_bytes ?b 0 commit)"
    "\<forall>m \<in> set ?ms. mt_start m < safe_end \<longrightarrow> mt_end m \<le> commit"
    "cursor' = 0 \<or> (\<exists>m \<in> set ?ms. mt_end m = cursor' \<and> mt_start m < safe_end)"
    using restore_matches_text [OF cov tab _ safe, of "[]"] by auto
  have each: "\<exists>p s. (p, s) \<in> set table \<and> occurs_at p ?b (mt_start x) \<and> mt_end x = mt_start x + length p"
    if "x \<in> set ?ms" for x
    using covers_each [OF cov that] by blast
  show ?thesis
  proof (rule that [of commit])
    show "process_until c r safe_end rr =
      (Inr (restore_text table (take commit ?b)), rr\<lparr>rr_buffer := drop commit ?b\<rparr>)"
      using False R(1,4) by (simp add: process_until_def sub_bytes_from_zero)
    show "safe_end \<le> commit" "commit \<le> length ?b"
      using R(2,3) safe by auto
  next
    fix p s i assume p: "(p, s) \<in> set table" "occurs_at p ?b i" "i < safe_end"
    obtain x where x: "x \<in> set ?ms" "mt_start x = i"
      using covers_found [OF cov p(1) _ p(2)] by auto
    obtain q t where q: "(q, t) \<in> set table" "occurs_at q ?b (mt_start x)"
      "mt_end x = mt_start x + length q"
      using each [OF x(1)] by blast
    have "brace_shape p" "brace_shape q"
      using tab p(1) q(1) by (auto simp: brace.table_ok_def)
    then have "q = p"
      using brace_same_start p(2) q(2) x(2) by blast
    then show "i + length p \<le> commit"
      using R(5) x q(3) p(3) by auto
  next
    show "commit = safe_end \<or> (\<exists>p s i. (p, s) \<in> set table \<and> occurs_at p ?b i \<and>
       i < safe_end \<and> commit = i + length p)"
    proof (cases "cursor' \<le> safe_end")
      case True
      then show ?thesis
        using R(2) by simp
    next
      case False
      then obtain x where "x \<in> set ?ms" "mt_end x = commit" "mt_start x < safe_end"
        using R(2,6) by (auto simp: max_def)
      then show ?thesis
        using each by metis
    qed
  qed
qed

text \<open>What is committed is never the beginning of a placeholder that ends in a later chunk.\<close>

lemma committed_unsplit:
  assumes tab: "brace.table_ok table" and maxlen: "\<forall>(p, s) \<in> set table. length p \<le> Suc carry"
    and k: "length b - carry \<le> k" "k \<le> length b"
    and inside: "\<And>p s i. (p, s) \<in> set table \<Longrightarrow> occurs_at p b i \<Longrightarrow> i < length b - carry \<Longrightarrow>
      i + length p \<le> k"
    and at_end: "k = length b - carry \<or> (\<exists>p s i. (p, s) \<in> set table \<and> occurs_at p b i \<and>
       i < length b - carry \<and> k = i + length p)"
  shows "unsplit table (take k b) (drop k b @ future)"
  unfolding unsplit_def
proof clarify
  fix p s i assume p: "(p, s) \<in> set table" and i: "i < length (take k b)"
    and o: "occurs_at p (take k b @ drop k b @ future) i"
  have o2: "occurs_at p (b @ future) i"
    using o by (metis append.assoc append_take_drop_id)
  have len: "length p \<le> Suc carry"
    using maxlen p by auto
  show "i + length p \<le> length (take k b)"
  proof (cases "i < length b - carry")
    case True
    then have "i + length p \<le> length b"
      using len by simp
    then have "occurs_at p b i"
      using o2 by (auto simp: occurs_at_def sub_bytes_def)
    then show ?thesis
      using inside [OF p _ True] k by simp
  next
    case False
    then obtain q t j where q: "(q, t) \<in> set table" "occurs_at q b j" "j < length b - carry"
      "k = j + length q"
      using at_end i by auto
    have "occurs_at q (b @ future) j"
      using q(2) unfolding occurs_at_split by (metis append.assoc)
    then have "j + length q \<le> i"
      using brace_apart [of q "b @ future" j p i] tab p q o2 False
      by (auto simp: brace.table_ok_def)
    then show ?thesis
      using q(4) i by simp
  qed
qed

lemma restore_chunks_text:
  assumes tab: "brace.table_ok table"
    and "matcher_for c r0 table (rr_matcher rr)"
    and maxlen: "\<forall>(p, s) \<in> set table. length p \<le> Suc (rr_carry rr)"
    and "\<forall>(chunk, r') \<in> set chunks. registry_step c r0 r'" and "registry_step c r0 r"
  shows "restore_chunks c chunks r rr =
    Inr (restore_text table (rr_buffer rr @ concat (map fst chunks)))"
  using assms(2-)
proof (induction chunks arbitrary: rr)
  case Nil
  let ?n = "length (rr_buffer rr)"
  have m: "matcher_for c r table (rr_matcher rr)"
    using matcher_for_step [OF Nil(4,1)] .
  obtain k where "process_until c r ?n rr =
      (Inr (restore_text table (take k (rr_buffer rr))), rr\<lparr>rr_buffer := drop k (rr_buffer rr)\<rparr>)"
    "?n \<le> k" "k \<le> ?n"
    by (rule process_until_text [OF m tab order_refl])
  then show ?case
    by (simp add: restorer_finish_def)
next
  case (Cons x chunks)
  obtain chunk r' where x: "x = (chunk, r')" by (cases x)
  define b where "b = rr_buffer rr @ chunk"
  define rr1 where "rr1 = rr\<lparr>rr_buffer := b\<rparr>"
  let ?future = "concat (map fst chunks)"
  have m: "matcher_for c r' table (rr_matcher rr1)"
    using matcher_for_step [OF _ Cons.prems(1)] Cons.prems(3) x by (simp add: rr1_def)
  have len: "length b - rr_carry rr \<le> length (rr_buffer rr1)"
    by (simp add: rr1_def)
  obtain k where k: "process_until c r' (length b - rr_carry rr) rr1 =
      (Inr (restore_text table (take k (rr_buffer rr1))), rr1\<lparr>rr_buffer := drop k (rr_buffer rr1)\<rparr>)"
    and side: "length b - rr_carry rr \<le> k" "k \<le> length (rr_buffer rr1)"
    "\<And>p s i. (p, s) \<in> set table \<Longrightarrow> occurs_at p (rr_buffer rr1) i \<Longrightarrow> i < length b - rr_carry rr \<Longrightarrow>
       i + length p \<le> k"
    "k = length b - rr_carry rr \<or> (\<exists>p s i. (p, s) \<in> set table \<and> occurs_at p (rr_buffer rr1) i \<and>
       i < length b - rr_carry rr \<and> k = i + length p)"
    by (rule process_until_text [OF m tab len]) blast
  have b1: "rr_buffer rr1 = b" "rr1\<lparr>rr_buffer := y\<rparr> = rr\<lparr>rr_buffer := y\<rparr>" for y
    by (simp_all add: rr1_def)
  have carry: "rr_carry rr1 = rr_carry rr"
    by (simp add: rr1_def)
  let ?rr2 = "rr\<lparr>rr_buffer := drop k b\<rparr>"
  have push: "push_chunk c chunk r' rr = (Inr (restore_text table (take k b)), ?rr2)"
    using k by (simp add: push_chunk_def Let_def b1 carry flip: rr1_def b_def)
  have rest: "restore_chunks c chunks r ?rr2 = Inr (restore_text table (drop k b @ ?future))"
    using Cons.IH [of ?rr2] Cons.prems by (simp add: x)
  have "unsplit table (take k b) (drop k b @ ?future)"
    using committed_unsplit [OF tab Cons.prems(2)] side unfolding b1 by blast
  then have "restore_text table (take k b) @ restore_text table (drop k b @ ?future) =
      restore_text table (take k b @ drop k b @ ?future)"
    using restore_text_append brace.table_nonempty [OF tab] by metis
  also have "take k b @ drop k b @ ?future = rr_buffer rr @ concat (map fst (x # chunks))"
    by (metis append.assoc append_take_drop_id b_def concat.simps(2) fst_conv list.simps(9) x)
  finally show ?case
    by (simp add: x push rest)
qed


section \<open>Redaction and restoration\<close>

text \<open>
  HMAC does not collide: a window of the text with the digest of an entry is its secret.
\<close>

definition digests_faithful :: "crypto \<Rightarrow> registry \<Rightarrow> bytes \<Rightarrow> bool" where
  "digests_faithful c r bs \<longleftrightarrow>
     (\<forall>e \<in> set (reg_entries r). \<forall>i j.
        keyed_digest c (k_match (reg_keys r)) (sub_bytes bs i j) = Inr (e_digest e) \<longrightarrow>
        secret_of c r e = Some (sub_bytes bs i j))"

definition placeholders_distinct :: "registry \<Rightarrow> bool" where
  "placeholders_distinct r \<longleftrightarrow> distinct (map e_placeholder (reg_entries r))"

lemma entry_in_table:
  assumes wf: "registry_wf c r" and d: "placeholders_distinct r"
    and e: "e \<in> set (reg_entries r)" and s: "secret_of c r e = Some s"
  shows "(e_placeholder e, s) \<in> set (secret_table c r)"
proof -
  let ?es = "map (\<lambda>e. (e_placeholder e, e_id e)) (rev (reg_entries r))"
  have "distinct (map fst ?es)"
    using d by (simp add: placeholders_distinct_def comp_def flip: rev_map)
  moreover have "(e_placeholder e, e_id e) \<in> set ?es"
    using e by auto
  ultimately have "map_of ?es (e_placeholder e) = Some (e_id e)"
    by simp
  then have "map_of (reg_placeholders r) (e_placeholder e) = Some (e_id e)"
    using wf by (simp add: registry_wf_def)
  then have "(e_placeholder e, e_id e) \<in> set (reg_placeholders r)"
    by (rule map_of_SomeD)
  moreover have "registry_holds c r (e_id e) s"
    using entry_of_id [OF wf e] s by (simp add: registry_holds_iff)
  ultimately show ?thesis
    using secret_table_iff [OF wf] by blast
qed

lemma weave_windows:
  assumes "edits_ok (length bs) cur (span_edits spans)"
  shows "weave (kept_fragments bs cur (span_edits spans))
    (map (\<lambda>sp. sub_bytes bs (sp_start sp) (span_end sp)) spans) = drop cur bs"
  using assms
proof (induction spans arbitrary: cur)
  case Nil
  then show ?case by (simp add: span_edits_def)
next
  case (Cons sp spans)
  then show ?case
    by (simp add: span_edits_def sub_bytes_drop span_end_def)
qed

lemma restore_redacted:
  assumes wf: "registry_wf c r" and hex: "hex_lowercase c"
    and run: "scan_string_token c bs r = Inr spans"
    and free: "pattern_free (secret_table c r) bs"
    and faithful: "digests_faithful c r bs" and d: "placeholders_distinct r"
  shows "restore_text (secret_table c r) (apply_spans bs spans) = bs"
proof -
  let ?table = "secret_table c r"
  let ?frags = "kept_fragments bs 0 (span_edits spans)"
  let ?windows = "map (\<lambda>sp. sub_bytes bs (sp_start sp) (span_end sp)) spans"
  have ok: "edits_ok (length bs) 0 (span_edits spans)"
    by (rule scan_sound(3) [OF wf run])
  have tab: "brace.table_ok ?table"
    by (rule secret_table_ok [OF wf hex])
  have "pattern_free ?table g" if g: "g \<in> set ?frags" for g
    unfolding pattern_free_def
  proof clarify
    fix p s assume p: "(p, s) \<in> set ?table" and "occurs_in p g"
    then obtain k where "occurs_at p g k"
      by (auto simp: occurs_in_def)
    then obtain i where "occurs_at p bs i"
      using kept_fragment_occurrence [OF ok g] brace.table_nonempty [OF tab] p by blast
    then show False
      using free p by (auto simp: pattern_free_def intro: occurs_inI)
  qed
  moreover have "list_all2 (\<lambda>p s. (p, s) \<in> set ?table) (map sp_placeholder spans) ?windows"
  proof -
    have "(sp_placeholder sp, sub_bytes bs (sp_start sp) (span_end sp)) \<in> set ?table"
      if "sp \<in> set spans" for sp
    proof -
      have "window_hit c r bs sp"
        using scan_sound(1) [OF wf run] that by blast
      then obtain e where e: "e \<in> set (reg_entries r)" "sp_placeholder sp = e_placeholder e"
        "keyed_digest c (k_match (reg_keys r)) (sub_bytes bs (sp_start sp) (span_end sp)) =
           Inr (e_digest e)"
        by (auto simp: window_hit_def)
      then have "secret_of c r e = Some (sub_bytes bs (sp_start sp) (span_end sp))"
        using faithful by (simp add: digests_faithful_def)
      then show ?thesis
        using entry_in_table [OF wf d e(1)] e(2) by simp
    qed
    then show ?thesis
      by (simp add: list_all2_map1 list_all2_map2 list.rel_refl_strong)
  qed
  ultimately have "restore_text ?table (weave ?frags (map sp_placeholder spans)) =
      weave ?frags ?windows"
    using brace.restore_weave [OF tab] by (simp add: span_edits_def)
  then show ?thesis
    using weave_windows [OF ok] apply_spans_weave [OF wf run] by simp
qed

text \<open>A restorer made from the registry, over a registry that grows.\<close>

lemma restored_chunks_text:
  assumes "lib_ok lib" and "hex_lowercase c" and "registry_wf c r0" and new: "restorer_new lib r0 = Inr rr"
    and steps: "\<forall>(chunk, r') \<in> set chunks. registry_step c r0 r'" and "registry_step c r0 r"
  shows "restore_chunks c chunks r rr = Inr (restore_text (secret_table c r0) (concat (map fst chunks)))"
proof -
  obtain m where m: "matcher_new lib r0 = Inr m"
    and rr: "rr = \<lparr>rr_matcher = m, rr_buffer = [], rr_carry = max_pattern_len m - 1\<rparr>"
    using new by (auto simp: restorer_new_def)
  have "matcher_for c r0 (secret_table c r0) m"
    by (rule matcher_new_for [OF assms(1,3,2) m])
  then show ?thesis
    using restore_chunks_text [OF secret_table_ok [OF assms(3,2)], of c r0 rr chunks r] steps assms(6)
    by (force simp: rr matcher_for_def)
qed

end
