(* ===== verification/Redaction_Cache.thy ===== *)
theory Redaction_Cache
  imports Scanner "HOL-Library.AList"
begin

text \<open>
  \<^verbatim>\<open>src/redact/cache.rs\<close>: the redaction cache, an LRU map from keyed digests of strings and
  objects to their redaction, and the sanitizing of strings and objects through it. Every
  operation takes the cache and returns it. \<open>rc_entries\<close> is the \<^verbatim>\<open>HashMap\<close>, whose order the
  source never observes; \<open>rc_order\<close> is the \<^verbatim>\<open>VecDeque\<close>, the least recently used key first.
\<close>

section \<open>State\<close>

datatype cache_entry =
    NoSecret
  | Spans "redaction_span list"
  | Sanitized bytes "u64 list" "bytes list"

record sanitized_string =
  ss_bytes :: bytes
  ss_ids :: "u64 list"

record sanitized_object =
  so_bytes :: bytes
  so_ids :: "u64 list"
  so_patterns :: "bytes list"

record cache_stats =
  st_hits :: u64
  st_misses :: u64
  st_scanner_runs :: u64
  st_flushes :: u64
  st_evictions :: u64

record redaction_cache =
  rc_max :: nat
  rc_chunk :: nat
  rc_version :: u64
  rc_entries :: "(bytes \<times> cache_entry) list"
  rc_order :: "bytes list"
  rc_stats :: cache_stats

definition cache_new_with_chunk_size :: "nat \<Rightarrow> nat \<Rightarrow> redaction_cache" where
  "cache_new_with_chunk_size max_entries chunk_size =
     \<lparr>rc_max = max_entries, rc_chunk = max chunk_size 1024, rc_version = 0, rc_entries = [],
      rc_order = [], rc_stats = \<lparr>st_hits = 0, st_misses = 0, st_scanner_runs = 0, st_flushes = 0,
                                 st_evictions = 0\<rparr>\<rparr>"

definition cache_new :: "nat \<Rightarrow> redaction_cache" where
  "cache_new max_entries = cache_new_with_chunk_size max_entries (64 * 1024)"

section \<open>The LRU map\<close>

definition cache_flush :: "u64 \<Rightarrow> redaction_cache \<Rightarrow> redaction_cache" where
  "cache_flush version rc =
     rc\<lparr>rc_version := version, rc_entries := [], rc_order := [],
        rc_stats := (rc_stats rc)\<lparr>st_flushes := st_flushes (rc_stats rc) + 1\<rparr>\<rparr>"

definition sync_registry_version :: "registry \<Rightarrow> redaction_cache \<Rightarrow> redaction_cache" where
  "sync_registry_version r rc =
     (if rc_version rc \<noteq> reg_version r then cache_flush (reg_version r) rc else rc)"

definition cache_touch :: "bytes \<Rightarrow> redaction_cache \<Rightarrow> redaction_cache" where
  "cache_touch key rc = rc\<lparr>rc_order := filter (\<lambda>k. k \<noteq> key) (rc_order rc)\<rparr>"

definition cached_entry :: "bytes \<Rightarrow> redaction_cache \<Rightarrow> cache_entry option \<times> redaction_cache" where
  "cached_entry key rc =
     (case map_of (rc_entries rc) key of
        None \<Rightarrow> (None, rc)
      | Some entry \<Rightarrow>
          (let rc = cache_touch key rc
           in (Some entry, rc\<lparr>rc_order := rc_order rc @ [key]\<rparr>)))"

function evict :: "redaction_cache \<Rightarrow> redaction_cache" where
  "evict rc =
     (if length (rc_entries rc) \<le> rc_max rc then rc
      else case rc_order rc of
        [] \<Rightarrow> rc
      | old # order \<Rightarrow>
          evict (rc\<lparr>rc_order := order,
                    rc_entries := AList.delete old (rc_entries rc),
                    rc_stats := (if map_of (rc_entries rc) old \<noteq> None
                      then (rc_stats rc)\<lparr>st_evictions := st_evictions (rc_stats rc) + 1\<rparr>
                      else rc_stats rc)\<rparr>))"
  by pat_completeness auto

termination
  by (relation "measure (\<lambda>rc. length (rc_order rc))") auto

declare evict.simps [simp del]

definition cache_insert :: "bytes \<Rightarrow> cache_entry \<Rightarrow> redaction_cache \<Rightarrow> redaction_cache" where
  "cache_insert key entry rc =
     (if rc_max rc = 0 then rc
      else let rc = cache_touch key rc
           in evict (rc\<lparr>rc_order := rc_order rc @ [key],
                        rc_entries := AList.update key entry (rc_entries rc)\<rparr>))"

definition count_hit :: "redaction_cache \<Rightarrow> redaction_cache" where
  "count_hit rc = rc\<lparr>rc_stats := (rc_stats rc)\<lparr>st_hits := st_hits (rc_stats rc) + 1\<rparr>\<rparr>"

definition count_miss :: "redaction_cache \<Rightarrow> redaction_cache" where
  "count_miss rc = rc\<lparr>rc_stats := (rc_stats rc)\<lparr>st_misses := st_misses (rc_stats rc) + 1\<rparr>\<rparr>"

definition count_scan :: "redaction_cache \<Rightarrow> redaction_cache" where
  "count_scan rc =
     rc\<lparr>rc_stats := (rc_stats rc)\<lparr>st_scanner_runs := st_scanner_runs (rc_stats rc) + 1\<rparr>\<rparr>"

section \<open>Sanitizing a string\<close>

definition secret_ids_from_spans :: "redaction_span list \<Rightarrow> u64 list" where
  "secret_ids_from_spans = map sp_id"

definition unchanged :: "bytes \<Rightarrow> sanitized_string" where
  "unchanged bs = \<lparr>ss_bytes = bs, ss_ids = []\<rparr>"

definition redacted_with :: "bytes \<Rightarrow> redaction_span list \<Rightarrow> sanitized_string" where
  "redacted_with bs spans = \<lparr>ss_bytes = apply_spans bs spans, ss_ids = secret_ids_from_spans spans\<rparr>"

text \<open>The miss path that both lookups share: count, scan, remember.\<close>

definition scan_and_store ::
  "crypto \<Rightarrow> bytes \<Rightarrow> bytes \<Rightarrow> registry \<Rightarrow> redaction_cache \<Rightarrow>
   (crebro_error + redaction_span list) \<times> redaction_cache" where
  "scan_and_store c key bs r rc =
     and_then_st (scan_string_token c bs r, count_scan (count_miss rc)) (\<lambda>spans rc.
       (Inr spans, cache_insert key (if spans = [] then NoSecret else Spans spans) rc))"

definition spans_for_window ::
  "crypto \<Rightarrow> bytes \<Rightarrow> registry \<Rightarrow> redaction_cache \<Rightarrow>
   (crebro_error + redaction_span list) \<times> redaction_cache" where
  "spans_for_window c window r rc =
     and_then_st (registry_cache_key c r window, rc) (\<lambda>key rc.
       case cached_entry key rc of
         (Some NoSecret, rc) \<Rightarrow> (Inr [], count_hit rc)
       | (Some (Spans spans), rc) \<Rightarrow> (Inr spans, count_hit rc)
       | (_, rc) \<Rightarrow> scan_and_store c key window r rc)"

text \<open>
  The starts of the chunks. A cache is only built by \<open>cache_new_with_chunk_size\<close>, with chunks of
  at least 1024 bytes; the test against zero is there to make the function total.
\<close>

function chunk_starts :: "nat \<Rightarrow> nat \<Rightarrow> nat \<Rightarrow> nat list" where
  "chunk_starts chunk start n =
     (if n \<le> start \<or> chunk = 0 then [] else start # chunk_starts chunk (min (start + chunk) n) n)"
  by pat_completeness auto

termination
  by (relation "measure (\<lambda>(chunk, start, n). n - start)") auto

declare chunk_starts.simps [simp del]

definition shift_span :: "nat \<Rightarrow> redaction_span \<Rightarrow> redaction_span" where
  "shift_span k sp = sp\<lparr>sp_start := sp_start sp + k\<rparr>"

fun scan_chunks ::
  "crypto \<Rightarrow> bytes \<Rightarrow> registry \<Rightarrow> nat \<Rightarrow> nat \<Rightarrow> nat list \<Rightarrow> redaction_cache \<Rightarrow>
   (crebro_error + redaction_span list) \<times> redaction_cache" where
  "scan_chunks c bs r overlap chunk [] rc = (Inr [], rc)"
| "scan_chunks c bs r overlap chunk (start # starts) rc =
     (let base_end = min (start + chunk) (length bs);
          scan_start = start - overlap;
          scan_end = min (base_end + overlap) (length bs)
      in and_then_st (spans_for_window c (sub_bytes bs scan_start scan_end) r rc) (\<lambda>spans rc.
         let mine = filter (\<lambda>sp. start \<le> sp_start sp \<and> sp_start sp < base_end)
                      (map (shift_span scan_start) spans)
         in and_then_st (scan_chunks c bs r overlap chunk starts rc) (\<lambda>more rc.
              (Inr (mine @ more), rc))))"

definition sanitize_large_string_detailed ::
  "crypto \<Rightarrow> bytes \<Rightarrow> registry \<Rightarrow> redaction_cache \<Rightarrow>
   (crebro_error + sanitized_string) \<times> redaction_cache" where
  "sanitize_large_string_detailed c bs r rc =
     (let rc = sync_registry_version r rc;
          overlap = max_secret_len r - 1
      in and_then_st
           (scan_chunks c bs r overlap (rc_chunk rc) (chunk_starts (rc_chunk rc) 0 (length bs)) rc)
           (\<lambda>spans rc. (Inr (redacted_with bs (select_longest_non_overlapping spans)), rc)))"

definition sanitize_string_detailed ::
  "crypto \<Rightarrow> bytes \<Rightarrow> registry \<Rightarrow> redaction_cache \<Rightarrow>
   (crebro_error + sanitized_string) \<times> redaction_cache" where
  "sanitize_string_detailed c bs r rc =
     (if registry_is_empty r then (Inr (unchanged bs), rc)
      else if (case min_secret_len r of None \<Rightarrow> False | Some m \<Rightarrow> length bs < m)
      then (Inr (unchanged bs), rc)
      else if rc_chunk rc < length bs then sanitize_large_string_detailed c bs r rc
      else
        let rc = sync_registry_version r rc
        in and_then_st (registry_cache_key c r bs, rc) (\<lambda>key rc.
             case cached_entry key rc of
               (Some NoSecret, rc) \<Rightarrow> (Inr (unchanged bs), count_hit rc)
             | (Some (Spans spans), rc) \<Rightarrow> (Inr (redacted_with bs spans), count_hit rc)
             | (Some (Sanitized out ids _), rc) \<Rightarrow>
                 (Inr \<lparr>ss_bytes = out, ss_ids = ids\<rparr>, count_hit rc)
             | (None, rc) \<Rightarrow>
                 and_then_st (scan_and_store c key bs r rc) (\<lambda>spans rc.
                   (Inr (redacted_with bs spans), rc))))"

definition sanitize_string ::
  "crypto \<Rightarrow> bytes \<Rightarrow> registry \<Rightarrow> redaction_cache \<Rightarrow> (crebro_error + bytes) \<times> redaction_cache" where
  "sanitize_string c bs r rc =
     and_then_st (sanitize_string_detailed c bs r rc) (\<lambda>s rc. (Inr (ss_bytes s), rc))"

section \<open>Sanitizing an object\<close>

text \<open>The closure works on the cache and the registry, so the state is the pair of both.\<close>

definition sanitize_object_bytes ::
  "crypto \<Rightarrow> bytes \<Rightarrow>
   (redaction_cache \<times> registry \<Rightarrow> (crebro_error + sanitized_object) \<times> redaction_cache \<times> registry) \<Rightarrow>
   redaction_cache \<times> registry \<Rightarrow> (crebro_error + sanitized_object) \<times> redaction_cache \<times> registry" where
  "sanitize_object_bytes c canonical sanitized_bytes st =
     (let (rc, r) = st;
          rc = sync_registry_version r rc;
          version_before = reg_version r
      in and_then_st (registry_cache_key c r canonical, (rc, r)) (\<lambda>key (rc, r).
           case cached_entry key rc of
             (Some (Sanitized out ids patterns), rc) \<Rightarrow>
               (Inr \<lparr>so_bytes = out, so_ids = ids, so_patterns = patterns\<rparr>, (count_hit rc, r))
           | (_, rc) \<Rightarrow>
               and_then_st (sanitized_bytes (count_miss rc, r)) (\<lambda>sanitized (rc, r).
                 if reg_version r \<noteq> version_before
                 then (Inr sanitized, (cache_flush (reg_version r) rc, r))
                 else (Inr sanitized,
                   (cache_insert key (Sanitized (so_bytes sanitized) (so_ids sanitized)
                      (so_patterns sanitized)) rc, r)))))"


section \<open>The LRU discipline\<close>

text \<open>Every key of the map is in the queue once, and there are at most \<open>rc_max\<close>.\<close>

definition cache_ok :: "redaction_cache \<Rightarrow> bool" where
  "cache_ok rc \<longleftrightarrow>
     distinct (rc_order rc) \<and> distinct (map fst (rc_entries rc)) \<and>
     set (rc_order rc) = fst ` set (rc_entries rc) \<and> length (rc_entries rc) \<le> rc_max rc"

lemma cache_ok_new: "cache_ok (cache_new_with_chunk_size m n)"
  by (simp add: cache_ok_def cache_new_with_chunk_size_def)

lemma cache_ok_flush: "cache_ok (cache_flush v rc)"
  by (simp add: cache_ok_def cache_flush_def)

lemma cache_ok_sync: "cache_ok rc \<Longrightarrow> cache_ok (sync_registry_version r rc)"
  by (simp add: sync_registry_version_def cache_ok_flush)

lemma counters_keep [simp]:
  "cache_ok (count_hit rc) = cache_ok rc" "cache_ok (count_miss rc) = cache_ok rc"
  "cache_ok (count_scan rc) = cache_ok rc"
  "rc_entries (count_hit rc) = rc_entries rc" "rc_entries (count_miss rc) = rc_entries rc"
  "rc_entries (count_scan rc) = rc_entries rc"
  "rc_version (count_hit rc) = rc_version rc" "rc_version (count_miss rc) = rc_version rc"
  "rc_version (count_scan rc) = rc_version rc"
  "rc_max (count_hit rc) = rc_max rc" "rc_max (count_miss rc) = rc_max rc"
  "rc_max (count_scan rc) = rc_max rc"
  "rc_order (count_hit rc) = rc_order rc" "rc_order (count_miss rc) = rc_order rc"
  "rc_order (count_scan rc) = rc_order rc"
  "rc_chunk (count_hit rc) = rc_chunk rc" "rc_chunk (count_miss rc) = rc_chunk rc"
  "rc_chunk (count_scan rc) = rc_chunk rc"
  by (simp_all add: cache_ok_def count_hit_def count_miss_def count_scan_def)

lemma evict_keeps [simp]:
  "rc_version (evict rc) = rc_version rc" "rc_max (evict rc) = rc_max rc"
  "rc_chunk (evict rc) = rc_chunk rc"
  by (induction rc rule: evict.induct; subst evict.simps; simp split: list.splits)+

lemma evict_subset: "map_of (rc_entries (evict rc)) k = Some v \<Longrightarrow> map_of (rc_entries rc) k = Some v"
proof (induction rc rule: evict.induct)
  case (1 rc)
  show ?case
  proof (cases "length (rc_entries rc) \<le> rc_max rc \<or> rc_order rc = []")
    case True
    then show ?thesis
      using 1(2) by (auto simp: evict.simps [of rc] split: if_splits)
  next
    case False
    then obtain old order where "rc_order rc = old # order"
      by (cases "rc_order rc") auto
    then show ?thesis
      using 1 False by (auto simp: evict.simps [of rc] delete_conv split: if_splits)
  qed
qed

lemma cached_entry_keeps:
  assumes "cached_entry key rc = (res, rc')"
  shows "rc_entries rc' = rc_entries rc" "rc_version rc' = rc_version rc" "rc_max rc' = rc_max rc"
    "rc_chunk rc' = rc_chunk rc" "res = map_of (rc_entries rc) key"
  using assms by (auto simp: cached_entry_def cache_touch_def Let_def split: option.splits)

lemma cache_ok_cached_entry:
  assumes "cache_ok rc"
  shows "cache_ok (snd (cached_entry key rc))"
  using assms
  by (auto simp: cached_entry_def cache_ok_def cache_touch_def Let_def
      dest: map_of_SomeD split: option.splits intro: rev_image_eqI)

lemma distinct_keys_update:
  "distinct (map fst al) \<Longrightarrow> length (AList.update k v al) =
     (if k \<in> fst ` set al then length al else Suc (length al))"
  by (induction al) auto

lemma delete_old:
  assumes "distinct (map fst al)"
  shows "length (AList.delete k al) = (if k \<in> fst ` set al then length al - 1 else length al)"
proof -
  have "length (AList.delete k al) = length (removeAll k (map fst al))"
    by (metis delete_keys length_map)
  also have "\<dots> = length (remove1 k (map fst al))"
    by (simp add: distinct_remove1_removeAll assms)
  finally show ?thesis
    by (simp add: length_remove1)
qed

lemma evict_small: "length (rc_entries rc) \<le> rc_max rc \<Longrightarrow> evict rc = rc"
  by (simp add: evict.simps)

lemma evict_front:
  assumes "\<not> length (rc_entries rc) \<le> rc_max rc" and "rc_order rc = old # order"
  obtains stats where "evict rc = evict (rc\<lparr>rc_order := order,
    rc_entries := AList.delete old (rc_entries rc), rc_stats := stats\<rparr>)"
  using assms by (simp add: evict.simps [of rc])

text \<open>What is about to be evicted: the front of the queue, and only when the map is full.\<close>

definition pushed :: "bytes \<Rightarrow> cache_entry \<Rightarrow> redaction_cache \<Rightarrow> redaction_cache" where
  "pushed key entry rc = (let rc = cache_touch key rc
     in rc\<lparr>rc_order := rc_order rc @ [key], rc_entries := AList.update key entry (rc_entries rc)\<rparr>)"

lemma cache_insert_pushed:
  "cache_insert key entry rc = (if rc_max rc = 0 then rc else evict (pushed key entry rc))"
  by (simp add: cache_insert_def pushed_def Let_def)

lemma pushed_simps [simp]:
  "rc_order (pushed key entry rc) = filter (\<lambda>k. k \<noteq> key) (rc_order rc) @ [key]"
  "rc_entries (pushed key entry rc) = AList.update key entry (rc_entries rc)"
  "rc_max (pushed key entry rc) = rc_max rc" "rc_version (pushed key entry rc) = rc_version rc"
  "rc_chunk (pushed key entry rc) = rc_chunk rc"
  by (simp_all add: pushed_def cache_touch_def Let_def)

lemma cache_insert_not_full:
  assumes "cache_ok rc" and "rc_max rc \<noteq> 0"
    and "key \<in> fst ` set (rc_entries rc) \<or> length (rc_entries rc) < rc_max rc"
  shows "cache_insert key entry rc = pushed key entry rc"
proof -
  have "length (rc_entries (pushed key entry rc)) \<le> rc_max rc"
    using assms by (auto simp: distinct_keys_update cache_ok_def)
  then show ?thesis
    using assms(2) by (simp add: cache_insert_pushed evict.simps [of "pushed key entry rc"])
qed

lemma cache_insert_full:
  assumes ok: "cache_ok rc" and "rc_max rc \<noteq> 0"
    and fresh: "key \<notin> fst ` set (rc_entries rc)" and full: "length (rc_entries rc) = rc_max rc"
  obtains old order where "rc_order rc = old # order" "old \<noteq> key"
    "rc_order (cache_insert key entry rc) = order @ [key]"
    "rc_entries (cache_insert key entry rc) =
       AList.delete old (AList.update key entry (rc_entries rc))"
    "length (rc_entries (cache_insert key entry rc)) = rc_max rc"
proof -
  have ord: "set (rc_order rc) = fst ` set (rc_entries rc)"
    using ok by (simp add: cache_ok_def)
  then have "rc_order rc \<noteq> []"
    using assms(2) full by auto
  then obtain old order where o: "rc_order rc = old # order"
    by (cases "rc_order rc") auto
  have nk: "filter (\<lambda>k. k \<noteq> key) (rc_order rc) = rc_order rc"
    using fresh ord by (auto simp: filter_id_conv)
  have "old \<in> fst ` set (rc_entries rc)"
    using o ord by auto
  then have neq: "old \<noteq> key" and old_in: "old \<in> fst ` set (AList.update key entry (rc_entries rc))"
    using fresh by (auto simp: dom_map_of_conv_image_fst [symmetric] update_conv')
  have d: "distinct (map fst (AList.update key entry (rc_entries rc)))"
    using ok by (simp add: cache_ok_def distinct_update)
  have len: "length (AList.update key entry (rc_entries rc)) = Suc (rc_max rc)"
    using ok fresh full by (simp add: cache_ok_def distinct_keys_update)
  have len2: "length (AList.delete old (AList.update key entry (rc_entries rc))) = rc_max rc"
    using delete_old [OF d, of old] old_in len by simp
  obtain stats where "evict (pushed key entry rc) = evict ((pushed key entry rc)\<lparr>
      rc_order := order @ [key],
      rc_entries := AList.delete old (AList.update key entry (rc_entries rc)), rc_stats := stats\<rparr>)"
    using evict_front [of "pushed key entry rc" old "order @ [key]"] len nk o
    by (metis append_Cons pushed_simps(1-3) not_less_eq_eq order_refl)
  then show ?thesis
    using that [OF o neq] assms(2) len2 by (simp add: cache_insert_pushed evict_small)
qed

lemma cache_insert_ok:
  assumes "cache_ok rc"
  shows "cache_ok (cache_insert key entry rc)"
proof (cases "rc_max rc = 0")
  case True
  then show ?thesis using assms by (simp add: cache_insert_def)
next
  case False
  show ?thesis
  proof (cases "key \<in> fst ` set (rc_entries rc) \<or> length (rc_entries rc) < rc_max rc")
    case True
    then show ?thesis
      using assms False
      by (auto simp: cache_insert_not_full cache_ok_def distinct_update distinct_keys_update
          dom_map_of_conv_image_fst [symmetric] update_conv' split: if_splits)
  next
    case full: False
    then have "key \<notin> fst ` set (rc_entries rc)" "length (rc_entries rc) = rc_max rc"
      using assms by (auto simp: cache_ok_def)
    from cache_insert_full [OF assms False this, of entry] obtain old order where
      "rc_order rc = old # order" "old \<noteq> key"
      "rc_order (cache_insert key entry rc) = order @ [key]"
      "rc_entries (cache_insert key entry rc) =
         AList.delete old (AList.update key entry (rc_entries rc))"
      "length (rc_entries (cache_insert key entry rc)) = rc_max rc" .
    then show ?thesis
      using assms full
      by (auto simp: cache_ok_def distinct_delete distinct_update cache_insert_pushed
          dom_map_of_conv_image_fst [symmetric] update_conv' delete_conv' split: if_splits)
  qed
qed

lemma cache_insert_lookup:
  assumes "cache_ok rc" and "0 < rc_max rc"
  shows "map_of (rc_entries (cache_insert key entry rc)) key = Some entry"
proof (cases "key \<in> fst ` set (rc_entries rc) \<or> length (rc_entries rc) < rc_max rc")
  case True
  then show ?thesis
    using assms by (simp add: cache_insert_not_full update_conv')
next
  case False
  then have "key \<notin> fst ` set (rc_entries rc)" "length (rc_entries rc) = rc_max rc"
    using assms by (auto simp: cache_ok_def)
  with assms(2) show ?thesis
    by (rule_tac cache_insert_full [OF assms(1), of key entry]) (auto simp: update_conv' delete_conv')
qed


section \<open>What the users of the map rely on\<close>

text \<open>
  The interface between the LRU map and the sanitizers: a lookup only returns what is held, and
  neither lookup nor insertion makes the map hold anything but what was inserted. A predicate
  on keys and values that all insertions satisfy therefore holds of everything that is found.
\<close>

locale memo_store =
  fixes get :: "'k \<Rightarrow> 's \<Rightarrow> 'v option \<times> 's"
    and put :: "'k \<Rightarrow> 'v \<Rightarrow> 's \<Rightarrow> 's"
    and held :: "'s \<Rightarrow> 'k \<Rightarrow> 'v \<Rightarrow> bool"
    and room :: "'s \<Rightarrow> bool"
  assumes get_held: "get k s = (Some v, s') \<Longrightarrow> held s k v"
    and get_only: "get k s = (res, s') \<Longrightarrow> held s' k' v' \<Longrightarrow> held s k' v'"
    and put_only: "held (put k v s) k' v' \<Longrightarrow> (k' = k \<and> v' = v) \<or> held s k' v'"
    and put_found: "room s \<Longrightarrow> fst (get k (put k v s)) = Some v"
begin

definition all_held :: "('k \<Rightarrow> 'v \<Rightarrow> bool) \<Rightarrow> 's \<Rightarrow> bool" where
  "all_held P s \<longleftrightarrow> (\<forall>k v. held s k v \<longrightarrow> P k v)"

lemma all_held_get: "all_held P s \<Longrightarrow> get k s = (res, s') \<Longrightarrow> all_held P s'"
  unfolding all_held_def using get_only by blast

lemma all_held_put: "all_held P s \<Longrightarrow> P k v \<Longrightarrow> all_held P (put k v s)"
  unfolding all_held_def using put_only by blast

lemma found_ok: "all_held P s \<Longrightarrow> get k s = (Some v, s') \<Longrightarrow> P k v"
  unfolding all_held_def using get_held by blast

lemma all_held_mono: "all_held P s \<Longrightarrow> (\<And>k v. P k v \<Longrightarrow> Q k v) \<Longrightarrow> all_held Q s"
  unfolding all_held_def by blast

end

definition cache_held :: "redaction_cache \<Rightarrow> bytes \<Rightarrow> cache_entry \<Rightarrow> bool" where
  "cache_held rc key entry \<longleftrightarrow> map_of (rc_entries rc) key = Some entry"

definition cache_room :: "redaction_cache \<Rightarrow> bool" where
  "cache_room rc \<longleftrightarrow> cache_ok rc \<and> 0 < rc_max rc"

interpretation lru: memo_store cached_entry cache_insert cache_held cache_room
proof (unfold_locales, goal_cases)
  case (1 k s v s')
  then show ?case
    using cached_entry_keeps(5) [OF 1] by (simp add: cache_held_def)
next
  case (2 k s res s' k' v')
  then show ?case
    using cached_entry_keeps(1) [OF 2(1)] by (simp add: cache_held_def)
next
  case (3 k v s k' v')
  then show ?case
    by (auto simp: cache_held_def cache_insert_pushed update_conv'
        dest!: evict_subset split: if_splits)
next
  case (4 s k v)
  then show ?case
    using cache_insert_lookup [of s k v]
    by (simp add: cache_room_def cached_entry_def Let_def)
qed

section \<open>The cache never changes a result\<close>

text \<open>
  An entry is right for a string when it is what a fresh scan of the string gives; what is
  right for a cached object is left to its user, as the relation \<open>Ob\<close>. A coherent
  cache holds only entries that are right for a string with that key, or is about to be
  flushed. \<open>U\<close> is a set of strings that contains all that the program sanitizes; that HMAC does
  not collide is assumed of these strings only.
\<close>

definition entry_right ::
  "crypto \<Rightarrow> registry \<Rightarrow> (bytes \<Rightarrow> bytes \<Rightarrow> bool) \<Rightarrow> bytes \<Rightarrow> cache_entry \<Rightarrow> bool" where
  "entry_right c r Ob bs entry \<longleftrightarrow>
     (case entry of
        NoSecret \<Rightarrow> scan_string_token c bs r = Inr []
      | Spans spans \<Rightarrow> scan_string_token c bs r = Inr spans
      | Sanitized out _ _ \<Rightarrow> Ob bs out)"

definition entry_coherent :: "crypto \<Rightarrow> registry \<Rightarrow> bytes set \<Rightarrow> (bytes \<Rightarrow> bytes \<Rightarrow> bool) \<Rightarrow> bytes \<Rightarrow> cache_entry \<Rightarrow> bool" where
  "entry_coherent c r U Ob key entry \<longleftrightarrow>
     (\<exists>bs \<in> U. registry_cache_key c r bs = Inr key \<and> entry_right c r Ob bs entry)"

definition cache_coherent :: "crypto \<Rightarrow> registry \<Rightarrow> bytes set \<Rightarrow> (bytes \<Rightarrow> bytes \<Rightarrow> bool) \<Rightarrow> redaction_cache \<Rightarrow> bool" where
  "cache_coherent c r U Ob rc \<longleftrightarrow>
     rc_version rc \<le> reg_version r \<and>
     (rc_version rc = reg_version r \<longrightarrow> lru.all_held (entry_coherent c r U Ob) rc)"

definition keys_distinct :: "crypto \<Rightarrow> session_keys \<Rightarrow> bytes set \<Rightarrow> bool" where
  "keys_distinct c keys U \<longleftrightarrow>
     (\<forall>v. \<forall>a \<in> U. \<forall>b \<in> U.
        hmac_cache_key c (k_cache keys) v a = hmac_cache_key c (k_cache keys) v b \<longrightarrow> a = b)"

lemma cache_coherent_new: "cache_coherent c r U Ob (cache_new_with_chunk_size m n)"
  by (simp add: cache_coherent_def lru.all_held_def cache_held_def cache_new_with_chunk_size_def)

lemma all_held_flush: "lru.all_held P (cache_flush v rc)"
  by (simp add: lru.all_held_def cache_held_def cache_flush_def)

lemma cache_coherent_flush: "cache_coherent c r U Ob (cache_flush (reg_version r) rc)"
  by (simp add: cache_coherent_def all_held_flush) (simp add: cache_flush_def)

lemma sync_version [simp]:
  "rc_version (sync_registry_version r rc) = reg_version r"
  "rc_chunk (sync_registry_version r rc) = rc_chunk rc"
  "rc_max (sync_registry_version r rc) = rc_max rc"
  by (simp_all add: sync_registry_version_def cache_flush_def)

lemma all_held_sync:
  assumes "cache_coherent c r U Ob rc"
  shows "lru.all_held (entry_coherent c r U Ob) (sync_registry_version r rc)"
  using assms by (simp add: sync_registry_version_def all_held_flush cache_coherent_def)

lemma cache_coherentI:
  "rc_version rc = reg_version r \<Longrightarrow> lru.all_held (entry_coherent c r U Ob) rc \<Longrightarrow> cache_coherent c r U Ob rc"
  by (simp add: cache_coherent_def)

lemma all_held_counters [simp]:
  "lru.all_held P (count_hit rc) = lru.all_held P rc"
  "lru.all_held P (count_miss rc) = lru.all_held P rc"
  "lru.all_held P (count_scan rc) = lru.all_held P rc"
  by (simp_all add: lru.all_held_def cache_held_def)

lemma cache_insert_keeps [simp]:
  "rc_version (cache_insert k e rc) = rc_version rc" "rc_max (cache_insert k e rc) = rc_max rc"
  "rc_chunk (cache_insert k e rc) = rc_chunk rc"
  by (simp_all add: cache_insert_pushed)

lemma scan_and_store_coherent:
  assumes "lru.all_held (entry_coherent c r U Ob) rc" and "registry_cache_key c r bs = Inr key" and "bs \<in> U"
    and run: "scan_and_store c key bs r rc = (res, rc')"
  shows "res = scan_string_token c bs r" "lru.all_held (entry_coherent c r U Ob) rc'"
    "rc_version rc' = rc_version rc" "rc_chunk rc' = rc_chunk rc" "cache_ok rc \<Longrightarrow> cache_ok rc'"
proof -
  have "res = scan_string_token c bs r \<and> lru.all_held (entry_coherent c r U Ob) rc' \<and>
      rc_version rc' = rc_version rc \<and> rc_chunk rc' = rc_chunk rc \<and> (cache_ok rc \<longrightarrow> cache_ok rc')"
  proof (cases "scan_string_token c bs r")
    case (Inl err)
    then show ?thesis
      using run assms(1) by (auto simp: scan_and_store_def)
  next
    case (Inr spans)
    have "entry_coherent c r U Ob key (if spans = [] then NoSecret else Spans spans)"
      using Inr assms(2,3) by (auto simp: entry_coherent_def entry_right_def)
    from lru.all_held_put [where P = "entry_coherent c r U Ob" and s = "count_scan (count_miss rc)", OF _ this] show ?thesis
      using Inr run assms(1) by (auto simp: scan_and_store_def cache_insert_ok)
  qed
  then show "res = scan_string_token c bs r" "lru.all_held (entry_coherent c r U Ob) rc'"
    "rc_version rc' = rc_version rc" "rc_chunk rc' = rc_chunk rc" "cache_ok rc \<Longrightarrow> cache_ok rc'"
    by auto
qed

lemma entry_coherent_right:
  assumes "entry_coherent c r U Ob key entry" and "registry_cache_key c r bs = Inr key"
    and "keys_distinct c (reg_keys r) U" and "bs \<in> U"
  shows "entry_right c r Ob bs entry"
  using assms unfolding entry_coherent_def keys_distinct_def registry_cache_key_def by metis

text \<open>Everything a lookup of spans does, hit or miss.\<close>

lemma spans_for_window_coherent:
  assumes held: "lru.all_held (entry_coherent c r U Ob) rc"
    and U: "bs \<in> U"
    and run: "spans_for_window c bs r rc = (res, rc')"
  shows "lru.all_held (entry_coherent c r U Ob) rc' \<and> rc_version rc' = rc_version rc \<and>
    rc_chunk rc' = rc_chunk rc \<and> (cache_ok rc \<longrightarrow> cache_ok rc')"
    and "keys_distinct c (reg_keys r) U \<Longrightarrow> hmac_total c \<Longrightarrow> res = scan_string_token c bs r"
proof -
  have "lru.all_held (entry_coherent c r U Ob) rc' \<and> rc_version rc' = rc_version rc \<and>
      rc_chunk rc' = rc_chunk rc \<and> (cache_ok rc \<longrightarrow> cache_ok rc') \<and>
      (keys_distinct c (reg_keys r) U \<longrightarrow> hmac_total c \<longrightarrow> res = scan_string_token c bs r)"
  proof (cases "registry_cache_key c r bs")
    case (Inl err)
    then show ?thesis
      using run held hmac_cache_key_total [of c "k_cache (reg_keys r)" "reg_version r" bs]
      by (auto simp: spans_for_window_def registry_cache_key_def)
  next
    case key: (Inr key)
    obtain found rc1 where g: "cached_entry key rc = (found, rc1)"
      by (cases "cached_entry key rc")
    note keeps = cached_entry_keeps [OF g]
    have held1: "lru.all_held (entry_coherent c r U Ob) rc1"
      using lru.all_held_get [OF held g] .
    have ok1: "cache_ok rc \<Longrightarrow> cache_ok rc1"
      using cache_ok_cached_entry [of rc key] g by simp
    have right: "keys_distinct c (reg_keys r) U \<Longrightarrow> found = Some e \<Longrightarrow> entry_right c r Ob bs e" for e
      using lru.found_ok [OF held] g entry_coherent_right [OF _ key _ U] by blast
    consider (none) "found = Some NoSecret" | (spans) spans where "found = Some (Spans spans)"
      | (miss) "found = None \<or> (\<exists>a b d. found = Some (Sanitized a b d))"
      by (cases found; metis cache_entry.exhaust)
    then show ?thesis
    proof cases
      case none
      then show ?thesis
        using run key g keeps held1 ok1 right by (auto simp: spans_for_window_def entry_right_def)
    next
      case spans
      then show ?thesis
        using run key g keeps held1 ok1 right by (auto simp: spans_for_window_def entry_right_def)
    next
      case miss
      then have "scan_and_store c key bs r rc1 = (res, rc')"
        using run key g by (auto simp: spans_for_window_def)
      from scan_and_store_coherent [OF held1 key U this] show ?thesis
        using keeps ok1 by auto
    qed
  qed
  then show "lru.all_held (entry_coherent c r U Ob) rc' \<and> rc_version rc' = rc_version rc \<and>
      rc_chunk rc' = rc_chunk rc \<and> (cache_ok rc \<longrightarrow> cache_ok rc')"
    and "keys_distinct c (reg_keys r) U \<Longrightarrow> hmac_total c \<Longrightarrow> res = scan_string_token c bs r"
    by blast+
qed


section \<open>Strings of one chunk\<close>

text \<open>The reference: scan the whole string, without cache and without chunks.\<close>

definition redact_reference :: "crypto \<Rightarrow> registry \<Rightarrow> bytes \<Rightarrow> crebro_error + sanitized_string" where
  "redact_reference c r bs =
     and_then (scan_string_token c bs r) (\<lambda>spans. Inr (redacted_with bs spans))"

lemma redacted_with_Nil [simp]: "redacted_with bs [] = unchanged bs"
  by (simp add: redacted_with_def unchanged_def apply_spans_def secret_ids_from_spans_def)

lemma redact_reference_early:
  "registry_is_empty r \<or> (case min_secret_len r of None \<Rightarrow> False | Some m \<Rightarrow> length bs < m) \<Longrightarrow>
   redact_reference c r bs = Inr (unchanged bs)"
  by (auto simp: redact_reference_def scan_string_token_def)

definition caching :: "crypto \<Rightarrow> session_keys \<Rightarrow> bytes set \<Rightarrow> bool" where
  "caching c keys U \<longleftrightarrow> hmac_total c \<and> keys_distinct c keys U"

lemma sanitize_small_string:
  assumes "caching c (reg_keys r) U" and "bs \<in> U" and "cache_coherent c r U Ob rc"
    and "\<forall>out. \<not> Ob bs out" and "length bs \<le> rc_chunk rc"
    and run: "sanitize_string_detailed c bs r rc = (res, rc')"
  shows "res = redact_reference c r bs \<and> cache_coherent c r U Ob rc'"
proof (cases "registry_is_empty r \<or>
    (case min_secret_len r of None \<Rightarrow> False | Some m \<Rightarrow> length bs < m)")
  case True
  then have "sanitize_string_detailed c bs r rc = (Inr (unchanged bs), rc)"
    by (cases "registry_is_empty r") (simp_all add: sanitize_string_detailed_def)
  then show ?thesis
    using run assms(3) redact_reference_early [OF True] by simp
next
  case False
  let ?rc = "sync_registry_version r rc"
  have c: "hmac_total c" "keys_distinct c (reg_keys r) U"
    using assms(1) by (auto simp: caching_def)
  obtain key where key: "registry_cache_key c r bs = Inr key"
    using hmac_cache_key_total [OF c(1)] unfolding registry_cache_key_def by blast
  obtain found rc1 where g: "cached_entry key ?rc = (found, rc1)"
    by (cases "cached_entry key ?rc")
  note keeps = cached_entry_keeps [OF g]
  have held: "lru.all_held (entry_coherent c r U Ob) ?rc"
    by (rule all_held_sync [OF assms(3)])
  have held1: "lru.all_held (entry_coherent c r U Ob) rc1"
    using lru.all_held_get [OF held g] .
  have right: "entry_right c r Ob bs e" if "found = Some e" for e
    using lru.found_ok [OF held] g entry_coherent_right [OF _ key c(2) assms(2)] that by blast
  have "\<not> (\<exists>out ids patterns. found = Some (Sanitized out ids patterns))"
    using assms(4) right by (auto simp: entry_right_def)
  then consider (none) "found = Some NoSecret" | (spans) spans where "found = Some (Spans spans)"
    | (miss) "found = None"
    by (cases found; metis cache_entry.exhaust)
  then show ?thesis
  proof cases
    case none
    then show ?thesis
      using run key g keeps held1 right [OF none] False assms(5)
      by (auto simp: sanitize_string_detailed_def redact_reference_def entry_right_def
          intro: cache_coherentI)
  next
    case spans
    then show ?thesis
      using run key g keeps held1 right [OF spans] False assms(5)
      by (auto simp: sanitize_string_detailed_def redact_reference_def entry_right_def
          intro: cache_coherentI)
  next
    case miss
    obtain res1 rc2 where s: "scan_and_store c key bs r rc1 = (res1, rc2)"
      by (cases "scan_and_store c key bs r rc1")
    note st = scan_and_store_coherent [OF held1 key assms(2) s]
    have coh: "cache_coherent c r U Ob rc2"
      using st(2,3) keeps(2) by (simp add: cache_coherentI)
    have "res = and_then res1 (\<lambda>spans. Inr (redacted_with bs spans)) \<and> rc' = rc2"
      using run key g s miss False assms(5)
      by (cases res1) (auto simp: sanitize_string_detailed_def)
    then show ?thesis
      using st(1) coh by (simp add: redact_reference_def)
  qed
qed

section \<open>Strings of many chunks\<close>

text \<open>The chunks without the cache.\<close>

definition chunk_spans ::
  "crypto \<Rightarrow> bytes \<Rightarrow> registry \<Rightarrow> nat \<Rightarrow> nat \<Rightarrow> nat \<Rightarrow> crebro_error + redaction_span list" where
  "chunk_spans c bs r overlap chunk start =
     (let base_end = min (start + chunk) (length bs);
          scan_start = start - overlap;
          scan_end = min (base_end + overlap) (length bs)
      in and_then (scan_string_token c (sub_bytes bs scan_start scan_end) r) (\<lambda>spans.
           Inr (filter (\<lambda>sp. start \<le> sp_start sp \<and> sp_start sp < base_end)
                  (map (shift_span scan_start) spans))))"

definition slices_of :: "bytes \<Rightarrow> bytes set" where
  "slices_of bs = {sub_bytes bs i j | i j. True}"

lemma scan_chunks_reference:
  assumes "caching c (reg_keys r) U" and "slices_of bs \<subseteq> U" and "lru.all_held (entry_coherent c r U Ob) rc"
    and "scan_chunks c bs r overlap chunk starts rc = (res, rc')"
  shows "res = try_collect (chunk_spans c bs r overlap chunk) starts \<and>
    lru.all_held (entry_coherent c r U Ob) rc' \<and> rc_version rc' = rc_version rc"
  using assms(3,4)
proof (induction starts arbitrary: rc res rc')
  case Nil
  then show ?case by simp
next
  case (Cons start starts)
  define base_end where "base_end = min (start + chunk) (length bs)"
  define w where "w = sub_bytes bs (start - overlap) (min (base_end + overlap) (length bs))"
  obtain res1 rc1 where s: "spans_for_window c w r rc = (res1, rc1)"
    by (cases "spans_for_window c w r rc")
  have "w \<in> U"
    using assms(2) by (auto simp: slices_of_def w_def)
  note st = spans_for_window_coherent [OF Cons.prems(1) this s]
  have r1: "res1 = scan_string_token c w r"
    using st(2) assms(1) by (simp add: caching_def)
  obtain res2 rc2 where m: "scan_chunks c bs r overlap chunk starts rc1 = (res2, rc2)"
    by (cases "scan_chunks c bs r overlap chunk starts rc1")
  have IH: "res2 = try_collect (chunk_spans c bs r overlap chunk) starts"
    "lru.all_held (entry_coherent c r U Ob) rc2" "rc_version rc2 = rc_version rc1"
    using Cons.IH [OF _ m] st(1) by blast+
  define mine where "mine = (\<lambda>spans. filter (\<lambda>sp. start \<le> sp_start sp \<and> sp_start sp < base_end)
    (map (shift_span (start - overlap)) spans))"
  have cs: "chunk_spans c bs r overlap chunk start = and_then res1 (\<lambda>spans. Inr (mine spans))"
    by (simp add: r1 chunk_spans_def Let_def w_def base_end_def mine_def)
  have step: "and_then_st (spans_for_window c w r rc) (\<lambda>spans rc.
      and_then_st (scan_chunks c bs r overlap chunk starts rc) (\<lambda>more rc.
        (Inr (mine spans @ more), rc))) = (res, rc')"
    using Cons.prems(2) by (simp add: Let_def w_def base_end_def mine_def)
  show ?case
  proof (cases res1)
    case (Inl err)
    then show ?thesis
      using step s st(1) cs by auto
  next
    case (Inr spans)
    then show ?thesis
      using step s st(1) cs m IH(2,3) by (cases res2) (auto simp: IH(1) [symmetric])
  qed
qed

lemma sub_bytes_sub_bytes:
  "a + j \<le> b \<Longrightarrow> sub_bytes (sub_bytes bs a b) i j = sub_bytes bs (a + i) (a + j)"
  by (simp add: sub_bytes_def drop_take min_def add.commute)

lemma shift_span_simps [simp]:
  "sp_start (shift_span k sp) = sp_start sp + k" "sp_len (shift_span k sp) = sp_len sp"
  "sp_id (shift_span k sp) = sp_id sp" "sp_placeholder (shift_span k sp) = sp_placeholder sp"
  "span_end (shift_span k sp) = span_end sp + k"
  by (simp_all add: shift_span_def span_end_def)

lemma window_hit_shift:
  assumes "b \<le> length bs"
  shows "window_hit c r (sub_bytes bs a b) sp \<longleftrightarrow>
    window_hit c r bs (shift_span a sp) \<and> span_end (shift_span a sp) \<le> b"
proof (cases "span_end sp + a \<le> b")
  case True
  then have "sub_bytes (sub_bytes bs a b) (sp_start sp) (span_end sp) =
      sub_bytes bs (sp_start sp + a) (span_end sp + a)"
    by (subst sub_bytes_sub_bytes) (simp_all add: add.commute)
  then show ?thesis
    using True assms by (auto simp: window_hit_def)
next
  case False
  then show ?thesis
    using assms by (auto simp: window_hit_def span_end_def)
qed

text \<open>Whatever the chunks contribute is a hit of the whole string.\<close>

lemma chunk_spans_sound:
  assumes "registry_wf c r" and "chunk_spans c bs r overlap chunk start = Inr spans"
  shows "\<forall>sp \<in> set spans. window_hit c r bs sp"
proof -
  let ?a = "start - overlap" and ?b = "min (min (start + chunk) (length bs) + overlap) (length bs)"
  obtain ws where ws: "scan_string_token c (sub_bytes bs ?a ?b) r = Inr ws"
    and sub: "set spans \<subseteq> shift_span ?a ` set ws"
    using assms(2) by (auto simp: chunk_spans_def Let_def)
  show ?thesis
    using sub scan_sound(1) [OF assms(1) ws] window_hit_shift [of ?b bs c r ?a] by auto
qed

text \<open>A hit that no other hit overlaps is found by the chunk it starts in.\<close>

definition isolated :: "crypto \<Rightarrow> registry \<Rightarrow> bytes \<Rightarrow> redaction_span \<Rightarrow> bool" where
  "isolated c r bs h \<longleftrightarrow>
     window_hit c r bs h \<and> (\<forall>sp. window_hit c r bs sp \<longrightarrow> span_overlaps sp h \<longrightarrow> sp = h)"

lemma window_hit_max_len: "window_hit c r bs sp \<Longrightarrow> sp_len sp \<le> max_secret_len r"
  by (auto simp: window_hit_def max_secret_len_def intro: Max_ge)

lemma chunk_spans_isolated:
  assumes wf: "registry_wf c r"
    and run: "chunk_spans c bs r (max_secret_len r - 1) chunk start = Inr spans"
    and h: "isolated c r bs h" and here: "start \<le> sp_start h" "sp_start h < start + chunk"
  shows "h \<in> set spans"
proof -
  define a where "a = start - (max_secret_len r - 1)"
  define b where
    "b = min (min (start + chunk) (length bs) + (max_secret_len r - 1)) (length bs)"
  have hit: "window_hit c r bs h"
    using h by (simp add: isolated_def)
  have len: "0 < sp_len h" "sp_len h \<le> max_secret_len r" "span_end h \<le> length bs"
    using hit window_hit_max_len [OF hit] by (auto simp: window_hit_def)
  have b: "b \<le> length bs" "span_end h \<le> b"
    using here len by (auto simp: b_def span_end_def)
  have a: "a \<le> sp_start h"
    using here by (simp add: a_def)
  obtain ws where ws: "scan_string_token c (sub_bytes bs a b) r = Inr ws"
    and spans: "spans = filter (\<lambda>sp. start \<le> sp_start sp \<and> sp_start sp < min (start + chunk) (length bs))
      (map (shift_span a) ws)"
    using run by (auto simp: chunk_spans_def Let_def a_def b_def)
  obtain cands where ws_sel: "ws = select_longest_non_overlapping cands"
    and cands: "\<And>sp. sp \<in> set cands \<longleftrightarrow> window_hit c r (sub_bytes bs a b) sp"
    using scan_string_token_InrE [OF wf ws] by blast
  define w where "w = h\<lparr>sp_start := sp_start h - a\<rparr>"
  have sw: "shift_span a w = h"
    using a by (simp add: w_def shift_span_def)
  have "w \<in> set cands"
    using hit b sw by (simp add: cands window_hit_shift)
  then consider "w \<in> set ws"
    | v where "v \<in> set ws" "sp_start v < span_end w" "sp_start w < span_end v"
    using span_sel.select_longest [of w cands] ws_sel by blast
  then have "w \<in> set ws"
  proof cases
    case 2
    have "window_hit c r bs (shift_span a v)"
      using scan_sound(1) [OF wf ws] 2(1) window_hit_shift [OF b(1)] by blast
    moreover have "span_overlaps (shift_span a v) h"
      using 2(2,3) by (simp add: sw [symmetric] span_overlaps_def)
    ultimately have "shift_span a v = shift_span a w"
      using h sw by (simp add: isolated_def)
    then have "v = w"
      by (cases v; cases w) (auto simp: shift_span_def)
    then show ?thesis
      using 2(1) by simp
  qed
  moreover have "sp_start h < length bs"
    using len by (simp add: span_end_def)
  ultimately show ?thesis
    using here by (auto simp: spans sw [symmetric])
qed

lemma chunk_starts_cover:
  assumes "0 < chunk" and "start \<le> p" and "p < n"
  shows "\<exists>s \<in> set (chunk_starts chunk start n). s \<le> p \<and> p < s + chunk"
  using assms
proof (induction chunk start n rule: chunk_starts.induct)
  case (1 chunk start n)
  show ?case
  proof (cases "p < start + chunk")
    case True
    then show ?thesis
      using 1(2-) by (subst chunk_starts.simps) auto
  next
    case False
    then show ?thesis
      using 1 by (subst chunk_starts.simps) auto
  qed
qed


text \<open>Two selections of the same hits, in order, are the same list.\<close>

lemma in_order_unique:
  assumes "sorted_wrt (\<lambda>a b. span_end a \<le> sp_start b) xs"
    and "sorted_wrt (\<lambda>a b. span_end a \<le> sp_start b) ys"
    and "set xs = set ys" and "\<forall>x \<in> set xs. sp_start x < span_end x"
  shows "xs = ys"
  using assms
proof (induction xs arbitrary: ys)
  case Nil
  then show ?case by simp
next
  case (Cons x xs)
  obtain y ys' where ys: "ys = y # ys'"
    using Cons.prems(3) by (cases ys) auto
  have "x = y"
  proof (rule ccontr)
    assume ne: "x \<noteq> y"
    then have "x \<in> set ys'" "y \<in> set xs"
      using Cons.prems(3) ys by auto
    then have "span_end y \<le> sp_start x" "span_end x \<le> sp_start y"
      using Cons.prems(1,2) ys by auto
    moreover have "sp_start x < span_end x" "sp_start y < span_end y"
      using Cons.prems(3,4) ys by auto
    ultimately show False by linarith
  qed
  have "x \<notin> set xs" "x \<notin> set ys'"
    using Cons.prems ys \<open>x = y\<close> by fastforce+
  then have "set xs = set ys'"
    using Cons.prems(3) ys \<open>x = y\<close> by auto
  then show ?case
    using Cons ys \<open>x = y\<close> by auto
qed

lemma select_hits_in_order:
  assumes "\<forall>sp \<in> set cands. window_hit c r bs sp"
  shows "sorted_wrt (\<lambda>a b. span_end a \<le> sp_start b) (select_longest_non_overlapping cands)"
    and "edits_ok (length bs) 0 (span_edits (select_longest_non_overlapping cands))"
  using assms window_hitD
  by (auto simp: span_edits_def intro!: span_sel.select_in_order span_sel.select_edits_ok)

lemma select_isolated:
  assumes "\<forall>sp \<in> set cands. window_hit c r bs sp" and "isolated c r bs h" and "h \<in> set cands"
  shows "h \<in> set (select_longest_non_overlapping cands)"
  using span_sel.select_longest [OF assms(3)] assms(1,2) span_sel.select_subset [of cands]
  by (auto simp: isolated_def span_overlaps_def)

lemma scan_isolated:
  assumes "registry_wf c r" and "scan_string_token c bs r = Inr spans" and "isolated c r bs h"
  shows "h \<in> set spans"
proof -
  obtain cands where "spans = select_longest_non_overlapping cands"
    "\<And>sp. sp \<in> set cands \<longleftrightarrow> window_hit c r bs sp"
    using scan_string_token_InrE [OF assms(1,2)] by blast
  then show ?thesis
    using select_isolated [of cands c r bs h] assms(3) by (simp add: isolated_def)
qed

lemma chunk_spans_total: "hmac_total c \<Longrightarrow> \<exists>sps. chunk_spans c bs r ov ch start = Inr sps"
  using scan_string_token_total unfolding chunk_spans_def Let_def by fastforce

text \<open>All chunks together, before the final selection.\<close>

lemma all_chunks:
  assumes wf: "registry_wf c r" and "0 < chunk"
    and run: "try_collect (chunk_spans c bs r (max_secret_len r - 1) chunk)
      (chunk_starts chunk 0 (length bs)) = Inr spans"
  shows "\<forall>sp \<in> set spans. window_hit c r bs sp"
    and "isolated c r bs h \<Longrightarrow> h \<in> set spans"
proof -
  let ?starts = "chunk_starts chunk 0 (length bs)"
  let ?f = "chunk_spans c bs r (max_secret_len r - 1) chunk"
  obtain g where g: "\<And>s. s \<in> set ?starts \<Longrightarrow> ?f s = Inr (g s)"
    and spans: "spans = concat (map g ?starts)"
    using run by (rule try_collect_InrE) blast
  show "\<forall>sp \<in> set spans. window_hit c r bs sp"
    using chunk_spans_sound [OF wf g] spans by auto
  assume h: "isolated c r bs h"
  then have "sp_start h < length bs"
    by (auto simp: isolated_def window_hit_def span_end_def)
  then obtain s where s: "s \<in> set ?starts" "s \<le> sp_start h" "sp_start h < s + chunk"
    using chunk_starts_cover [of chunk 0 "sp_start h" "length bs"] assms(2) by auto
  then have "h \<in> set (g s)"
    using chunk_spans_isolated [OF wf g h] by blast
  then show "h \<in> set spans"
    using s(1) spans by auto
qed

text \<open>
  Chunked redaction is always made of hits, in order. It finds every hit that no other
  overlaps; if no two hits of the string overlap, it is the redaction of the whole string.
\<close>

lemma sanitize_large_spans:
  assumes "registry_wf c r" and "caching c (reg_keys r) U" and "slices_of bs \<subseteq> U" and "cache_coherent c r U Ob rc"
    and "0 < rc_chunk rc"
    and run: "sanitize_large_string_detailed c bs r rc = (res, rc')"
  obtains cands where
    "res = Inr (redacted_with bs (select_longest_non_overlapping cands))"
    "\<forall>sp \<in> set cands. window_hit c r bs sp"
    "\<And>h. isolated c r bs h \<Longrightarrow> h \<in> set cands"
    "cache_coherent c r U Ob rc'"
proof -
  let ?rc = "sync_registry_version r rc"
  obtain res1 rc1 where s: "scan_chunks c bs r (max_secret_len r - 1) (rc_chunk rc)
      (chunk_starts (rc_chunk rc) 0 (length bs)) ?rc = (res1, rc1)"
    by fastforce
  have ref: "res1 = try_collect (chunk_spans c bs r (max_secret_len r - 1) (rc_chunk rc))
      (chunk_starts (rc_chunk rc) 0 (length bs))"
    "lru.all_held (entry_coherent c r U Ob) rc1" "rc_version rc1 = reg_version r"
    using scan_chunks_reference [OF assms(2,3) all_held_sync [OF assms(4)] s] by auto
  have "\<exists>cands. res1 = Inr cands"
    unfolding ref(1) using assms(2)
    by (intro try_collect_ex chunk_spans_total) (simp add: caching_def)
  then obtain cands where cands: "res1 = Inr cands" ..
  have "res = Inr (redacted_with bs (select_longest_non_overlapping cands))" "rc' = rc1"
    using run s cands by (auto simp: sanitize_large_string_detailed_def Let_def)
  moreover have "\<forall>sp \<in> set cands. window_hit c r bs sp"
    "\<And>h. isolated c r bs h \<Longrightarrow> h \<in> set cands"
    using all_chunks [OF assms(1,5) ref(1) [symmetric, unfolded cands]] by blast+
  ultimately show ?thesis
    using that ref(2,3) by (simp add: cache_coherentI)
qed

definition hits_apart :: "crypto \<Rightarrow> registry \<Rightarrow> bytes \<Rightarrow> bool" where
  "hits_apart c r bs \<longleftrightarrow>
     (\<forall>a b. window_hit c r bs a \<longrightarrow> window_hit c r bs b \<longrightarrow> span_overlaps a b \<longrightarrow> a = b)"

lemma sanitize_large_string:
  assumes "registry_wf c r" and "caching c (reg_keys r) U" and "slices_of bs \<subseteq> U" and "cache_coherent c r U Ob rc"
    and "0 < rc_chunk rc" and apart: "hits_apart c r bs"
    and "sanitize_large_string_detailed c bs r rc = (res, rc')"
  shows "res = redact_reference c r bs \<and> cache_coherent c r U Ob rc'"
proof -
  obtain cands where cands: "res = Inr (redacted_with bs (select_longest_non_overlapping cands))"
    "\<forall>sp \<in> set cands. window_hit c r bs sp"
    "\<And>h. isolated c r bs h \<Longrightarrow> h \<in> set cands" "cache_coherent c r U Ob rc'"
    by (rule sanitize_large_spans [OF assms(1-5,7)]) blast
  obtain spans where spans: "scan_string_token c bs r = Inr spans"
    using scan_string_token_total assms(2) unfolding caching_def by blast
  have iso: "isolated c r bs h \<longleftrightarrow> window_hit c r bs h" for h
    using apart unfolding isolated_def hits_apart_def by blast
  have "set spans = Collect (window_hit c r bs)"
    using scan_sound(1) [OF assms(1) spans] scan_isolated [OF assms(1) spans] iso by blast
  moreover have "set (select_longest_non_overlapping cands) = Collect (window_hit c r bs)"
    using select_isolated [OF cands(2)] cands(2,3) iso span_sel.select_subset [of cands] by blast
  ultimately have "select_longest_non_overlapping cands = spans"
    using select_hits_in_order(1) [OF cands(2)] scan_sound(2) [OF assms(1) spans] window_hitD(1)
    by (intro in_order_unique) auto
  then show ?thesis
    using cands(1,4) spans by (simp add: redact_reference_def)
qed


section \<open>The cache while the registry grows\<close>

lemma scan_string_token_cong:
  assumes "reg_entries r' = reg_entries r" and "reg_keys r' = reg_keys r" and "reg_index r' = reg_index r"
  shows "scan_string_token c bs r' = scan_string_token c bs r"
proof -
  have "entry_of r' = entry_of r"
    by (rule ext) (simp add: entry_of_def Let_def assms)
  then have "candidates r' = candidates r"
    by (intro ext) (simp add: candidates_def assms split: option.split)
  then have "scan_window c r' = scan_window c r"
    by (simp add: fun_eq_iff scan_window_def prefilter_window_def verify_window_def assms)
  then have "scan_length c r' = scan_length c r"
    by (intro ext) (simp add: scan_length_def)
  moreover have "registry_lengths r' = registry_lengths r" "min_secret_len r' = min_secret_len r"
    "registry_is_empty r' = registry_is_empty r"
    by (simp_all add: registry_lengths_def min_secret_len_def registry_is_empty_def assms)
  ultimately show ?thesis
    by (simp add: scan_string_token_def)
qed

lemma wf_version: "registry_wf c r \<Longrightarrow> unat (reg_version r) = length (reg_entries r)"
  by (auto simp: registry_wf_def unat_of_nat take_bit_nat_eq_self)

text \<open>
  An entry made under an older version is only met again after a flush, and the version
  changes with every secret that is added.
\<close>

lemma cache_coherent_step:
  assumes coh: "cache_coherent c r U Ob rc" and step: "registry_step c r r'"
    and wf: "registry_wf c r" "registry_wf c r'"
    and mono: "\<And>a b. reg_entries r' = reg_entries r \<Longrightarrow> Ob a b \<Longrightarrow> Ob' a b"
  shows "cache_coherent c r' U Ob' rc"
proof -
  have ext: "reg_keys r' = reg_keys r" "prefix (reg_entries r) (reg_entries r')"
    using step by (auto simp: registry_step_def registry_extends_def)
  have le: "reg_version r \<le> reg_version r'"
    unfolding word_le_nat_alt wf_version [OF wf(1)] wf_version [OF wf(2)]
    using ext(2) by (rule prefix_length_le)
  have "lru.all_held (entry_coherent c r' U Ob') rc" if v: "rc_version rc = reg_version r'"
  proof -
    have same: "reg_version r = reg_version r'"
      using coh v le by (simp add: cache_coherent_def)
    then have "length (reg_entries r) = length (reg_entries r')"
      using wf_version wf by metis
    then have es: "reg_entries r' = reg_entries r"
      using ext(2) by (auto simp: prefix_def)
    have "reg_index r' = reg_index r"
      using wf es by (simp add: registry_wf_def)
    then have scan: "scan_string_token c bs r' = scan_string_token c bs r" for bs
      by (rule scan_string_token_cong [OF es ext(1)])
    have "lru.all_held (entry_coherent c r U Ob) rc"
      using coh v same by (simp add: cache_coherent_def)
    then show ?thesis
    proof (rule lru.all_held_mono)
      fix k v assume "entry_coherent c r U Ob k v"
      then show "entry_coherent c r' U Ob' k v"
        using mono [OF es] scan same ext(1)
        by (auto simp: entry_coherent_def entry_right_def registry_cache_key_def split: cache_entry.splits)
    qed
  qed
  then show ?thesis
    using coh le by (auto simp: cache_coherent_def intro: order_trans)
qed

section \<open>Redaction keeps UTF-8\<close>

lemma replace_edits_utf8:
  assumes "edits_ok (length bs) cur es" and "utf8_valid (drop cur bs)"
    and "\<forall>(s, e, r) \<in> set es. s < e \<and> utf8_valid (sub_bytes bs s e) \<and> utf8_valid r"
  shows "utf8_valid (replace_edits bs cur es)"
  using assms
proof (induction es arbitrary: cur)
  case (Cons x es)
  obtain s e r where x: "x = (s, e, r)" by (cases x)
  have ok: "cur \<le> s" "s < e" "edits_ok (length bs) e es" "utf8_valid (sub_bytes bs s e)" "utf8_valid r"
    using Cons.prems x by auto
  have e: "e \<le> length bs"
    using edits_ok_bound [OF ok(3)] .
  have split: "drop cur bs = sub_bytes bs cur s @ sub_bytes bs s e @ drop e bs"
    using ok by (simp add: sub_bytes_drop)
  have "sub_bytes bs s e \<noteq> []"
    using ok(2) e by (metis length_sub_bytes list.size(3) zero_less_diff less_numeral_extra(3))
  then have "utf8_valid (sub_bytes bs cur s)" "utf8_valid (drop e bs)"
    using utf8_valid_infix [OF Cons.prems(2) [unfolded split] ok(4)] by auto
  then show ?case
    using Cons.IH [OF ok(3)] Cons.prems(3) x ok(5) by auto
qed simp

lemma redaction_utf8:
  assumes wf: "registry_wf c r" and run: "scan_string_token c bs r = Inr spans" and "utf8_valid bs"
    and windows: "\<And>sp. window_hit c r bs sp \<Longrightarrow> utf8_valid (sub_bytes bs (sp_start sp) (span_end sp))"
    and placeholders: "\<And>e. e \<in> set (reg_entries r) \<Longrightarrow> utf8_valid (e_placeholder e)"
  shows "utf8_valid (apply_spans bs spans)"
proof -
  have "sp_start sp < span_end sp \<and> utf8_valid (sub_bytes bs (sp_start sp) (span_end sp)) \<and>
      utf8_valid (sp_placeholder sp)" if "sp \<in> set spans" for sp
  proof -
    have h: "window_hit c r bs sp"
      using scan_sound(1) [OF wf run] that by blast
    then show ?thesis
      using windows [OF h] window_hitD(1) [OF h] placeholders by (auto simp: window_hit_def)
  qed
  then show ?thesis
    using replace_edits_utf8 [OF scan_sound(3) [OF wf run]] apply_spans_eq [OF scan_sound(3) [OF wf run]]
      assms(3) by (auto simp: span_edits_def)
qed


section \<open>The chunk size never changes\<close>

lemma cached_entry_chunk [simp]: "rc_chunk (snd (cached_entry k rc)) = rc_chunk rc"
  by (cases "cached_entry k rc") (simp add: cached_entry_keeps(4))

lemma scan_and_store_chunk [simp]: "rc_chunk (snd (scan_and_store c k bs r rc)) = rc_chunk rc"
  by (cases "scan_string_token c bs r") (simp_all add: scan_and_store_def)

lemma spans_for_window_chunk [simp]: "rc_chunk (snd (spans_for_window c w r rc)) = rc_chunk rc"
proof (cases "registry_cache_key c r w")
  case (Inr key)
  obtain found rc1 where g: "cached_entry key rc = (found, rc1)"
    by fastforce
  then show ?thesis
    using Inr cached_entry_keeps(4) [OF g]
    by (auto simp: spans_for_window_def split: option.split cache_entry.split)
qed (simp add: spans_for_window_def)

lemma scan_chunks_chunk [simp]:
  "rc_chunk (snd (scan_chunks c bs r overlap chunk starts rc)) = rc_chunk rc"
proof (induction starts arbitrary: rc)
  case (Cons start starts)
  let ?w = "sub_bytes bs (start - overlap) (min (min (start + chunk) (length bs) + overlap) (length bs))"
  have "rc_chunk (snd (spans_for_window c ?w r rc)) = rc_chunk rc"
    by simp
  then show ?case
    using Cons by (cases "spans_for_window c ?w r rc"; cases "fst (spans_for_window c ?w r rc)") (auto simp: Let_def)
qed simp

lemma sanitize_string_detailed_chunk [simp]:
  "rc_chunk (snd (sanitize_string_detailed c bs r rc)) = rc_chunk rc"
proof -
  have large: "rc_chunk (snd (sanitize_large_string_detailed c bs r rc)) = rc_chunk rc"
    by (simp add: sanitize_large_string_detailed_def Let_def)
  have small: "rc_chunk (snd (and_then_st (registry_cache_key c r bs, sync_registry_version r rc) (\<lambda>key rc.
             case cached_entry key rc of
               (Some NoSecret, rc) \<Rightarrow> (Inr (unchanged bs), count_hit rc)
             | (Some (Spans spans), rc) \<Rightarrow> (Inr (redacted_with bs spans), count_hit rc)
             | (Some (Sanitized out ids _), rc) \<Rightarrow>
                 (Inr \<lparr>ss_bytes = out, ss_ids = ids\<rparr>, count_hit rc)
             | (None, rc) \<Rightarrow>
                 and_then_st (scan_and_store c key bs r rc) (\<lambda>spans rc.
                   (Inr (redacted_with bs spans), rc))))) = rc_chunk rc"
  proof (cases "registry_cache_key c r bs")
    case (Inr key)
    obtain found rc1 where g: "cached_entry key (sync_registry_version r rc) = (found, rc1)"
      by fastforce
    then show ?thesis
      using Inr cached_entry_keeps(4) [OF g] by (auto split: option.split cache_entry.split)
  qed simp
  show ?thesis
    using large small unfolding sanitize_string_detailed_def Let_def by (simp del: and_then_st_simps)
qed

end
