(* ===== verification/Long_Strings.thy ===== *)
theory Long_Strings
  imports Redaction_Cache
begin

text \<open>
  Strings longer than a chunk (\<^verbatim>\<open>sanitize_large_string_detailed\<close> of \<^verbatim>\<open>src/redact/cache.rs\<close>): when the
  chunks find what a scan of the whole string finds, and when they lose a secret.
\<close>

section \<open>Strings of any length\<close>

text \<open>Either one chunk holds the string, or no two hits in it overlap.\<close>

definition chunks_agree :: "crypto \<Rightarrow> registry \<Rightarrow> bytes set \<Rightarrow> nat \<Rightarrow> bytes \<Rightarrow> bool" where
  "chunks_agree c r U chunk bs \<longleftrightarrow>
     length bs \<le> chunk \<and> bs \<in> U \<or>
     0 < chunk \<and> registry_wf c r \<and> hits_apart c r bs \<and> slices_of bs \<subseteq> U"

lemma whole_slice: "bs \<in> slices_of bs"
proof -
  have "sub_bytes bs 0 (length bs) = bs"
    by (simp add: sub_bytes_def)
  then show ?thesis
    unfolding slices_of_def by (metis (mono_tags) mem_Collect_eq)
qed

text \<open>A hit stays a hit when more is registered, so what a registry reads apart the ones before it do.\<close>

lemma window_hit_extends: "registry_extends r r' \<Longrightarrow> window_hit c r bs sp \<Longrightarrow> window_hit c r' bs sp"
  by (auto simp: window_hit_def prefilter_window_def registry_extends_def dest: set_mono_prefix)

lemma hits_apart_back: "registry_step c r r' \<Longrightarrow> hits_apart c r' bs \<Longrightarrow> hits_apart c r bs"
  unfolding hits_apart_def registry_step_def by (blast intro: window_hit_extends)

lemma chunks_agree_back:
  "registry_step c r r' \<Longrightarrow> registry_wf c r \<Longrightarrow> chunks_agree c r' U chunk bs \<Longrightarrow> chunks_agree c r U chunk bs"
  unfolding chunks_agree_def by (blast intro: hits_apart_back)

text \<open>A registry that is not too large and reads every string of \<open>A\<close> apart.\<close>

definition registry_calm :: "crypto \<Rightarrow> bytes set \<Rightarrow> registry \<Rightarrow> bool" where
  "registry_calm c A r \<longleftrightarrow> registry_fits r \<and> (\<forall>s \<in> A. hits_apart c r s)"

lemma calm_fits: "registry_calm c A r \<Longrightarrow> registry_fits r"
  by (simp add: registry_calm_def)

lemma calm_none [simp]: "registry_calm c {} r \<longleftrightarrow> registry_fits r"
  by (simp add: registry_calm_def)

lemma step_calm: "registry_step c r r' \<Longrightarrow> registry_calm c A r' \<Longrightarrow> registry_calm c A r"
  unfolding registry_calm_def registry_step_def
  by (blast intro: registry_extends_fits hits_apart_back [unfolded registry_step_def])

lemma sanitize_string_reference:
  assumes "caching c (reg_keys r) U" and "cache_coherent c r U Ob rc"
    and "\<forall>out. \<not> Ob bs out" and "chunks_agree c r U (rc_chunk rc) bs"
    and run: "sanitize_string_detailed c bs r rc = (res, rc')"
  shows "res = redact_reference c r bs \<and> cache_coherent c r U Ob rc'"
proof (cases "length bs \<le> rc_chunk rc")
  case True
  then have "bs \<in> U"
    using assms(4) whole_slice by (auto simp: chunks_agree_def)
  then show ?thesis
    using sanitize_small_string [OF assms(1) _ assms(2,3) True run] by blast
next
  case False
  then have large: "0 < rc_chunk rc" "hits_apart c r bs" "slices_of bs \<subseteq> U" "registry_wf c r"
    using assms(4) by (auto simp: chunks_agree_def)
  show ?thesis
  proof (cases "registry_is_empty r \<or> (case min_secret_len r of None \<Rightarrow> False | Some m \<Rightarrow> length bs < m)")
    case True
    then have "sanitize_string_detailed c bs r rc = (Inr (unchanged bs), rc)"
      by (cases "registry_is_empty r") (simp_all add: sanitize_string_detailed_def)
    then show ?thesis
      using run assms(2) redact_reference_early [OF True] by simp
  next
    case early: False
    then have "sanitize_large_string_detailed c bs r rc = (res, rc')"
      using run False by (auto simp: sanitize_string_detailed_def)
    then show ?thesis
      by (rule sanitize_large_string [OF large(4) assms(1) large(3) assms(2) large(1,2)])
  qed
qed

section \<open>Hits that win and hits that lose\<close>

lemma scan_longest_hit:
  assumes "registry_wf c r" and "scan_string_token c bs r = Inr spans" and "window_hit c r bs h"
    and "\<And>sp. window_hit c r bs sp \<Longrightarrow> span_overlaps sp h \<Longrightarrow> sp_len h \<le> sp_len sp \<Longrightarrow> sp = h"
  shows "h \<in> set spans"
proof -
  obtain cands where c: "spans = select_longest_non_overlapping cands"
    "\<And>sp. sp \<in> set cands \<longleftrightarrow> window_hit c r bs sp"
    using scan_string_token_InrE [OF assms(1,2)] by blast
  have "h \<in> set cands"
    using c(2) assms(3) by blast
  from span_sel.select_longest [OF this] show ?thesis
    using assms(4) c span_sel.select_subset [of cands]
    by (fastforce simp: span_overlaps_def span_end_def)
qed

lemma scan_overlapped_lost:
  assumes "registry_wf c r" and "scan_string_token c bs r = Inr spans" and "g \<in> set spans"
    and "span_overlaps g h" and "g \<noteq> h"
  shows "h \<notin> set spans"
proof
  assume "h \<in> set spans"
  then obtain i j where ij: "i < length spans" "spans ! i = g" "j < length spans" "spans ! j = h"
    using assms(3) by (auto simp: in_set_conv_nth)
  moreover have "i \<noteq> j"
    using ij assms(5) by auto
  ultimately have "span_end g \<le> sp_start h \<or> span_end h \<le> sp_start g"
    using scan_sound(2) [OF assms(1,2)] unfolding sorted_wrt_iff_nth_less by (metis nat_neq_iff)
  then show False
    using assms(4) by (auto simp: span_overlaps_def)
qed

text \<open>A hit in a window of the string.\<close>

definition window_of :: "nat \<Rightarrow> redaction_span \<Rightarrow> redaction_span" where
  "window_of k sp = sp\<lparr>sp_start := sp_start sp - k\<rparr>"

lemma shift_window_of: "k \<le> sp_start sp \<Longrightarrow> shift_span k (window_of k sp) = sp"
  by (simp add: shift_span_def window_of_def)

lemma shift_span_inj: "shift_span k a = shift_span k b \<Longrightarrow> a = b"
  by (cases a; cases b) (simp add: shift_span_def)

lemma shift_span_overlaps [simp]: "span_overlaps (shift_span k a) (shift_span k b) \<longleftrightarrow> span_overlaps a b"
  by (simp add: span_overlaps_def)

lemma window_scan_longest:
  assumes "registry_wf c r" and "scan_string_token c (sub_bytes bs a b) r = Inr ws" and "b \<le> length bs"
    and "window_hit c r bs h" and "a \<le> sp_start h" and "span_end h \<le> b"
    and "\<And>sp. window_hit c r bs sp \<Longrightarrow> span_end sp \<le> b \<Longrightarrow> span_overlaps sp h \<Longrightarrow>
      sp_len h \<le> sp_len sp \<Longrightarrow> sp = h"
  shows "h \<in> shift_span a ` set ws"
proof -
  have "window_of a h \<in> set ws"
  proof (rule scan_longest_hit [OF assms(1,2)])
    show "window_hit c r (sub_bytes bs a b) (window_of a h)"
      using assms(3-6) by (simp add: window_hit_shift shift_window_of)
    fix sp
    assume sp: "window_hit c r (sub_bytes bs a b) sp" "span_overlaps sp (window_of a h)"
      "sp_len (window_of a h) \<le> sp_len sp"
    have "span_overlaps (shift_span a sp) (shift_span a (window_of a h))"
      using sp(2) by simp
    then have ov: "span_overlaps (shift_span a sp) h"
      unfolding shift_window_of [OF assms(5)] .
    have hit: "window_hit c r bs (shift_span a sp) \<and> span_end (shift_span a sp) \<le> b"
      using sp(1) unfolding window_hit_shift [OF assms(3)] .
    have "sp_len h \<le> sp_len (shift_span a sp)"
      using sp(3) by (simp add: window_of_def)
    with hit ov have "shift_span a sp = h"
      by (blast intro: assms(7))
    then show "sp = window_of a h"
      using shift_window_of [OF assms(5)] by (metis shift_span_inj)
  qed
  then show ?thesis
    using shift_window_of [OF assms(5)] by (metis image_eqI)
qed

lemma window_scan_lost:
  assumes "registry_wf c r" and "scan_string_token c (sub_bytes bs a b) r = Inr ws"
    and "g \<in> shift_span a ` set ws" and "span_overlaps g h" and "g \<noteq> h"
  shows "h \<notin> shift_span a ` set ws"
proof
  assume "h \<in> shift_span a ` set ws"
  then obtain g' h' where "g = shift_span a g'" "g' \<in> set ws" "h = shift_span a h'" "h' \<in> set ws"
    using assms(3) by blast
  then show False
    using scan_overlapped_lost [OF assms(1,2), of g' h'] assms(4,5) by auto
qed

section \<open>A secret that the chunks lose\<close>

text \<open>
  Three hits and the boundary of two chunks: \<open>a\<close> starts before it and overlaps the longer \<open>g\<close> that
  starts behind it, which overlaps the longest \<open>d\<close>. In the window of the first chunk \<open>g\<close> wins against
  \<open>a\<close>, in that of the second \<open>d\<close> wins against \<open>g\<close>; \<open>a\<close> is dropped although \<open>d\<close> does not touch it.
\<close>

definition lost_at_boundary ::
  "crypto \<Rightarrow> registry \<Rightarrow> bytes \<Rightarrow> nat \<Rightarrow> redaction_span \<Rightarrow> redaction_span \<Rightarrow> redaction_span \<Rightarrow> bool" where
  "lost_at_boundary c r bs B a g d \<longleftrightarrow>
     window_hit c r bs a \<and> window_hit c r bs g \<and> window_hit c r bs d \<and>
     (\<forall>sp. window_hit c r bs sp \<longrightarrow> sp = a \<or> sp = g \<or> sp = d) \<and>
     sp_start a < B \<and> B \<le> sp_start g \<and> span_overlaps a g \<and> span_overlaps g d \<and> span_end a \<le> sp_start d \<and>
     sp_len a < sp_len g \<and> sp_len g < sp_len d \<and> sp_len d = max_secret_len r \<and>
     span_end g < B + max_secret_len r \<and> length bs \<le> 2 * B"

lemma lost_hits:
  assumes "lost_at_boundary c r bs B a g d"
  shows "window_hit c r bs a" "window_hit c r bs g" "window_hit c r bs d"
    and lost_only: "window_hit c r bs sp \<Longrightarrow> sp = a \<or> sp = g \<or> sp = d"
  using assms unfolding lost_at_boundary_def by blast+

lemma lost_order:
  assumes "lost_at_boundary c r bs B a g d"
  shows "span_overlaps a g" "span_overlaps g d" "span_end a \<le> sp_start d"
    and lost_boundary: "sp_start a < B" "B \<le> sp_start g" "B \<le> sp_start d" "span_end g < B + max_secret_len r"
      "length bs \<le> 2 * B"
    and lost_lengths: "sp_len a < sp_len g" "sp_len g < sp_len d" "sp_len d = max_secret_len r"
  using assms by (auto simp: lost_at_boundary_def span_overlaps_def)

lemma lost_ranges:
  assumes "lost_at_boundary c r bs B a g d"
  shows "sp_start a < span_end a" "sp_start g < span_end g" "sp_start d < span_end d"
    "span_end g \<le> length bs" "span_end d \<le> length bs"
  using lost_hits [OF assms] window_hitD by blast+

lemma lost_chunk_before:
  assumes wf: "registry_wf c r" and lost: "lost_at_boundary c r bs B a g d"
    and run: "chunk_spans c bs r (max_secret_len r - 1) B 0 = Inr spans"
  shows "spans = []"
proof -
  define e where "e = min (min B (length bs) + (max_secret_len r - 1)) (length bs)"
  obtain ws where ws: "scan_string_token c (sub_bytes bs 0 e) r = Inr ws"
    and spans: "spans = filter (\<lambda>sp. sp_start sp < min B (length bs)) (map (shift_span 0) ws)"
    using run by (auto simp: chunk_spans_def Let_def e_def)
  have e: "e \<le> length bs" "e < B + max_secret_len r"
    using lost_lengths [OF lost] by (auto simp: e_def)
  have in_window: "sp = a \<or> sp = g" if "window_hit c r bs sp" "span_end sp \<le> e" for sp
    using lost_only [OF lost that(1)] that(2) e lost_boundary(3) [OF lost] lost_lengths(3) [OF lost]
    by (auto simp: span_end_def)
  have g: "g \<in> shift_span 0 ` set ws"
  proof (rule window_scan_longest [OF wf ws e(1) lost_hits(2) [OF lost]])
    show "span_end g \<le> e"
      using lost_boundary(2,4) [OF lost] lost_ranges(2,4) [OF lost] by (simp add: e_def)
    show "sp = g" if "window_hit c r bs sp" "span_end sp \<le> e" "sp_len g \<le> sp_len sp" for sp
      using in_window [OF that(1,2)] that(3) lost_lengths(1) [OF lost] by auto
  qed simp
  have "a \<notin> shift_span 0 ` set ws"
  proof (rule window_scan_lost [OF wf ws g])
    show "span_overlaps g a" "g \<noteq> a"
      using lost_order(1) [OF lost] lost_lengths(1) [OF lost] by (auto simp: span_overlaps_def)
  qed
  moreover have "window_hit c r bs sp \<and> span_end sp \<le> e" if "sp \<in> shift_span 0 ` set ws" for sp
    using that scan_sound(1) [OF wf ws] window_hit_shift [OF e(1)] by auto
  ultimately have "sp = g" if "sp \<in> shift_span 0 ` set ws" for sp
    using that in_window by blast
  then have "sp_start (shift_span 0 sp) = sp_start g" if "sp \<in> set ws" for sp
    using that by (metis imageI)
  then show ?thesis
    using lost_boundary(2) [OF lost] by (auto simp: spans filter_empty_conv)
qed

lemma lost_chunk_behind:
  assumes wf: "registry_wf c r" and lost: "lost_at_boundary c r bs B a g d"
    and run: "chunk_spans c bs r (max_secret_len r - 1) B B = Inr spans"
  shows "set spans = {d}"
proof -
  define k where "k = B - (max_secret_len r - 1)"
  have "min (min (B + B) (length bs) + (max_secret_len r - 1)) (length bs) = length bs"
    "min (B + B) (length bs) = length bs"
    using lost_boundary(5) [OF lost] by auto
  then obtain ws where ws: "scan_string_token c (sub_bytes bs k (length bs)) r = Inr ws"
    and spans: "spans = filter (\<lambda>sp. B \<le> sp_start sp \<and> sp_start sp < length bs) (map (shift_span k) ws)"
    using run by (auto simp: chunk_spans_def Let_def k_def)
  have d: "d \<in> shift_span k ` set ws"
  proof (rule window_scan_longest [OF wf ws order_refl lost_hits(3) [OF lost]])
    show "k \<le> sp_start d" "span_end d \<le> length bs"
      using lost_boundary(3) [OF lost] lost_ranges(5) [OF lost] by (auto simp: k_def)
    show "sp = d" if "window_hit c r bs sp" "sp_len d \<le> sp_len sp" for sp
      using lost_only [OF lost that(1)] that(2) lost_lengths(1,2) [OF lost] by auto
  qed
  have "g \<notin> shift_span k ` set ws"
  proof (rule window_scan_lost [OF wf ws d])
    show "span_overlaps d g" "d \<noteq> g"
      using lost_order(2) [OF lost] lost_lengths(2) [OF lost] by (auto simp: span_overlaps_def)
  qed
  moreover have "window_hit c r bs sp" if "sp \<in> shift_span k ` set ws" for sp
    using that scan_sound(1) [OF wf ws] window_hit_shift [of "length bs" bs c r k] by auto
  ultimately have found: "sp = a \<or> sp = d" if "sp \<in> shift_span k ` set ws" for sp
    using that lost_only [OF lost] by blast
  have spans: "set spans = {sp \<in> shift_span k ` set ws. B \<le> sp_start sp \<and> sp_start sp < length bs}"
    by (auto simp: spans)
  have "d \<in> set spans"
    using d lost_boundary(3) [OF lost] lost_ranges(3,5) [OF lost] by (simp add: spans)
  moreover have "sp = d" if "sp \<in> set spans" for sp
    using that found [of sp] lost_boundary(1) [OF lost] by (auto simp: spans)
  ultimately show ?thesis
    by blast
qed

lemma select_single:
  assumes "set spans = {d}" and "window_hit c r bs d"
  shows "select_longest_non_overlapping spans = [d]"
proof (rule in_order_unique)
  show "sorted_wrt (\<lambda>a b. span_end a \<le> sp_start b) (select_longest_non_overlapping spans)"
    by (rule select_hits_in_order(1) [of spans c r bs]) (use assms in auto)
  have "d \<in> set (select_longest_non_overlapping spans)"
    using span_sel.select_longest [of d spans] span_sel.select_subset [of spans] assms(1) by auto
  then show sel: "set (select_longest_non_overlapping spans) = set [d]"
    using span_sel.select_subset [of spans] assms(1) by auto
  show "\<forall>x \<in> set (select_longest_non_overlapping spans). sp_start x < span_end x"
    using window_hitD(1) [OF assms(2)] sel by simp
qed simp

lemma chunk_starts_two:
  assumes "0 < B" and "B < n" and "n \<le> 2 * B"
  shows "chunk_starts B 0 n = [0, B]"
proof -
  have "chunk_starts B n n = []"
    by (simp add: chunk_starts.simps [of B n])
  then show ?thesis
    using assms by (simp add: chunk_starts.simps [of B 0] chunk_starts.simps [of B B] min_absorb2)
qed

lemma min_secret_len_le: "len \<in> set (registry_lengths r) \<Longrightarrow> min_secret_len r = Some m \<Longrightarrow> m \<le> len"
  by (auto simp: min_secret_len_def set_registry_lengths split: if_splits)

lemma chunks_lose_hit:
  assumes wf: "registry_wf c r" and "caching c (reg_keys r) U" and "slices_of bs \<subseteq> U"
    and "cache_coherent c r U Ob rc" and lost: "lost_at_boundary c r bs (rc_chunk rc) a g d"
  shows "fst (sanitize_string_detailed c bs r rc) = Inr (redacted_with bs [d])"
proof -
  let ?f = "chunk_spans c bs r (max_secret_len r - 1) (rc_chunk rc)"
  note d = lost_hits(3) [OF lost]
  have B: "0 < rc_chunk rc" "rc_chunk rc < length bs"
    using lost_boundary(1,3) [OF lost] lost_ranges(3,5) [OF lost] by auto
  obtain res1 rc1 where s: "scan_chunks c bs r (max_secret_len r - 1) (rc_chunk rc)
      (chunk_starts (rc_chunk rc) 0 (length bs)) (sync_registry_version r rc) = (res1, rc1)"
    by fastforce
  have ref: "res1 = try_collect ?f [0, rc_chunk rc]"
    using scan_chunks_reference [OF assms(2,3) all_held_sync [OF assms(4)] s]
      chunk_starts_two [OF B lost_boundary(5) [OF lost]] by simp
  obtain s0 s1 where s0: "?f 0 = Inr s0" and s1: "?f (rc_chunk rc) = Inr s1"
    using chunk_spans_total assms(2) unfolding caching_def by blast
  have "res1 = Inr (s0 @ s1)"
    using s0 s1 by (simp add: ref)
  then have "fst (sanitize_large_string_detailed c bs r rc) =
      Inr (redacted_with bs (select_longest_non_overlapping (s0 @ s1)))"
    using s by (simp add: sanitize_large_string_detailed_def Let_def)
  moreover have "set (s0 @ s1) = {d}"
    using lost_chunk_before [OF wf lost s0] lost_chunk_behind [OF wf lost s1] by simp
  ultimately have large: "fst (sanitize_large_string_detailed c bs r rc) = Inr (redacted_with bs [d])"
    using select_single [OF _ d] by simp
  have len: "sp_len d \<in> set (registry_lengths r)" "sp_len d \<le> length bs"
    using window_hit_len [OF d] lost_ranges(5) [OF lost] by (auto simp: span_end_def)
  then have "\<not> registry_is_empty r"
    by (auto simp: registry_is_empty_def set_registry_lengths)
  moreover have "\<not> (case min_secret_len r of None \<Rightarrow> False | Some m \<Rightarrow> length bs < m)"
    using min_secret_len_le [OF len(1)] len(2) by (fastforce split: option.splits)
  ultimately show ?thesis
    using large B by (simp add: sanitize_string_detailed_def)
qed

text \<open>The lost secret stands in the output, while a scan of the whole string selects it.\<close>

lemma lost_hit_kept:
  assumes "lost_at_boundary c r bs B a g d"
  shows "occurs_in (sub_bytes bs (sp_start a) (span_end a)) (ss_bytes (redacted_with bs [d]))"
proof -
  note a = lost_ranges(1,3,5) [OF assms] lost_order(3) [OF assms]
  have "ss_bytes (redacted_with bs [d]) = sub_bytes bs 0 (sp_start d) @ sp_placeholder d @ drop (span_end d) bs"
    using a by (auto simp: redacted_with_def apply_spans_def)
  also have "sub_bytes bs 0 (sp_start d) = sub_bytes bs 0 (span_end a) @ sub_bytes bs (span_end a) (sp_start d)"
    using a by (simp add: sub_bytes_append)
  also have "sub_bytes bs 0 (span_end a) = sub_bytes bs 0 (sp_start a) @ sub_bytes bs (sp_start a) (span_end a)"
    using a by (simp add: sub_bytes_append)
  finally show ?thesis
    unfolding occurs_in_split by (metis append.assoc)
qed

lemma whole_scan_keeps_hit:
  assumes wf: "registry_wf c r" and scan: "scan_string_token c bs r = Inr spans"
    and lost: "lost_at_boundary c r bs B a g d"
  shows "a \<in> set spans"
proof -
  have d: "d \<in> set spans"
    using lost_only [OF lost] lost_lengths(1,2) [OF lost]
    by (intro scan_longest_hit [OF wf scan lost_hits(3) [OF lost]]) fastforce
  have g: "g \<notin> set spans"
    using lost_order(2) [OF lost] lost_lengths(2) [OF lost]
    by (intro scan_overlapped_lost [OF wf scan d]) (auto simp: span_overlaps_def)
  obtain cands where c: "spans = select_longest_non_overlapping cands"
    "\<And>sp. sp \<in> set cands \<longleftrightarrow> window_hit c r bs sp"
    using scan_string_token_InrE [OF wf scan] by blast
  have "a \<in> set cands"
    using c(2) lost_hits(1) [OF lost] by blast
  then consider "a \<in> set spans" | sp where "sp \<in> set spans" "sp_start sp < span_end a"
    using span_sel.select_longest [of a cands] c(1) by blast
  then show ?thesis
  proof cases
    case 2
    then have "sp = a \<or> sp = d"
      using lost_only [OF lost, of sp] scan_sound(1) [OF wf scan] g by blast
    then show ?thesis
      using 2 lost_order(3) [OF lost] by auto
  qed
qed

end
