(* ===== verification/Directive.thy ===== *)
theory Directive
  imports Registry
begin

text \<open>
  \<^verbatim>\<open>src/redact/directive.rs\<close>: the \<^verbatim>\<open><cb>...</cb>\<close> directives with which a user declares a
  secret inside a prompt. The parser is compared with the grammar it accepts; the
  declared texts are then registered and their placeholders put in place.
\<close>

section \<open>Parsing\<close>

definition OPEN_TAG :: bytes where "OPEN_TAG = ''<cb>''"
definition CLOSE_TAG :: bytes where "CLOSE_TAG = ''</cb>''"

datatype parsed_part = Parsed_plain nat nat | Parsed_secret nat nat

datatype directive_part = Plain_part bytes | Secret_part bytes u64

lemma length_tags [simp]: "length OPEN_TAG = 4" "length CLOSE_TAG = 5"
  by (simp_all add: OPEN_TAG_def CLOSE_TAG_def)

function parse_ranges_from :: "bytes \<Rightarrow> nat \<Rightarrow> crebro_error + parsed_part list" where
  "parse_ranges_from input cursor =
     (if length input \<le> cursor then Inr []
      else
        let rest = drop cursor input;
            next_open = map_option (\<lambda>index. cursor + index) (str_find OPEN_TAG rest);
            next_close = map_option (\<lambda>index. cursor + index) (str_find CLOSE_TAG rest)
        in case next_open of
             None \<Rightarrow>
               (case next_close of
                  None \<Rightarrow> Inr [Parsed_plain cursor (length input)]
                | Some _ \<Rightarrow> Inl (Redaction ''stray </cb> secret directive close tag''))
           | Some open_at \<Rightarrow>
               if (case next_close of None \<Rightarrow> False | Some close_at \<Rightarrow> close_at < open_at)
               then Inl (Redaction ''stray </cb> secret directive close tag'')
               else
                 let secret_start = open_at + length OPEN_TAG
                 in case str_find CLOSE_TAG (drop secret_start input) of
                      None \<Rightarrow> Inl (Redaction ''unclosed <cb> secret directive'')
                    | Some close_rel \<Rightarrow>
                        let secret_end = secret_start + close_rel;
                            secret = sub_bytes input secret_start secret_end
                        in if secret = [] then Inl (Redaction ''empty <cb> secret directive'')
                           else if str_contains secret OPEN_TAG
                           then Inl (Redaction ''nested <cb> secret directive'')
                           else and_then (parse_ranges_from input (secret_end + length CLOSE_TAG))
                             (\<lambda>parts. Inr ((if cursor < open_at then [Parsed_plain cursor open_at]
                                            else []) @ Parsed_secret secret_start secret_end # parts)))"
  by pat_completeness auto

termination
  by (relation "measure (\<lambda>(input, cursor). length input - cursor)")
    (auto dest!: sym [where s = "Some _"])

declare parse_ranges_from.simps [simp del]

definition parse_ranges :: "bytes \<Rightarrow> crebro_error + parsed_part list" where
  "parse_ranges input = parse_ranges_from input 0"

section \<open>Registering what is declared\<close>

fun register_parts ::
  "crypto \<Rightarrow> bytes \<Rightarrow> parsed_part list \<Rightarrow> registry \<Rightarrow>
   (crebro_error + directive_part list) \<times> registry" where
  "register_parts c input [] r = (Inr [], r)"
| "register_parts c input (Parsed_plain s e # ps) r =
     and_then_st (register_parts c input ps r) (\<lambda>parts r.
       (Inr ((if s < e then [Plain_part (sub_bytes input s e)] else []) @ parts), r))"
| "register_parts c input (Parsed_secret s e # ps) r =
     and_then_st (ingest c (secret_label ''USER'') (sub_bytes input s e) r) (\<lambda>ident r.
     and_then_st (ok_or (Redaction ''registered directive secret is missing'')
                    (placeholder_for r ident), r) (\<lambda>placeholder r.
     and_then_st (register_parts c input ps r) (\<lambda>parts r.
       (Inr (Secret_part placeholder ident # parts), r))))"

definition is_plain :: "parsed_part \<Rightarrow> bool" where
  "is_plain part = (case part of Parsed_plain _ _ \<Rightarrow> True | Parsed_secret _ _ \<Rightarrow> False)"

definition parse_user_secret_directives ::
  "crypto \<Rightarrow> bytes \<Rightarrow> registry \<Rightarrow> (crebro_error + directive_part list option) \<times> registry" where
  "parse_user_secret_directives c input r =
     (if \<not> str_contains input OPEN_TAG \<and> \<not> str_contains input CLOSE_TAG then (Inr None, r)
      else and_then_st (parse_ranges input, r) (\<lambda>parsed r.
        if list_all is_plain parsed then (Inr None, r)
        else and_then_st (register_parts c input parsed r) (\<lambda>parts r. (Inr (Some parts), r))))"

section \<open>The test on raw bytes\<close>

text \<open>\<^verbatim>\<open>haystack.windows(n).any(p)\<close>\<close>

definition any_window :: "nat \<Rightarrow> (bytes \<Rightarrow> bool) \<Rightarrow> bytes \<Rightarrow> bool" where
  "any_window n p haystack \<longleftrightarrow>
     n \<le> length haystack \<and>
     list_ex (\<lambda>i. p (sub_bytes haystack i (i + n))) [0..<length haystack - n + 1]"

definition contains_bytes :: "bytes \<Rightarrow> bytes \<Rightarrow> bool" where
  "contains_bytes haystack needle = any_window (length needle) (\<lambda>window. window = needle) haystack"

definition contains_ascii_case_insensitive :: "bytes \<Rightarrow> bytes \<Rightarrow> bool" where
  "contains_ascii_case_insensitive haystack needle =
     any_window (length needle)
       (\<lambda>window. list_all (\<lambda>(left, right). to_ascii_lower left = to_ascii_lower right)
                   (zip window needle)) haystack"

text \<open>\<^verbatim>\<open>b"\\u003c"\<close>, the escape with which JSON may write \<^verbatim>\<open><\<close>.\<close>

definition escaped_lt :: bytes where
  "escaped_lt = CHR 0x5C # ''u003c''"

definition might_contain_directive_bytes :: "bytes \<Rightarrow> bool" where
  "might_contain_directive_bytes bs \<longleftrightarrow>
     contains_bytes bs OPEN_TAG \<or> contains_bytes bs CLOSE_TAG \<or>
     contains_ascii_case_insensitive bs escaped_lt"

lemma contains_bytes_iff: "contains_bytes haystack needle \<longleftrightarrow> occurs_in needle haystack"
proof -
  have "occurs_in needle haystack \<longleftrightarrow>
      (\<exists>i. i + length needle \<le> length haystack \<and> sub_bytes haystack i (i + length needle) = needle)"
    unfolding occurs_in_def occurs_at_def using add_leD1 by blast
  also have "\<dots> \<longleftrightarrow> length needle \<le> length haystack \<and>
      (\<exists>i < length haystack - length needle + 1.
         sub_bytes haystack i (i + length needle) = needle)"
    by (auto simp: less_Suc_eq_le Nat.le_diff_conv2)
  finally show ?thesis
    by (auto simp: contains_bytes_def any_window_def list_ex_iff simp del: upt_Suc)
qed


section \<open>The grammar of directives\<close>

text \<open>
  A prompt without errors is a sequence of segments: non-empty texts and declared secrets,
  free of tags inside, no two texts next to each other.
\<close>

datatype segment = Text bytes | Declared bytes

fun segment_of :: "bytes \<Rightarrow> parsed_part \<Rightarrow> segment" where
  "segment_of input (Parsed_plain s e) = Text (sub_bytes input s e)"
| "segment_of input (Parsed_secret s e) = Declared (sub_bytes input s e)"

fun unparse_segment :: "segment \<Rightarrow> bytes" where
  "unparse_segment (Text t) = t"
| "unparse_segment (Declared s) = OPEN_TAG @ s @ CLOSE_TAG"

definition unparse :: "segment list \<Rightarrow> bytes" where
  "unparse segs = concat (map unparse_segment segs)"

definition tag_free :: "bytes \<Rightarrow> bool" where
  "tag_free t \<longleftrightarrow> \<not> occurs_in OPEN_TAG t \<and> \<not> occurs_in CLOSE_TAG t"

fun segments_ok :: "segment list \<Rightarrow> bool" where
  "segments_ok [] \<longleftrightarrow> True"
| "segments_ok (Text t # segs) \<longleftrightarrow>
     t \<noteq> [] \<and> tag_free t \<and> (case segs of Text _ # _ \<Rightarrow> False | _ \<Rightarrow> True) \<and> segments_ok segs"
| "segments_ok (Declared s # segs) \<longleftrightarrow> s \<noteq> [] \<and> tag_free s \<and> segments_ok segs"

lemma unparse_simps [simp]:
  "unparse [] = []"
  "unparse (Text t # segs) = t @ unparse segs"
  "unparse (Declared s # segs) = OPEN_TAG @ s @ CLOSE_TAG @ unparse segs"
  by (simp_all add: unparse_def)

text \<open>A tag starts with its only \<^verbatim>\<open><\<close>, so no tag straddles the start of another.\<close>

lemma tag_heads:
  "OPEN_TAG = CHR ''<'' # tl OPEN_TAG" "CLOSE_TAG = CHR ''<'' # tl CLOSE_TAG"
  "CHR ''<'' \<notin> set (tl OPEN_TAG)" "CHR ''<'' \<notin> set (tl CLOSE_TAG)"
  by (simp_all add: OPEN_TAG_def CLOSE_TAG_def)

lemma occurs_before:
  assumes o: "occurs_at pat (t @ ch # x) i" and i: "i < length t" and ch: "ch \<notin> set (tl pat)"
  shows "occurs_in pat t"
proof -
  have "i + length pat \<le> length t"
  proof (rule ccontr)
    assume a: "\<not> i + length pat \<le> length t"
    then have k: "length t - i < length pat" "0 < length t - i"
      using i by auto
    have "(t @ ch # x) ! (i + (length t - i)) = pat ! (length t - i)"
      using o k(1) by (rule occurs_at_nth)
    then have "ch = pat ! Suc (length t - i - 1)"
      using i k by (simp add: Suc_diff_Suc)
    also have "\<dots> = tl pat ! (length t - i - 1)"
      using k by (intro nth_tl [symmetric]) auto
    finally show False
      using ch k by (metis (no_types, lifting) One_nat_def Suc_pred length_tl less_diff_conv
          nth_mem plus_1_eq_Suc add.commute)
  qed
  then have "occurs_at pat (sub_bytes (t @ ch # x) 0 (length t)) (i - 0)"
    using o by (subst occurs_at_sub_bytes) auto
  then show ?thesis
    by (intro occurs_inI [of _ _ i]) (simp add: sub_bytes_def)
qed

lemma occurs_at_before_tag:
  assumes "tag_free t" and "pat \<in> {OPEN_TAG, CLOSE_TAG}" and "tag \<in> {OPEN_TAG, CLOSE_TAG}"
    and "occurs_at pat (t @ tag @ x) i"
  shows "length t \<le> i"
proof (rule ccontr)
  assume "\<not> length t \<le> i"
  moreover have "occurs_at pat (t @ CHR ''<'' # (tl tag @ x)) i"
    using assms(3,4) tag_heads(1,2) by (metis append_Cons empty_iff insert_iff)
  moreover have "CHR ''<'' \<notin> set (tl pat)"
    using assms(2) tag_heads(3,4) by auto
  ultimately have "occurs_in pat t"
    using occurs_before by (metis not_le_imp_less)
  then show False
    using assms(1,2) by (auto simp: tag_free_def)
qed

lemma occurs_at_here: "occurs_at pat (t @ pat @ x) (length t)"
  by (auto simp: occurs_at_split)

lemma str_find_tag:
  assumes "tag_free t" and "tag \<in> {OPEN_TAG, CLOSE_TAG}"
  shows "str_find tag (t @ tag @ x) = Some (length t)"
  using occurs_at_before_tag [OF assms(1) assms(2) assms(2)]
  by (auto simp: str_find_Some occurs_at_here not_le [symmetric])

lemma str_find_close_late:
  assumes "tag_free t" and "str_find CLOSE_TAG (t @ OPEN_TAG @ x) = Some j"
  shows "length t \<le> j"
  using assms(2) occurs_at_before_tag [OF assms(1), of CLOSE_TAG OPEN_TAG x j]
  by (simp add: str_find_Some)

lemma occurs_in_take: "occurs_in pat (take k bs) \<Longrightarrow> \<exists>j. occurs_at pat bs j \<and> j + length pat \<le> k"
proof -
  assume "occurs_in pat (take k bs)"
  then obtain j where j: "occurs_at pat (take k bs) j"
    by (auto simp: occurs_in_def)
  then have "j + length pat \<le> min (length bs) k"
    by (auto dest: occurs_atD(1))
  moreover have "occurs_at pat (take k bs @ drop k bs) j"
    using j unfolding occurs_at_split by (metis append.assoc)
  ultimately show ?thesis
    by auto
qed

lemma tag_free_take:
  assumes "str_find OPEN_TAG bs = Some k"
    and "case str_find CLOSE_TAG bs of None \<Rightarrow> True | Some j \<Rightarrow> k \<le> j"
  shows "tag_free (take k bs)"
proof -
  have "\<not> occurs_in OPEN_TAG (take k bs)"
    using assms(1) by (auto dest!: occurs_in_take simp: str_find_Some)
  moreover have "\<not> occurs_in CLOSE_TAG (take k bs)"
  proof
    assume "occurs_in CLOSE_TAG (take k bs)"
    then obtain j where j: "occurs_at CLOSE_TAG bs j" "j < k"
      by (auto dest!: occurs_in_take)
    then obtain j' where "str_find CLOSE_TAG bs = Some j'" "j' \<le> j"
      by (cases "str_find CLOSE_TAG bs") (auto simp: str_find_None str_find_Some not_le [symmetric])
    with assms(2) j(2) show False by simp
  qed
  ultimately show ?thesis by (simp add: tag_free_def)
qed


lemma tags_in_take_drop: "drop cursor input = t @ x \<Longrightarrow> drop (cursor + length t) input = x"
  by (metis add.commute append_eq_conv_conj drop_drop)

text \<open>One round of the parser, seen from the text that is left.\<close>

lemma parse_ranges_step:
  assumes rest: "drop cursor input = t @ OPEN_TAG @ s @ CLOSE_TAG @ x"
    and "tag_free t" "tag_free s" "s \<noteq> []"
  shows "parse_ranges_from input cursor =
    and_then (parse_ranges_from input (cursor + length t + 4 + length s + 5))
      (\<lambda>parts. Inr ((if t = [] then [] else [Parsed_plain cursor (cursor + length t)]) @
         Parsed_secret (cursor + length t + 4) (cursor + length t + 4 + length s) # parts))"
proof -
  have ne: "\<not> length input \<le> cursor"
    using rest by (metis OPEN_TAG_def append_is_Nil_conv drop_all list.distinct(1))
  have rest2: "drop (cursor + length t + 4) input = s @ CLOSE_TAG @ x"
    using tags_in_take_drop [of cursor input "t @ OPEN_TAG" "s @ CLOSE_TAG @ x"] rest
    by (simp add: add.assoc)
  have secret: "sub_bytes input (cursor + length t + 4) (cursor + length t + 4 + length s) = s"
    using rest2 by (simp add: sub_bytes_def)
  have "\<not> str_contains s OPEN_TAG"
    using assms(3) by (simp add: str_contains_iff tag_free_def)
  moreover have "\<not> (case map_option (\<lambda>index. cursor + index)
        (str_find CLOSE_TAG (t @ OPEN_TAG @ s @ CLOSE_TAG @ x)) of
      None \<Rightarrow> False | Some close_at \<Rightarrow> close_at < cursor + length t)"
    using str_find_close_late [OF assms(2)]
    by (auto simp: not_less split: option.splits)
  ultimately show ?thesis
    using ne assms(4)
    by (subst parse_ranges_from.simps)
      (simp add: rest rest2 secret str_find_tag [OF assms(2)] str_find_tag [OF assms(3)] Let_def
        add.assoc [symmetric])
qed

lemma parse_ranges_cases [consumes 1, case_names finished plain secret]:
  assumes "parse_ranges_from input cursor = Inr parts"
  obtains "length input \<le> cursor" "parts = []"
  | "cursor < length input" "tag_free (drop cursor input)"
    "parts = [Parsed_plain cursor (length input)]"
  | t s x parts' where "drop cursor input = t @ OPEN_TAG @ s @ CLOSE_TAG @ x"
    "tag_free t" "tag_free s" "s \<noteq> []"
    "parse_ranges_from input (cursor + length t + 4 + length s + 5) = Inr parts'"
    "parts = (if t = [] then [] else [Parsed_plain cursor (cursor + length t)]) @
       Parsed_secret (cursor + length t + 4) (cursor + length t + 4 + length s) # parts'"
proof (cases "length input \<le> cursor")
  case True
  then show ?thesis
    using assms that(1) by (simp add: parse_ranges_from.simps)
next
  case False
  let ?rest = "drop cursor input"
  show ?thesis
  proof (cases "str_find OPEN_TAG ?rest")
    case None
    then have "str_find CLOSE_TAG ?rest = None" "parts = [Parsed_plain cursor (length input)]"
      using assms False
      by (auto simp: parse_ranges_from.simps [of input cursor] split: option.splits)
    then show ?thesis
      using None False that(2) by (auto simp: tag_free_def str_find_None occurs_in_def)
  next
    case (Some k)
    obtain j where j: "str_find CLOSE_TAG (drop (cursor + k + 4) input) = Some j"
      and early: "case str_find CLOSE_TAG ?rest of None \<Rightarrow> True | Some j \<Rightarrow> k \<le> j"
      and ok: "sub_bytes input (cursor + k + 4) (cursor + k + 4 + j) \<noteq> []"
        "\<not> str_contains (sub_bytes input (cursor + k + 4) (cursor + k + 4 + j)) OPEN_TAG"
      using assms False Some
      by (subst (asm) parse_ranges_from.simps) (auto simp: Let_def split: option.splits if_splits)
    define t where "t = take k ?rest"
    define s where "s = sub_bytes input (cursor + k + 4) (cursor + k + 4 + j)"
    obtain y where y: "?rest = t @ OPEN_TAG @ y" and lt: "length t = k"
      using Some unfolding str_find_Some occurs_at_split t_def by (metis append_eq_conv_conj)
    have ry: "drop (cursor + k + 4) input = y"
      using tags_in_take_drop [of cursor input "t @ OPEN_TAG" y] y lt by (simp add: add.assoc)
    have s: "s = take j y"
      by (simp add: s_def sub_bytes_def ry)
    obtain x where x: "y = s @ CLOSE_TAG @ x" and ls: "length s = j"
      using j unfolding ry str_find_Some occurs_at_split s by (metis append_eq_conv_conj)
    have tt: "tag_free t"
      using tag_free_take [OF Some early] by (simp add: t_def)
    have "\<not> occurs_in CLOSE_TAG s"
      using j by (auto simp: s ry str_find_Some dest!: occurs_in_take)
    then have ts: "tag_free s"
      using ok(2) by (simp add: tag_free_def str_contains_iff s_def)
    have sne: "s \<noteq> []"
      using ok(1) by (simp add: s_def)
    have rest: "?rest = t @ OPEN_TAG @ s @ CLOSE_TAG @ x"
      using y x by simp
    from assms parse_ranges_step [OF rest tt ts sne] show ?thesis
      using that(3) [OF rest tt ts sne] by auto
  qed
qed

lemma parse_ranges_sound:
  assumes "parse_ranges_from input cursor = Inr parts"
  shows "unparse (map (segment_of input) parts) = drop cursor input \<and>
    segments_ok (map (segment_of input) parts)"
  using assms
proof (induction "length input - cursor" arbitrary: cursor parts rule: less_induct)
  case less
  from less.prems show ?case
  proof (cases rule: parse_ranges_cases)
    case plain
    then show ?thesis
      by (simp add: sub_bytes_to_end)
  next
    case (secret t s x parts')
    let ?c = "cursor + length t + 4 + length s + 5"
    have "0 < length (drop cursor input)"
      using secret(1) by (simp add: OPEN_TAG_def)
    then have "length input - ?c < length input - cursor"
      by simp
    then have IH: "unparse (map (segment_of input) parts') = drop ?c input"
      "segments_ok (map (segment_of input) parts')"
      using less.hyps secret(5) by blast+
    have "drop ?c input = x"
      using tags_in_take_drop [of cursor input "t @ OPEN_TAG @ s @ CLOSE_TAG" x] secret(1)
      by (simp add: add.assoc)
    moreover have "sub_bytes input cursor (cursor + length t) = t"
      using secret(1) by (simp add: sub_bytes_def)
    moreover have "sub_bytes input (cursor + length t + 4) (cursor + length t + 4 + length s) = s"
      using tags_in_take_drop [of cursor input "t @ OPEN_TAG" "s @ CLOSE_TAG @ x"] secret(1)
      by (simp add: sub_bytes_def add.assoc)
    ultimately show ?thesis
      using IH secret by simp
  qed simp
qed

lemma tag_free_Nil [simp]: "tag_free []"
  by (simp add: tag_free_def occurs_in_def occurs_at_def OPEN_TAG_def CLOSE_TAG_def)

text \<open>A text in front of a directive is a round of its own.\<close>

lemma parse_ranges_text:
  assumes r: "drop cursor input = t @ OPEN_TAG @ s @ CLOSE_TAG @ x"
    and t: "tag_free t" "t \<noteq> []" and s: "tag_free s" "s \<noteq> []"
  shows "parse_ranges_from input cursor =
    and_then (parse_ranges_from input (cursor + length t))
      (\<lambda>parts. Inr (Parsed_plain cursor (cursor + length t) # parts))"
  using parse_ranges_step [OF r t(1) s] t(2) tags_in_take_drop [OF r] s
    parse_ranges_step [of "cursor + length t" input "[]" s x]
  by (cases "parse_ranges_from input (cursor + length t + 4 + length s + 5)") simp_all

lemma parse_ranges_complete:
  assumes "segments_ok segs" and "drop cursor input = unparse segs"
  shows "\<exists>parts. parse_ranges_from input cursor = Inr parts \<and> map (segment_of input) parts = segs"
  using assms
proof (induction segs arbitrary: cursor rule: segments_ok.induct)
  case 1
  then show ?case by (simp add: parse_ranges_from.simps)
next
  case (2 t segs)
  show ?case
  proof (cases segs)
    case Nil
    have "str_find OPEN_TAG t = None" "str_find CLOSE_TAG t = None"
      using 2(2) by (auto simp: str_find_None tag_free_def intro: occurs_inI)
    then show ?thesis
      using 2(2,3) Nil
      by (subst parse_ranges_from.simps) (auto simp: sub_bytes_to_end)
  next
    case (Cons seg segs')
    then obtain s where s: "segs = Declared s # segs'"
      using 2(2) by (cases seg) auto
    have r: "drop cursor input = t @ OPEN_TAG @ s @ CLOSE_TAG @ unparse segs'"
      using 2(3) s by simp
    have ok: "tag_free t" "t \<noteq> []" "tag_free s" "s \<noteq> []" "segments_ok segs"
      using 2(2) s by auto
    obtain parts where "parse_ranges_from input (cursor + length t) = Inr parts"
      "map (segment_of input) parts = segs"
      using 2(1) [OF ok(5), of "cursor + length t"] tags_in_take_drop [OF r] s by auto
    moreover have "sub_bytes input cursor (cursor + length t) = t"
      using r by (simp add: sub_bytes_def)
    ultimately show ?thesis
      using parse_ranges_text [OF r ok(1,2,3,4)] by auto
  qed
next
  case (3 s segs)
  have r: "drop cursor input = [] @ OPEN_TAG @ s @ CLOSE_TAG @ unparse segs"
    using 3(3) by simp
  have ok: "tag_free s" "s \<noteq> []" "segments_ok segs"
    using 3(2) by auto
  have "drop (cursor + 4 + length s + 5) input = unparse segs"
    using tags_in_take_drop [of cursor input "OPEN_TAG @ s @ CLOSE_TAG" "unparse segs"] 3(3)
    by (simp add: add.assoc)
  then obtain parts where "parse_ranges_from input (cursor + 4 + length s + 5) = Inr parts"
    "map (segment_of input) parts = segs"
    using 3(1) [OF ok(3)] by blast
  moreover have "sub_bytes input (cursor + 4) (cursor + 4 + length s) = s"
    using tags_in_take_drop [of cursor input OPEN_TAG "s @ CLOSE_TAG @ unparse segs"] 3(3)
    by (simp add: sub_bytes_def)
  ultimately show ?case
    using parse_ranges_step [OF r tag_free_Nil ok(1,2)] by auto
qed


section \<open>Declared secrets are registered\<close>

lemma register_parts_step: "registry_step c r (snd (register_parts c input ps r))"
proof (induction c input ps r rule: register_parts.induct)
  case (2 c input s e ps r)
  then show ?case
    by (auto intro: and_then_st_snd)
next
  case (3 c input s e ps r)
  obtain res r1 where p: "ingest c (secret_label ''USER'') (sub_bytes input s e) r = (res, r1)"
    by (cases "ingest c (secret_label ''USER'') (sub_bytes input s e) r")
  have s1: "registry_step c r r1"
    using ingest_step [of "secret_label ''USER''" c r "sub_bytes input s e"] p by simp
  show ?case
  proof (cases res)
    case (Inl err)
    then show ?thesis using p s1 by simp
  next
    case (Inr ident)
    show ?thesis
    proof (cases "placeholder_for r1 ident")
      case None
      then show ?thesis using p s1 Inr by simp
    next
      case (Some ph)
      then have "registry_step c r1 (snd (register_parts c input ps r1))"
        using 3(1) [of ident r1 ph] p Inr by simp
      then have "registry_step c r (snd (register_parts c input ps r1))"
        by (rule registry_step_trans [OF s1])
      then show ?thesis
        using p Inr Some by (auto intro: and_then_st_snd)
    qed
  qed
qed simp

lemma placeholder_for_step:
  "registry_step c r r' \<Longrightarrow> placeholder_for r ident = Some ph \<Longrightarrow> placeholder_for r' ident = Some ph"
  by (auto simp: placeholder_for_def registry_step_def dest: entry_of_extends)

text \<open>A part stands for what the parser found: a text, or a placeholder whose identifier is held.\<close>

fun part_matches :: "crypto \<Rightarrow> registry \<Rightarrow> bytes \<Rightarrow> parsed_part \<Rightarrow> directive_part \<Rightarrow> bool" where
  "part_matches c r input (Parsed_plain s e) (Plain_part t) \<longleftrightarrow> t = sub_bytes input s e"
| "part_matches c r input (Parsed_secret s e) (Secret_part ph ident) \<longleftrightarrow>
     placeholder_for r ident = Some ph \<and>
     (\<exists>s'. registry_holds c r ident s' \<and> same_digest c (reg_keys r) s' (sub_bytes input s e))"
| "part_matches c r input _ _ \<longleftrightarrow> False"

fun plain_ok :: "parsed_part \<Rightarrow> bool" where
  "plain_ok (Parsed_plain s e) \<longleftrightarrow> s < e"
| "plain_ok (Parsed_secret s e) \<longleftrightarrow> True"

lemma parse_ranges_plain_ok:
  "parse_ranges_from input cursor = Inr parts \<Longrightarrow> list_all plain_ok parts"
proof (induction "length input - cursor" arbitrary: cursor parts rule: less_induct)
  case less
  from less.prems show ?case
  proof (cases rule: parse_ranges_cases)
    case (secret t s x parts')
    have "0 < length (drop cursor input)"
      using secret(1) by (simp add: OPEN_TAG_def)
    then show ?thesis
      using less.hyps [OF _ secret(5)] secret(6) by auto
  qed simp_all
qed

lemma register_parts_matches:
  assumes "register_parts c input ps r = (Inr parts, r')" and "list_all plain_ok ps"
    and "registry_inv c r" and "registry_inv c r'"
  shows "list_all2 (part_matches c r' input) ps parts"
  using assms
proof (induction c input ps r arbitrary: parts rule: register_parts.induct)
  case (2 c input s e ps r)
  then show ?case
    by (auto simp: and_then_st_eq_Inr split: if_splits)
next
  case (3 c input s e ps r)
  from 3(2) obtain ident r1 ph parts1 where
    p: "ingest c (secret_label ''USER'') (sub_bytes input s e) r = (Inr ident, r1)"
    and ph: "placeholder_for r1 ident = Some ph"
    and rest: "register_parts c input ps r1 = (Inr parts1, r')"
    and parts: "parts = Secret_part ph ident # parts1"
    by (auto simp: and_then_st_eq_Inr)
  have s1: "registry_step c r r1"
    using ingest_step [of "secret_label ''USER''" c r "sub_bytes input s e"] p by simp
  have s2: "registry_step c r1 r'"
    using register_parts_step [of c r1 input ps] rest by simp
  have i1: "registry_inv c r1"
    using store.inv_back [OF s1 3(4) s2 3(5)] .
  obtain s' where s': "registry_holds c r1 ident s'"
    "same_digest c (reg_keys r) s' (sub_bytes input s e)"
    using store.put_holds [OF 3(4) _ p i1] by blast
  have "registry_holds c r' ident s'"
    using registry_holds_step [OF s2 s'(1)] .
  moreover have "same_digest c (reg_keys r') s' (sub_bytes input s e)"
    using same_digest_step [OF registry_step_trans [OF s1 s2]] s'(2) by blast
  moreover have "placeholder_for r' ident = Some ph"
    using placeholder_for_step [OF s2 ph] .
  moreover have "list_all2 (part_matches c r' input) ps parts1"
    using 3(1) [OF p _ rest, of ph] 3(3) i1 3(5) ph by simp
  ultimately show ?case
    using parts by auto
qed simp

lemma parse_user_secret_directives_step:
  "registry_step c r (snd (parse_user_secret_directives c input r))"
proof -
  have "registry_step c r (snd (and_then_st (register_parts c input parsed r)
      (\<lambda>parts r. (Inr (Some parts), r))))" for parsed
    using register_parts_step [of c r input parsed]
    by (cases "register_parts c input parsed r"; cases "fst (register_parts c input parsed r)") auto
  then show ?thesis
    by (cases "parse_ranges input") (simp_all add: parse_user_secret_directives_def)
qed

text \<open>A prompt without tags is left alone.\<close>

lemma parse_user_secret_directives_none:
  "tag_free input \<Longrightarrow> parse_user_secret_directives c input r = (Inr None, r)"
  by (simp add: parse_user_secret_directives_def tag_free_def str_contains_iff)

lemma parse_user_secret_directives_someE:
  assumes "parse_user_secret_directives c input r = (Inr (Some parts), r')"
    and "registry_inv c r" and "registry_inv c r'"
  obtains ps where "parse_ranges input = Inr ps" "list_all2 (part_matches c r' input) ps parts"
proof -
  obtain ps where ps: "parse_ranges input = Inr ps"
    and run: "register_parts c input ps r = (Inr parts, r')"
    using assms(1)
    by (auto simp: parse_user_secret_directives_def and_then_st_eq_Inr split: if_splits)
  have "list_all plain_ok ps"
    using parse_ranges_plain_ok ps by (simp add: parse_ranges_def)
  then show ?thesis
    using that [OF ps] register_parts_matches [OF run _ assms(2,3)] by blast
qed

end
