(* ===== verification/Rust_Text.thy ===== *)
theory Rust_Text
  imports Rust_Str
begin

text \<open>
  The rest of the \<^verbatim>\<open>str\<close> library the program uses: Unicode trimming and word splitting,
  splitting at separators and lines, joining, lossy UTF-8 decoding, and reading and printing
  of \<^verbatim>\<open>usize\<close> numbers (64 bits wide).
\<close>

section \<open>White space\<close>

text \<open>
  \<^verbatim>\<open>char::is_whitespace\<close>, by the UTF-8 encodings of the code points that have the Unicode
  property White\_Space.
\<close>

definition whitespace_encodings :: "bytes list" where
  "whitespace_encodings = map (map char_of)
     [[9], [10], [11], [12], [13], [32 :: nat],
      [0xC2, 0x85], [0xC2, 0xA0], [0xE1, 0x9A, 0x80],
      [0xE2, 0x80, 0x80], [0xE2, 0x80, 0x81], [0xE2, 0x80, 0x82], [0xE2, 0x80, 0x83],
      [0xE2, 0x80, 0x84], [0xE2, 0x80, 0x85], [0xE2, 0x80, 0x86], [0xE2, 0x80, 0x87],
      [0xE2, 0x80, 0x88], [0xE2, 0x80, 0x89], [0xE2, 0x80, 0x8A], [0xE2, 0x80, 0xA8],
      [0xE2, 0x80, 0xA9], [0xE2, 0x80, 0xAF], [0xE2, 0x81, 0x9F], [0xE3, 0x80, 0x80]]"

text \<open>The length of the white-space character at the start of a string, 0 if there is none.\<close>

definition ws_len :: "bytes list \<Rightarrow> bytes \<Rightarrow> nat" where
  "ws_len encs bs = (case List.find (\<lambda>w. prefix w bs) encs of None \<Rightarrow> 0 | Some w \<Rightarrow> length w)"

fun trim_with :: "bytes list \<Rightarrow> bytes \<Rightarrow> bytes" where
  "trim_with encs [] = []"
| "trim_with encs (c # cs) =
     (let n = ws_len encs (c # cs)
      in if n = 0 then c # cs else trim_with encs (drop (n - 1) cs))"

definition trim_start :: "bytes \<Rightarrow> bytes" where
  "trim_start = trim_with whitespace_encodings"

definition trim_end :: "bytes \<Rightarrow> bytes" where
  "trim_end bs = rev (trim_with (map rev whitespace_encodings) (rev bs))"

text \<open>\<^verbatim>\<open>str::trim\<close>\<close>

definition str_trim :: "bytes \<Rightarrow> bytes" where
  "str_trim bs = trim_end (trim_start bs)"

text \<open>\<^verbatim>\<open>str::split_whitespace\<close>: the words between white space; \<open>w\<close> is the word being read.\<close>

fun words_from :: "bytes \<Rightarrow> bytes \<Rightarrow> bytes list" where
  "words_from w [] = (if w = [] then [] else [w])"
| "words_from w (c # cs) =
     (let n = ws_len whitespace_encodings (c # cs)
      in if n = 0 then words_from (w @ [c]) cs
         else (if w = [] then [] else [w]) @ words_from [] (drop (n - 1) cs))"

definition split_whitespace :: "bytes \<Rightarrow> bytes list" where
  "split_whitespace bs = words_from [] bs"

text \<open>\<^verbatim>\<open>trim_ascii\<close>-like trimming by a byte predicate.\<close>

definition trim_bytes :: "(char \<Rightarrow> bool) \<Rightarrow> bytes \<Rightarrow> bytes" where
  "trim_bytes p bs = rev (dropWhile p (rev (dropWhile p bs)))"

section \<open>Splitting and joining\<close>

text \<open>\<^verbatim>\<open>str::split(sep)\<close> for a non-empty separator.\<close>

function split_on :: "bytes \<Rightarrow> bytes \<Rightarrow> bytes list" where
  "split_on sep bs =
     (if sep = [] then [bs]
      else case str_find sep bs of
        None \<Rightarrow> [bs]
      | Some i \<Rightarrow> take i bs # split_on sep (drop (i + length sep) bs))"
  by pat_completeness auto
termination
proof (relation "measure (\<lambda>(sep, bs). length bs)")
  fix sep bs :: bytes and i
  assume "sep \<noteq> []" and "str_find sep bs = Some i"
  then have "i + length sep \<le> length bs" and "0 < length sep"
    by (auto simp: str_find_Some occurs_at_def)
  then show "((sep, drop (i + length sep) bs), sep, bs) \<in> measure (\<lambda>(sep, bs). length bs)"
    by (simp add: diff_less del: length_greater_0_conv)
qed simp

declare split_on.simps [simp del]

text \<open>\<^verbatim>\<open>str::split_once(sep)\<close>\<close>

definition split_once :: "bytes \<Rightarrow> bytes \<Rightarrow> (bytes \<times> bytes) option" where
  "split_once sep bs =
     map_option (\<lambda>i. (take i bs, drop (i + length sep) bs)) (str_find sep bs)"

text \<open>\<^verbatim>\<open>str::rsplit_once(c)\<close> for a one-byte separator.\<close>

definition rsplit_once :: "char \<Rightarrow> bytes \<Rightarrow> (bytes \<times> bytes) option" where
  "rsplit_once c bs =
     map_option (\<lambda>(u, v). (rev v, rev u)) (split_once [c] (rev bs))"

text \<open>\<^verbatim>\<open>[str]::join(sep)\<close>\<close>

fun str_join :: "bytes \<Rightarrow> bytes list \<Rightarrow> bytes" where
  "str_join sep [] = []"
| "str_join sep [x] = x"
| "str_join sep (x # y # ys) = x @ sep @ str_join sep (y # ys)"

text \<open>
  \<^verbatim>\<open>str::lines\<close>: split after line feeds, an optional carriage return before the line feed
  dropped, no empty line after a final line feed.
\<close>

definition chomp_cr :: "bytes \<Rightarrow> bytes" where
  "chomp_cr l = (if l \<noteq> [] \<and> last l = CR then butlast l else l)"

fun str_lines :: "bytes \<Rightarrow> bytes \<Rightarrow> bytes list" where
  "str_lines l [] = (if l = [] then [] else [l])"
| "str_lines l (c # cs) =
     (if c = LF then chomp_cr l # str_lines [] cs else str_lines (l @ [c]) cs)"

lemma split_on_join: "sep \<noteq> [] \<Longrightarrow> str_join sep (split_on sep bs) = bs"
proof (induction sep bs rule: split_on.induct)
  case (1 sep bs)
  show ?case
  proof (cases "str_find sep bs")
    case None
    with "1.prems" show ?thesis
      by (simp add: split_on.simps)
  next
    case (Some i)
    have ne: "split_on sep (drop (i + length sep) bs) \<noteq> []"
      by (subst split_on.simps) (simp split: option.split)
    have occ: "occurs_at sep bs i"
      using Some by (simp add: str_find_Some)
    have "str_join sep (split_on sep bs) =
        take i bs @ sep @ str_join sep (split_on sep (drop (i + length sep) bs))"
      using Some "1.prems" ne
      by (subst split_on.simps) (cases "split_on sep (drop (i + length sep) bs)", simp_all)
    also have "\<dots> = take i bs @ sep @ drop (i + length sep) bs"
      using "1.IH" [OF "1.prems" Some] "1.prems" by simp
    also have "\<dots> = bs"
      using occ by (auto simp: occurs_at_split)
    finally show ?thesis .
  qed
qed

lemma split_on_ne: "split_on sep bs \<noteq> []"
  by (subst split_on.simps) (simp split: option.split)

section \<open>Lossy UTF-8 decoding\<close>

text \<open>
  \<^verbatim>\<open>String::from_utf8_lossy\<close>: every maximal ill-formed subsequence becomes one U+FFFD.
  \<open>match_ranges\<close> counts the continuation bytes that fit.
\<close>

fun match_ranges :: "(nat \<times> nat) list \<Rightarrow> bytes \<Rightarrow> nat" where
  "match_ranges ((lo, hi) # st) (c # cs) =
     (if lo \<le> byte_val c \<and> byte_val c \<le> hi then Suc (match_ranges st cs) else 0)"
| "match_ranges _ _ = 0"

definition replacement_char :: bytes where
  "replacement_char = map char_of [0xEF, 0xBF, 0xBD :: nat]"

fun from_utf8_lossy :: "bytes \<Rightarrow> bytes" where
  "from_utf8_lossy [] = []"
| "from_utf8_lossy (c # cs) =
     (case utf8_ranges (byte_val c) of
        None \<Rightarrow> replacement_char @ from_utf8_lossy cs
      | Some st \<Rightarrow>
          (let n = match_ranges st cs
           in (if n = length st then c # take n cs else replacement_char)
              @ from_utf8_lossy (drop n cs)))"

lemma match_ranges_run:
  "utf8_run st cs = Some [] \<Longrightarrow>
   match_ranges st cs = length st \<and> utf8_run [] (drop (length st) cs) = Some []"
  by (induction st cs rule: match_ranges.induct) (auto split: if_splits)

lemma match_ranges_le: "match_ranges st cs \<le> length cs"
  by (induction st cs rule: match_ranges.induct) auto

lemma from_utf8_lossy_valid: "utf8_valid bs \<Longrightarrow> from_utf8_lossy bs = bs"
proof (induction bs rule: from_utf8_lossy.induct)
  case 1
  then show ?case by simp
next
  case (2 c cs)
  then obtain st where st: "utf8_ranges (byte_val c) = Some st" and run: "utf8_run st cs = Some []"
    by (auto simp: utf8_valid_def split: option.splits)
  have n: "match_ranges st cs = length st" and v: "utf8_valid (drop (length st) cs)"
    using match_ranges_run [OF run] by (simp_all add: utf8_valid_def)
  have "from_utf8_lossy (drop (length st) cs) = drop (length st) cs"
    using st n v "2.IH"(2) [of st "match_ranges st cs"] by simp
  then show ?case
    using st n by (simp add: Let_def)
qed

section \<open>Searching a growing text\<close>

lemma str_find_bound: "str_find pat bs = Some i \<Longrightarrow> i + length pat \<le> length bs"
  by (auto simp: str_find_Some dest: occurs_atD)

lemma occurs_at_append_bytes: "occurs_at pat a i \<Longrightarrow> occurs_at pat (a @ b) i"
  by (auto simp: occurs_at_prefix prefix_def)

lemma occurs_at_append_short: "occurs_at pat (a @ b) i \<Longrightarrow> i + length pat \<le> length a \<Longrightarrow> occurs_at pat a i"
  by (auto simp: occurs_at_def sub_bytes_def)

lemma str_find_append:
  assumes "str_find pat a = Some i"
  shows "str_find pat (a @ b) = Some i"
  unfolding str_find_Some
proof (intro conjI allI impI notI)
  show "occurs_at pat (a @ b) i"
    using assms by (simp add: str_find_Some occurs_at_append_bytes)
  fix j assume "j < i" "occurs_at pat (a @ b) j"
  moreover have "i + length pat \<le> length a"
    using str_find_bound [OF assms] .
  ultimately have "occurs_at pat a j"
    using occurs_at_append_short by fastforce
  then show False
    using assms \<open>j < i\<close> by (simp add: str_find_Some)
qed

lemma str_find_append_late:
  "str_find pat a = None \<Longrightarrow> str_find pat (a @ b) = Some i \<Longrightarrow> length a < i + length pat"
  using occurs_at_append_short by (fastforce simp: str_find_None str_find_Some)

section \<open>Numbers\<close>

definition digit_val :: "char \<Rightarrow> nat option" where
  "digit_val c =
     (if is_ascii_digit c then Some (byte_val c - 48)
      else if is_ascii_lower c then Some (byte_val c - 87)
      else if is_ascii_upper c then Some (byte_val c - 55)
      else None)"

text \<open>Digits folded from the left; \<^const>\<open>None\<close> on a bad digit or past 64 bits.\<close>

fun fold_digits :: "nat \<Rightarrow> nat \<Rightarrow> bytes \<Rightarrow> nat option" where
  "fold_digits radix acc [] = Some acc"
| "fold_digits radix acc (c # cs) =
     (case digit_val c of
        None \<Rightarrow> None
      | Some d \<Rightarrow>
          (if radix \<le> d \<or> 2 ^ 64 \<le> acc * radix + d then None
           else fold_digits radix (acc * radix + d) cs))"

text \<open>\<^verbatim>\<open>usize::from_str_radix\<close> (and \<^verbatim>\<open>parse::<usize>()\<close> for radix 10): an optional plus sign,
  then at least one digit.\<close>

definition from_str_radix :: "nat \<Rightarrow> bytes \<Rightarrow> nat option" where
  "from_str_radix radix s =
     (let t = (case s of c # cs \<Rightarrow> if c = CHR ''+'' then cs else s | [] \<Rightarrow> [])
      in if t = [] then None else fold_digits radix 0 t)"

definition digit_char :: "nat \<Rightarrow> char" where
  "digit_char d = char_of (if d < 10 then 48 + d else 87 + d)"

text \<open>\<^verbatim>\<open>to_string\<close> (radix 10) and \<^verbatim>\<open>{:x}\<close> (radix 16) of an unsigned number.\<close>

fun print_radix :: "nat \<Rightarrow> nat \<Rightarrow> bytes" where
  "print_radix radix n =
     (if radix < 2 \<or> n < radix then [digit_char n]
      else print_radix radix (n div radix) @ [digit_char (n mod radix)])"

declare print_radix.simps [simp del]

lemma fold_digits_append:
  "fold_digits r acc (a @ b) =
     (case fold_digits r acc a of None \<Rightarrow> None | Some acc' \<Rightarrow> fold_digits r acc' b)"
  by (induction r acc a rule: fold_digits.induct) (auto split: option.splits)

lemma digit_val_char: "d < 16 \<Longrightarrow> digit_val (digit_char d) = Some d"
  by (auto simp: digit_val_def digit_char_def is_ascii_digit_def is_ascii_lower_def)

lemma digit_char_not_plus: "d < 16 \<Longrightarrow> digit_char d \<noteq> CHR ''+''"
proof
  assume "d < 16" and "digit_char d = CHR ''+''"
  then have "digit_val (CHR ''+'') = Some d"
    using digit_val_char by metis
  then show False
    by (simp add: digit_val_def is_ascii_digit_def is_ascii_lower_def is_ascii_upper_def)
qed

lemma print_radix_ne [simp]: "print_radix r n \<noteq> []"
  by (subst print_radix.simps) simp

lemma fold_digits_print:
  assumes "2 \<le> r" and "r \<le> 16" and "n < 2 ^ 64"
  shows "fold_digits r 0 (print_radix r n) = Some n"
  using assms
proof (induction r n rule: print_radix.induct)
  case (1 r n)
  show ?case
  proof (cases "n < r")
    case True
    with "1.prems" show ?thesis
      by (simp add: print_radix.simps [of r n] digit_val_char)
  next
    case False
    have "n div r < 2 ^ 64"
      using "1.prems"(3) div_le_dividend [of n r] by linarith
    then have "fold_digits r 0 (print_radix r (n div r)) = Some (n div r)"
      using "1.IH" "1.prems" False by simp
    moreover have "n mod r < 16" and "n mod r < r"
      using "1.prems" by (auto intro: less_le_trans [OF mod_less_divisor])
    moreover have "n div r * r + n mod r = n"
      by (rule div_mult_mod_eq)
    moreover have "digit_val (digit_char (n mod r)) = Some (n mod r)"
      using calculation(2) by (rule digit_val_char)
    ultimately show ?thesis
      using False "1.prems"(1,3)
      by (simp add: print_radix.simps [of r n] fold_digits_append not_le)
  qed
qed

lemma hd_print_radix: "2 \<le> r \<Longrightarrow> r \<le> 16 \<Longrightarrow> hd (print_radix r n) \<noteq> CHR ''+''"
proof (induction r n rule: print_radix.induct)
  case (1 r n)
  then show ?case
    by (cases "n < r") (simp_all add: print_radix.simps [of r n] digit_char_not_plus)
qed

lemma from_str_radix_print:
  assumes "2 \<le> r" and "r \<le> 16" and "n < 2 ^ 64"
  shows "from_str_radix r (print_radix r n) = Some n"
  using fold_digits_print [OF assms] hd_print_radix [OF assms(1,2), of n]
  by (cases "print_radix r n") (auto simp: from_str_radix_def)

section \<open>Splitting at one byte\<close>

lemma str_find_byte: "c \<notin> set xs \<Longrightarrow> str_find [c] (xs @ c # ys) = Some (length xs)"
  by (induction xs) (auto simp: starts_with_def)

lemma str_find_byte_None: "c \<notin> set xs \<Longrightarrow> str_find [c] xs = None"
  by (induction xs) (auto simp: starts_with_def)

lemma split_on_byte: "c \<notin> set xs \<Longrightarrow> split_on [c] (xs @ c # ys) = xs # split_on [c] ys"
  by (simp add: split_on.simps [of "[c]" "xs @ c # ys"] str_find_byte)

lemma split_on_byte_end: "c \<notin> set xs \<Longrightarrow> split_on [c] xs = [xs]"
  by (simp add: split_on.simps [of "[c]" xs] str_find_byte_None)

lemma split_on_byte_join:
  "xss \<noteq> [] \<Longrightarrow> \<forall>xs \<in> set xss. c \<notin> set xs \<Longrightarrow> split_on [c] (str_join [c] xss) = xss"
  by (induction xss rule: induct_list012) (simp_all add: split_on_byte split_on_byte_end)

section \<open>Trimming twice\<close>

lemma ws_len_zero: "[] \<notin> set encs \<Longrightarrow> ws_len encs bs = 0 \<longleftrightarrow> (\<forall>w \<in> set encs. \<not> prefix w bs)"
proof (cases "List.find (\<lambda>w. prefix w bs) encs")
  case (Some w)
  assume "[] \<notin> set encs"
  moreover from Some have "w \<in> set encs" "prefix w bs"
    by (auto simp: find_Some_iff)
  ultimately show ?thesis
    using Some by (auto simp: ws_len_def)
next
  case None
  then show ?thesis
    by (simp add: ws_len_def) (simp add: find_None_iff)
qed

definition trimmed :: "bytes list \<Rightarrow> bytes \<Rightarrow> bool" where
  "trimmed encs bs \<longleftrightarrow> bs = [] \<or> (\<forall>w \<in> set encs. \<not> prefix w bs)"

lemma trim_with_trimmed: "[] \<notin> set encs \<Longrightarrow> trimmed encs (trim_with encs bs)"
  by (induction encs bs rule: trim_with.induct) (auto simp: Let_def trimmed_def ws_len_zero)

lemma trim_with_fixed: "[] \<notin> set encs \<Longrightarrow> trimmed encs bs \<Longrightarrow> trim_with encs bs = bs"
  by (cases bs) (auto simp: trimmed_def ws_len_zero)

lemma trimmed_prefix: "trimmed encs bs \<Longrightarrow> prefix as bs \<Longrightarrow> trimmed encs as"
  unfolding trimmed_def by (metis prefix_order.order_trans prefix_bot.extremum_uniqueI)

lemma trim_with_suffix: "suffix (trim_with encs bs) bs"
proof (induction encs bs rule: trim_with.induct)
  case (2 encs c cs)
  let ?n = "ws_len encs (c # cs)"
  show ?case
  proof (cases "?n = 0")
    case False
    have "suffix (drop (?n - 1) cs) (c # cs)"
      using suffix_drop [of "?n - 1" cs] by (simp add: suffix_ConsI)
    then show ?thesis
      using 2 False suffix_order.order_trans by (fastforce simp: Let_def)
  qed (simp add: Let_def)
qed simp

lemma whitespace_ne: "[] \<notin> set whitespace_encodings" "[] \<notin> set (map rev whitespace_encodings)"
  by (simp_all add: whitespace_encodings_def)

lemma str_trim_part: "\<exists>xs ys. bs = xs @ str_trim bs @ ys"
proof -
  obtain xs where "bs = xs @ trim_start bs"
    using trim_with_suffix [of whitespace_encodings bs] by (auto simp: trim_start_def suffix_def)
  moreover obtain zs where "rev (trim_start bs) = zs @ trim_with (map rev whitespace_encodings) (rev (trim_start bs))"
    using trim_with_suffix [of "map rev whitespace_encodings" "rev (trim_start bs)"] by (auto simp: suffix_def)
  then have "trim_start bs = str_trim bs @ rev zs"
    by (metis rev_append rev_rev_ident str_trim_def trim_end_def)
  ultimately show ?thesis
    by metis
qed

lemma str_trim_subset: "set (str_trim bs) \<subseteq> set bs"
  using str_trim_part [of bs] by (metis Un_iff set_append subsetI)

lemma str_trim_idem [simp]: "str_trim (str_trim bs) = str_trim bs"
proof -
  have end_trimmed: "trimmed (map rev whitespace_encodings) (rev (trim_end xs))" for xs
    by (simp add: trim_end_def trim_with_trimmed [OF whitespace_ne(2)] del: set_map)
  have "prefix (trim_end xs) xs" for xs
    using trim_with_suffix [of "map rev whitespace_encodings" "rev xs"]
    by (simp add: trim_end_def suffix_to_prefix)
  then have "trimmed whitespace_encodings (str_trim bs)"
    unfolding str_trim_def using trim_with_trimmed [OF whitespace_ne(1)] trimmed_prefix
    by (metis trim_start_def)
  then have "trim_start (str_trim bs) = str_trim bs"
    by (simp add: trim_start_def trim_with_fixed whitespace_ne)
  moreover have "trim_end (str_trim bs) = str_trim bs"
    using trim_with_fixed [OF whitespace_ne(2) end_trimmed, of "trim_start bs"]
    by (simp add: str_trim_def trim_end_def [of "trim_end (trim_start bs)"])
  ultimately show ?thesis
    by (simp add: str_trim_def [of "str_trim bs"])
qed

end
