(* ===== verification/Patterns.thy ===== *)
theory Patterns
  imports Complex_Main Rust_Text Selection
begin

text \<open>
  \<^verbatim>\<open>src/patterns/mod.rs\<close>: the rules that say which environment variables look like secrets
  and which texts look like credentials. The crates \<^verbatim>\<open>toml\<close> and \<^verbatim>\<open>regex\<close> are parameters: a
  parser from text to the raw file, and a compiler from a pattern to its \<^verbatim>\<open>find_iter\<close>, the
  function from a text to the list of its matches.
\<close>

section \<open>Data\<close>

type_synonym regex = "bytes \<Rightarrow> (nat \<times> nat) list"

record env_rules =
  exact_keys :: "bytes list"
  key_markers :: "bytes list"
  common_values :: "bytes list"
  min_value_len :: nat
  min_entropy :: real

record credential_pattern =
  cp_id :: bytes
  cp_description :: "bytes option"
  cp_regex :: regex

record pattern_set =
  ps_env :: env_rules
  ps_patterns :: "credential_pattern list"

record raw_credential_pattern =
  raw_id :: bytes
  raw_description :: "bytes option"
  raw_regex :: bytes

record raw_pattern_file =
  raw_env :: env_rules
  raw_patterns :: "raw_credential_pattern list"

record auto_redact_match =
  am_pattern :: bytes
  am_start :: nat
  am_end :: nat

datatype on_unregistered_match = RequireExplicitSecret | AutoRedact | Allow

section \<open>Loading\<close>

definition into_rules :: "env_rules \<Rightarrow> crebro_error + env_rules" where
  "into_rules raw =
     (if key_markers raw = [] then Inl (Config ''env key_markers cannot be empty'')
      else Inr \<lparr>exact_keys = map to_ascii_uppercase (exact_keys raw),
                key_markers = map to_ascii_uppercase (key_markers raw),
                common_values = map to_ascii_lowercase (common_values raw),
                min_value_len = min_value_len raw,
                min_entropy = min_entropy raw\<rparr>)"

text \<open>The loop of \<^verbatim>\<open>into_pattern_set\<close>; \<open>ids\<close> are the identifiers seen so far.\<close>

fun compile_patterns ::
  "(bytes \<Rightarrow> regex option) \<Rightarrow> bytes set \<Rightarrow> raw_credential_pattern list \<Rightarrow>
   crebro_error + credential_pattern list" where
  "compile_patterns regex_new ids [] = Inr []"
| "compile_patterns regex_new ids (raw # raws) =
     (if str_trim (raw_id raw) = [] then Inl (Config ''credential pattern id cannot be empty'')
      else if raw_id raw \<in> ids
      then Inl (Config (''duplicate credential pattern id `'' @ raw_id raw @ ''`''))
      else and_then
        (ok_or (Config (''invalid regex for credential pattern `'' @ raw_id raw @ ''`''))
          (regex_new (raw_regex raw)))
        (\<lambda>rx. and_then (compile_patterns regex_new (insert (raw_id raw) ids) raws)
          (\<lambda>ps. Inr (\<lparr>cp_id = raw_id raw, cp_description = raw_description raw,
                       cp_regex = rx\<rparr> # ps))))"

definition into_pattern_set ::
  "(bytes \<Rightarrow> regex option) \<Rightarrow> raw_pattern_file \<Rightarrow> crebro_error + pattern_set" where
  "into_pattern_set regex_new raw =
     and_then (into_rules (raw_env raw)) (\<lambda>env.
     and_then (compile_patterns regex_new {} (raw_patterns raw)) (\<lambda>ps.
       Inr \<lparr>ps_env = env, ps_patterns = ps\<rparr>))"

definition patterns_from_toml ::
  "(bytes \<Rightarrow> raw_pattern_file option) \<Rightarrow> (bytes \<Rightarrow> regex option) \<Rightarrow> bytes \<Rightarrow>
   crebro_error + pattern_set" where
  "patterns_from_toml toml_parse regex_new text =
     and_then (ok_or (Config ''invalid credential patterns TOML'') (toml_parse text))
       (into_pattern_set regex_new)"

section \<open>Secrets in the environment\<close>

text \<open>
  The number of different bytes and its binary logarithm. The source computes the logarithm
  in \<^verbatim>\<open>f64\<close>, here it is exact; \<open>rough_entropy []\<close>, minus infinity there, is never asked for
  (see \<open>is_secret_candidate_nonempty\<close>).
\<close>

definition unique_bytes :: "bytes \<Rightarrow> nat" where
  "unique_bytes value = length (remdups value)"

definition rough_entropy :: "bytes \<Rightarrow> real" where
  "rough_entropy value = log 2 (real (unique_bytes value))"

definition env_is_secret_candidate :: "env_rules \<Rightarrow> bytes \<Rightarrow> bytes \<Rightarrow> bool" where
  "env_is_secret_candidate env key value =
     (let key_upper = to_ascii_uppercase key;
          lower = to_ascii_lowercase (from_utf8_lossy value)
      in if \<not> list_ex (\<lambda>exact. key_upper = exact) (exact_keys env) \<and>
            \<not> list_ex (\<lambda>marker. str_contains key_upper marker) (key_markers env) then False
         else if length value < min_value_len env then False
         else if lower \<in> set (common_values env) then False
         else if list_all is_ascii_digit lower \<and> length lower \<le> 16 then False
         else min_entropy env \<le> rough_entropy value)"

definition is_secret_candidate :: "pattern_set \<Rightarrow> bytes \<Rightarrow> bytes \<Rightarrow> bool" where
  "is_secret_candidate ps key value = env_is_secret_candidate (ps_env ps) key value"

section \<open>Credentials in a text\<close>

definition match_overlaps :: "auto_redact_match \<Rightarrow> auto_redact_match \<Rightarrow> bool" where
  "match_overlaps existing candidate \<longleftrightarrow>
     am_start candidate < am_end existing \<and> am_start existing < am_end candidate"

definition select_longest_non_overlapping_matches ::
  "auto_redact_match list \<Rightarrow> auto_redact_match list" where
  "select_longest_non_overlapping_matches matches =
     (let sorted_matches =
            sort_key (\<lambda>m. (- int (am_end m - am_start m), am_start m, am_end m)) matches;
          selected = keep_disjoint match_overlaps [] sorted_matches
      in sort_key am_start selected)"

definition auto_redact_matches :: "pattern_set \<Rightarrow> bytes \<Rightarrow> auto_redact_match list" where
  "auto_redact_matches ps text =
     select_longest_non_overlapping_matches
       (concat (map (\<lambda>p. map (\<lambda>(s, e). \<lparr>am_pattern = cp_id p, am_start = s, am_end = e\<rparr>)
                                 (cp_regex p text)) (ps_patterns ps)))"

definition has_credential_patterns :: "pattern_set \<Rightarrow> bool" where
  "has_credential_patterns ps \<longleftrightarrow> ps_patterns ps \<noteq> []"

text \<open>
  What the \<^verbatim>\<open>regex\<close> crate documents of a match: its bounds lie in the text, on character
  boundaries.
\<close>

definition regex_in_range :: "regex \<Rightarrow> bool" where
  "regex_in_range rx \<longleftrightarrow>
     (\<forall>text. \<forall>(s, e) \<in> set (rx text).
        s \<le> e \<and> e \<le> length text \<and> is_char_boundary text s \<and> is_char_boundary text e)"

definition patterns_ok :: "pattern_set \<Rightarrow> bool" where
  "patterns_ok ps \<longleftrightarrow> (\<forall>p \<in> set (ps_patterns ps). regex_in_range (cp_regex p))"

section \<open>The rules are what they were compiled from\<close>

lemma compile_patterns_Inr:
  assumes "compile_patterns regex_new ids raws = Inr ps"
  shows "map cp_id ps = map raw_id raws" "distinct (map cp_id ps)"
    "set (map cp_id ps) \<inter> ids = {}" "\<forall>p \<in> set ps. str_trim (cp_id p) \<noteq> []"
    "list_all2 (\<lambda>raw p. regex_new (raw_regex raw) = Some (cp_regex p)) raws ps"
proof -
  have "map cp_id ps = map raw_id raws \<and> distinct (map cp_id ps) \<and> set (map cp_id ps) \<inter> ids = {} \<and>
      (\<forall>p \<in> set ps. str_trim (cp_id p) \<noteq> []) \<and>
      list_all2 (\<lambda>raw p. regex_new (raw_regex raw) = Some (cp_regex p)) raws ps"
    using assms
  proof (induction regex_new ids raws arbitrary: ps rule: compile_patterns.induct)
    case (2 regex_new ids raw raws)
    then obtain rx qs where rx: "regex_new (raw_regex raw) = Some rx"
      and run: "compile_patterns regex_new (insert (raw_id raw) ids) raws = Inr qs"
      and ps: "ps = \<lparr>cp_id = raw_id raw, cp_description = raw_description raw, cp_regex = rx\<rparr> # qs"
      and ne: "str_trim (raw_id raw) \<noteq> []" "raw_id raw \<notin> ids"
      by (auto split: if_splits)
    have ok: "ok_or err (regex_new (raw_regex raw)) = Inr rx" for err
      using rx by simp
    have IH: "map cp_id qs = map raw_id raws" "distinct (map cp_id qs)"
      "set (map cp_id qs) \<inter> insert (raw_id raw) ids = {}" "\<forall>p \<in> set qs. str_trim (cp_id p) \<noteq> []"
      "list_all2 (\<lambda>raw p. regex_new (raw_regex raw) = Some (cp_regex p)) raws qs"
      using 2(1) [OF ne ok run] by blast+
    have "raw_id raw \<notin> set (map cp_id qs)" "set (map cp_id qs) \<inter> ids = {}"
      using IH(3) by blast+
    then show ?case
      using IH(1,2,4,5) rx ne by (simp add: ps)
  qed simp
  then show "map cp_id ps = map raw_id raws" "distinct (map cp_id ps)"
    "set (map cp_id ps) \<inter> ids = {}" "\<forall>p \<in> set ps. str_trim (cp_id p) \<noteq> []"
    "list_all2 (\<lambda>raw p. regex_new (raw_regex raw) = Some (cp_regex p)) raws ps"
    by blast+
qed

lemma into_pattern_set_InrE:
  assumes "into_pattern_set regex_new raw = Inr ps"
  obtains "into_rules (raw_env raw) = Inr (ps_env ps)"
    "compile_patterns regex_new {} (raw_patterns raw) = Inr (ps_patterns ps)"
  using assms by (auto simp: into_pattern_set_def)

section \<open>Environment rules\<close>

lemma to_ascii_upper_idem [simp]: "to_ascii_upper (to_ascii_upper c) = to_ascii_upper c"
  by (cases "is_ascii_lower c") (auto simp: to_ascii_upper_def is_ascii_lower_def)

lemma to_ascii_uppercase_idem [simp]:
  "to_ascii_uppercase (to_ascii_uppercase s) = to_ascii_uppercase s"
  by (simp add: to_ascii_uppercase_def)

lemma from_utf8_lossy_Nil_iff: "from_utf8_lossy v = [] \<longleftrightarrow> v = []"
proof (cases v)
  case (Cons a list)
  then show ?thesis
    by (auto simp: replacement_char_def Let_def split: option.splits)
qed simp

text \<open>A candidate is never empty, so its entropy is that of at least one byte.\<close>

lemma is_secret_candidate_nonempty: "env_is_secret_candidate env key value \<Longrightarrow> value \<noteq> []"
  by (rule notI) (simp add: env_is_secret_candidate_def to_ascii_lowercase_def Let_def split: if_splits)

lemma is_secret_candidate_case_insensitive:
  "env_is_secret_candidate env (to_ascii_uppercase key) value = env_is_secret_candidate env key value"
  by (simp add: env_is_secret_candidate_def Let_def)

lemma unique_bytes_le: "unique_bytes value \<le> length value"
  by (simp add: unique_bytes_def)

lemma rough_entropy_bounds:
  assumes "value \<noteq> []"
  shows "0 \<le> rough_entropy value" "rough_entropy value \<le> 8"
proof -
  have pos: "1 \<le> unique_bytes value"
    using assms by (simp add: unique_bytes_def Suc_le_eq)
  have "finite (UNIV :: char set)" "card (UNIV :: char set) = 256"
    by (simp_all add: card_UNIV_char)
  then have "unique_bytes value \<le> 256"
    using card_mono [of UNIV "set value"] by (simp add: unique_bytes_def length_remdups_card_conv)
  then have "log 2 (real (unique_bytes value)) \<le> log 2 (2 powr 8)"
    using pos by (subst log_le_cancel_iff) auto
  also have "log 2 (2 powr 8) = (8 :: real)"
    by (rule log_powr_cancel) simp_all
  finally show "rough_entropy value \<le> 8"
    by (simp add: rough_entropy_def)
  show "0 \<le> rough_entropy value"
    using pos by (simp add: rough_entropy_def zero_le_log_cancel_iff)
qed

section \<open>Selected matches\<close>

lemma match_overlaps_symp: "symp match_overlaps"
  by (auto simp: symp_def match_overlaps_def)

lemma select_matches_select_by:
  "select_longest_non_overlapping_matches =
   select_by (\<lambda>m. (- int (am_end m - am_start m), am_start m, am_end m)) am_start match_overlaps"
  by (simp add: fun_eq_iff select_longest_non_overlapping_matches_def select_by_def Let_def)

interpretation match_sel: range_selection select_longest_non_overlapping_matches am_start am_end
proof (unfold_locales, goal_cases)
  case (1 xs)
  show ?case by (simp add: select_matches_select_by select_by_subset)
next
  case (2 xs)
  show ?case by (simp add: select_matches_select_by select_by_sorted)
next
  case (3 xs)
  show ?case
    using select_by_disjoint [OF match_overlaps_symp]
    by (simp add: select_matches_select_by match_overlaps_def [abs_def] conj_commute)
next
  case (4 x xs)
  then show ?case
    using select_by_maximal [OF 4, of "\<lambda>m. (- int (am_end m - am_start m), am_start m, am_end m)"
        am_start match_overlaps]
    by (auto simp: select_matches_select_by match_overlaps_def less_eq_prod_def)
next
  case (5 xs)
  then show ?case
    using select_by_mset [OF match_overlaps_symp, of xs]
    by (simp add: select_matches_select_by match_overlaps_def [abs_def] conj_commute)
qed

lemma auto_redact_matches_from:
  assumes "m \<in> set (auto_redact_matches ps text)"
  obtains p where "p \<in> set (ps_patterns ps)" "am_pattern m = cp_id p"
    "(am_start m, am_end m) \<in> set (cp_regex p text)"
  using assms match_sel.select_subset unfolding auto_redact_matches_def by fastforce

lemma auto_redact_matches_in_range:
  assumes "patterns_ok ps" and "m \<in> set (auto_redact_matches ps text)"
  shows "am_start m \<le> am_end m" "am_end m \<le> length text"
    "is_char_boundary text (am_start m)" "is_char_boundary text (am_end m)"
proof -
  obtain p where "p \<in> set (ps_patterns ps)" "(am_start m, am_end m) \<in> set (cp_regex p text)"
    using auto_redact_matches_from [OF assms(2)] by blast
  then have "am_start m \<le> am_end m \<and> am_end m \<le> length text \<and>
      is_char_boundary text (am_start m) \<and> is_char_boundary text (am_end m)"
    using assms(1) by (fastforce simp: patterns_ok_def regex_in_range_def)
  then show "am_start m \<le> am_end m" "am_end m \<le> length text"
    "is_char_boundary text (am_start m)" "is_char_boundary text (am_end m)"
    by blast+
qed

end
