(* ===== verification/Text_Sanitizer.thy ===== *)
theory Text_Sanitizer
  imports Long_Strings Directive Patterns
begin

text \<open>
  The string half of \<^verbatim>\<open>src/redact/json_sanitizer.rs\<close>: replacing directives, registering
  what looks like a credential, and redacting a decoded string through the cache. The state is
  the pair of cache and registry; the secret identifiers that the source pushes on its report
  are part of the result.
\<close>

type_synonym san_state = "redaction_cache \<times> registry"

definition on_registry :: "(registry \<Rightarrow> 'a \<times> registry) \<Rightarrow> san_state \<Rightarrow> 'a \<times> san_state" where
  "on_registry f st = (let (rc, r) = st; (res, r) = f r in (res, (rc, r)))"

definition on_cache :: "(registry \<Rightarrow> redaction_cache \<Rightarrow> 'a \<times> redaction_cache) \<Rightarrow> san_state \<Rightarrow> 'a \<times> san_state" where
  "on_cache f st = (let (rc, r) = st; (res, rc) = f r rc in (res, (rc, r)))"

lemma on_registry_simp [simp]: "on_registry f (rc, r) = (fst (f r), (rc, snd (f r)))"
  by (simp add: on_registry_def case_prod_beta)

lemma on_cache_simp [simp]: "on_cache f (rc, r) = (fst (f r rc), (snd (f r rc), r))"
  by (simp add: on_cache_def case_prod_beta)

section \<open>Credentials are registered\<close>

fun register_matches ::
  "crypto \<Rightarrow> bytes \<Rightarrow> auto_redact_match list \<Rightarrow> registry \<Rightarrow> (crebro_error + bool) \<times> registry" where
  "register_matches c tx [] r = (Inr False, r)"
| "register_matches c tx (m # ms) r =
     (case str_get tx (am_start m) (am_end m) of
        None \<Rightarrow> register_matches c tx ms r
      | Some secret \<Rightarrow>
          and_then_st
            (ingest c (secret_label (''AUTO_'' @ to_ascii_uppercase (am_pattern m))) secret r)
            (\<lambda>_ r. and_then_st (register_matches c tx ms r) (\<lambda>_ r. (Inr True, r))))"

definition auto_register_pattern_matches ::
  "crypto \<Rightarrow> pattern_set \<Rightarrow> bytes \<Rightarrow> registry \<Rightarrow> (crebro_error + bool) \<times> registry" where
  "auto_register_pattern_matches c ps tx r = register_matches c tx (auto_redact_matches ps tx) r"

section \<open>Directives are replaced\<close>

record directive_text =
  dt_text :: bytes
  dt_ids :: "u64 list"

text \<open>
  The loop over the parts; its result is the text, the identifiers reported by
  \<open>sanitize_plain\<close> and the identifiers of the declared secrets.
\<close>

fun render_parts ::
  "(bytes \<Rightarrow> san_state \<Rightarrow> (crebro_error + bytes \<times> u64 list) \<times> san_state) \<Rightarrow>
   directive_part list \<Rightarrow> san_state \<Rightarrow> (crebro_error + bytes \<times> u64 list \<times> u64 list) \<times> san_state" where
  "render_parts sanitize_plain [] st = (Inr ([], [], []), st)"
| "render_parts sanitize_plain (Plain_part t # ps) st =
     and_then_st (sanitize_plain t st) (\<lambda>(bs, ids) st.
     and_then_st (render_parts sanitize_plain ps st) (\<lambda>(out, plain_ids, secret_ids) st.
       (Inr (bs @ out, ids @ plain_ids, secret_ids), st)))"
| "render_parts sanitize_plain (Secret_part placeholder ident # ps) st =
     and_then_st (render_parts sanitize_plain ps st) (\<lambda>(out, plain_ids, secret_ids) st.
       (Inr (placeholder @ out, plain_ids, ident # secret_ids), st))"

definition replace_user_secret_directives_with ::
  "crypto \<Rightarrow> bytes \<Rightarrow>
   (bytes \<Rightarrow> san_state \<Rightarrow> (crebro_error + bytes \<times> u64 list) \<times> san_state) \<Rightarrow> san_state \<Rightarrow>
   (crebro_error + (directive_text \<times> u64 list) option) \<times> san_state" where
  "replace_user_secret_directives_with c decoded sanitize_plain st =
     and_then_st (on_registry (parse_user_secret_directives c decoded) st) (\<lambda>replacement st.
       case replacement of
         None \<Rightarrow> (Inr None, st)
       | Some parts \<Rightarrow>
           and_then_st (render_parts sanitize_plain parts st) (\<lambda>(out, plain_ids, secret_ids) st.
             if utf8_valid out
             then (Inr (Some (\<lparr>dt_text = out, dt_ids = secret_ids\<rparr>, plain_ids)), st)
             else (Inl (Redaction ''sanitized directive string is not valid UTF-8''), st)))"

text \<open>\<^verbatim>\<open>replace_user_secret_directives\<close>: the plain parts stay as they are.\<close>

definition replace_user_secret_directives ::
  "crypto \<Rightarrow> bytes \<Rightarrow> san_state \<Rightarrow> (crebro_error + directive_text option) \<times> san_state" where
  "replace_user_secret_directives c decoded st =
     and_then_st
       (replace_user_secret_directives_with c decoded (\<lambda>t st. (Inr (t, []), st)) st)
       (\<lambda>replacement st. (Inr (map_option fst replacement), st))"

section \<open>Decoded strings\<close>

definition sanitize_plain_part ::
  "crypto \<Rightarrow> bytes \<Rightarrow> san_state \<Rightarrow> (crebro_error + bytes \<times> u64 list) \<times> san_state" where
  "sanitize_plain_part c t st =
     and_then_st (on_cache (sanitize_string_detailed c t) st) (\<lambda>s st.
       (Inr (ss_bytes s, ss_ids s), st))"

definition checked_utf8 :: "bytes \<times> u64 list \<Rightarrow> crebro_error + bytes \<times> u64 list" where
  "checked_utf8 x =
     (if utf8_valid (fst x) then Inr x
      else Inl (Redaction ''sanitized JSON string is not valid UTF-8''))"

text \<open>
  \<^verbatim>\<open>sanitize_decoded_string\<close> and its copy \<^verbatim>\<open>sanitize_decoded_string_with_cache\<close>; the result
  is the text and the identifiers to report, in the order of the source.
\<close>

definition sanitize_decoded_string ::
  "crypto \<Rightarrow> pattern_set \<Rightarrow> bytes \<Rightarrow> san_state \<Rightarrow>
   (crebro_error + bytes \<times> u64 list) \<times> san_state" where
  "sanitize_decoded_string c ps decoded st =
     and_then_st (replace_user_secret_directives_with c decoded (sanitize_plain_part c) st)
       (\<lambda>replacement st.
         case replacement of
           Some (sanitized, plain_ids) \<Rightarrow>
             and_then_st (on_registry (auto_register_pattern_matches c ps (dt_text sanitized)) st)
               (\<lambda>auto_redacted st.
                 if auto_redacted then
                   and_then_st (sanitize_plain_part c (dt_text sanitized) st) (\<lambda>(bs, ids) st.
                     (checked_utf8 (bs, plain_ids @ dt_ids sanitized @ ids), st))
                 else (Inr (dt_text sanitized, plain_ids @ dt_ids sanitized), st))
         | None \<Rightarrow>
             and_then_st (on_registry (auto_register_pattern_matches c ps decoded) st) (\<lambda>_ st.
               if registry_is_empty (snd st) then (Inr (decoded, []), st)
               else and_then_st (sanitize_plain_part c decoded st) (\<lambda>x st. (checked_utf8 x, st))))"

section \<open>The registry only grows\<close>

lemma register_matches_step: "registry_step c r (snd (register_matches c tx ms r))"
proof (induction c tx ms r rule: register_matches.induct)
  case (2 c tx m ms r)
  show ?case
  proof (cases "str_get tx (am_start m) (am_end m)")
    case None
    then show ?thesis using 2(1) by simp
  next
    case (Some secret)
    let ?label = "secret_label (''AUTO_'' @ to_ascii_uppercase (am_pattern m))"
    obtain res r1 where p: "ingest c ?label secret r = (res, r1)"
      by (cases "ingest c ?label secret r")
    have s1: "registry_step c r r1"
      using ingest_step [of ?label c r secret] p by simp
    show ?thesis
    proof (cases res)
      case (Inl err)
      then show ?thesis using Some p s1 by simp
    next
      case (Inr ident)
      have "registry_step c r1 (snd (register_matches c tx ms r1))"
        using 2(2) [OF Some, of ident r1] p Inr by simp
      with s1 have "registry_step c r (snd (register_matches c tx ms r1))"
        by (rule registry_step_trans)
      then show ?thesis
        using Some p Inr by simp
    qed
  qed
qed simp

lemma auto_register_step: "registry_step c r (snd (auto_register_pattern_matches c ps tx r))"
  by (simp add: auto_register_pattern_matches_def register_matches_step)

text \<open>Not registered means not changed.\<close>

lemma register_matches_False:
  "register_matches c tx ms r = (Inr False, r') \<Longrightarrow> r' = r"
  by (induction c tx ms r rule: register_matches.induct)
    (auto simp: and_then_st_eq_Inr split: option.splits)


text \<open>What matched is afterwards a secret of the registry, up to the equality of digests.\<close>

lemma register_matches_holds:
  assumes "register_matches c tx ms r = (Inr b, r')" and "registry_inv c r" and "registry_inv c r'"
    and "m \<in> set ms" and "str_get tx (am_start m) (am_end m) = Some secret"
  shows "\<exists>ident s'. registry_holds c r' ident s' \<and> same_digest c (reg_keys r) s' secret"
  using assms
proof (induction c tx ms r arbitrary: b rule: register_matches.induct)
  case (1 c tx r)
  then show ?case by simp
next
  case (2 c tx m' ms r)
  show ?case
  proof (cases "str_get tx (am_start m') (am_end m')")
    case None
    then show ?thesis
      using 2(1) [OF None _ 2(4,5)] 2(3,6,7) by auto
  next
    case (Some s)
    let ?label = "secret_label (''AUTO_'' @ to_ascii_uppercase (am_pattern m'))"
    obtain ident r1 b1 where p: "ingest c ?label s r = (Inr ident, r1)"
      and rest: "register_matches c tx ms r1 = (Inr b1, r')"
      using 2(3) Some by (auto simp: and_then_st_eq_Inr)
    have s1: "registry_step c r r1"
      using ingest_step [of ?label c r s] p by simp
    have s2: "registry_step c r1 r'"
      using register_matches_step [of c r1 tx ms] rest by simp
    have i1: "registry_inv c r1"
      by (rule store.inv_back [OF s1 2(4) s2 2(5)])
    show ?thesis
    proof (cases "m = m'")
      case True
      then have "s = secret"
        using Some 2(7) by simp
      then obtain s' where "registry_holds c r1 ident s'" "same_digest c (reg_keys r) s' secret"
        using store.put_holds [OF 2(4) _ p i1] by blast
      then show ?thesis
        using registry_holds_step [OF s2] by blast
    next
      case False
      then have "\<exists>ident s'. registry_holds c r' ident s' \<and> same_digest c (reg_keys r1) s' secret"
        using 2(2) [OF Some p rest i1 2(5)] 2(6,7) by auto
      then show ?thesis
        using same_digest_step [OF s1] by blast
    qed
  qed
qed

section \<open>What a decoded string becomes\<close>

text \<open>
  The invariant of the pair of cache and registry, and what a string has to be for the cache
  to be of no consequence: one for which the chunks agree, in the set of strings on which HMAC is
  assumed not to collide, and not equal to the canonical form of a cached object.
\<close>

definition san_inv ::
  "crypto \<Rightarrow> bytes set \<Rightarrow> (bytes \<Rightarrow> bytes \<Rightarrow> bool) \<Rightarrow> san_state \<Rightarrow> bool" where
  "san_inv c U Ob st \<longleftrightarrow>
     registry_inv c (snd st) \<and> caching c (reg_keys (snd st)) U \<and>
     cache_coherent c (snd st) U Ob (fst st)"

definition scannable ::
  "crypto \<Rightarrow> registry \<Rightarrow> bytes set \<Rightarrow> (bytes \<Rightarrow> bytes \<Rightarrow> bool) \<Rightarrow> nat \<Rightarrow> bytes \<Rightarrow> bool" where
  "scannable c r U Ob chunk s \<longleftrightarrow> chunks_agree c r U chunk s \<and> (\<forall>out. \<not> Ob s out)"

lemma scannable_back:
  "registry_step c r r' \<Longrightarrow> registry_inv c r \<Longrightarrow> scannable c r' U Ob chunk s \<Longrightarrow> scannable c r U Ob chunk s"
  by (auto simp: scannable_def registry_inv_def intro: chunks_agree_back)

lemma san_inv_registry: "san_inv c U Ob (rc, r) \<Longrightarrow> registry_inv c r"
  by (simp add: san_inv_def)

lemma san_inv_step:
  assumes "san_inv c U Ob (rc, r)" and "registry_step c r r'" and "registry_inv c r'"
    and "\<And>a b. reg_entries r' = reg_entries r \<Longrightarrow> Ob a b \<Longrightarrow> Ob' a b"
  shows "san_inv c U Ob' (rc, r')"
proof -
  have "reg_keys r' = reg_keys r"
    using assms(2) by (simp add: registry_step_def registry_extends_def)
  then show ?thesis
    using assms cache_coherent_step [of c r U Ob rc r' Ob']
    by (simp add: san_inv_def registry_inv_def)
qed

lemma redact_reference_total: "hmac_total c \<Longrightarrow> \<exists>x. redact_reference c r bs = Inr x"
  using scan_string_token_total unfolding redact_reference_def by fastforce

lemma sanitize_plain_part_registry: "snd (snd (sanitize_plain_part c s (rc, r))) = r"
  by (simp add: sanitize_plain_part_def)

lemma sanitize_plain_part_spec:
  assumes inv: "san_inv c U Ob (rc, r)" and s: "scannable c r U Ob (rc_chunk rc) s"
  shows "\<exists>out ids rc'. sanitize_plain_part c s (rc, r) = (Inr (out, ids), (rc', r)) \<and>
    redact_reference c r s = Inr \<lparr>ss_bytes = out, ss_ids = ids\<rparr> \<and> san_inv c U Ob (rc', r) \<and>
    rc_chunk rc' = rc_chunk rc"
proof -
  obtain res rc' where run: "sanitize_string_detailed c s r rc = (res, rc')"
    by fastforce
  have c: "res = redact_reference c r s \<and> cache_coherent c r U Ob rc'"
    using inv s by (intro sanitize_string_reference [OF _ _ _ _ run]) (auto simp: san_inv_def scannable_def)
  obtain x where x: "redact_reference c r s = Inr x"
    using redact_reference_total inv unfolding san_inv_def caching_def by blast
  have "rc_chunk rc' = rc_chunk rc"
    using sanitize_string_detailed_chunk [of c s r rc] run by simp
  then show ?thesis
    using run c x inv by (cases x) (auto simp: sanitize_plain_part_def san_inv_def)
qed

text \<open>
  A string without directives: the credentials in it are registered, then it is redacted with
  everything the registry holds.
\<close>

lemma step_inv:
  "registry_step c r r' \<Longrightarrow> registry_inv c r \<Longrightarrow> registry_fits r' \<Longrightarrow> registry_inv c r'"
  by (auto simp: registry_inv_def dest: registry_stepD(2))

lemma directives_none:
  "tag_free s \<Longrightarrow> replace_user_secret_directives_with c s f (rc, r) = (Inr None, (rc, r))"
  by (simp add: replace_user_secret_directives_with_def parse_user_secret_directives_none)

lemma sanitize_decoded_string_undeclared:
  assumes inv: "san_inv c U Ob (rc, r)" and s: "scannable c r' U Ob' (rc_chunk rc) s"
    and none: "parse_user_secret_directives c s r = (Inr None, r)"
    and run: "sanitize_decoded_string c ps s (rc, r) = (Inr (out, ids), (rc', r'))"
    and fits: "registry_fits r'"
    and mono: "\<And>a b. reg_entries r' = reg_entries r \<Longrightarrow> Ob a b \<Longrightarrow> Ob' a b"
  shows "r' = snd (auto_register_pattern_matches c ps s r) \<and> registry_step c r r' \<and>
    redact_reference c r' s = Inr \<lparr>ss_bytes = out, ss_ids = ids\<rparr> \<and> san_inv c U Ob' (rc', r') \<and>
    rc_chunk rc' = rc_chunk rc \<and> (\<exists>b. auto_register_pattern_matches c ps s r = (Inr b, r'))"
proof -
  obtain res r1 where a: "auto_register_pattern_matches c ps s r = (res, r1)"
    by fastforce
  have step: "registry_step c r r1"
    using auto_register_step [of c r ps s] a by simp
  have directives_none: "replace_user_secret_directives_with c s f (rc, r) = (Inr None, (rc, r))" for f
    using none by (simp add: replace_user_secret_directives_with_def)
  have inv1: "san_inv c U Ob' (rc, r1)" if u: "r1 = r'"
    using u fits mono by (intro san_inv_step [OF inv step step_inv [OF step san_inv_registry [OF inv]]]) simp_all
  from run obtain b where b: "res = Inr b"
    using a by (cases res) (auto simp: sanitize_decoded_string_def directives_none)
  have rest: "(if registry_is_empty r1 then (Inr (s, []), (rc, r1))
      else and_then_st (sanitize_plain_part c s (rc, r1)) (\<lambda>x st. (checked_utf8 x, st))) =
      (Inr (out, ids), (rc', r'))"
    using run a b by (simp add: sanitize_decoded_string_def directives_none)
  show ?thesis
  proof (cases "registry_is_empty r1")
    case True
    then have "redact_reference c r1 s = Inr (unchanged s)"
      by (intro redact_reference_early) simp
    moreover have "san_inv c U Ob' (rc, r1)"
      using True rest by (intro inv1) simp
    ultimately show ?thesis
      using rest True a b step by (auto simp: unchanged_def)
  next
    case False
    have "snd (snd (and_then_st (sanitize_plain_part c s (rc, r1)) (\<lambda>x st. (checked_utf8 x, st)))) = r1"
      by (simp add: sanitize_plain_part_registry del: and_then_st_simps)
    moreover have "and_then_st (sanitize_plain_part c s (rc, r1)) (\<lambda>x st. (checked_utf8 x, st)) =
        (Inr (out, ids), (rc', r'))"
      using rest False by simp
    ultimately have r1: "r1 = r'"
      by (metis snd_conv)
    have "san_inv c U Ob' (rc, r1)"
      using r1 by (rule inv1)
    from sanitize_plain_part_spec [OF this s [folded r1]] obtain out1 ids1 rc1 where
      "sanitize_plain_part c s (rc, r1) = (Inr (out1, ids1), (rc1, r1))"
      "redact_reference c r1 s = Inr \<lparr>ss_bytes = out1, ss_ids = ids1\<rparr>" "san_inv c U Ob' (rc1, r1)"
      "rc_chunk rc1 = rc_chunk rc"
      by blast
    then show ?thesis
      using rest False a b step by (auto simp: checked_utf8_def split: if_splits)
  qed
qed

lemmas sanitize_decoded_string_plain =
  sanitize_decoded_string_undeclared [OF _ _ parse_user_secret_directives_none]

text \<open>
  A redacted string: placeholders of the registry \<open>r\<close>, woven with fragments in which no secret
  of the (earlier) registry \<open>r0\<close> occurs.
\<close>

definition string_redacted :: "crypto \<Rightarrow> registry \<Rightarrow> registry \<Rightarrow> bytes \<Rightarrow> bool" where
  "string_redacted c r0 r out \<longleftrightarrow>
     (\<exists>frags phs. out = weave frags phs \<and> length frags = Suc (length phs) \<and>
        (\<forall>g \<in> set frags. secret_free c r0 g) \<and> set phs \<subseteq> e_placeholder ` set (reg_entries r))"

lemma secrets_of_step: "registry_step c r r' \<Longrightarrow> set (secrets_of c r) \<subseteq> set (secrets_of c r')"
  by (auto simp: secrets_of_iff registry_step_def registry_extends_def secret_of_def prefix_def)

lemma secret_free_step: "registry_step c r r' \<Longrightarrow> secret_free c r' g \<Longrightarrow> secret_free c r g"
  using secrets_of_step unfolding secret_free_def by blast

lemma entries_step: "registry_step c r r' \<Longrightarrow> set (reg_entries r) \<subseteq> set (reg_entries r')"
  by (auto simp: registry_step_def registry_extends_def prefix_def)

lemma string_redacted_step:
  assumes "string_redacted c r1 r2 out" and "registry_step c r0 r1" and "registry_step c r2 r3"
  shows "string_redacted c r0 r3 out"
proof -
  obtain frags phs where *: "out = weave frags phs" "length frags = Suc (length phs)"
    "\<forall>g \<in> set frags. secret_free c r1 g" "set phs \<subseteq> e_placeholder ` set (reg_entries r2)"
    using assms(1) unfolding string_redacted_def by blast
  have "\<forall>g \<in> set frags. secret_free c r0 g" "set phs \<subseteq> e_placeholder ` set (reg_entries r3)"
    using * secret_free_step [OF assms(2)] entries_step [OF assms(3)] by blast+
  then show ?thesis
    using *(1,2) unfolding string_redacted_def by blast
qed

lemma redact_reference_redacted:
  assumes wf: "registry_wf c r" and run: "redact_reference c r s = Inr x"
  shows "string_redacted c r r (ss_bytes x)"
proof -
  obtain spans where spans: "scan_string_token c s r = Inr spans" "x = redacted_with s spans"
    using run by (auto simp: redact_reference_def)
  let ?frags = "kept_fragments s 0 (span_edits spans)"
  have "ss_bytes x = weave ?frags (map sp_placeholder spans)"
    using apply_spans_weave [OF wf spans(1)] by (simp add: spans(2) redacted_with_def)
  moreover have "\<forall>g \<in> set ?frags. secret_free c r g"
    using kept_fragments_secret_free [OF wf spans(1)] by blast
  moreover have "set (map sp_placeholder spans) \<subseteq> e_placeholder ` set (reg_entries r)"
    using scan_sound(1) [OF wf spans(1)] by (auto simp: window_hit_def)
  moreover have "length ?frags = Suc (length (map sp_placeholder spans))"
    by (simp add: span_edits_def)
  ultimately show ?thesis
    unfolding string_redacted_def by blast
qed


section \<open>What a string with directives becomes\<close>

lemma string_redacted_Nil: "registry_wf c r0 \<Longrightarrow> string_redacted c r0 r []"
  unfolding string_redacted_def
  by (rule exI [of _ "[[]]"], rule exI [of _ "[]"])
    (auto simp: secret_free_def occurs_in_def occurs_at_def dest: secrets_of_nonempty)

lemma weave_append:
  "length xs = Suc (length ps) \<Longrightarrow> weave xs ps @ p @ weave ys qs = weave (xs @ ys) (ps @ p # qs)"
proof (induction ps arbitrary: xs)
  case Nil
  then show ?case by (cases xs) (auto simp: length_Suc_conv)
next
  case (Cons q ps)
  then obtain x xs' where "xs = x # xs'"
    by (cases xs) auto
  then show ?case
    using Cons by simp
qed

lemma string_redacted_append:
  assumes "string_redacted c r0 r a" and "string_redacted c r0 r b"
    and "ph \<in> e_placeholder ` set (reg_entries r)"
  shows "string_redacted c r0 r (a @ ph @ b)"
proof -
  obtain xs ps where a: "a = weave xs ps" "length xs = Suc (length ps)"
    "\<forall>g \<in> set xs. secret_free c r0 g" "set ps \<subseteq> e_placeholder ` set (reg_entries r)"
    using assms(1) unfolding string_redacted_def by blast
  obtain ys qs where b: "b = weave ys qs" "length ys = Suc (length qs)"
    "\<forall>g \<in> set ys. secret_free c r0 g" "set qs \<subseteq> e_placeholder ` set (reg_entries r)"
    using assms(2) unfolding string_redacted_def by blast
  show ?thesis
    unfolding string_redacted_def
    by (rule exI [of _ "xs @ ys"], rule exI [of _ "ps @ ph # qs"])
      (use a b assms(3) weave_append [OF a(2)] in auto)
qed

fun parts_alternate :: "directive_part list \<Rightarrow> bool" where
  "parts_alternate [] \<longleftrightarrow> True"
| "parts_alternate [Plain_part t] \<longleftrightarrow> True"
| "parts_alternate (Plain_part t # Plain_part u # ps) \<longleftrightarrow> False"
| "parts_alternate (Plain_part t # Secret_part ph ident # ps) \<longleftrightarrow> parts_alternate ps"
| "parts_alternate (Secret_part ph ident # ps) \<longleftrightarrow> parts_alternate ps"

lemma render_parts_redacted:
  assumes "render_parts (sanitize_plain_part c) ps (rc, r) = (Inr (out, plain_ids, secret_ids), (rc', r'))"
    and "parts_alternate ps" and "san_inv c U Ob (rc, r)"
    and "\<And>t. Plain_part t \<in> set ps \<Longrightarrow> scannable c r U Ob (rc_chunk rc) t"
    and "\<And>ph ident. Secret_part ph ident \<in> set ps \<Longrightarrow> ph \<in> e_placeholder ` set (reg_entries r)"
  shows "r' = r \<and> san_inv c U Ob (rc', r) \<and> rc_chunk rc' = rc_chunk rc \<and> string_redacted c r r out"
  using assms
proof (induction ps arbitrary: rc out plain_ids secret_ids rule: parts_alternate.induct)
  case 1
  then show ?case
    by (auto simp: san_inv_def registry_inv_def intro: string_redacted_Nil)
next
  case (2 t)
  have "scannable c r U Ob (rc_chunk rc) t"
    using 2(4) by simp
  from sanitize_plain_part_spec [OF 2(3) this] obtain bs ids rc1 where p:
    "sanitize_plain_part c t (rc, r) = (Inr (bs, ids), (rc1, r))"
    "redact_reference c r t = Inr \<lparr>ss_bytes = bs, ss_ids = ids\<rparr>" "san_inv c U Ob (rc1, r)"
    "rc_chunk rc1 = rc_chunk rc"
    by blast
  have "string_redacted c r r bs"
    using redact_reference_redacted [OF _ p(2)] 2(3) by (simp add: san_inv_def registry_inv_def)
  then show ?case
    using 2(1) p by auto
next
  case (3 t u ps)
  then show ?case by simp
next
  case (4 t ph ident ps)
  have "scannable c r U Ob (rc_chunk rc) t"
    using 4(5) by simp
  from sanitize_plain_part_spec [OF 4(4) this] obtain bs ids rc1 where p:
    "sanitize_plain_part c t (rc, r) = (Inr (bs, ids), (rc1, r))"
    "redact_reference c r t = Inr \<lparr>ss_bytes = bs, ss_ids = ids\<rparr>" "san_inv c U Ob (rc1, r)"
    "rc_chunk rc1 = rc_chunk rc"
    by blast
  obtain out1 pids sids where rest:
    "render_parts (sanitize_plain_part c) ps (rc1, r) = (Inr (out1, pids, sids), (rc', r'))"
    and out: "out = bs @ ph @ out1"
    using 4(2) p(1) by (auto simp: and_then_st_eq_Inr)
  have IH: "r' = r \<and> san_inv c U Ob (rc', r) \<and> rc_chunk rc' = rc_chunk rc1 \<and> string_redacted c r r out1"
    using 4(1) [OF rest _ p(3)] 4(3,5,6) p(4) by auto
  have "string_redacted c r r bs"
    using redact_reference_redacted [OF _ p(2)] 4(4) by (simp add: san_inv_def registry_inv_def)
  moreover have "ph \<in> e_placeholder ` set (reg_entries r)"
    using 4(6) [of ph ident] by simp
  ultimately have "string_redacted c r r out"
    unfolding out using IH string_redacted_append by blast
  then show ?case
    using IH p(4) by simp
next
  case (5 ph ident ps)
  obtain out1 pids sids where rest:
    "render_parts (sanitize_plain_part c) ps (rc, r) = (Inr (out1, pids, sids), (rc', r'))"
    and out: "out = [] @ ph @ out1"
    using 5(2) by (auto simp: and_then_st_eq_Inr)
  have IH: "r' = r \<and> san_inv c U Ob (rc', r) \<and> rc_chunk rc' = rc_chunk rc \<and> string_redacted c r r out1"
    using 5(1) [OF rest] 5(3-6) by auto
  have "string_redacted c r r []"
    using 5(4) by (intro string_redacted_Nil) (simp add: san_inv_def registry_inv_def)
  moreover have "ph \<in> e_placeholder ` set (reg_entries r)"
    using 5(6) [of ph ident] by simp
  ultimately have "string_redacted c r r out"
    unfolding out using IH string_redacted_append by blast
  then show ?case
    using IH by simp
qed


lemma render_parts_registry:
  "snd (snd (render_parts (sanitize_plain_part c) ps (rc, r))) = r"
proof (induction ps arbitrary: rc)
  case (Cons p ps)
  show ?case
  proof (cases p)
    case (Plain_part t)
    obtain res rc1 where s: "sanitize_plain_part c t (rc, r) = (res, (rc1, r))"
      using sanitize_plain_part_registry [of c t rc r]
      by (cases "sanitize_plain_part c t (rc, r)") auto
    show ?thesis
    proof (cases res)
      case (Inr x)
      obtain res2 rc2 where "render_parts (sanitize_plain_part c) ps (rc1, r) = (res2, (rc2, r))"
        using Cons.IH [of rc1] by (cases "render_parts (sanitize_plain_part c) ps (rc1, r)") auto
      then show ?thesis
        using Plain_part s Inr by (cases x; cases res2) auto
    qed (use Plain_part s in simp)
  next
    case (Secret_part ph ident)
    obtain res2 rc2 where "render_parts (sanitize_plain_part c) ps (rc, r) = (res2, (rc2, r))"
      using Cons.IH [of rc] by (cases "render_parts (sanitize_plain_part c) ps (rc, r)") auto
    then show ?thesis
      using Secret_part by (cases res2) auto
  qed
qed simp

lemma parts_alternate_of_parsed:
  assumes "segments_ok (map (segment_of s) ps)" and "list_all2 (part_matches c r s) ps parts"
  shows "parts_alternate parts"
  using assms
proof (induction ps arbitrary: parts)
  case Nil
  then show ?case by simp
next
  case (Cons p ps)
  obtain q parts' where parts: "parts = q # parts'" "part_matches c r s p q"
    "list_all2 (part_matches c r s) ps parts'"
    using Cons.prems(2) by (cases parts) auto
  have IH: "parts_alternate parts'"
    using Cons.IH [OF _ parts(3)] Cons.prems(1) by (cases p) auto
  show ?case
  proof (cases p)
    case (Parsed_plain a b)
    then obtain t where q: "q = Plain_part t"
      using parts(2) by (cases q) auto
    show ?thesis
    proof (cases ps)
      case Nil
      then show ?thesis using parts q by simp
    next
      case (Cons p2 ps2)
      then obtain a2 b2 where "p2 = Parsed_secret a2 b2"
        using Cons.prems(1) \<open>p = Parsed_plain a b\<close> by (cases p2) auto
      then obtain q2 parts2 where q2: "parts' = q2 # parts2" "part_matches c r s p2 q2"
        using parts(3) Cons by (cases parts') auto
      then obtain ph ident where "q2 = Secret_part ph ident"
        using \<open>p2 = Parsed_secret a2 b2\<close> by (cases q2) auto
      then show ?thesis
        using IH parts(1) q q2(1) by simp
    qed
  next
    case (Parsed_secret a b)
    then show ?thesis
      using parts(1,2) IH by (cases q) auto
  qed
qed

lemma placeholder_for_entry:
  "placeholder_for r ident = Some ph \<Longrightarrow> ph \<in> e_placeholder ` set (reg_entries r)"
  by (auto simp: placeholder_for_def entry_of_def Let_def split: if_splits)

text \<open>
  A string with directives: every declared text is registered, and with all of them registered
  what is left of the string is free of secrets. The second pass, after credentials were found
  in the result, keeps that true of the larger registry.
\<close>

lemma sanitize_decoded_string_directives:
  assumes inv: "san_inv c U Ob (rc, r)"
    and small: "\<And>t. t \<in> slices_of s \<Longrightarrow> scannable c r' U Ob (rc_chunk rc) t"
    and again: "\<And>x ids st. replace_user_secret_directives_with c s (sanitize_plain_part c) (rc, r) =
      (Inr (Some (x, ids)), st) \<Longrightarrow> scannable c r' U Ob (rc_chunk rc) (dt_text x)"
    and parse: "parse_user_secret_directives c s r = (Inr (Some parts), r1)"
    and run: "sanitize_decoded_string c pats s (rc, r) = (Inr (out, ids), (rc', r'))"
    and fits: "registry_fits r'"
  shows "registry_step c r r' \<and> san_inv c U Ob (rc', r') \<and> string_redacted c r' r' out \<and>
    (\<exists>ps. parse_ranges s = Inr ps \<and>
       (\<forall>a b. Parsed_secret a b \<in> set ps \<longrightarrow>
          (\<exists>ident s'. registry_holds c r' ident s' \<and> same_digest c (reg_keys r') s' (sub_bytes s a b))))"
proof -
  have s1: "registry_step c r r1"
    using parse_user_secret_directives_step [of c r s] parse by simp
  obtain t pids sids rc2 r2 where
    "render_parts (sanitize_plain_part c) parts (rc, r1) = (Inr (t, pids, sids), (rc2, r2))"
    and "utf8_valid t"
    using run parse
    by (cases "render_parts (sanitize_plain_part c) parts (rc, r1)";
        cases "fst (render_parts (sanitize_plain_part c) parts (rc, r1))")
      (auto simp: sanitize_decoded_string_def replace_user_secret_directives_with_def split: if_splits)
  moreover from this have "r2 = r1"
    using render_parts_registry [of c parts rc r1] by simp
  ultimately have
    render: "render_parts (sanitize_plain_part c) parts (rc, r1) = (Inr (t, pids, sids), (rc2, r1))"
    and rep: "replace_user_secret_directives_with c s (sanitize_plain_part c) (rc, r) =
      (Inr (Some (\<lparr>dt_text = t, dt_ids = sids\<rparr>, pids)), (rc2, r1))"
    using parse by (simp_all add: replace_user_secret_directives_with_def)
  obtain b r3 where auto: "auto_register_pattern_matches c pats t r1 = (Inr b, r3)"
    using run rep
    by (cases "auto_register_pattern_matches c pats t r1";
        cases "fst (auto_register_pattern_matches c pats t r1)")
      (auto simp: sanitize_decoded_string_def)
  have tail: "(if b then and_then_st (sanitize_plain_part c t (rc2, r3)) (\<lambda>(bs, ids) st.
        (checked_utf8 (bs, pids @ sids @ ids), st)) else (Inr (t, pids @ sids), (rc2, r3))) =
      (Inr (out, ids), (rc', r'))"
    using run rep auto by (cases b) (simp_all add: sanitize_decoded_string_def)
  have s3: "registry_step c r1 r3"
    using auto_register_step [of c r1 pats t] auto by simp
  have r3: "r3 = r'"
  proof (cases b)
    case True
    obtain res rc3 where "sanitize_plain_part c t (rc2, r3) = (res, (rc3, r3))"
      using sanitize_plain_part_registry [of c t rc2 r3]
      by (cases "sanitize_plain_part c t (rc2, r3)") auto
    then show ?thesis
      using tail True by (cases res) auto
  qed (use tail in simp)
  have i0: "registry_inv c r"
    using inv by (rule san_inv_registry)
  have s13: "registry_step c r1 r'" and s03: "registry_step c r r'"
    using s1 s3 r3 registry_step_trans by blast+
  have i3: "registry_inv c r'"
    by (rule step_inv [OF s03 i0 fits])
  have i1: "registry_inv c r1"
    by (rule store.inv_back [OF s1 i0 s13 i3])
  obtain ps where ps: "parse_ranges s = Inr ps" "list_all2 (part_matches c r1 s) ps parts"
    using parse_user_secret_directives_someE [OF parse i0 i1] by blast
  have alt: "parts_alternate parts"
    using parse_ranges_sound [of s 0 ps] ps by (intro parts_alternate_of_parsed) (simp_all add: parse_ranges_def)
  have plain: "scannable c r1 U Ob (rc_chunk rc) u" if u: "Plain_part u \<in> set parts" for u
  proof -
    obtain p where "part_matches c r1 s p (Plain_part u)"
      using list_all2_mem2 [OF ps(2) u] by blast
    then obtain a b where "u = sub_bytes s a b"
      by (cases p) auto
    then have "scannable c r' U Ob (rc_chunk rc) u"
      using small by (auto simp: slices_of_def)
    then show ?thesis
      by (rule scannable_back [OF s13 i1])
  qed
  have secret: "ph \<in> e_placeholder ` set (reg_entries r1)" if u: "Secret_part ph ident \<in> set parts" for ph ident
  proof -
    obtain p where "part_matches c r1 s p (Secret_part ph ident)"
      using list_all2_mem2 [OF ps(2) u] by blast
    then show ?thesis
      by (cases p) (auto intro: placeholder_for_entry)
  qed
  have R: "san_inv c U Ob (rc2, r1) \<and> rc_chunk rc2 = rc_chunk rc \<and> string_redacted c r1 r1 t"
    using render_parts_redacted [OF render alt san_inv_step [OF inv s1 i1]] plain secret by blast
  have declared: "\<exists>ident s'. registry_holds c r' ident s' \<and>
      same_digest c (reg_keys r') s' (sub_bytes s a b)" if m: "Parsed_secret a b \<in> set ps" for a b
  proof -
    obtain q where "part_matches c r1 s (Parsed_secret a b) q"
      using list_all2_mem1 [OF ps(2) m] by blast
    then obtain ident s' where "registry_holds c r1 ident s'"
      "same_digest c (reg_keys r1) s' (sub_bytes s a b)"
      by (cases q) auto
    then show ?thesis
      using registry_holds_step [OF s13] same_digest_step [OF s13] by blast
  qed
  have "san_inv c U Ob (rc', r') \<and> string_redacted c r' r' out"
  proof (cases b)
    case False
    then have "r' = r1" "out = t" "rc' = rc2"
      using tail register_matches_False auto r3
      by (auto simp: auto_register_pattern_matches_def)
    then show ?thesis
      using R by simp
  next
    case True
    have inv3: "san_inv c U Ob (rc2, r')"
      using san_inv_step [OF _ s13 i3] R by blast
    have "scannable c r' U Ob (rc_chunk rc2) t"
      using again [OF rep] R by simp
    from sanitize_plain_part_spec [OF inv3 this] obtain out3 ids3 rc3 where
      "sanitize_plain_part c t (rc2, r') = (Inr (out3, ids3), (rc3, r'))"
      and ref: "redact_reference c r' t = Inr \<lparr>ss_bytes = out3, ss_ids = ids3\<rparr>"
      and "san_inv c U Ob (rc3, r')"
      by blast
    moreover have "string_redacted c r' r' out3"
      using redact_reference_redacted [OF _ ref] i3 by (simp add: registry_inv_def)
    ultimately show ?thesis
      using tail True r3 by (auto simp: checked_utf8_def split: if_splits)
  qed
  then show ?thesis
    using s03 ps(1) declared by blast
qed

text \<open>Any string that is accepted, with directives or without.\<close>

lemma unparse_declared:
  "unparse (map (segment_of s) (us @ Parsed_secret a b # vs)) =
     unparse (map (segment_of s) us) @ OPEN_TAG @ sub_bytes s a b @ CLOSE_TAG @ unparse (map (segment_of s) vs)"
  by (simp add: unparse_def)

lemma parse_user_secret_directives_cases:
  assumes "parse_user_secret_directives c s r = (Inr replacement, r1)"
  obtains "replacement = None" "r1 = r" "\<And>ps a b. parse_ranges s = Inr ps \<Longrightarrow> Parsed_secret a b \<notin> set ps"
    | parts where "replacement = Some parts"
proof (cases replacement)
  case None
  have "Parsed_secret a b \<notin> set ps" if ps: "parse_ranges s = Inr ps" for ps a b
  proof
    assume m: "Parsed_secret a b \<in> set ps"
    then have "\<not> list_all is_plain ps"
      by (auto simp: list_all_iff is_plain_def intro!: bexI [OF _ m])
    then have "\<not> str_contains s OPEN_TAG"
      using assms None ps by (auto simp: parse_user_secret_directives_def and_then_st_eq_Inr split: if_splits)
    moreover have "unparse (map (segment_of s) ps) = s"
      using parse_ranges_sound [of s 0 ps] ps by (simp add: parse_ranges_def)
    moreover obtain us vs where "ps = us @ Parsed_secret a b # vs"
      using m by (meson split_list)
    ultimately show False
      unfolding str_contains_iff by (metis unparse_declared occurs_in_split append.assoc)
  qed
  moreover have "r1 = r"
    using assms None by (auto simp: parse_user_secret_directives_def and_then_st_eq_Inr split: if_splits)
  ultimately show thesis
    using that(1) None by blast
qed (use that(2) in blast)

lemma sanitize_decoded_string_redacted:
  assumes inv: "san_inv c U Ob (rc, r)"
    and small: "\<And>t. t \<in> slices_of s \<Longrightarrow> scannable c r' U Ob (rc_chunk rc) t"
    and again: "\<And>x ids st. replace_user_secret_directives_with c s (sanitize_plain_part c) (rc, r) =
      (Inr (Some (x, ids)), st) \<Longrightarrow> scannable c r' U Ob (rc_chunk rc) (dt_text x)"
    and run: "sanitize_decoded_string c pats s (rc, r) = (Inr (out, ids), (rc', r'))"
    and fits: "registry_fits r'"
  shows "registry_step c r r' \<and> string_redacted c r' r' out \<and>
    (\<forall>ps a b. parse_ranges s = Inr ps \<longrightarrow> Parsed_secret a b \<in> set ps \<longrightarrow>
       (\<exists>ident s'. registry_holds c r' ident s' \<and> same_digest c (reg_keys r') s' (sub_bytes s a b)))"
proof -
  obtain res r1 where parse: "parse_user_secret_directives c s r = (res, r1)"
    by fastforce
  then obtain replacement where res: "res = Inr replacement"
    using run by (cases res) (auto simp: sanitize_decoded_string_def replace_user_secret_directives_with_def)
  show ?thesis
  proof (rule parse_user_secret_directives_cases [OF parse [unfolded res]])
    assume none: "replacement = None" "r1 = r"
      and secrets: "\<And>ps a b. parse_ranges s = Inr ps \<Longrightarrow> Parsed_secret a b \<notin> set ps"
    have plain: "registry_step c r r' \<and> redact_reference c r' s = Inr \<lparr>ss_bytes = out, ss_ids = ids\<rparr>"
      using sanitize_decoded_string_undeclared [OF inv small [OF whole_slice] _ run fits] parse res none by blast
    then have "registry_inv c r'"
      using step_inv [OF _ san_inv_registry [OF inv] fits] by blast
    then have "string_redacted c r' r' out"
      using redact_reference_redacted [of c r' s] plain by (fastforce simp: registry_inv_def)
    then show ?thesis
      using plain secrets by blast
  next
    fix parts
    assume parts: "replacement = Some parts"
    have "parse_user_secret_directives c s r = (Inr (Some parts), r1)"
      using parse res parts by simp
    from sanitize_decoded_string_directives [OF inv small again this run fits] show ?thesis
      by auto
  qed
qed

end
