(* ===== verification/Json_Value.thy ===== *)
theory Json_Value
  imports Rust_Text "HOL-Library.List_Lexorder" "HOL-Library.Char_ord"
begin

text \<open>
  JSON as \<^verbatim>\<open>serde_json\<close> presents it to the program, and \<^verbatim>\<open>src/redact/field_policy.rs\<close>. The
  parser and the printer of the crate are parameters, with what it documents of them as a
  predicate. A \<^verbatim>\<open>serde_json::Map\<close> is a \<^verbatim>\<open>BTreeMap\<close> (the feature \<^verbatim>\<open>preserve_order\<close> is off), so
  its entries are a list sorted by key; a number is never looked at, and kept as its text.
\<close>

section \<open>Values\<close>

datatype json =
    JNull
  | JBool bool
  | JNumber bytes
  | JString bytes
  | JArray "json list"
  | JObject "(bytes \<times> json) list"

type_synonym json_map = "(bytes \<times> json) list"

text \<open>\<^verbatim>\<open>Map::get\<close> is \<^const>\<open>map_of\<close>; \<open>map_put\<close> is \<^verbatim>\<open>Map::insert\<close>.\<close>

fun map_put :: "bytes \<Rightarrow> json \<Rightarrow> json_map \<Rightarrow> json_map" where
  "map_put k v [] = [(k, v)]"
| "map_put k v ((k', v') # m) =
     (if k = k' then (k, v) # m
      else if k < k' then (k, v) # (k', v') # m
      else (k', v') # map_put k v m)"

definition has_key :: "bytes \<Rightarrow> json_map \<Rightarrow> bool" where
  "has_key k m \<longleftrightarrow> map_of m k \<noteq> None"

lemma map_of_put: "map_of (map_put k v m) = (map_of m)(k \<mapsto> v)"
  by (induction k v m rule: map_put.induct) auto

lemma keys_put: "fst ` set (map_put k v m) = insert k (fst ` set m)"
  by (induction k v m rule: map_put.induct) auto

lemma sorted_put:
  assumes "sorted_wrt (<) (map fst m)"
  shows "sorted_wrt (<) (map fst (map_put k v m))"
  using assms
proof (induction k v m rule: map_put.induct)
  case (2 k v k' v' m)
  have "k' < x" if "x \<in> fst ` set (map_put k v m)" "k' < k" for x
    using that 2(2) by (auto simp: keys_put)
  then show ?case
    using 2 by auto
qed simp

section \<open>The crate\<close>

record serde =
  from_slice :: "bytes \<Rightarrow> json option"
  to_vec :: "json \<Rightarrow> bytes option"

definition parse_json :: "serde \<Rightarrow> bytes \<Rightarrow> crebro_error + json" where
  "parse_json lib bs = ok_or Json (from_slice lib bs)"

definition print_json :: "serde \<Rightarrow> json \<Rightarrow> crebro_error + bytes" where
  "print_json lib v = ok_or Json (to_vec lib v)"

text \<open>\<^verbatim>\<open>serde_json::from_slice::<String>\<close>: the input has to be a JSON string.\<close>

definition parse_json_string :: "serde \<Rightarrow> bytes \<Rightarrow> crebro_error + bytes" where
  "parse_json_string lib bs =
     (case from_slice lib bs of Some (JString s) \<Rightarrow> Inr s | _ \<Rightarrow> Inl Json)"

fun json_wf :: "json \<Rightarrow> bool" where
  "json_wf (JArray vs) \<longleftrightarrow> (\<forall>v \<in> set vs. json_wf v)"
| "json_wf (JObject m) \<longleftrightarrow> sorted_wrt (<) (map fst m) \<and> (\<forall>kv \<in> set m. json_wf (snd kv))"
| "json_wf _ \<longleftrightarrow> True"

text \<open>What is printed parses to the same value, and what is parsed is well formed.\<close>

definition serde_ok :: "serde \<Rightarrow> bool" where
  "serde_ok lib \<longleftrightarrow>
     (\<forall>v b. json_wf v \<longrightarrow> to_vec lib v = Some b \<longrightarrow> from_slice lib b = Some v) \<and>
     (\<forall>b v. from_slice lib b = Some v \<longrightarrow> json_wf v)"

lemma serde_okD:
  assumes "serde_ok lib"
  shows "json_wf v \<Longrightarrow> to_vec lib v = Some b \<Longrightarrow> from_slice lib b = Some v"
    and "from_slice lib b = Some v \<Longrightarrow> json_wf v"
  using assms unfolding serde_ok_def by blast+

section \<open>Field policy (\<open>src/redact/field_policy.rs\<close>)\<close>

datatype field_action = Scan | SkipKnownBinary

definition action_for_path :: "bytes list \<Rightarrow> field_action" where
  "action_for_path path =
     (let suffix = str_join ''.'' path
      in if ends_with suffix ''inline_data.data'' \<or> ends_with suffix ''audio.data'' \<or>
            ends_with suffix ''file.bytes'' \<or> ends_with suffix ''image_url''
         then SkipKnownBinary else Scan)"

section \<open>Relations between values\<close>

text \<open>
  Two values of the same shape whose strings are related by \<open>Q\<close>, which also sees the path.
\<close>

fun json_rel :: "(bytes list \<Rightarrow> bytes \<Rightarrow> bytes \<Rightarrow> bool) \<Rightarrow> bytes list \<Rightarrow> json \<Rightarrow> json \<Rightarrow> bool"
and items_rel :: "(bytes list \<Rightarrow> bytes \<Rightarrow> bytes \<Rightarrow> bool) \<Rightarrow> bytes list \<Rightarrow> json list \<Rightarrow> json list \<Rightarrow> bool"
and members_rel :: "(bytes list \<Rightarrow> bytes \<Rightarrow> bytes \<Rightarrow> bool) \<Rightarrow> bytes list \<Rightarrow> json_map \<Rightarrow> json_map \<Rightarrow> bool" where
  "json_rel Q path (JString s) v' \<longleftrightarrow> (\<exists>s'. v' = JString s' \<and> Q path s s')"
| "json_rel Q path (JArray vs) v' \<longleftrightarrow> (\<exists>vs'. v' = JArray vs' \<and> items_rel Q path vs vs')"
| "json_rel Q path (JObject m) v' \<longleftrightarrow> (\<exists>m'. v' = JObject m' \<and> members_rel Q path m m')"
| "json_rel Q path JNull v' \<longleftrightarrow> v' = JNull"
| "json_rel Q path (JBool b) v' \<longleftrightarrow> v' = JBool b"
| "json_rel Q path (JNumber n) v' \<longleftrightarrow> v' = JNumber n"
| "items_rel Q path [] vs' \<longleftrightarrow> vs' = []"
| "items_rel Q path (v # vs) vs' \<longleftrightarrow>
     (\<exists>w ws. vs' = w # ws \<and> json_rel Q path v w \<and> items_rel Q path vs ws)"
| "members_rel Q path [] m' \<longleftrightarrow> m' = []"
| "members_rel Q path ((k, v) # m) m' \<longleftrightarrow>
     (\<exists>w ws. m' = (k, w) # ws \<and> json_rel Q (path @ [k]) v w \<and> members_rel Q path m ws)"

lemma json_rel_mono:
  "json_rel Q path v v' \<Longrightarrow> (\<And>p s s'. Q p s s' \<Longrightarrow> Q' p s s') \<Longrightarrow> json_rel Q' path v v'"
  "items_rel Q path vs vs' \<Longrightarrow> (\<And>p s s'. Q p s s' \<Longrightarrow> Q' p s s') \<Longrightarrow> items_rel Q' path vs vs'"
  "members_rel Q path m m' \<Longrightarrow> (\<And>p s s'. Q p s s' \<Longrightarrow> Q' p s s') \<Longrightarrow> members_rel Q' path m m'"
  by (induction Q path v v' and Q path vs vs' and Q path m m'
      rule: json_rel_items_rel_members_rel.induct) auto

text \<open>Every string of a value satisfies \<open>P\<close> (the keys of objects are not strings of the value).\<close>

fun all_strings :: "(bytes \<Rightarrow> bool) \<Rightarrow> json \<Rightarrow> bool" where
  "all_strings P (JString s) \<longleftrightarrow> P s"
| "all_strings P (JArray vs) \<longleftrightarrow> (\<forall>v \<in> set vs. all_strings P v)"
| "all_strings P (JObject m) \<longleftrightarrow> (\<forall>kv \<in> set m. all_strings P (snd kv))"
| "all_strings P _ \<longleftrightarrow> True"

text \<open>Every object inside a value satisfies \<open>P\<close>.\<close>

fun all_objects :: "(json_map \<Rightarrow> bool) \<Rightarrow> json \<Rightarrow> bool" where
  "all_objects P (JArray vs) \<longleftrightarrow> (\<forall>v \<in> set vs. all_objects P v)"
| "all_objects P (JObject m) \<longleftrightarrow> P m \<and> (\<forall>kv \<in> set m. all_objects P (snd kv))"
| "all_objects P _ \<longleftrightarrow> True"

end
