(* ===== verification/Json_Sanitizer.thy ===== *)
theory Json_Sanitizer
  imports Text_Sanitizer Json_Value
begin

text \<open>
  The value half of \<^verbatim>\<open>src/redact/json_sanitizer.rs\<close>: the walk over a JSON value with the
  cache of whole objects, the placeholder guidance, and \<^verbatim>\<open>sanitize_json\<close>. What the source
  pushes on its report (secret identifiers, pattern identifiers) is part of each result.
\<close>

section \<open>The walk inside a cached object\<close>

type_synonym 'a reported = "'a \<times> u64 list \<times> bytes list"

definition sanitize_json_string ::
  "crypto \<Rightarrow> pattern_set \<Rightarrow> bytes list \<Rightarrow> bytes \<Rightarrow> san_state \<Rightarrow>
   (crebro_error + bytes reported) \<times> san_state" where
  "sanitize_json_string c ps path s st =
     (if action_for_path path = SkipKnownBinary then
        and_then_st (replace_user_secret_directives c s st) (\<lambda>replacement st.
          (Inr (case replacement of
             None \<Rightarrow> (s, [], [])
           | Some d \<Rightarrow> (dt_text d, dt_ids d, [])), st))
      else
        and_then_st (sanitize_decoded_string c ps s st) (\<lambda>(out, ids) st. (Inr (out, ids, []), st)))"

fun sanitize_value_with_cache ::
  "crypto \<Rightarrow> pattern_set \<Rightarrow> bytes list \<Rightarrow> json \<Rightarrow> san_state \<Rightarrow>
   (crebro_error + json reported) \<times> san_state"
and sanitize_items_with_cache ::
  "crypto \<Rightarrow> pattern_set \<Rightarrow> bytes list \<Rightarrow> json list \<Rightarrow> san_state \<Rightarrow>
   (crebro_error + json list reported) \<times> san_state"
and sanitize_members_with_cache ::
  "crypto \<Rightarrow> pattern_set \<Rightarrow> bytes list \<Rightarrow> json_map \<Rightarrow> san_state \<Rightarrow>
   (crebro_error + json_map reported) \<times> san_state" where
  "sanitize_value_with_cache c ps path (JString s) st =
     and_then_st (sanitize_json_string c ps path s st) (\<lambda>(out, ids, pats) st.
       (Inr (JString out, ids, pats), st))"
| "sanitize_value_with_cache c ps path (JArray vs) st =
     and_then_st (sanitize_items_with_cache c ps path vs st) (\<lambda>(vs, ids, pats) st.
       (Inr (JArray vs, ids, pats), st))"
| "sanitize_value_with_cache c ps path (JObject m) st =
     and_then_st (sanitize_members_with_cache c ps path m st) (\<lambda>(m, ids, pats) st.
       (Inr (JObject m, ids, pats), st))"
| "sanitize_value_with_cache c ps path JNull st = (Inr (JNull, [], []), st)"
| "sanitize_value_with_cache c ps path (JBool b) st = (Inr (JBool b, [], []), st)"
| "sanitize_value_with_cache c ps path (JNumber n) st = (Inr (JNumber n, [], []), st)"
| "sanitize_items_with_cache c ps path [] st = (Inr ([], [], []), st)"
| "sanitize_items_with_cache c ps path (v # vs) st =
     and_then_st (sanitize_value_with_cache c ps path v st) (\<lambda>(v, ids, pats) st.
     and_then_st (sanitize_items_with_cache c ps path vs st) (\<lambda>(vs, ids2, pats2) st.
       (Inr (v # vs, ids @ ids2, pats @ pats2), st)))"
| "sanitize_members_with_cache c ps path [] st = (Inr ([], [], []), st)"
| "sanitize_members_with_cache c ps path ((k, v) # m) st =
     and_then_st (sanitize_value_with_cache c ps (path @ [k]) v st) (\<lambda>(v, ids, pats) st.
     and_then_st (sanitize_members_with_cache c ps path m st) (\<lambda>(m, ids2, pats2) st.
       (Inr ((k, v) # m, ids @ ids2, pats @ pats2), st)))"

section \<open>The walk with the cache of objects\<close>

definition is_cacheable_object_path :: "bytes list \<Rightarrow> bool" where
  "is_cacheable_object_path path \<longleftrightarrow>
     path \<noteq> [] \<and>
     last path \<in> {''tools'', ''messages'', ''input'', ''contents'', ''system_instruction''}"

fun value_contains_skip_known_binary_field :: "bytes list \<Rightarrow> json \<Rightarrow> bool"
and items_contain_skip_known_binary_field :: "bytes list \<Rightarrow> json list \<Rightarrow> bool"
and object_contains_skip_known_binary_field :: "bytes list \<Rightarrow> json_map \<Rightarrow> bool" where
  "value_contains_skip_known_binary_field path (JString s) \<longleftrightarrow> action_for_path path = SkipKnownBinary"
| "value_contains_skip_known_binary_field path (JArray vs) \<longleftrightarrow>
     items_contain_skip_known_binary_field path vs"
| "value_contains_skip_known_binary_field path (JObject m) \<longleftrightarrow>
     object_contains_skip_known_binary_field path m"
| "value_contains_skip_known_binary_field path JNull \<longleftrightarrow> False"
| "value_contains_skip_known_binary_field path (JBool b) \<longleftrightarrow> False"
| "value_contains_skip_known_binary_field path (JNumber n) \<longleftrightarrow> False"
| "items_contain_skip_known_binary_field path [] \<longleftrightarrow> False"
| "items_contain_skip_known_binary_field path (v # vs) \<longleftrightarrow>
     value_contains_skip_known_binary_field path v \<or> items_contain_skip_known_binary_field path vs"
| "object_contains_skip_known_binary_field path [] \<longleftrightarrow> False"
| "object_contains_skip_known_binary_field path ((k, v) # m) \<longleftrightarrow>
     value_contains_skip_known_binary_field (path @ [k]) v \<or>
     object_contains_skip_known_binary_field path m"

text \<open>The closure given to \<open>sanitize_object_bytes\<close>.\<close>

definition sanitized_object_of ::
  "crypto \<Rightarrow> serde \<Rightarrow> pattern_set \<Rightarrow> bytes list \<Rightarrow> json_map \<Rightarrow> san_state \<Rightarrow>
   (crebro_error + sanitized_object) \<times> san_state" where
  "sanitized_object_of c lib ps path m st =
     and_then_st (sanitize_value_with_cache c ps path (JObject m) st) (\<lambda>(v, ids, pats) st.
     and_then_st (print_json lib v, st) (\<lambda>out st.
       (Inr \<lparr>so_bytes = out, so_ids = ids, so_patterns = pats\<rparr>, st)))"

definition sanitize_cached_object ::
  "crypto \<Rightarrow> serde \<Rightarrow> pattern_set \<Rightarrow> bytes list \<Rightarrow> json_map \<Rightarrow> san_state \<Rightarrow>
   (crebro_error + json reported) \<times> san_state" where
  "sanitize_cached_object c lib ps path m st =
     and_then_st (print_json lib (JObject m), st) (\<lambda>canonical st.
     and_then_st (sanitize_object_bytes c canonical (sanitized_object_of c lib ps path m) st)
       (\<lambda>sanitized st.
     and_then_st (parse_json lib (so_bytes sanitized), st) (\<lambda>v st.
       (Inr (v, so_ids sanitized, so_patterns sanitized), st))))"

fun sanitize_value ::
  "crypto \<Rightarrow> serde \<Rightarrow> pattern_set \<Rightarrow> bytes list \<Rightarrow> json \<Rightarrow> san_state \<Rightarrow>
   (crebro_error + json reported) \<times> san_state"
and sanitize_items ::
  "crypto \<Rightarrow> serde \<Rightarrow> pattern_set \<Rightarrow> bytes list \<Rightarrow> json list \<Rightarrow> san_state \<Rightarrow>
   (crebro_error + json list reported) \<times> san_state"
and sanitize_members ::
  "crypto \<Rightarrow> serde \<Rightarrow> pattern_set \<Rightarrow> bytes list \<Rightarrow> json_map \<Rightarrow> san_state \<Rightarrow>
   (crebro_error + json_map reported) \<times> san_state" where
  "sanitize_value c lib ps path (JString s) st =
     and_then_st (sanitize_json_string c ps path s st) (\<lambda>(out, ids, pats) st.
       (Inr (JString out, ids, pats), st))"
| "sanitize_value c lib ps path (JArray vs) st =
     and_then_st (sanitize_items c lib ps path vs st) (\<lambda>(vs, ids, pats) st.
       (Inr (JArray vs, ids, pats), st))"
| "sanitize_value c lib ps path (JObject m) st =
     (if is_cacheable_object_path path \<and> \<not> object_contains_skip_known_binary_field path m
      then sanitize_cached_object c lib ps path m st
      else and_then_st (sanitize_members c lib ps path m st) (\<lambda>(m, ids, pats) st.
             (Inr (JObject m, ids, pats), st)))"
| "sanitize_value c lib ps path JNull st = (Inr (JNull, [], []), st)"
| "sanitize_value c lib ps path (JBool b) st = (Inr (JBool b, [], []), st)"
| "sanitize_value c lib ps path (JNumber n) st = (Inr (JNumber n, [], []), st)"
| "sanitize_items c lib ps path [] st = (Inr ([], [], []), st)"
| "sanitize_items c lib ps path (v # vs) st =
     and_then_st (sanitize_value c lib ps path v st) (\<lambda>(v, ids, pats) st.
     and_then_st (sanitize_items c lib ps path vs st) (\<lambda>(vs, ids2, pats2) st.
       (Inr (v # vs, ids @ ids2, pats @ pats2), st)))"
| "sanitize_members c lib ps path [] st = (Inr ([], [], []), st)"
| "sanitize_members c lib ps path ((k, v) # m) st =
     and_then_st (sanitize_value c lib ps (path @ [k]) v st) (\<lambda>(v, ids, pats) st.
     and_then_st (sanitize_members c lib ps path m st) (\<lambda>(m, ids2, pats2) st.
       (Inr ((k, v) # m, ids @ ids2, pats @ pats2), st)))"

section \<open>Guidance\<close>

definition guidance_marker :: bytes where
  "guidance_marker = ''Crebro replaced local secrets with safe placeholders''"

text \<open>\<^verbatim>\<open>prompts/placeholder-guidance.md\<close>\<close>

definition placeholder_guidance :: bytes where
  "placeholder_guidance =
     ''Crebro replaced local secrets with safe placeholders. '' @
     ''When using a redacted secret in commands, code, config, files, or shell snippets, '' @
     ''repeat the exact placeholder string already present in the request. '' @
     ''Do not replace placeholders with examples, environment variable names, or invented values. '' @
     ''The local Crebro client restores placeholders after your response.'' @ [LF]"

fun contains_placeholder_guidance :: "json \<Rightarrow> bool" where
  "contains_placeholder_guidance (JString s) \<longleftrightarrow> str_contains s guidance_marker"
| "contains_placeholder_guidance (JArray vs) \<longleftrightarrow> (\<exists>v \<in> set vs. contains_placeholder_guidance v)"
| "contains_placeholder_guidance (JObject m) \<longleftrightarrow>
     (\<exists>kv \<in> set m. contains_placeholder_guidance (snd kv))"
| "contains_placeholder_guidance _ \<longleftrightarrow> False"

definition prepend_text :: "bytes \<Rightarrow> bytes" where
  "prepend_text s =
     (if s = [] then placeholder_guidance else placeholder_guidance @ [LF, LF] @ s)"

definition guidance_block :: json where
  "guidance_block = JObject [(''text'', JString placeholder_guidance), (''type'', JString ''text'')]"

definition guidance_part :: json where
  "guidance_part = JObject [(''text'', JString placeholder_guidance)]"

text \<open>
  The functions that take \<^verbatim>\<open>&mut Map\<close> return the map when they returned \<^verbatim>\<open>true\<close> and
  \<^const>\<open>None\<close> when they returned \<^verbatim>\<open>false\<close>, leaving the map as it was.
\<close>

definition prepend_system_field :: "json_map \<Rightarrow> json_map option" where
  "prepend_system_field m =
     (case map_of m ''system'' of
        Some (JString s) \<Rightarrow> Some (map_put ''system'' (JString (prepend_text s)) m)
      | Some (JArray blocks) \<Rightarrow> Some (map_put ''system'' (JArray (guidance_block # blocks)) m)
      | Some _ \<Rightarrow> None
      | None \<Rightarrow> Some (map_put ''system'' (JString placeholder_guidance) m))"

definition prepend_system_instruction_field :: "json_map \<Rightarrow> json_map option" where
  "prepend_system_instruction_field m =
     (case map_of m ''system_instruction'' of
        Some (JObject si) \<Rightarrow>
          (let parts = (case map_of si ''parts'' of
                 Some (JArray parts) \<Rightarrow> guidance_part # parts
               | _ \<Rightarrow> [guidance_part])
           in Some (map_put ''system_instruction'' (JObject (map_put ''parts'' (JArray parts) si)) m))
      | Some (JString s) \<Rightarrow> Some (map_put ''system_instruction'' (JString (prepend_text s)) m)
      | Some _ \<Rightarrow> None
      | None \<Rightarrow>
          Some (map_put ''system_instruction'' (JObject [(''parts'', JArray [guidance_part])]) m))"

definition prepend_instructions_field :: "json_map \<Rightarrow> json_map option" where
  "prepend_instructions_field m =
     (case map_of m ''instructions'' of
        Some (JString s) \<Rightarrow> Some (map_put ''instructions'' (JString (prepend_text s)) m)
      | Some _ \<Rightarrow> None
      | None \<Rightarrow> Some (map_put ''instructions'' (JString placeholder_guidance) m))"

definition prepend_message_content :: "json_map \<Rightarrow> json_map option" where
  "prepend_message_content message =
     (case map_of message ''content'' of
        Some (JString s) \<Rightarrow> Some (map_put ''content'' (JString (prepend_text s)) message)
      | Some (JArray blocks) \<Rightarrow> Some (map_put ''content'' (JArray (guidance_block # blocks)) message)
      | _ \<Rightarrow> None)"

text \<open>The first message whose content takes the guidance.\<close>

fun prepend_first_message :: "json list \<Rightarrow> json list option" where
  "prepend_first_message [] = None"
| "prepend_first_message (message # messages) =
     (case (case message of JObject m \<Rightarrow> prepend_message_content m | _ \<Rightarrow> None) of
        Some m \<Rightarrow> Some (JObject m # messages)
      | None \<Rightarrow> map_option ((#) message) (prepend_first_message messages))"

definition prepend_messages_field :: "json_map \<Rightarrow> json_map option" where
  "prepend_messages_field m =
     (case map_of m ''messages'' of
        Some (JArray messages) \<Rightarrow>
          map_option (\<lambda>ms. map_put ''messages'' (JArray ms) m) (prepend_first_message messages)
      | _ \<Rightarrow> None)"

definition inject_placeholder_guidance_into_object :: "json_map \<Rightarrow> json_map option" where
  "inject_placeholder_guidance_into_object m =
     (if has_key ''system'' m \<or> has_key ''anthropic_version'' m then prepend_system_field m
      else if has_key ''system_instruction'' m \<or> has_key ''contents'' m
      then prepend_system_instruction_field m
      else if has_key ''instructions'' m \<or> has_key ''input'' m then prepend_instructions_field m
      else case prepend_messages_field m of
        Some m' \<Rightarrow> Some m'
      | None \<Rightarrow>
          (case map_of m ''prompt'' of
             Some (JString prompt) \<Rightarrow> Some (map_put ''prompt'' (JString (prepend_text prompt)) m)
           | _ \<Rightarrow> None))"

definition inject_placeholder_guidance :: "json \<Rightarrow> json" where
  "inject_placeholder_guidance v =
     (case v of
        JObject m \<Rightarrow>
          (case (case map_of m ''response'' of
                   Some (JObject response) \<Rightarrow> inject_placeholder_guidance_into_object response
                 | _ \<Rightarrow> None) of
             Some response \<Rightarrow> JObject (map_put ''response'' (JObject response) m)
           | None \<Rightarrow>
               (case inject_placeholder_guidance_into_object m of
                  Some m' \<Rightarrow> JObject m'
                | None \<Rightarrow> v))
      | _ \<Rightarrow> v)"

definition inject_placeholder_guidance_if_needed :: "bool \<Rightarrow> u64 list \<Rightarrow> json \<Rightarrow> json" where
  "inject_placeholder_guidance_if_needed enabled ids v =
     (if \<not> enabled \<or> ids = [] \<or> contains_placeholder_guidance v then v
      else inject_placeholder_guidance v)"

section \<open>A whole body\<close>

record sanitizer_report =
  sr_input_bytes :: nat
  sr_output_bytes :: nat
  sr_cache_stats :: cache_stats
  sr_secret_ids :: "u64 list"
  sr_pattern_ids :: "bytes list"

record json_sanitizer =
  js_patterns :: pattern_set
  js_guidance :: bool

definition sanitize_json ::
  "crypto \<Rightarrow> serde \<Rightarrow> json_sanitizer \<Rightarrow> bytes \<Rightarrow> san_state \<Rightarrow>
   (crebro_error + bytes \<times> sanitizer_report) \<times> san_state" where
  "sanitize_json c lib js body st =
     (if registry_is_empty (snd st) \<and> \<not> has_credential_patterns (js_patterns js) \<and>
         \<not> might_contain_directive_bytes body
      then (Inr (body, \<lparr>sr_input_bytes = length body, sr_output_bytes = length body,
              sr_cache_stats = rc_stats (fst st), sr_secret_ids = [], sr_pattern_ids = []\<rparr>), st)
      else
        and_then_st (parse_json lib body, st) (\<lambda>v st.
        and_then_st (sanitize_value c lib (js_patterns js) [] v st) (\<lambda>(v, ids, pats) st.
          let v = inject_placeholder_guidance_if_needed (js_guidance js) ids v
          in and_then_st (print_json lib v, st) (\<lambda>out st.
            (Inr (out, \<lparr>sr_input_bytes = length body, sr_output_bytes = length out,
               sr_cache_stats = rc_stats (fst st), sr_secret_ids = ids, sr_pattern_ids = pats\<rparr>), st)))))"

definition sanitize_text_payload ::
  "crypto \<Rightarrow> json_sanitizer \<Rightarrow> bytes \<Rightarrow> san_state \<Rightarrow>
   (crebro_error + bytes \<times> sanitizer_report) \<times> san_state" where
  "sanitize_text_payload c js tx st =
     and_then_st (sanitize_decoded_string c (js_patterns js) tx st) (\<lambda>(out, ids) st.
       (Inr (out, \<lparr>sr_input_bytes = length tx, sr_output_bytes = length out,
          sr_cache_stats = rc_stats (fst st), sr_secret_ids = ids, sr_pattern_ids = []\<rparr>), st))"

end
