(* ===== verification/Json_Walk.thy ===== *)
theory Json_Walk
  imports Json_Sanitizer
begin

text \<open>
  What the walk of \<^verbatim>\<open>src/redact/json_sanitizer.rs\<close> over a JSON value does: the registry only
  grows, the shape of the value is kept, and every string becomes what a fresh scan gives, with
  the cache of strings and the cache of whole objects of no consequence.
\<close>

section \<open>The registry only grows\<close>

lemma and_then_st_step:
  assumes "registry_step c r (snd (snd x))"
    and "\<And>a st. x = (Inr a, st) \<Longrightarrow> registry_step c (snd st) (snd (snd (f a st)))"
  shows "registry_step c r (snd (snd (and_then_st x f)))"
proof -
  obtain res st where "x = (res, st)"
    by (cases x)
  then show ?thesis
    using assms registry_step_trans by (cases res) auto
qed

lemma on_registry_step: "registry_step c (snd st) (snd (f (snd st))) \<Longrightarrow>
    registry_step c (snd st) (snd (snd (on_registry f st)))"
  by (cases st) simp

lemma sanitize_plain_part_snd [simp]: "snd (snd (sanitize_plain_part c s st)) = snd st"
  by (cases st) (simp add: sanitize_plain_part_registry)

lemma render_parts_step:
  assumes "\<And>t st. registry_step c (snd st) (snd (snd (f t st)))"
  shows "registry_step c (snd st) (snd (snd (render_parts f ps st)))"
proof (induction ps arbitrary: st)
  case (Cons p ps)
  show ?case
    by (cases p) (auto simp: case_prod_beta intro!: and_then_st_step assms Cons.IH)
qed simp

lemmas render_parts_step_pair = render_parts_step [where st = "(rc, r)" for rc r, unfolded snd_conv]

lemma replace_directives_step:
  assumes "\<And>t st. registry_step c (snd st) (snd (snd (f t st)))"
  shows "registry_step c (snd st) (snd (snd (replace_user_secret_directives_with c s f st)))"
  unfolding replace_user_secret_directives_with_def
  by (auto simp: case_prod_beta split: option.split
      intro!: and_then_st_step on_registry_step parse_user_secret_directives_step render_parts_step
        render_parts_step_pair assms)

lemma sanitize_decoded_string_step:
  "registry_step c (snd st) (snd (snd (sanitize_decoded_string c ps s st)))"
  unfolding sanitize_decoded_string_def
  by (auto simp: case_prod_beta split: option.split
      intro!: and_then_st_step replace_directives_step on_registry_step auto_register_step)

lemma sanitize_json_string_step:
  "registry_step c (snd st) (snd (snd (sanitize_json_string c ps path s st)))"
  unfolding sanitize_json_string_def replace_user_secret_directives_def
  by (auto simp: case_prod_beta intro!: and_then_st_step replace_directives_step sanitize_decoded_string_step)

lemma sanitize_with_cache_step:
  "registry_step c (snd st) (snd (snd (sanitize_value_with_cache c ps path v st)))"
  "registry_step c (snd st) (snd (snd (sanitize_items_with_cache c ps path vs st)))"
  "registry_step c (snd st) (snd (snd (sanitize_members_with_cache c ps path m st)))"
  by (induction c ps path v st and c ps path vs st and c ps path m st
      rule: sanitize_value_with_cache_sanitize_items_with_cache_sanitize_members_with_cache.induct)
    (auto simp: case_prod_beta intro!: and_then_st_step sanitize_json_string_step)

lemma sanitize_object_bytes_step:
  assumes "\<And>st. registry_step c (snd st) (snd (snd (f st)))"
  shows "registry_step c (snd st) (snd (snd (sanitize_object_bytes c canonical f st)))"
proof -
  obtain rc r where st: "st = (rc, r)"
    by (cases st)
  have f: "registry_step c r (snd (snd (f (rc, r))))" for rc r
    using assms [of "(rc, r)"] by simp
  show ?thesis
    unfolding st sanitize_object_bytes_def
    by (auto simp: Let_def case_prod_beta split: option.split cache_entry.split
        intro!: and_then_st_step f)
qed

lemma sanitized_object_of_step:
  "registry_step c (snd st) (snd (snd (sanitized_object_of c lib ps path m st)))"
  unfolding sanitized_object_of_def
  by (auto simp: case_prod_beta intro!: and_then_st_step sanitize_with_cache_step)

lemma sanitize_cached_object_step:
  "registry_step c (snd st) (snd (snd (sanitize_cached_object c lib ps path m st)))"
  unfolding sanitize_cached_object_def
  by (auto simp: case_prod_beta intro!: and_then_st_step sanitize_object_bytes_step sanitized_object_of_step)

lemma sanitize_value_step:
  "registry_step c (snd st) (snd (snd (sanitize_value c lib ps path v st)))"
  "registry_step c (snd st) (snd (snd (sanitize_items c lib ps path vs st)))"
  "registry_step c (snd st) (snd (snd (sanitize_members c lib ps path m st)))"
  by (induction c lib ps path v st and c lib ps path vs st and c lib ps path m st
      rule: sanitize_value_sanitize_items_sanitize_members.induct)
    (auto simp: case_prod_beta intro!: and_then_st_step sanitize_json_string_step sanitize_cached_object_step)

lemma sanitize_json_step: "registry_step c (snd st) (snd (snd (sanitize_json c lib js body st)))"
  by (auto simp: sanitize_json_def Let_def case_prod_beta
      intro!: and_then_st_step sanitize_value_step)

lemma sanitize_text_payload_step: "registry_step c (snd st) (snd (snd (sanitize_text_payload c js tx st)))"
  by (auto simp: sanitize_text_payload_def case_prod_beta intro!: and_then_st_step sanitize_decoded_string_step)

section \<open>What a string of a value becomes\<close>

text \<open>
  \<open>string_clean\<close>: the string redacted with a registry that holds all credentials found in it.
  \<open>string_sanitized\<close>: clean for a registry between two others.
\<close>

definition credentials_held :: "crypto \<Rightarrow> pattern_set \<Rightarrow> registry \<Rightarrow> bytes \<Rightarrow> bool" where
  "credentials_held c ps r s \<longleftrightarrow>
     (\<forall>m \<in> set (auto_redact_matches ps s). \<forall>secret.
        str_get s (am_start m) (am_end m) = Some secret \<longrightarrow>
        (\<exists>ident s'. registry_holds c r ident s' \<and> same_digest c (reg_keys r) s' secret))"

definition string_clean :: "crypto \<Rightarrow> pattern_set \<Rightarrow> registry \<Rightarrow> bytes \<Rightarrow> bytes \<Rightarrow> bool" where
  "string_clean c ps r s s' \<longleftrightarrow>
     registry_wf c r \<and> credentials_held c ps r s \<and>
     (\<exists>x. redact_reference c r s = Inr x \<and> ss_bytes x = s')"

definition string_sanitized :: "crypto \<Rightarrow> pattern_set \<Rightarrow> registry \<Rightarrow> registry \<Rightarrow> bytes \<Rightarrow> bytes \<Rightarrow> bool" where
  "string_sanitized c ps r r' s s' \<longleftrightarrow>
     (\<exists>r1. registry_step c r r1 \<and> registry_step c r1 r' \<and> string_clean c ps r1 s s')"

definition walk_rel ::
  "crypto \<Rightarrow> pattern_set \<Rightarrow> registry \<Rightarrow> registry \<Rightarrow> bytes list \<Rightarrow> bytes \<Rightarrow> bytes \<Rightarrow> bool" where
  "walk_rel c ps r r' path s s' \<longleftrightarrow>
     (if action_for_path path = SkipKnownBinary then s' = s else string_sanitized c ps r r' s s')"

lemma walk_rel_step:
  "walk_rel c ps r1 r2 path s s' \<Longrightarrow> registry_step c r0 r1 \<Longrightarrow> registry_step c r2 r3 \<Longrightarrow>
   walk_rel c ps r0 r3 path s s'"
  by (auto simp: walk_rel_def string_sanitized_def intro: registry_step_trans split: if_splits)

lemma redact_reference_same:
  assumes "registry_step c r r'" and "registry_wf c r" and "registry_wf c r'"
    and "reg_entries r' = reg_entries r"
  shows "redact_reference c r' s = redact_reference c r s"
proof -
  have "reg_keys r' = reg_keys r"
    using assms(1) by (simp add: registry_step_def registry_extends_def)
  moreover have "reg_index r' = reg_index r"
    using assms by (simp add: registry_wf_def)
  ultimately show ?thesis
    unfolding redact_reference_def using scan_string_token_cong [OF assms(4)] by simp
qed

lemma credentials_held_step:
  "registry_step c r r' \<Longrightarrow> credentials_held c ps r s \<Longrightarrow> credentials_held c ps r' s"
  unfolding credentials_held_def using registry_holds_step same_digest_step by blast

lemma string_clean_same:
  assumes "registry_step c r r'" and "registry_wf c r'" and "reg_entries r' = reg_entries r"
    and "string_clean c ps r s s'"
  shows "string_clean c ps r' s s'"
  using assms redact_reference_same [OF assms(1) _ assms(2,3)] credentials_held_step [OF assms(1)]
  by (auto simp: string_clean_def)

text \<open>Between registries with the same entries, sanitized means clean for the last.\<close>

lemma string_sanitized_same:
  assumes "string_sanitized c ps r r' s s'" and "reg_entries r' = reg_entries r" and "registry_wf c r'"
  shows "string_clean c ps r' s s'"
proof -
  obtain r1 where r1: "registry_step c r r1" "registry_step c r1 r'" "string_clean c ps r1 s s'"
    using assms(1) unfolding string_sanitized_def by blast
  have "prefix (reg_entries r) (reg_entries r1)" "prefix (reg_entries r1) (reg_entries r')"
    using r1 by (auto simp: registry_step_def registry_extends_def)
  then have "reg_entries r' = reg_entries r1"
    using assms(2) prefix_order.antisym by metis
  then show ?thesis
    using string_clean_same [OF r1(2) assms(3) _ r1(3)] by simp
qed

lemma string_clean_sanitized: "string_clean c ps r s s' \<Longrightarrow> string_sanitized c ps r r s s'"
  unfolding string_sanitized_def by blast

lemma string_sanitized_redacted:
  assumes "string_sanitized c ps r r' s s'"
  shows "string_redacted c r r' s'"
proof -
  obtain r1 x where *: "registry_step c r r1" "registry_step c r1 r'" "registry_wf c r1"
    "redact_reference c r1 s = Inr x" "s' = ss_bytes x"
    using assms unfolding string_sanitized_def string_clean_def by blast
  show ?thesis
    using string_redacted_step [OF redact_reference_redacted [OF *(3,4)] *(1,2)] *(5) by simp
qed

section \<open>Shapes\<close>

lemma json_rel_wf:
  "json_rel Q path v v' \<Longrightarrow> json_wf v \<Longrightarrow> json_wf v'"
  "items_rel Q path vs vs' \<Longrightarrow> (\<forall>v \<in> set vs. json_wf v) \<Longrightarrow> (\<forall>v \<in> set vs'. json_wf v)"
  "members_rel Q path m m' \<Longrightarrow> (\<forall>kv \<in> set m. json_wf (snd kv)) \<Longrightarrow>
     map fst m' = map fst m \<and> (\<forall>kv \<in> set m'. json_wf (snd kv))"
  by (induction Q path v v' and Q path vs vs' and Q path m m'
      rule: json_rel_items_rel_members_rel.induct) (auto; fastforce)+

lemma json_rel_scanned:
  "json_rel Q path v v' \<Longrightarrow> \<not> value_contains_skip_known_binary_field path v \<Longrightarrow>
     (\<And>p s s'. action_for_path p \<noteq> SkipKnownBinary \<Longrightarrow> Q p s s' \<Longrightarrow> Q' p s s') \<Longrightarrow> json_rel Q' path v v'"
  "items_rel Q path vs vs' \<Longrightarrow> \<not> items_contain_skip_known_binary_field path vs \<Longrightarrow>
     (\<And>p s s'. action_for_path p \<noteq> SkipKnownBinary \<Longrightarrow> Q p s s' \<Longrightarrow> Q' p s s') \<Longrightarrow> items_rel Q' path vs vs'"
  "members_rel Q path m m' \<Longrightarrow> \<not> object_contains_skip_known_binary_field path m \<Longrightarrow>
     (\<And>p s s'. action_for_path p \<noteq> SkipKnownBinary \<Longrightarrow> Q p s s' \<Longrightarrow> Q' p s s') \<Longrightarrow> members_rel Q' path m m'"
  by (induction Q path v v' and Q path vs vs' and Q path m m'
      rule: json_rel_items_rel_members_rel.induct) auto

lemma json_rel_any_path:
  "json_rel Q path v v' \<Longrightarrow> (\<And>p q s s'. Q p s s' \<Longrightarrow> Q' q s s') \<Longrightarrow> json_rel Q' p2 v v'"
  "items_rel Q path vs vs' \<Longrightarrow> (\<And>p q s s'. Q p s s' \<Longrightarrow> Q' q s s') \<Longrightarrow> items_rel Q' p2 vs vs'"
  "members_rel Q path m m' \<Longrightarrow> (\<And>p q s s'. Q p s s' \<Longrightarrow> Q' q s s') \<Longrightarrow> members_rel Q' p2 m m'"
  by (induction Q path v v' and Q path vs vs' and Q path m m'
      arbitrary: p2 and p2 and p2 rule: json_rel_items_rel_members_rel.induct) auto


section \<open>Cached objects\<close>

text \<open>
  What is right for a cached object: its canonical form is that of some object, and what is
  stored for it parses to that object with every string clean.
\<close>

definition object_entry :: "crypto \<Rightarrow> serde \<Rightarrow> pattern_set \<Rightarrow> registry \<Rightarrow> bytes \<Rightarrow> bytes \<Rightarrow> bool" where
  "object_entry c lib ps r bs out \<longleftrightarrow>
     (\<exists>m v'. json_wf (JObject m) \<and> to_vec lib (JObject m) = Some bs \<and> from_slice lib out = Some v' \<and>
        (\<forall>path. json_rel (\<lambda>_. string_clean c ps r) path (JObject m) v'))"

lemma object_entry_step:
  assumes "registry_step c r r'" and "registry_wf c r'"
  shows "reg_entries r' = reg_entries r \<Longrightarrow> object_entry c lib ps r a b \<Longrightarrow> object_entry c lib ps r' a b"
  using string_clean_same [OF assms] json_rel_mono(1)
  unfolding object_entry_def by (metis (no_types, lifting))

definition walk_inv :: "crypto \<Rightarrow> serde \<Rightarrow> pattern_set \<Rightarrow> bytes set \<Rightarrow> san_state \<Rightarrow> bool" where
  "walk_inv c lib ps U st \<longleftrightarrow> san_inv c U (object_entry c lib ps (snd st)) st"

text \<open>
  The values for which the caches are of no consequence: every string is without directives,
  one chunk long or in the set \<open>A\<close> of strings which the registry the walk ends with reads apart, and
  not the canonical form of an object; strings and canonical forms are in the set \<open>U\<close> on which
  HMAC is assumed not to collide.
\<close>

definition plain_string :: "serde \<Rightarrow> bytes set \<Rightarrow> bytes set \<Rightarrow> nat \<Rightarrow> bytes \<Rightarrow> bool" where
  "plain_string lib U A chunk s \<longleftrightarrow>
     s \<in> U \<and> (length s \<le> chunk \<or> 0 < chunk \<and> s \<in> A \<and> slices_of s \<subseteq> U) \<and> tag_free s \<and> (\<forall>m. to_vec lib (JObject m) \<noteq> Some s)"

definition object_known :: "serde \<Rightarrow> bytes set \<Rightarrow> json_map \<Rightarrow> bool" where
  "object_known lib U m \<longleftrightarrow> (\<forall>b. to_vec lib (JObject m) = Some b \<longrightarrow> b \<in> U)"

definition value_ok :: "serde \<Rightarrow> bytes set \<Rightarrow> bytes set \<Rightarrow> nat \<Rightarrow> json \<Rightarrow> bool" where
  "value_ok lib U A chunk v \<longleftrightarrow>
     json_wf v \<and> all_strings (plain_string lib U A chunk) v \<and> all_objects (object_known lib U) v"

lemma value_ok_simps [simp]:
  "value_ok lib U A chunk (JString s) \<longleftrightarrow> plain_string lib U A chunk s"
  "value_ok lib U A chunk (JArray vs) \<longleftrightarrow> (\<forall>v \<in> set vs. value_ok lib U A chunk v)"
  "value_ok lib U A chunk (JObject m) \<longleftrightarrow>
     object_known lib U m \<and> sorted_wrt (<) (map fst m) \<and> (\<forall>kv \<in> set m. value_ok lib U A chunk (snd kv))"
  by (auto simp: value_ok_def)

text \<open>What a walk from \<open>st\<close> to \<open>st'\<close> that succeeds leaves behind.\<close>

definition walked :: "crypto \<Rightarrow> serde \<Rightarrow> pattern_set \<Rightarrow> bytes set \<Rightarrow> san_state \<Rightarrow> san_state \<Rightarrow> bool" where
  "walked c lib ps U st st' \<longleftrightarrow>
     registry_step c (snd st) (snd st') \<and> walk_inv c lib ps U st' \<and> rc_chunk (fst st') = rc_chunk (fst st)"

lemma walked_refl: "walk_inv c lib ps U st \<Longrightarrow> walked c lib ps U st st"
  by (simp add: walked_def)

lemma walked_trans: "walked c lib ps U st1 st2 \<Longrightarrow> walked c lib ps U st2 st3 \<Longrightarrow> walked c lib ps U st1 st3"
  by (auto simp: walked_def intro: registry_step_trans)

lemma step_fits: "registry_step c r r' \<Longrightarrow> registry_fits r' \<Longrightarrow> registry_fits r"
  by (auto simp: registry_step_def intro: registry_extends_fits)

lemma auto_register_held:
  assumes "auto_register_pattern_matches c ps s r = (Inr b, r')" and "registry_inv c r" and "registry_inv c r'"
  shows "credentials_held c ps r' s"
proof -
  have "registry_step c r r'"
    using auto_register_step [of c r ps s] assms(1) by simp
  then have "reg_keys r' = reg_keys r"
    by (simp add: registry_step_def registry_extends_def)
  then show ?thesis
    using register_matches_holds [OF _ assms(2,3)] assms(1)
    unfolding credentials_held_def auto_register_pattern_matches_def by fastforce
qed

lemma sanitize_json_string_walk:
  assumes inv: "walk_inv c lib ps U st" and s: "plain_string lib U A (rc_chunk (fst st)) s"
    and run: "sanitize_json_string c ps path s st = (Inr (out, ids, pats), st')"
    and fits: "registry_calm c A (snd st')"
  shows "walked c lib ps U st st' \<and> walk_rel c ps (snd st) (snd st') path s out"
proof -
  obtain rc r where st: "st = (rc, r)" by (cases st)
  obtain rc' r' where st': "st' = (rc', r')" by (cases st')
  have tags: "tag_free s"
    using s by (simp add: plain_string_def)
  show ?thesis
  proof (cases "action_for_path path")
    case SkipKnownBinary
    then show ?thesis
      using run inv directives_none [OF tags] walked_refl
      by (auto simp: st st' sanitize_json_string_def replace_user_secret_directives_def walk_rel_def)
  next
    case Scan
    have run': "sanitize_decoded_string c ps s (rc, r) = (Inr (out, ids), (rc', r'))"
      using run Scan by (auto simp: st st' sanitize_json_string_def and_then_st_eq_Inr)
    have step: "registry_step c r r'"
      using sanitize_decoded_string_step [of c "(rc, r)" ps s] run' by simp
    have i: "registry_inv c r" and i': "registry_inv c r'"
      using inv step_inv [OF step _ calm_fits [OF fits [unfolded st' snd_conv]]] by (auto simp: st walk_inv_def san_inv_def)
    have small: "scannable c r' U (object_entry c lib ps r') (rc_chunk rc) s"
      using s fits i' by (auto simp: st st' scannable_def chunks_agree_def registry_calm_def registry_inv_def
          plain_string_def object_entry_def)
    have R: "r' = snd (auto_register_pattern_matches c ps s r) \<and> registry_step c r r' \<and>
        redact_reference c r' s = Inr \<lparr>ss_bytes = out, ss_ids = ids\<rparr> \<and>
        san_inv c U (object_entry c lib ps r') (rc', r') \<and>
        rc_chunk rc' = rc_chunk rc \<and> (\<exists>b. auto_register_pattern_matches c ps s r = (Inr b, r'))"
    proof (rule sanitize_decoded_string_plain [OF _ small tags run'])
      show "san_inv c U (object_entry c lib ps r) (rc, r)"
        using inv by (simp add: st walk_inv_def)
      show "registry_fits r'"
        using fits by (simp add: st' registry_calm_def)
      show "object_entry c lib ps r' a b" if "reg_entries r' = reg_entries r" "object_entry c lib ps r a b" for a b
        using object_entry_step [OF step _ that] i' by (simp add: registry_inv_def)
    qed
    then have "credentials_held c ps r' s"
      using auto_register_held [OF _ i i'] by blast
    then have "string_sanitized c ps r r' s out"
      unfolding string_sanitized_def string_clean_def using R i'
      by (intro exI [of _ r']) (auto simp: registry_inv_def)
    then show ?thesis
      using R [THEN conjunct2] Scan by (simp add: st st' walked_def walk_inv_def walk_rel_def)
  qed
qed


text \<open>The steps of a sequence: the relation of the first and of the rest hold for the whole.\<close>

lemma walk_json_rel_step:
  assumes "registry_step c r0 r1" and "registry_step c r2 r3"
  shows "json_rel (walk_rel c ps r1 r2) path v v' \<Longrightarrow> json_rel (walk_rel c ps r0 r3) path v v'"
    "items_rel (walk_rel c ps r1 r2) path vs vs' \<Longrightarrow> items_rel (walk_rel c ps r0 r3) path vs vs'"
    "members_rel (walk_rel c ps r1 r2) path m m' \<Longrightarrow> members_rel (walk_rel c ps r0 r3) path m m'"
  by (erule json_rel_mono, erule walk_rel_step [OF _ assms])+

lemma walk_seq:
  assumes "walked c lib ps U st st1 \<and> json_rel (walk_rel c ps (snd st) (snd st1)) p v w"
    and "walked c lib ps U st1 st2"
  shows "walked c lib ps U st st2 \<and> json_rel (walk_rel c ps (snd st) (snd st2)) p v w"
    "items_rel (walk_rel c ps (snd st1) (snd st2)) path vs ws \<Longrightarrow> items_rel (walk_rel c ps (snd st) (snd st2)) path vs ws"
    "members_rel (walk_rel c ps (snd st1) (snd st2)) path m ms \<Longrightarrow> members_rel (walk_rel c ps (snd st) (snd st2)) path m ms"
proof -
  have s: "registry_step c (snd st) (snd st1)" "registry_step c (snd st1) (snd st2)"
    using assms by (simp_all add: walked_def)
  show "walked c lib ps U st st2 \<and> json_rel (walk_rel c ps (snd st) (snd st2)) p v w"
    using assms walked_trans walk_json_rel_step(1) [OF registry_step_refl s(2)] by blast
  show "items_rel (walk_rel c ps (snd st1) (snd st2)) path vs ws \<Longrightarrow> items_rel (walk_rel c ps (snd st) (snd st2)) path vs ws"
    by (rule walk_json_rel_step(2) [OF s(1) registry_step_refl])
  show "members_rel (walk_rel c ps (snd st1) (snd st2)) path m ms \<Longrightarrow> members_rel (walk_rel c ps (snd st) (snd st2)) path m ms"
    by (rule walk_json_rel_step(3) [OF s(1) registry_step_refl])
qed

lemma walked_chunk: "walked c lib ps U st st' \<Longrightarrow> rc_chunk (fst st') = rc_chunk (fst st)"
  by (simp add: walked_def)

lemma walked_inv: "walked c lib ps U st st' \<Longrightarrow> walk_inv c lib ps U st'"
  by (simp add: walked_def)

lemma sanitize_with_cache_walk:
  "sanitize_value_with_cache c ps path v st = (Inr (v', ids, pats), st') \<Longrightarrow>
     walk_inv c lib ps U st \<Longrightarrow> value_ok lib U A (rc_chunk (fst st)) v \<Longrightarrow> registry_calm c A (snd st') \<Longrightarrow>
     walked c lib ps U st st' \<and> json_rel (walk_rel c ps (snd st) (snd st')) path v v'"
  "sanitize_items_with_cache c ps path vs st = (Inr (vs', ids, pats), st') \<Longrightarrow>
     walk_inv c lib ps U st \<Longrightarrow> (\<forall>v \<in> set vs. value_ok lib U A (rc_chunk (fst st)) v) \<Longrightarrow>
     registry_calm c A (snd st') \<Longrightarrow>
     walked c lib ps U st st' \<and> items_rel (walk_rel c ps (snd st) (snd st')) path vs vs'"
  "sanitize_members_with_cache c ps path m st = (Inr (m', ids, pats), st') \<Longrightarrow>
     walk_inv c lib ps U st \<Longrightarrow> (\<forall>kv \<in> set m. value_ok lib U A (rc_chunk (fst st)) (snd kv)) \<Longrightarrow>
     registry_calm c A (snd st') \<Longrightarrow>
     walked c lib ps U st st' \<and> members_rel (walk_rel c ps (snd st) (snd st')) path m m'"
proof (induction c ps path v st and c ps path vs st and c ps path m st
    arbitrary: v' ids pats st' and vs' ids pats st' and m' ids pats st'
    rule: sanitize_value_with_cache_sanitize_items_with_cache_sanitize_members_with_cache.induct)
  case (1 c ps path s st)
  obtain out where r: "sanitize_json_string c ps path s st = (Inr (out, ids, pats), st')" and "v' = JString out"
    using 1(1) by (auto simp: and_then_st_eq_Inr)
  then show ?case
    using sanitize_json_string_walk [OF 1(2) _ r 1(4)] 1(3) by simp
next
  case (2 c ps path vs st)
  obtain vs' where r: "sanitize_items_with_cache c ps path vs st = (Inr (vs', ids, pats), st')" and "v' = JArray vs'"
    using 2(2) by (auto simp: and_then_st_eq_Inr)
  then show ?case
    using 2(1) [OF r 2(3) _ 2(5)] 2(4) by simp
next
  case (3 c ps path m st)
  obtain m' where r: "sanitize_members_with_cache c ps path m st = (Inr (m', ids, pats), st')" and "v' = JObject m'"
    using 3(2) by (auto simp: and_then_st_eq_Inr)
  then show ?case
    using 3(1) [OF r 3(3) _ 3(5)] 3(4) by simp
next
  case (8 c ps path v vs st)
  obtain w ids1 pats1 st1 ws ids2 pats2 where
    r1: "sanitize_value_with_cache c ps path v st = (Inr (w, ids1, pats1), st1)" and
    r2: "sanitize_items_with_cache c ps path vs st1 = (Inr (ws, ids2, pats2), st')" and vs': "vs' = w # ws"
    using 8(3) by (auto simp: and_then_st_eq_Inr)
  have "registry_calm c A (snd st1)"
    using step_calm [OF _ 8(6)] sanitize_with_cache_step(2) [of c st1 ps path vs] r2 by simp
  with 8(1) [OF r1 8(4)] 8(5) have
    A: "walked c lib ps U st st1 \<and> json_rel (walk_rel c ps (snd st) (snd st1)) path v w"
    by simp
  then have B: "walked c lib ps U st1 st' \<and> items_rel (walk_rel c ps (snd st1) (snd st')) path vs ws"
    using 8(2) [OF r1 refl refl r2] 8(5,6) A walked_chunk walked_inv by (metis list.set_intros(2))
  show ?case
    using walk_seq [OF A] B vs' by simp
next
  case (10 c ps path k v m st)
  obtain w ids1 pats1 st1 ws ids2 pats2 where
    r1: "sanitize_value_with_cache c ps (path @ [k]) v st = (Inr (w, ids1, pats1), st1)" and
    r2: "sanitize_members_with_cache c ps path m st1 = (Inr (ws, ids2, pats2), st')" and m': "m' = (k, w) # ws"
    using 10(3) by (auto simp: and_then_st_eq_Inr)
  have "registry_calm c A (snd st1)"
    using step_calm [OF _ 10(6)] sanitize_with_cache_step(3) [of c st1 ps path m] r2 by simp
  with 10(1) [OF r1 10(4)] 10(5) have
    A: "walked c lib ps U st st1 \<and> json_rel (walk_rel c ps (snd st) (snd st1)) (path @ [k]) v w"
    by simp
  then have B: "walked c lib ps U st1 st' \<and> members_rel (walk_rel c ps (snd st1) (snd st')) path m ws"
    using 10(2) [OF r1 refl refl r2] 10(5,6) A walked_chunk walked_inv by (metis list.set_intros(2))
  show ?case
    using walk_seq [OF A] B m' by simp
qed (auto intro: walked_refl)



section \<open>A whole object, through the cache\<close>

lemma walk_inv_lookup:
  assumes "walk_inv c lib ps U (rc, r)" and g: "cached_entry key (sync_registry_version r rc) = (found, rc1)"
  shows "walk_inv c lib ps U (count_miss rc1, r)" "walk_inv c lib ps U (count_hit rc1, r)"
    "rc_chunk rc1 = rc_chunk rc"
    "registry_cache_key c r bs = Inr key \<Longrightarrow> bs \<in> U \<Longrightarrow> found = Some e \<Longrightarrow>
       entry_right c r (object_entry c lib ps r) bs e"
proof -
  let ?Ob = "object_entry c lib ps r"
  have inv: "registry_inv c r" "caching c (reg_keys r) U" "cache_coherent c r U ?Ob rc"
    using assms by (simp_all add: walk_inv_def san_inv_def)
  have held: "lru.all_held (entry_coherent c r U ?Ob) (sync_registry_version r rc)"
    by (rule all_held_sync [OF inv(3)])
  have "lru.all_held (entry_coherent c r U ?Ob) rc1"
    using lru.all_held_get [OF held g] .
  then show "walk_inv c lib ps U (count_miss rc1, r)" "walk_inv c lib ps U (count_hit rc1, r)"
    using cached_entry_keeps [OF g] inv
    by (auto simp: walk_inv_def san_inv_def intro!: cache_coherentI)
  show "rc_chunk rc1 = rc_chunk rc"
    using cached_entry_keeps [OF g] by simp
  show "entry_right c r ?Ob bs e" if "registry_cache_key c r bs = Inr key" "bs \<in> U" "found = Some e"
    using lru.found_ok [OF held] g entry_coherent_right [OF _ that(1) _ that(2)] that(3) inv(2)
    unfolding caching_def by blast
qed

lemma cache_coherent_insert:
  assumes "cache_coherent c r U Ob rc" and "entry_coherent c r U Ob key e"
  shows "cache_coherent c r U Ob (cache_insert key e rc)"
  using assms lru.all_held_put [where P = "entry_coherent c r U Ob" and s = rc, OF _ assms(2)]
  by (auto simp: cache_coherent_def)

lemma walk_inv_flush:
  "walk_inv c lib ps U (rc, r) \<Longrightarrow> walk_inv c lib ps U (cache_flush (reg_version r) rc, r)"
  by (simp add: walk_inv_def san_inv_def cache_coherent_flush)

lemma same_version_entries:
  assumes "registry_step c r r'" and "registry_wf c r" and "registry_wf c r'"
    and "reg_version r' = reg_version r"
  shows "reg_entries r' = reg_entries r"
proof -
  have "length (reg_entries r') = length (reg_entries r)"
    using wf_version assms(2-4) by metis
  moreover have "prefix (reg_entries r) (reg_entries r')"
    using assms(1) by (simp add: registry_step_def registry_extends_def)
  ultimately show ?thesis
    by (auto simp: prefix_def)
qed

text \<open>What is stored for an object is right for it.\<close>

lemma walk_inv_insert:
  assumes inv: "walk_inv c lib ps U (rc, r')" and step: "registry_step c r r'"
    and wf: "registry_wf c r" "registry_wf c r'" and version: "reg_version r' = reg_version r"
    and m: "json_wf (JObject m)" "to_vec lib (JObject m) = Some canonical" "canonical \<in> U"
    and skip: "\<not> object_contains_skip_known_binary_field path m"
    and rel: "json_rel (walk_rel c ps r r') path (JObject m) w" and out: "from_slice lib out = Some w"
    and key: "registry_cache_key c r canonical = Inr key"
  shows "walk_inv c lib ps U (cache_insert key (Sanitized out ids pats) rc, r')"
proof -
  have es: "reg_entries r' = reg_entries r"
    by (rule same_version_entries [OF step wf version])
  have "json_rel (\<lambda>_. string_clean c ps r') path (JObject m) w"
    by (rule json_rel_scanned(1) [OF rel])
      (use skip string_sanitized_same [OF _ es wf(2)] in \<open>auto simp: walk_rel_def\<close>)
  then have "json_rel (\<lambda>_. string_clean c ps r') p (JObject m) w" for p
    by (rule json_rel_any_path(1))
  then have "object_entry c lib ps r' canonical out"
    unfolding object_entry_def using m out by blast
  moreover have "registry_cache_key c r' canonical = Inr key"
    using key version step by (simp add: registry_cache_key_def registry_step_def registry_extends_def)
  ultimately have "entry_coherent c r' U (object_entry c lib ps r') key (Sanitized out ids pats)"
    using m(3) by (auto simp: entry_coherent_def entry_right_def)
  then show ?thesis
    using inv by (simp add: walk_inv_def san_inv_def cache_coherent_insert)
qed

lemma sanitized_object_of_walk:
  assumes run: "sanitized_object_of c lib ps path m st = (Inr so, st')"
    and "serde_ok lib" and "walk_inv c lib ps U st" and "value_ok lib U A (rc_chunk (fst st)) (JObject m)"
    and "registry_calm c A (snd st')"
  shows "\<exists>w. from_slice lib (so_bytes so) = Some w \<and> walked c lib ps U st st' \<and>
    json_rel (walk_rel c ps (snd st) (snd st')) path (JObject m) w"
proof -
  obtain w ids pats where w: "sanitize_value_with_cache c ps path (JObject m) st = (Inr (w, ids, pats), st')"
    and out: "to_vec lib w = Some (so_bytes so)"
    using run unfolding sanitized_object_of_def print_json_def
    by (cases "sanitize_value_with_cache c ps path (JObject m) st";
        cases "fst (sanitize_value_with_cache c ps path (JObject m) st)")
      (auto simp: and_then_st_eq_Inr simp del: sanitize_value_with_cache.simps)
  have R: "walked c lib ps U st st' \<and> json_rel (walk_rel c ps (snd st) (snd st')) path (JObject m) w"
    by (rule sanitize_with_cache_walk(1) [OF w assms(3-5)])
  then have "json_wf w"
    using json_rel_wf(1) assms(4) unfolding value_ok_def by blast
  then have "from_slice lib (so_bytes so) = Some w"
    using serde_okD(1) [OF assms(2)] out by blast
  then show ?thesis
    using R by blast
qed

text \<open>The two ways in which \<open>sanitize_object_bytes\<close> succeeds.\<close>

lemma sanitize_object_bytes_InrE:
  assumes "sanitize_object_bytes c canonical f (rc, r) = (Inr so, st')"
  obtains (hit) key rc1 where "registry_cache_key c r canonical = Inr key"
      "cached_entry key (sync_registry_version r rc) =
         (Some (Sanitized (so_bytes so) (so_ids so) (so_patterns so)), rc1)" "st' = (count_hit rc1, r)"
  | (miss) key found rc1 rc2 r2 where "registry_cache_key c r canonical = Inr key"
      "cached_entry key (sync_registry_version r rc) = (found, rc1)"
      "f (count_miss rc1, r) = (Inr so, (rc2, r2))"
      "st' = (if reg_version r2 \<noteq> reg_version r then (cache_flush (reg_version r2) rc2, r2)
         else (cache_insert key (Sanitized (so_bytes so) (so_ids so) (so_patterns so)) rc2, r2))"
proof -
  obtain key where key: "registry_cache_key c r canonical = Inr key"
    using assms by (auto simp: sanitize_object_bytes_def Let_def and_then_st_eq_Inr)
  obtain found rc1 where g: "cached_entry key (sync_registry_version r rc) = (found, rc1)"
    by fastforce
  show thesis
  proof (cases "\<exists>out ids pats. found = Some (Sanitized out ids pats)")
    case True
    then show thesis
      using assms key g hit by (auto simp: sanitize_object_bytes_def Let_def)
  next
    case False
    then have "and_then_st (f (count_miss rc1, r)) (\<lambda>sanitized (rc2, r2).
        if reg_version r2 \<noteq> reg_version r
        then (Inr sanitized, (cache_flush (reg_version r2) rc2, r2))
        else (Inr sanitized,
          (cache_insert key (Sanitized (so_bytes sanitized) (so_ids sanitized)
             (so_patterns sanitized)) rc2, r2))) = (Inr so, st')"
      using assms key g
      by (auto simp: sanitize_object_bytes_def Let_def split: option.splits cache_entry.splits)
    then show thesis
      using miss [OF key g] by (auto simp: and_then_st_eq_Inr split: if_splits)
  qed
qed

lemma sanitize_cached_object_walk:
  assumes run: "sanitize_cached_object c lib ps path m st = (Inr (v', ids, pats), st')"
    and lib: "serde_ok lib" and inv: "walk_inv c lib ps U st"
    and ok: "value_ok lib U A (rc_chunk (fst st)) (JObject m)" and fits: "registry_calm c A (snd st')"
    and skip: "\<not> object_contains_skip_known_binary_field path m"
  shows "walked c lib ps U st st' \<and> json_rel (walk_rel c ps (snd st) (snd st')) path (JObject m) v'"
proof -
  obtain rc r where st: "st = (rc, r)" by (cases st)
  obtain canonical so where can: "to_vec lib (JObject m) = Some canonical"
    and obj: "sanitize_object_bytes c canonical (sanitized_object_of c lib ps path m) (rc, r) = (Inr so, st')"
    and v': "from_slice lib (so_bytes so) = Some v'"
    using run by (auto simp: st sanitize_cached_object_def print_json_def parse_json_def and_then_st_eq_Inr)
  have m: "json_wf (JObject m)" "canonical \<in> U"
    using ok can by (auto simp: value_ok_def object_known_def)
  from obj show ?thesis
  proof (cases rule: sanitize_object_bytes_InrE)
    case (hit key rc1)
    note L = walk_inv_lookup [OF inv [unfolded st] hit(2)]
    obtain m0 where m0: "json_wf (JObject m0)" "to_vec lib (JObject m0) = Some canonical"
      "\<forall>path. json_rel (\<lambda>_. string_clean c ps r) path (JObject m0) v'"
      using L(4) [OF hit(1) m(2) refl] v' by (auto simp: entry_right_def object_entry_def)
    then have "m0 = m"
      using serde_okD(1) [OF lib _ can, of] m(1) serde_okD(1) [OF lib m0(1,2)] by simp
    then have "json_rel (walk_rel c ps r r) path (JObject m) v'"
      using json_rel_scanned(1) [of "\<lambda>_. string_clean c ps r" path "JObject m" v' "walk_rel c ps r r"]
        m0(3) skip string_clean_sanitized by (simp add: walk_rel_def del: json_rel.simps)
    then show ?thesis
      using L(2,3) by (simp add: st hit(3) walked_def del: json_rel.simps)
  next
    case (miss key found rc1 rc2 r2)
    note L = walk_inv_lookup [OF inv [unfolded st] miss(2)]
    have fits2: "registry_calm c A r2"
      using fits miss(4) by (auto split: if_splits)
    obtain w where w: "from_slice lib (so_bytes so) = Some w" and
      W: "walked c lib ps U (count_miss rc1, r) (rc2, r2)" and
      rel: "json_rel (walk_rel c ps r r2) path (JObject m) w"
      using sanitized_object_of_walk [OF miss(3) lib L(1)] ok fits2 L(3) by (auto simp: st simp del: json_rel.simps)
    have wf: "registry_wf c r" "registry_wf c r2"
      using inv W by (auto simp: st walked_def walk_inv_def san_inv_def registry_inv_def)
    have "walk_inv c lib ps U st' \<and> rc_chunk (fst st') = rc_chunk rc2 \<and> snd st' = r2"
    proof (cases "reg_version r2 = reg_version r")
      case True
      then show ?thesis
        using walk_inv_insert [OF _ _ wf True m(1) can m(2) skip rel w miss(1)] W miss(4)
        by (simp add: walked_def)
    next
      case False
      then show ?thesis
        using walk_inv_flush [of c lib ps U rc2 r2] W miss(4)
        by (simp add: walked_def) (simp add: cache_flush_def)
    qed
    then show ?thesis
      using W rel w v' L(3) by (simp add: st walked_def del: json_rel.simps)
  qed
qed

section \<open>The whole walk\<close>

lemma sanitize_value_walk:
  "sanitize_value c lib ps path v st = (Inr (v', ids, pats), st') \<Longrightarrow> serde_ok lib \<Longrightarrow>
     walk_inv c lib ps U st \<Longrightarrow> value_ok lib U A (rc_chunk (fst st)) v \<Longrightarrow> registry_calm c A (snd st') \<Longrightarrow>
     walked c lib ps U st st' \<and> json_rel (walk_rel c ps (snd st) (snd st')) path v v'"
  "sanitize_items c lib ps path vs st = (Inr (vs', ids, pats), st') \<Longrightarrow> serde_ok lib \<Longrightarrow>
     walk_inv c lib ps U st \<Longrightarrow> (\<forall>v \<in> set vs. value_ok lib U A (rc_chunk (fst st)) v) \<Longrightarrow>
     registry_calm c A (snd st') \<Longrightarrow>
     walked c lib ps U st st' \<and> items_rel (walk_rel c ps (snd st) (snd st')) path vs vs'"
  "sanitize_members c lib ps path m st = (Inr (m', ids, pats), st') \<Longrightarrow> serde_ok lib \<Longrightarrow>
     walk_inv c lib ps U st \<Longrightarrow> (\<forall>kv \<in> set m. value_ok lib U A (rc_chunk (fst st)) (snd kv)) \<Longrightarrow>
     registry_calm c A (snd st') \<Longrightarrow>
     walked c lib ps U st st' \<and> members_rel (walk_rel c ps (snd st) (snd st')) path m m'"
proof (induction c lib ps path v st and c lib ps path vs st and c lib ps path m st
    arbitrary: v' ids pats st' and vs' ids pats st' and m' ids pats st'
    rule: sanitize_value_sanitize_items_sanitize_members.induct)
  case (1 c lib ps path s st)
  obtain out where r: "sanitize_json_string c ps path s st = (Inr (out, ids, pats), st')" and "v' = JString out"
    using 1(1) by (auto simp: and_then_st_eq_Inr)
  then show ?case
    using sanitize_json_string_walk [OF 1(3) _ r 1(5)] 1(4) by simp
next
  case (2 c lib ps path vs st)
  obtain vs' where r: "sanitize_items c lib ps path vs st = (Inr (vs', ids, pats), st')" and "v' = JArray vs'"
    using 2(2) by (auto simp: and_then_st_eq_Inr)
  then show ?case
    using 2(1) [OF r 2(3,4) _ 2(6)] 2(5) by simp
next
  case (3 c lib ps path m st)
  show ?case
  proof (cases "is_cacheable_object_path path \<and> \<not> object_contains_skip_known_binary_field path m")
    case True
    then have "sanitize_cached_object c lib ps path m st = (Inr (v', ids, pats), st')"
      using 3(2) by simp
    from sanitize_cached_object_walk [OF this 3(3-6)] show ?thesis
      using True by blast
  next
    case False
    then obtain m' where r: "sanitize_members c lib ps path m st = (Inr (m', ids, pats), st')" and "v' = JObject m'"
      using 3(2) by (auto simp: and_then_st_eq_Inr)
    then show ?thesis
      using 3(1) [OF False r 3(3,4) _ 3(6)] 3(5) by simp
  qed
next
  case (8 c lib ps path v vs st)
  obtain w ids1 pats1 st1 ws ids2 pats2 where
    r1: "sanitize_value c lib ps path v st = (Inr (w, ids1, pats1), st1)" and
    r2: "sanitize_items c lib ps path vs st1 = (Inr (ws, ids2, pats2), st')" and vs': "vs' = w # ws"
    using 8(3) by (auto simp: and_then_st_eq_Inr)
  have "registry_calm c A (snd st1)"
    using step_calm [OF _ 8(7)] sanitize_value_step(2) [of c st1 lib ps path vs] r2 by simp
  with 8(1) [OF r1 8(4,5)] 8(6) have
    A: "walked c lib ps U st st1 \<and> json_rel (walk_rel c ps (snd st) (snd st1)) path v w"
    by simp
  then have B: "walked c lib ps U st1 st' \<and> items_rel (walk_rel c ps (snd st1) (snd st')) path vs ws"
    using 8(2) [OF r1 refl refl r2 8(4)] 8(6,7) walked_chunk walked_inv by (metis list.set_intros(2))
  show ?case
    using walk_seq [OF A] B vs' by simp
next
  case (10 c lib ps path k v m st)
  obtain w ids1 pats1 st1 ws ids2 pats2 where
    r1: "sanitize_value c lib ps (path @ [k]) v st = (Inr (w, ids1, pats1), st1)" and
    r2: "sanitize_members c lib ps path m st1 = (Inr (ws, ids2, pats2), st')" and m': "m' = (k, w) # ws"
    using 10(3) by (auto simp: and_then_st_eq_Inr)
  have "registry_calm c A (snd st1)"
    using step_calm [OF _ 10(7)] sanitize_value_step(3) [of c st1 lib ps path m] r2 by simp
  with 10(1) [OF r1 10(4,5)] 10(6) have
    A: "walked c lib ps U st st1 \<and> json_rel (walk_rel c ps (snd st) (snd st1)) (path @ [k]) v w"
    by simp
  then have B: "walked c lib ps U st1 st' \<and> members_rel (walk_rel c ps (snd st1) (snd st')) path m ws"
    using 10(2) [OF r1 refl refl r2 10(4)] 10(6,7) walked_chunk walked_inv by (metis list.set_intros(2))
  show ?case
    using walk_seq [OF A] B m' by simp
qed (auto intro: walked_refl)

section \<open>The guidance is injected once\<close>

lemma put_in_set: "(k, v) \<in> set (map_put k v m)"
  by (induction k v m rule: map_put.induct) auto

lemma contains_put:
  "contains_placeholder_guidance v \<Longrightarrow> contains_placeholder_guidance (JObject (map_put k v m))"
  using put_in_set by force

lemma contains_single: "contains_placeholder_guidance (JObject [(k, v)]) = contains_placeholder_guidance v"
  by simp

lemma guidance_contains: "str_contains (placeholder_guidance @ s) guidance_marker"
  unfolding str_contains_iff occurs_in_split placeholder_guidance_def guidance_marker_def
  by (rule exI [of _ "[]"]) auto

lemma guidance_strings [simp]:
  "str_contains placeholder_guidance guidance_marker" "str_contains (prepend_text s) guidance_marker"
  "contains_placeholder_guidance guidance_block" "contains_placeholder_guidance guidance_part"
  using guidance_contains [of "[]"] guidance_contains [of "[LF, LF] @ s"]
  by (simp_all add: prepend_text_def guidance_block_def guidance_part_def)

lemma prepend_first_contains:
  "prepend_first_message ms = Some ms' \<Longrightarrow> \<exists>v \<in> set ms'. contains_placeholder_guidance v"
  by (induction ms arbitrary: ms')
    (auto simp: prepend_message_content_def contains_put simp del: contains_placeholder_guidance.simps(3)
      split: option.splits json.splits)

lemma inject_into_object_contains:
  assumes "inject_placeholder_guidance_into_object m = Some m'"
  shows "contains_placeholder_guidance (JObject m')"
proof -
  have 1: "contains_placeholder_guidance (JObject m')" if "prepend_system_field m = Some m'" for m'
    using that by (auto simp: prepend_system_field_def contains_put
        simp del: contains_placeholder_guidance.simps(3) split: option.splits json.splits)
  have 2: "contains_placeholder_guidance (JObject m')" if "prepend_system_instruction_field m = Some m'" for m'
    using that by (auto simp: prepend_system_instruction_field_def Let_def contains_put contains_single
        simp del: contains_placeholder_guidance.simps(3) split: option.splits json.splits)
  have 3: "contains_placeholder_guidance (JObject m')" if "prepend_instructions_field m = Some m'" for m'
    using that by (auto simp: prepend_instructions_field_def contains_put
        simp del: contains_placeholder_guidance.simps(3) split: option.splits json.splits)
  have 4: "contains_placeholder_guidance (JObject m')" if "prepend_messages_field m = Some m'" for m'
    using that by (auto simp: prepend_messages_field_def contains_put prepend_first_contains
        simp del: contains_placeholder_guidance.simps(3) split: option.splits json.splits)
  show ?thesis
    using assms 1 2 3 4
    by (auto simp: inject_placeholder_guidance_into_object_def contains_put
        simp del: contains_placeholder_guidance.simps(3) split: if_splits option.splits json.splits)
qed

lemma inject_contains:
  "inject_placeholder_guidance v = v \<or> contains_placeholder_guidance (inject_placeholder_guidance v)"
  by (auto simp: inject_placeholder_guidance_def contains_put inject_into_object_contains
      simp del: contains_placeholder_guidance.simps(3) split: json.split option.split)

lemma inject_if_needed_once:
  "inject_placeholder_guidance_if_needed g ids2 (inject_placeholder_guidance_if_needed g ids v) =
     (if ids = [] then inject_placeholder_guidance_if_needed g ids2 v
      else inject_placeholder_guidance_if_needed g ids v)"
  using inject_contains [of v] by (auto simp: inject_placeholder_guidance_if_needed_def)

end
