(* ===== verification/Json_Stream.thy ===== *)
theory Json_Stream
  imports Json_Walk
begin

text \<open>
  The streaming half of \<^verbatim>\<open>src/redact/json_sanitizer.rs\<close>: \<^verbatim>\<open>StreamingJsonState\<close>, which
  follows the structure of a JSON text byte by byte, and the sanitizer that rewrites the string
  values on the way. The stack and the output are lists; the top of the stack is the head.
\<close>

section \<open>The state\<close>

datatype streaming_container = SObject (expecting_key: bool) (pending_key: "bytes option") | SArray

record streaming_frame =
  sf_container :: streaming_container
  sf_path_len_on_exit :: nat

datatype string_context = Object_key | Value_at "bytes list"

record stream_state =
  st_in_string :: bool
  st_escape_next :: bool
  st_raw :: bytes
  st_input_bytes :: nat
  st_output_bytes :: nat
  st_secret_ids :: "u64 list"
  st_pattern_ids :: "bytes list"
  st_path :: "bytes list"
  st_stack :: "streaming_frame list"

definition streaming_state :: stream_state where
  "streaming_state =
     \<lparr>st_in_string = False, st_escape_next = False, st_raw = [], st_input_bytes = 0,
      st_output_bytes = 0, st_secret_ids = [], st_pattern_ids = [], st_path = [], st_stack = []\<rparr>"

text \<open>\<^verbatim>\<open>take_pending_object_key\<close>: the key, and the state without it.\<close>

definition take_pending_object_key :: "stream_state \<Rightarrow> bytes option \<times> stream_state" where
  "take_pending_object_key ss =
     (case st_stack ss of
        fr # frs \<Rightarrow>
          (case sf_container fr of
             SObject ek pk \<Rightarrow> (pk, ss\<lparr>st_stack := fr\<lparr>sf_container := SObject ek None\<rparr> # frs\<rparr>)
           | SArray \<Rightarrow> (None, ss))
      | [] \<Rightarrow> (None, ss))"

definition top_object_expects_key :: "stream_state \<Rightarrow> bool" where
  "top_object_expects_key ss \<longleftrightarrow>
     (case st_stack ss of
        fr # _ \<Rightarrow> (case sf_container fr of SObject ek _ \<Rightarrow> ek | SArray \<Rightarrow> False)
      | [] \<Rightarrow> False)"

definition begin_container :: "streaming_container \<Rightarrow> stream_state \<Rightarrow> stream_state" where
  "begin_container container ss =
     (let path_len_on_exit = length (st_path ss);
          (key, ss) = take_pending_object_key ss;
          ss = (case key of Some k \<Rightarrow> ss\<lparr>st_path := st_path ss @ [k]\<rparr> | None \<Rightarrow> ss)
      in ss\<lparr>st_stack := \<lparr>sf_container = container, sf_path_len_on_exit = path_len_on_exit\<rparr> # st_stack ss\<rparr>)"

definition end_container :: "stream_state \<Rightarrow> stream_state" where
  "end_container ss =
     (case st_stack ss of
        fr # frs \<Rightarrow> ss\<lparr>st_stack := frs, st_path := take (sf_path_len_on_exit fr) (st_path ss)\<rparr>
      | [] \<Rightarrow> ss)"

definition observe_structural_byte :: "char \<Rightarrow> stream_state \<Rightarrow> stream_state" where
  "observe_structural_byte b ss =
     (if b = CHR ''{'' then begin_container (SObject True None) ss
      else if b = CHR ''['' then begin_container SArray ss
      else if b = CHR ''}'' \<or> b = CHR '']'' then end_container ss
      else if b = CHR '','' then
        (case st_stack ss of
           fr # frs \<Rightarrow>
             (case sf_container fr of
                SObject _ _ \<Rightarrow> ss\<lparr>st_stack := fr\<lparr>sf_container := SObject True None\<rparr> # frs\<rparr>
              | SArray \<Rightarrow> ss)
         | [] \<Rightarrow> ss)
      else ss)"

definition quote_raw_json_string :: "bytes \<Rightarrow> bytes" where
  "quote_raw_json_string raw = CHR 0x22 # raw @ [CHR 0x22]"

definition decode_raw_json_string :: "serde \<Rightarrow> bytes \<Rightarrow> crebro_error + bytes" where
  "decode_raw_json_string lib raw = parse_json_string lib (quote_raw_json_string raw)"

definition complete_string_context ::
  "serde \<Rightarrow> bytes \<Rightarrow> stream_state \<Rightarrow> crebro_error + string_context \<times> stream_state" where
  "complete_string_context lib raw ss =
     (if top_object_expects_key ss then
        and_then (decode_raw_json_string lib raw) (\<lambda>key.
          Inr (Object_key,
            (case st_stack ss of
               fr # frs \<Rightarrow>
                 (case sf_container fr of
                    SObject _ _ \<Rightarrow> ss\<lparr>st_stack := fr\<lparr>sf_container := SObject False (Some key)\<rparr> # frs\<rparr>
                  | SArray \<Rightarrow> ss)
             | [] \<Rightarrow> ss)))
      else
        (let (key, ss') = take_pending_object_key ss
         in Inr (Value_at (st_path ss @ (case key of Some k \<Rightarrow> [k] | None \<Rightarrow> [])), ss')))"

section \<open>The sanitizer\<close>

text \<open>The identifiers that the source pushes on its report are part of the result.\<close>

definition sanitize_decoded_json_string ::
  "crypto \<Rightarrow> serde \<Rightarrow> pattern_set \<Rightarrow> bytes \<Rightarrow> san_state \<Rightarrow>
   (crebro_error + bytes reported) \<times> san_state" where
  "sanitize_decoded_json_string c lib ps decoded st =
     and_then_st (sanitize_decoded_string c ps decoded st) (\<lambda>(out, ids) st.
     and_then_st (print_json lib (JString out), st) (\<lambda>out st. (Inr (out, ids, []), st)))"

definition sanitize_raw_json_string ::
  "crypto \<Rightarrow> serde \<Rightarrow> pattern_set \<Rightarrow> bytes \<Rightarrow> san_state \<Rightarrow>
   (crebro_error + bytes reported) \<times> san_state" where
  "sanitize_raw_json_string c lib ps raw st =
     and_then_st (decode_raw_json_string lib raw, st) (\<lambda>decoded st.
       sanitize_decoded_json_string c lib ps decoded st)"

definition sanitize_streaming_raw_json_string ::
  "crypto \<Rightarrow> serde \<Rightarrow> pattern_set \<Rightarrow> bytes \<Rightarrow> bytes list \<Rightarrow> san_state \<Rightarrow>
   (crebro_error + bytes reported) \<times> san_state" where
  "sanitize_streaming_raw_json_string c lib ps raw path st =
     (if action_for_path path = SkipKnownBinary then
        (if \<not> might_contain_directive_bytes raw then (Inr (quote_raw_json_string raw, [], []), st)
         else
           and_then_st (decode_raw_json_string lib raw, st) (\<lambda>decoded st.
           and_then_st (replace_user_secret_directives c decoded st) (\<lambda>replacement st.
             case replacement of
               Some sanitized \<Rightarrow>
                 and_then_st (print_json lib (JString (dt_text sanitized)), st) (\<lambda>out st.
                   (Inr (out, dt_ids sanitized, []), st))
             | None \<Rightarrow> (Inr (quote_raw_json_string raw, [], []), st))))
      else if registry_is_empty (snd st) \<and> \<not> has_credential_patterns ps \<and>
              \<not> might_contain_directive_bytes raw
      then (Inr (quote_raw_json_string raw, [], []), st)
      else sanitize_raw_json_string c lib ps raw st)"

text \<open>One byte: what is written, and the state after it.\<close>

definition push_stream_byte ::
  "crypto \<Rightarrow> serde \<Rightarrow> pattern_set \<Rightarrow> char \<Rightarrow> stream_state \<Rightarrow> san_state \<Rightarrow>
   (crebro_error + bytes \<times> stream_state) \<times> san_state" where
  "push_stream_byte c lib ps b ss st =
     (if st_in_string ss then
        (if st_escape_next ss then
           (Inr ([], ss\<lparr>st_raw := st_raw ss @ [b], st_escape_next := False\<rparr>), st)
         else if b = CHR 0x5C then
           (Inr ([], ss\<lparr>st_raw := st_raw ss @ [b], st_escape_next := True\<rparr>), st)
         else if b = CHR 0x22 then
           (let raw = st_raw ss
            in and_then_st (complete_string_context lib raw (ss\<lparr>st_raw := []\<rparr>), st) (\<lambda>(context, ss) st.
                 case context of
                   Object_key \<Rightarrow> (Inr (quote_raw_json_string raw, ss\<lparr>st_in_string := False\<rparr>), st)
                 | Value_at path \<Rightarrow>
                     and_then_st (sanitize_streaming_raw_json_string c lib ps raw path st)
                       (\<lambda>(out, ids, pats) st.
                         (Inr (out, ss\<lparr>st_secret_ids := st_secret_ids ss @ ids,
                            st_pattern_ids := st_pattern_ids ss @ pats, st_in_string := False\<rparr>), st))))
         else (Inr ([], ss\<lparr>st_raw := st_raw ss @ [b]\<rparr>), st))
      else if b = CHR 0x22 then
        (Inr ([], ss\<lparr>st_in_string := True, st_escape_next := False, st_raw := []\<rparr>), st)
      else (Inr ([b], observe_structural_byte b ss), st))"

fun push_stream_bytes ::
  "crypto \<Rightarrow> serde \<Rightarrow> pattern_set \<Rightarrow> bytes \<Rightarrow> stream_state \<Rightarrow> san_state \<Rightarrow>
   (crebro_error + bytes \<times> stream_state) \<times> san_state" where
  "push_stream_bytes c lib ps [] ss st = (Inr ([], ss), st)"
| "push_stream_bytes c lib ps (b # bs) ss st =
     and_then_st (push_stream_byte c lib ps b ss st) (\<lambda>(out, ss) st.
     and_then_st (push_stream_bytes c lib ps bs ss st) (\<lambda>(out2, ss) st.
       (Inr (out @ out2, ss), st)))"

definition push_stream_chunk ::
  "crypto \<Rightarrow> serde \<Rightarrow> json_sanitizer \<Rightarrow> bytes \<Rightarrow> stream_state \<Rightarrow> san_state \<Rightarrow>
   (crebro_error + bytes \<times> stream_state) \<times> san_state" where
  "push_stream_chunk c lib js chunk ss st =
     and_then_st
       (push_stream_bytes c lib (js_patterns js) chunk
          (ss\<lparr>st_input_bytes := st_input_bytes ss + length chunk\<rparr>) st)
       (\<lambda>(out, ss) st. (Inr (out, ss\<lparr>st_output_bytes := st_output_bytes ss + length out\<rparr>), st))"

definition finish_stream :: "stream_state \<Rightarrow> san_state \<Rightarrow> crebro_error + bytes \<times> sanitizer_report" where
  "finish_stream ss st =
     (if st_in_string ss
      then Inl (Redaction ''unterminated JSON string in streaming sanitizer'')
      else Inr ([], \<lparr>sr_input_bytes = st_input_bytes ss, sr_output_bytes = st_output_bytes ss,
        sr_cache_stats = rc_stats (fst st), sr_secret_ids = st_secret_ids ss,
        sr_pattern_ids = st_pattern_ids ss\<rparr>))"

section \<open>Chunks do not matter\<close>

lemma push_stream_bytes_append:
  "push_stream_bytes c lib ps (as @ bs) ss st =
     and_then_st (push_stream_bytes c lib ps as ss st) (\<lambda>(out, ss) st.
     and_then_st (push_stream_bytes c lib ps bs ss st) (\<lambda>(out2, ss) st.
       (Inr (out @ out2, ss), st)))"
proof (induction as arbitrary: ss st)
  case Nil
  show ?case
    by (cases "push_stream_bytes c lib ps bs ss st"; cases "fst (push_stream_bytes c lib ps bs ss st)") auto
next
  case (Cons b as)
  show ?case
    by (auto simp: Cons.IH and_then_st_assoc case_prod_beta append_assoc intro!: and_then_st_cong)
qed

definition with_counts :: "nat \<Rightarrow> nat \<Rightarrow> stream_state \<Rightarrow> stream_state" where
  "with_counts n k ss = ss\<lparr>st_input_bytes := n, st_output_bytes := k\<rparr>"


lemma with_counts_simps [simp]:
  "st_in_string (with_counts n k ss) = st_in_string ss" "st_escape_next (with_counts n k ss) = st_escape_next ss"
  "st_raw (with_counts n k ss) = st_raw ss" "st_path (with_counts n k ss) = st_path ss"
  "st_stack (with_counts n k ss) = st_stack ss" "st_secret_ids (with_counts n k ss) = st_secret_ids ss"
  "st_pattern_ids (with_counts n k ss) = st_pattern_ids ss"
  "st_input_bytes (with_counts n k ss) = n" "st_output_bytes (with_counts n k ss) = k"
  "with_counts n k (with_counts n' k' ss) = with_counts n k ss"
  "with_counts n k (st_raw_update f ss) = st_raw_update f (with_counts n k ss)"
  "with_counts n k (st_path_update p ss) = st_path_update p (with_counts n k ss)"
  "with_counts n k (st_stack_update g ss) = st_stack_update g (with_counts n k ss)"
  "with_counts n k (st_in_string_update b ss) = st_in_string_update b (with_counts n k ss)"
  "with_counts n k (st_escape_next_update b ss) = st_escape_next_update b (with_counts n k ss)"
  "with_counts n k (st_secret_ids_update i ss) = st_secret_ids_update i (with_counts n k ss)"
  "with_counts n k (st_pattern_ids_update j ss) = st_pattern_ids_update j (with_counts n k ss)"
  by (simp_all add: with_counts_def)

lemma take_pending_counts:
  "take_pending_object_key (with_counts n k ss) =
     (fst (take_pending_object_key ss), with_counts n k (snd (take_pending_object_key ss)))"
  by (auto simp: take_pending_object_key_def split: list.split streaming_container.split)

lemma observe_counts [simp]:
  "observe_structural_byte b (with_counts n k ss) = with_counts n k (observe_structural_byte b ss)"
  by (auto simp: observe_structural_byte_def begin_container_def end_container_def Let_def case_prod_beta
      take_pending_counts split: list.split streaming_container.split option.split)

lemma push_stream_byte_counts:
  "push_stream_byte c lib ps b (with_counts n k ss) st =
     and_then_st (push_stream_byte c lib ps b ss st) (\<lambda>(out, ss) st. (Inr (out, with_counts n k ss), st))"
proof -
  have completed: "complete_string_context lib raw (with_counts n k ss) =
      and_then (complete_string_context lib raw ss) (\<lambda>(ctx, ss). Inr (ctx, with_counts n k ss))" for raw ss
    by (cases "decode_raw_json_string lib raw")
      (auto simp: complete_string_context_def top_object_expects_key_def take_pending_counts case_prod_beta
        split: list.split streaming_container.split)
  have raw: "with_counts n k ss\<lparr>st_raw := []\<rparr> = with_counts n k (ss\<lparr>st_raw := []\<rparr>)"
    by simp
  show ?thesis
    by (cases "complete_string_context lib (st_raw ss) (ss\<lparr>st_raw := []\<rparr>)")
      (auto simp: push_stream_byte_def Let_def raw completed and_then_st_assoc case_prod_beta
        simp del: with_counts_simps(11) split: string_context.split intro!: and_then_st_cong)
qed

lemma push_stream_bytes_counts:
  "push_stream_bytes c lib ps bs (with_counts n k ss) st =
     and_then_st (push_stream_bytes c lib ps bs ss st) (\<lambda>(out, ss) st. (Inr (out, with_counts n k ss), st))"
proof (induction bs arbitrary: ss st)
  case (Cons b bs)
  show ?case
    by (auto simp: push_stream_byte_counts Cons.IH and_then_st_assoc case_prod_beta intro!: and_then_st_cong)
qed simp

text \<open>The body as the chunks arrive, and the concatenation of what is written.\<close>

fun push_stream_chunks ::
  "crypto \<Rightarrow> serde \<Rightarrow> json_sanitizer \<Rightarrow> bytes list \<Rightarrow> stream_state \<Rightarrow> san_state \<Rightarrow>
   (crebro_error + bytes \<times> stream_state) \<times> san_state" where
  "push_stream_chunks c lib js [] ss st = (Inr ([], ss), st)"
| "push_stream_chunks c lib js (chunk # chunks) ss st =
     and_then_st (push_stream_chunk c lib js chunk ss st) (\<lambda>(out, ss) st.
     and_then_st (push_stream_chunks c lib js chunks ss st) (\<lambda>(out2, ss) st.
       (Inr (out @ out2, ss), st)))"


lemma with_own_counts [simp]: "with_counts (st_input_bytes ss) (st_output_bytes ss) ss = ss"
  by (simp add: with_counts_def)

lemma push_stream_bytes_keeps_counts:
  assumes "push_stream_bytes c lib ps bs ss st = (Inr (out, ss'), st')"
  shows "st_input_bytes ss' = st_input_bytes ss" "st_output_bytes ss' = st_output_bytes ss"
  using push_stream_bytes_counts [of c lib ps bs "st_input_bytes ss" "st_output_bytes ss" ss st] assms
  by (auto dest: arg_cong [where f = st_input_bytes] arg_cong [where f = st_output_bytes])

lemma push_stream_chunk_eq:
  "push_stream_chunk c lib js chunk ss st =
     and_then_st (push_stream_bytes c lib (js_patterns js) chunk ss st) (\<lambda>(out, ss') st.
       (Inr (out, with_counts (st_input_bytes ss + length chunk) (st_output_bytes ss + length out) ss'), st))"
proof -
  have "ss\<lparr>st_input_bytes := st_input_bytes ss + length chunk\<rparr> =
      with_counts (st_input_bytes ss + length chunk) (st_output_bytes ss) ss"
    by (simp add: with_counts_def)
  then show ?thesis
    unfolding push_stream_chunk_def \<open>ss\<lparr>st_input_bytes := st_input_bytes ss + length chunk\<rparr> = _\<close>
      push_stream_bytes_counts and_then_st_assoc
    by (auto simp: case_prod_beta with_counts_def push_stream_bytes_keeps_counts intro!: and_then_st_cong)
qed

lemma push_stream_chunks_eq:
  "push_stream_chunks c lib js chunks ss st =
     and_then_st (push_stream_bytes c lib (js_patterns js) (concat chunks) ss st) (\<lambda>(out, ss') st.
       (Inr (out, with_counts (st_input_bytes ss + length (concat chunks))
          (st_output_bytes ss + length out) ss'), st))"
proof (induction chunks arbitrary: ss st)
  case (Cons chunk chunks)
  show ?case
    by (auto simp: push_stream_chunk_eq Cons.IH push_stream_bytes_append push_stream_bytes_counts
        and_then_st_assoc case_prod_beta add.assoc intro!: and_then_st_cong)
qed simp

lemma push_stream_chunks_concat:
  "push_stream_chunks c lib js chunks ss st = push_stream_chunk c lib js (concat chunks) ss st"
  by (simp add: push_stream_chunks_eq push_stream_chunk_eq)

section \<open>The stream follows the value\<close>

text \<open>
  A JSON text as a tree that keeps the bytes of its strings and literals, and the reference:
  the walk over the tree that knows the path of every string from the tree itself.
\<close>

datatype raw_json =
    Raw_literal bytes
  | Raw_string bytes
  | Raw_array "raw_json list"
  | Raw_object "(bytes \<times> raw_json) list"

fun raw_text :: "raw_json \<Rightarrow> bytes" and raw_items_text :: "raw_json list \<Rightarrow> bytes"
and raw_members_text :: "(bytes \<times> raw_json) list \<Rightarrow> bytes" where
  "raw_text (Raw_literal t) = t"
| "raw_text (Raw_string s) = quote_raw_json_string s"
| "raw_text (Raw_array vs) = CHR ''['' # raw_items_text vs @ [CHR '']'']"
| "raw_text (Raw_object m) = CHR ''{'' # raw_members_text m @ [CHR ''}'']"
| "raw_items_text [] = []"
| "raw_items_text (v # vs) = raw_text v @ (if vs = [] then [] else CHR '','' # raw_items_text vs)"
| "raw_members_text [] = []"
| "raw_members_text ((k, v) # m) =
     quote_raw_json_string k @ CHR '':'' # raw_text v @
     (if m = [] then [] else CHR '','' # raw_members_text m)"

text \<open>The quotes of a string's bytes are escaped; a literal has none of the bytes that matter.\<close>

fun raw_ok :: "bool \<Rightarrow> bytes \<Rightarrow> bool" where
  "raw_ok escaped [] \<longleftrightarrow> \<not> escaped"
| "raw_ok escaped (b # bs) \<longleftrightarrow>
     (if escaped then raw_ok False bs
      else if b = CHR 0x5C then raw_ok True bs
      else b \<noteq> CHR 0x22 \<and> raw_ok False bs)"

definition literal_ok :: "bytes \<Rightarrow> bool" where
  "literal_ok t \<longleftrightarrow>
     set t \<inter> {CHR 0x22, CHR ''{'', CHR ''}'', CHR ''['', CHR '']'', CHR '',''} = {}"

fun raw_wf :: "raw_json \<Rightarrow> bool" where
  "raw_wf (Raw_literal t) \<longleftrightarrow> literal_ok t"
| "raw_wf (Raw_string s) \<longleftrightarrow> raw_ok False s"
| "raw_wf (Raw_array vs) \<longleftrightarrow> (\<forall>v \<in> set vs. raw_wf v)"
| "raw_wf (Raw_object m) \<longleftrightarrow> (\<forall>kv \<in> set m. raw_ok False (fst kv) \<and> raw_wf (snd kv))"

fun walk_raw ::
  "crypto \<Rightarrow> serde \<Rightarrow> pattern_set \<Rightarrow> bytes list \<Rightarrow> raw_json \<Rightarrow> san_state \<Rightarrow>
   (crebro_error + bytes reported) \<times> san_state"
and walk_raw_items ::
  "crypto \<Rightarrow> serde \<Rightarrow> pattern_set \<Rightarrow> bytes list \<Rightarrow> raw_json list \<Rightarrow> san_state \<Rightarrow>
   (crebro_error + bytes reported) \<times> san_state"
and walk_raw_members ::
  "crypto \<Rightarrow> serde \<Rightarrow> pattern_set \<Rightarrow> bytes list \<Rightarrow> (bytes \<times> raw_json) list \<Rightarrow> san_state \<Rightarrow>
   (crebro_error + bytes reported) \<times> san_state" where
  "walk_raw c lib ps path (Raw_literal t) st = (Inr (t, [], []), st)"
| "walk_raw c lib ps path (Raw_string s) st = sanitize_streaming_raw_json_string c lib ps s path st"
| "walk_raw c lib ps path (Raw_array vs) st =
     and_then_st (walk_raw_items c lib ps path vs st) (\<lambda>(out, ids, pats) st.
       (Inr (CHR ''['' # out @ [CHR '']''], ids, pats), st))"
| "walk_raw c lib ps path (Raw_object m) st =
     and_then_st (walk_raw_members c lib ps path m st) (\<lambda>(out, ids, pats) st.
       (Inr (CHR ''{'' # out @ [CHR ''}''], ids, pats), st))"
| "walk_raw_items c lib ps path [] st = (Inr ([], [], []), st)"
| "walk_raw_items c lib ps path (v # vs) st =
     and_then_st (walk_raw c lib ps path v st) (\<lambda>(out, ids, pats) st.
       if vs = [] then (Inr (out, ids, pats), st)
       else and_then_st (walk_raw_items c lib ps path vs st) (\<lambda>(out2, ids2, pats2) st.
         (Inr (out @ CHR '','' # out2, ids @ ids2, pats @ pats2), st)))"
| "walk_raw_members c lib ps path [] st = (Inr ([], [], []), st)"
| "walk_raw_members c lib ps path ((k, v) # m) st =
     and_then_st (decode_raw_json_string lib k, st) (\<lambda>key st.
     and_then_st (walk_raw c lib ps (path @ [key]) v st) (\<lambda>(out, ids, pats) st.
       if m = [] then (Inr (quote_raw_json_string k @ CHR '':'' # out, ids, pats), st)
       else and_then_st (walk_raw_members c lib ps path m st) (\<lambda>(out2, ids2, pats2) st.
         (Inr (quote_raw_json_string k @ CHR '':'' # out @ CHR '','' # out2, ids @ ids2, pats @ pats2), st))))"

text \<open>Between two values: outside of strings, and not where a key is expected.\<close>

definition outside :: "stream_state \<Rightarrow> bool" where
  "outside ss \<longleftrightarrow> \<not> st_in_string ss \<and> \<not> st_escape_next ss \<and> st_raw ss = []"

definition reported_to :: "u64 list \<Rightarrow> bytes list \<Rightarrow> stream_state \<Rightarrow> stream_state" where
  "reported_to ids pats ss =
     ss\<lparr>st_secret_ids := st_secret_ids ss @ ids, st_pattern_ids := st_pattern_ids ss @ pats\<rparr>"

definition value_path :: "stream_state \<Rightarrow> bytes list" where
  "value_path ss = st_path ss @ (case fst (take_pending_object_key ss) of Some k \<Rightarrow> [k] | None \<Rightarrow> [])"

definition after_value :: "raw_json \<Rightarrow> stream_state \<Rightarrow> stream_state" where
  "after_value v ss =
     (case v of Raw_literal _ \<Rightarrow> ss | _ \<Rightarrow> snd (take_pending_object_key ss))"

lemma push_raw:
  assumes "st_in_string ss"
  shows "raw_ok (st_escape_next ss) raw \<Longrightarrow>
    push_stream_bytes c lib ps raw ss st =
      (Inr ([], ss\<lparr>st_raw := st_raw ss @ raw, st_escape_next := False\<rparr>), st)"
  using assms
proof (induction raw arbitrary: ss)
  case (Cons b raw)
  then show ?case
    by (auto simp: push_stream_byte_def split: if_splits)
qed simp

lemma complete_in_string:
  "complete_string_context lib raw (ss\<lparr>st_in_string := b\<rparr>) =
     and_then (complete_string_context lib raw ss) (\<lambda>(ctx, ss). Inr (ctx, ss\<lparr>st_in_string := b\<rparr>))"
  by (cases "decode_raw_json_string lib raw")
    (auto simp: complete_string_context_def top_object_expects_key_def take_pending_object_key_def
      case_prod_beta split: list.split streaming_container.split)

lemma complete_keeps_in_string:
  "complete_string_context lib raw ss = Inr (ctx, ss') \<Longrightarrow> outside ss' = outside ss \<and>
     st_in_string ss' = st_in_string ss"
  by (cases "st_stack ss"; cases "sf_container (hd (st_stack ss))"; cases "decode_raw_json_string lib raw")
    (auto simp: complete_string_context_def take_pending_object_key_def outside_def
      top_object_expects_key_def split: if_splits)

text \<open>A whole string token, quotes included.\<close>

lemma push_string:
  assumes "outside ss" and "raw_ok False raw"
  shows "push_stream_bytes c lib ps (quote_raw_json_string raw) ss st =
    and_then_st (complete_string_context lib raw ss, st) (\<lambda>(ctx, ss) st.
      case ctx of
        Object_key \<Rightarrow> (Inr (quote_raw_json_string raw, ss), st)
      | Value_at path \<Rightarrow>
          and_then_st (sanitize_streaming_raw_json_string c lib ps raw path st)
            (\<lambda>(out, ids, pats) st. (Inr (out, reported_to ids pats ss), st)))"
proof -
  let ?ss = "ss\<lparr>st_in_string := True\<rparr>"
  have start: "push_stream_byte c lib ps (CHR 0x22) ss st = (Inr ([], ?ss), st)"
    using assms(1) by (simp add: push_stream_byte_def outside_def)
  have raw: "push_stream_bytes c lib ps raw ?ss st = (Inr ([], ?ss\<lparr>st_raw := raw\<rparr>), st)"
    using push_raw [of ?ss raw c lib ps st] assms by (simp add: outside_def)
  have same: "?ss\<lparr>st_raw := []\<rparr> = ?ss"
    using assms(1) by (simp add: outside_def)
  have ended: "push_stream_byte c lib ps (CHR 0x22) (?ss\<lparr>st_raw := raw\<rparr>) st =
      and_then_st (complete_string_context lib raw ss, st) (\<lambda>(ctx, ss) st.
        case ctx of
          Object_key \<Rightarrow> (Inr (quote_raw_json_string raw, ss), st)
        | Value_at path \<Rightarrow>
            and_then_st (sanitize_streaming_raw_json_string c lib ps raw path st)
              (\<lambda>(out, ids, pats) st. (Inr (out, reported_to ids pats ss), st)))"
    using assms(1)
    by (cases "complete_string_context lib raw ss")
      (auto simp: push_stream_byte_def outside_def Let_def reported_to_def case_prod_beta same complete_in_string
        complete_keeps_in_string split: string_context.split intro!: and_then_st_cong)
  show ?thesis
    unfolding quote_raw_json_string_def [of raw] push_stream_bytes.simps(2) start push_stream_bytes_append
    by (simp add: raw ended [unfolded quote_raw_json_string_def])
qed


lemma push_literal:
  assumes "literal_ok t" and "\<not> st_in_string ss"
  shows "push_stream_bytes c lib ps t ss st = (Inr (t, ss), st)"
  using assms
  by (induction t) (auto simp: push_stream_byte_def observe_structural_byte_def literal_ok_def)

lemma outside_simps [simp]:
  "outside (ss\<lparr>st_stack := frs\<rparr>) = outside ss" "outside (ss\<lparr>st_path := p\<rparr>) = outside ss"
  "outside (reported_to ids pats ss) = outside ss" "outside (snd (take_pending_object_key ss)) = outside ss"
  by (auto simp: outside_def reported_to_def take_pending_object_key_def split: list.split streaming_container.split)

lemma reported_to_simps [simp]:
  "st_stack (reported_to ids pats ss) = st_stack ss" "st_path (reported_to ids pats ss) = st_path ss"
  "reported_to ids2 pats2 (reported_to ids pats ss) = reported_to (ids @ ids2) (pats @ pats2) ss"
  "reported_to [] [] ss = ss"
  "end_container (reported_to ids pats ss) = reported_to ids pats (end_container ss)"
  by (auto simp: reported_to_def end_container_def split: list.split)

lemma outside_begin [simp]: "outside (begin_container k ss) = outside ss"
  by (auto simp: begin_container_def Let_def case_prod_beta split: option.split)

lemma begin_container_simps [simp]:
  "st_path (begin_container k ss) = value_path ss"
  "st_stack (begin_container k ss) =
     \<lparr>sf_container = k, sf_path_len_on_exit = length (st_path ss)\<rparr> # st_stack (snd (take_pending_object_key ss))"
  by (auto simp: begin_container_def value_path_def Let_def case_prod_beta take_pending_object_key_def
      split: option.split list.split streaming_container.split)

lemma begin_end:
  "end_container (begin_container k ss) = snd (take_pending_object_key ss)"
  by (auto simp: end_container_def begin_container_def Let_def case_prod_beta take_pending_object_key_def
      split: option.split list.split streaming_container.split)

lemma push_structural:
  "\<not> st_in_string ss \<Longrightarrow> b \<noteq> CHR 0x22 \<Longrightarrow>
   push_stream_bytes c lib ps (b # bs) ss st =
     and_then_st (push_stream_bytes c lib ps bs (observe_structural_byte b ss) st)
       (\<lambda>(out, ss) st. (Inr (b # out, ss), st))"
  by (simp add: push_stream_byte_def)

text \<open>Where the top of the stack is an array, and where it is an object.\<close>

lemma in_array:
  assumes "st_stack ss = fr # frs" and "sf_container fr = SArray"
  shows "take_pending_object_key ss = (None, ss)" "\<not> top_object_expects_key ss"
    "value_path ss = st_path ss" "after_value v ss = ss"
    "observe_structural_byte (CHR '','') ss = ss"
  using assms
  by (auto simp: take_pending_object_key_def top_object_expects_key_def value_path_def after_value_def
      observe_structural_byte_def split: raw_json.split)

lemma at_key:
  assumes "st_stack ss = fr # frs" and "sf_container fr = SObject True None"
  shows "complete_string_context lib k ss =
    and_then (decode_raw_json_string lib k) (\<lambda>key.
      Inr (Object_key, ss\<lparr>st_stack := fr\<lparr>sf_container := SObject False (Some key)\<rparr> # frs\<rparr>))"
  using assms by (simp add: complete_string_context_def top_object_expects_key_def)

lemma at_member:
  assumes "st_stack ss = fr # frs" and "sf_container fr = SObject True None"
  defines "ss1 \<equiv> \<lambda>key. ss\<lparr>st_stack := fr\<lparr>sf_container := SObject False (Some key)\<rparr> # frs\<rparr>"
  shows "\<not> top_object_expects_key (ss1 key)" "value_path (ss1 key) = st_path ss @ [key]"
    "observe_structural_byte (CHR '':'') (ss1 key) = ss1 key"
    "observe_structural_byte (CHR '','') (reported_to ids pats (after_value v (ss1 key))) = reported_to ids pats ss"
    "end_container (after_value v (ss1 key)) = end_container ss"
  using assms(2)
  by (auto simp: ss1_def top_object_expects_key_def value_path_def observe_structural_byte_def
      take_pending_object_key_def after_value_def end_container_def assms(1) reported_to_def split: raw_json.split)

lemma observe_brackets [simp]:
  "observe_structural_byte (CHR ''['') ss = begin_container SArray ss"
  "observe_structural_byte (CHR ''{'') ss = begin_container (SObject True None) ss"
  "observe_structural_byte (CHR '']'') ss = end_container ss"
  "observe_structural_byte (CHR ''}'') ss = end_container ss"
  by (simp_all add: observe_structural_byte_def)

lemma outside_not_in_string: "outside ss \<Longrightarrow> \<not> st_in_string ss"
  by (simp add: outside_def)

lemma run_cases [case_names Err Ok]:
  obtains (Err) e st where "x = (Inl e, st)" | (Ok) out ids pats st where "x = (Inr (out, ids, pats), st)"
  by (cases x; cases "fst x") auto

lemma push_raw_text:
  "raw_wf v \<Longrightarrow> outside ss \<Longrightarrow> \<not> top_object_expects_key ss \<Longrightarrow>
     push_stream_bytes c lib ps (raw_text v) ss st =
       and_then_st (walk_raw c lib ps (value_path ss) v st) (\<lambda>(out, ids, pats) st.
         (Inr (out, reported_to ids pats (after_value v ss)), st))"
  "(\<forall>v \<in> set vs. raw_wf v) \<Longrightarrow> outside ss \<Longrightarrow> st_stack ss = fr # frs \<Longrightarrow> sf_container fr = SArray \<Longrightarrow>
     push_stream_bytes c lib ps (raw_items_text vs) ss st =
       and_then_st (walk_raw_items c lib ps (st_path ss) vs st) (\<lambda>(out, ids, pats) st.
         (Inr (out, reported_to ids pats ss), st))"
  "(\<forall>kv \<in> set m. raw_ok False (fst kv) \<and> raw_wf (snd kv)) \<Longrightarrow> outside ss \<Longrightarrow>
     st_stack ss = fr # frs \<Longrightarrow> sf_container fr = SObject True None \<Longrightarrow>
     push_stream_bytes c lib ps (raw_members_text m @ [CHR ''}'']) ss st =
       and_then_st (walk_raw_members c lib ps (st_path ss) m st) (\<lambda>(out, ids, pats) st.
         (Inr (out @ [CHR ''}''], reported_to ids pats (end_container ss)), st))"
proof (induction v and vs and m arbitrary: ss st and ss st fr frs and ss st fr frs
    rule: raw_text_raw_items_text_raw_members_text.induct)
  case (1 t)
  then show ?case
    by (simp add: push_literal outside_not_in_string after_value_def)
next
  case (2 s)
  then show ?case
    by (auto simp: push_string complete_string_context_def case_prod_beta value_path_def after_value_def
        intro!: and_then_st_cong)
next
  case (3 vs)
  let ?ss = "begin_container SArray ss"
  have *: "push_stream_bytes c lib ps (raw_items_text vs) ?ss st =
      and_then_st (walk_raw_items c lib ps (value_path ss) vs st) (\<lambda>(out, ids, pats) st.
         (Inr (out, reported_to ids pats ?ss), st))"
    using 3(1) [of ?ss, OF _ _ begin_container_simps(2)] 3(2,3) by simp
  show ?case
    using 3(3) *
    by (cases "walk_raw_items c lib ps (value_path ss) vs st" rule: run_cases)
      (simp_all add: push_stream_bytes_append push_structural outside_not_in_string begin_end after_value_def
        del: push_stream_bytes.simps(2))
next
  case (4 m)
  let ?ss = "begin_container (SObject True None) ss"
  have *: "push_stream_bytes c lib ps (raw_members_text m @ [CHR ''}'']) ?ss st =
      and_then_st (walk_raw_members c lib ps (value_path ss) m st) (\<lambda>(out, ids, pats) st.
         (Inr (out @ [CHR ''}''], reported_to ids pats (end_container ?ss)), st))"
    using 4(1) [of ?ss, OF _ _ begin_container_simps(2)] 4(2,3) by simp
  show ?case
    using 4(3) *
    by (cases "walk_raw_members c lib ps (value_path ss) m st" rule: run_cases)
      (simp_all add: push_structural outside_not_in_string begin_end after_value_def
        del: push_stream_bytes.simps(2))
next
  case 5
  then show ?case by simp
next
  case (6 v vs)
  note top = in_array [OF 6(5,6)]
  have v: "push_stream_bytes c lib ps (raw_text v) ss st =
      and_then_st (walk_raw c lib ps (st_path ss) v st) (\<lambda>(out, ids, pats) st.
        (Inr (out, reported_to ids pats ss), st))"
    using 6(1) [OF _ 6(4) top(2), of st] 6(3) by (simp add: top)
  show ?case
  proof (cases "walk_raw c lib ps (st_path ss) v st" rule: run_cases)
    case (Ok out ids pats st1)
    let ?ss = "reported_to ids pats ss"
    have vs: "push_stream_bytes c lib ps (raw_items_text vs) ?ss st1 =
        and_then_st (walk_raw_items c lib ps (st_path ss) vs st1) (\<lambda>(out, ids, pats) st.
          (Inr (out, reported_to ids pats ?ss), st))" if "vs \<noteq> []"
      using 6(2) [OF that, of ?ss fr frs st1] 6(3-6) by simp
    have comma: "observe_structural_byte (CHR '','') ?ss = ?ss"
      using in_array(5) [of ?ss fr frs] 6(5,6) by simp
    show ?thesis
      using Ok v vs 6(4)
      by (cases "walk_raw_items c lib ps (st_path ss) vs st1" rule: run_cases)
        (simp_all add: push_stream_bytes_append push_structural outside_not_in_string comma
          del: push_stream_bytes.simps(2))
  qed (simp add: v push_stream_bytes_append)
next
  case 7
  then show ?case
    by (simp add: push_stream_byte_def outside_not_in_string)
next
  case (8 k v m)
  let ?ss1 = "\<lambda>key. ss\<lparr>st_stack := fr\<lparr>sf_container := SObject False (Some key)\<rparr> # frs\<rparr>"
  note member = at_member [OF 8(5,6)]
  define rest where "rest = raw_members_text m @ [CHR ''}'']"
  have whole: "raw_members_text ((k, v) # m) @ [CHR ''}''] = quote_raw_json_string k @ CHR '':'' # raw_text v @
      (if m = [] then [CHR ''}''] else CHR '','' # rest)"
    by (simp add: rest_def)
  show ?case
  proof (cases "decode_raw_json_string lib k")
    case (Inl e)
    then show ?thesis
      unfolding whole using 8(3,4) by (simp add: push_string at_key [OF 8(5,6)] push_stream_bytes_append)
  next
    case (Inr key)
    have k: "push_stream_bytes c lib ps (quote_raw_json_string k) ss st =
        (Inr (quote_raw_json_string k, ?ss1 key), st)"
      using 8(3,4) Inr by (simp add: push_string at_key [OF 8(5,6)])
    have v: "push_stream_bytes c lib ps (raw_text v) (?ss1 key) st =
        and_then_st (walk_raw c lib ps (st_path ss @ [key]) v st) (\<lambda>(out, ids, pats) st.
          (Inr (out, reported_to ids pats (after_value v (?ss1 key))), st))"
      using 8(1) [of "?ss1 key" st] 8(3,4) member(1,2) [of key] by simp
    have out: "outside (after_value v (?ss1 key))"
      using 8(4) by (auto simp: after_value_def split: raw_json.split)
    show ?thesis
    proof (cases "walk_raw c lib ps (st_path ss @ [key]) v st" rule: run_cases)
      case (Ok out1 ids pats st1)
      let ?ss = "reported_to ids pats ss"
      have m: "push_stream_bytes c lib ps rest ?ss st1 =
          and_then_st (walk_raw_members c lib ps (st_path ss) m st1) (\<lambda>(out, ids, pats) st.
            (Inr (out @ [CHR ''}''], reported_to ids pats (end_container ?ss)), st))" if "m \<noteq> []"
        using 8(2) [OF that, of ?ss fr frs st1] 8(3-6) by (simp add: rest_def)
      show ?thesis
        unfolding whole using Ok k v m Inr 8(4) out member(3-5)
        by (cases "walk_raw_members c lib ps (st_path ss) m st1" rule: run_cases)
          (simp_all add: push_stream_bytes_append push_structural outside_not_in_string
            del: push_stream_bytes.simps(2))
    next
      case (Err e st1)
      then show ?thesis
        unfolding whole using 8(4)
        by (simp add: k v Inr push_stream_bytes_append push_structural outside_not_in_string
           member(3) del: push_stream_bytes.simps(2))
    qed
  qed
qed

text \<open>A whole text, from the initial state and back to it.\<close>

lemma stream_walks_text:
  assumes "raw_wf v"
  shows "push_stream_bytes c lib ps (raw_text v) streaming_state st =
    and_then_st (walk_raw c lib ps [] v st) (\<lambda>(out, ids, pats) st.
      (Inr (out, reported_to ids pats streaming_state), st))"
proof -
  have "outside streaming_state" "\<not> top_object_expects_key streaming_state"
    "value_path streaming_state = []" "after_value v streaming_state = streaming_state"
    by (simp_all add: outside_def top_object_expects_key_def value_path_def after_value_def
        take_pending_object_key_def streaming_state_def split: raw_json.split)
  then show ?thesis
    using push_raw_text(1) [OF assms] by simp
qed

text \<open>Without secrets, patterns and directives the text passes through as it is.\<close>

fun raw_plain :: "serde \<Rightarrow> raw_json \<Rightarrow> bool" where
  "raw_plain lib (Raw_literal t) \<longleftrightarrow> True"
| "raw_plain lib (Raw_string s) \<longleftrightarrow> \<not> might_contain_directive_bytes s"
| "raw_plain lib (Raw_array vs) \<longleftrightarrow> (\<forall>v \<in> set vs. raw_plain lib v)"
| "raw_plain lib (Raw_object m) \<longleftrightarrow>
     (\<forall>kv \<in> set m. (\<exists>key. decode_raw_json_string lib (fst kv) = Inr key) \<and> raw_plain lib (snd kv))"

lemma walk_raw_plain:
  assumes "registry_is_empty (snd st)" and "\<not> has_credential_patterns ps"
  shows "raw_plain lib v \<Longrightarrow> walk_raw c lib ps path v st = (Inr (raw_text v, [], []), st)"
    "(\<forall>v \<in> set vs. raw_plain lib v) \<Longrightarrow>
       walk_raw_items c lib ps path vs st = (Inr (raw_items_text vs, [], []), st)"
    "(\<forall>kv \<in> set m. (\<exists>key. decode_raw_json_string lib (fst kv) = Inr key) \<and> raw_plain lib (snd kv)) \<Longrightarrow>
       walk_raw_members c lib ps path m st = (Inr (raw_members_text m, [], []), st)"
  by (induction v and vs and m arbitrary: path and path and path
      rule: raw_text_raw_items_text_raw_members_text.induct)
    (auto simp: sanitize_streaming_raw_json_string_def assms)

end
