(* ===== verification/Http_Head.thy ===== *)
theory Http_Head
  imports Rust_Text
begin

text \<open>
  The HTTP/1.1 message heads of \<^verbatim>\<open>src/proxy/server.rs\<close>: finding the end of the head, reading
  header fields, and rewriting the head when the body changes. A head is the bytes before the
  empty line; its lines are separated by CRLF and the first one is the request or status line.
\<close>

section \<open>Messages\<close>

record http_head =
  hh_bytes :: bytes
  hh_delimiter_start :: nat

definition head_without_delimiter :: "http_head \<Rightarrow> bytes" where
  "head_without_delimiter h = take (hh_delimiter_start h) (hh_bytes h)"

definition extra_bytes :: "http_head \<Rightarrow> bytes" where
  "extra_bytes h = drop (hh_delimiter_start h + 4) (hh_bytes h)"

definition find_header_end :: "bytes \<Rightarrow> nat option" where
  "find_header_end bs = str_find (CRLF @ CRLF) bs"

definition head_lines :: "bytes \<Rightarrow> bytes list" where
  "head_lines head = split_on CRLF head"

definition header_name :: "bytes \<Rightarrow> bytes option" where
  "header_name line = map_option fst (split_once '':'' line)"

definition is_header :: "bytes \<Rightarrow> bytes \<Rightarrow> bool" where
  "is_header name line \<longleftrightarrow>
     (case header_name line of None \<Rightarrow> False | Some n \<Rightarrow> eq_ignore_ascii_case n name)"

section \<open>Reading\<close>

definition header_value :: "bytes \<Rightarrow> bytes \<Rightarrow> bytes option" where
  "header_value head name =
     (if \<not> utf8_valid head then None
      else case List.find (is_header name) (tl (head_lines head)) of
        None \<Rightarrow> None
      | Some line \<Rightarrow> map_option (\<lambda>(_, value). str_trim value) (split_once '':'' line))"

definition has_header :: "bytes \<Rightarrow> bytes \<Rightarrow> bool" where
  "has_header head name \<longleftrightarrow> header_value head name \<noteq> None"

definition content_length :: "bytes \<Rightarrow> nat option" where
  "content_length head =
     (case header_value head ''content-length'' of
        None \<Rightarrow> None
      | Some v \<Rightarrow> from_str_radix 10 (str_trim v))"

definition is_chunked_transfer :: "bytes \<Rightarrow> bool" where
  "is_chunked_transfer head \<longleftrightarrow>
     (case header_value head ''transfer-encoding'' of
        None \<Rightarrow> False
      | Some v \<Rightarrow>
          list_ex (\<lambda>token. eq_ignore_ascii_case (str_trim token) ''chunked'') (split_on '','' v))"

definition content_type :: "bytes \<Rightarrow> bytes option" where
  "content_type head = header_value head ''content-type''"

definition media_type :: "bytes \<Rightarrow> bytes" where
  "media_type t = to_ascii_lowercase (str_trim (hd (split_on '';'' t)))"

definition is_json_http_body :: "bytes \<Rightarrow> bool" where
  "is_json_http_body head \<longleftrightarrow>
     (case content_type head of
        None \<Rightarrow> False
      | Some t \<Rightarrow> media_type t = ''application/json'' \<or> ends_with (media_type t) ''+json'' \<or>
          media_type t = ''text/json'')"

definition is_text_http_body :: "bytes \<Rightarrow> bool" where
  "is_text_http_body head \<longleftrightarrow>
     (case content_type head of
        None \<Rightarrow> False
      | Some t \<Rightarrow> starts_with (media_type t) ''text/'' \<or> media_type t = ''application/x-ndjson'')"

definition is_sse_http_body :: "bytes \<Rightarrow> bool" where
  "is_sse_http_body head \<longleftrightarrow>
     (case content_type head of
        None \<Rightarrow> False
      | Some t \<Rightarrow> eq_ignore_ascii_case (str_trim (hd (split_on '';'' t))) ''text/event-stream'')"

definition is_redactable_http_body :: "bytes \<Rightarrow> bool" where
  "is_redactable_http_body head \<longleftrightarrow> is_json_http_body head \<or> is_text_http_body head"

definition request_method_is :: "bytes \<Rightarrow> bytes \<Rightarrow> bool" where
  "request_method_is head expected \<longleftrightarrow>
     utf8_valid head \<and>
     (case split_whitespace (hd (head_lines head)) of
        [] \<Rightarrow> False
      | method # _ \<Rightarrow> eq_ignore_ascii_case method expected)"

definition response_status_code :: "bytes \<Rightarrow> nat option" where
  "response_status_code head =
     (if \<not> utf8_valid head then None
      else case split_whitespace (hd (head_lines head)) of
        _ # code # _ \<Rightarrow>
          (case from_str_radix 10 code of
             Some n \<Rightarrow> if n < 2 ^ 16 then Some n else None
           | None \<Rightarrow> None)
      | _ \<Rightarrow> None)"

definition response_can_have_body :: "bool \<Rightarrow> bytes \<Rightarrow> bool" where
  "response_can_have_body request_is_head head \<longleftrightarrow>
     (if request_is_head then False
      else case response_status_code head of
        None \<Rightarrow> True
      | Some status \<Rightarrow> \<not> ((100 \<le> status \<and> status \<le> 199) \<or> status = 204 \<or> status = 304))"

definition response_is_switching_protocols :: "bytes \<Rightarrow> bool" where
  "response_is_switching_protocols head \<longleftrightarrow>
     utf8_valid head \<and> str_contains (hd (head_lines head)) '' 101 ''"

text \<open>The loop of \<^verbatim>\<open>is_websocket_upgrade\<close> with its two flags.\<close>

fun upgrade_flags :: "bool \<Rightarrow> bool \<Rightarrow> bytes list \<Rightarrow> bool \<times> bool" where
  "upgrade_flags has_upgrade has_connection_upgrade [] = (has_upgrade, has_connection_upgrade)"
| "upgrade_flags has_upgrade has_connection_upgrade (line # lines) =
     (case split_once '':'' line of
        None \<Rightarrow> upgrade_flags has_upgrade has_connection_upgrade lines
      | Some (name, value) \<Rightarrow>
          upgrade_flags
            (has_upgrade \<or> (eq_ignore_ascii_case name ''upgrade'' \<and>
               eq_ignore_ascii_case (str_trim value) ''websocket''))
            (if eq_ignore_ascii_case name ''connection''
             then list_ex (\<lambda>token. eq_ignore_ascii_case (str_trim token) ''upgrade'') (split_on '','' value)
             else has_connection_upgrade)
            lines)"

definition is_websocket_upgrade :: "bytes \<Rightarrow> bool" where
  "is_websocket_upgrade head \<longleftrightarrow>
     utf8_valid head \<and>
     (case upgrade_flags False False (tl (head_lines head)) of (a, b) \<Rightarrow> a \<and> b)"

definition target_host :: "bytes \<Rightarrow> bytes" where
  "target_host target =
     (case rsplit_once (CHR '':'') target of
        Some (host, _) \<Rightarrow> trim_bytes (\<lambda>c. c = CHR ''['' \<or> c = CHR '']'') host
      | None \<Rightarrow> target)"

section \<open>Rewriting\<close>

text \<open>Every rewriting pushes lines, each with its CRLF.\<close>

definition crlf_lines :: "bytes list \<Rightarrow> bytes" where
  "crlf_lines ls = concat (map (\<lambda>l. l @ CRLF) ls)"

definition http_head_only :: "http_head \<Rightarrow> bytes" where
  "http_head_only h = head_without_delimiter h @ CRLF @ CRLF"

definition strip_header :: "bytes \<Rightarrow> bytes \<Rightarrow> crebro_error + bytes" where
  "strip_header head strip_name =
     (if \<not> utf8_valid head then Inl (Gateway ''HTTP head is not UTF-8'')
      else
        (let lines = head_lines head
         in Inr (crlf_lines (hd lines #
              filter (\<lambda>l. header_name l \<noteq> None \<and> \<not> is_header strip_name l) (tl lines)))))"

definition content_length_line :: "nat \<Rightarrow> bytes" where
  "content_length_line n = ''content-length: '' @ print_radix 10 n"

definition body_header_line :: "nat \<Rightarrow> bool \<Rightarrow> bytes \<Rightarrow> bytes option" where
  "body_header_line n strip_accept_encoding line =
     (if header_name line = None then None
      else if is_header ''content-length'' line then Some (content_length_line n)
      else if is_header ''transfer-encoding'' line then None
      else if strip_accept_encoding \<and> is_header ''accept-encoding'' line then None
      else if \<not> strip_accept_encoding \<and> is_header ''content-encoding'' line then None
      else Some line)"

definition rewrite_http_head_for_body :: "bytes \<Rightarrow> nat \<Rightarrow> bool \<Rightarrow> crebro_error + bytes" where
  "rewrite_http_head_for_body head n strip_accept_encoding =
     (if \<not> utf8_valid head then Inl (Gateway ''HTTP head is not UTF-8'')
      else
        (let lines = head_lines head
         in Inr (crlf_lines (hd lines #
              List.map_filter (body_header_line n strip_accept_encoding) (tl lines) @
              (if list_ex (is_header ''content-length'') (tl lines) then []
               else [content_length_line n])))))"

definition chunked_line :: bytes where
  "chunked_line = ''transfer-encoding: chunked''"

definition chunked_header_line :: "bytes \<Rightarrow> bytes option" where
  "chunked_header_line line =
     (if header_name line = None then None
      else if is_header ''content-length'' line \<or> is_header ''content-encoding'' line then None
      else if is_header ''transfer-encoding'' line then Some chunked_line
      else Some line)"

definition rewrite_http_head_for_chunked :: "bytes \<Rightarrow> crebro_error + bytes" where
  "rewrite_http_head_for_chunked head =
     (if \<not> utf8_valid head then Inl (Gateway ''HTTP head is not UTF-8'')
      else
        (let lines = head_lines head
         in Inr (crlf_lines (hd lines # List.map_filter chunked_header_line (tl lines) @
              (if list_ex (is_header ''transfer-encoding'') (tl lines) then [] else [chunked_line])))))"

definition strip_http_message_header :: "http_head \<Rightarrow> bytes \<Rightarrow> crebro_error + bytes" where
  "strip_http_message_header message name =
     (if \<not> has_header (head_without_delimiter message) name then Inr (hh_bytes message)
      else and_then (strip_header (head_without_delimiter message) name) (\<lambda>out.
        Inr (out @ CRLF @ extra_bytes message)))"

section \<open>Lines and rewriting\<close>

lemma split_on_no_sep:
  assumes "sep \<noteq> []"
  shows "l \<in> set (split_on sep bs) \<Longrightarrow> \<not> occurs_in sep l"
  using assms
proof (induction sep bs rule: split_on.induct)
  case (1 sep bs)
  show ?case
  proof (cases "str_find sep bs")
    case None
    then have "l = bs"
      using 1(2,3) by (simp add: split_on.simps [of sep bs])
    then show ?thesis
      using None by (auto simp: str_find_None occurs_in_def)
  next
    case (Some i)
    then have "l = take i bs \<or> l \<in> set (split_on sep (drop (i + length sep) bs))"
      using 1(2,3) by (simp add: split_on.simps [of sep bs])
    moreover have "\<not> occurs_in sep (take i bs)"
    proof
      assume "occurs_in sep (take i bs)"
      then obtain j where j: "occurs_at sep (take i bs) j"
        by (auto simp: occurs_in_def)
      then have "occurs_at sep bs j" "j + length sep \<le> i"
        using occurs_at_sub_bytes [of 0 j sep i bs] occurs_atD(1) [OF j] Some
        by (auto simp: sub_bytes_from_zero str_find_Some dest: occurs_at_bound)
      then show False
        using Some 1(3) by (cases sep) (auto simp: str_find_Some)
    qed
    ultimately show ?thesis
      using 1(1) [OF 1(3) Some] 1(3) by blast
  qed
qed

lemma find_crlf:
  assumes "\<not> occurs_in CRLF l"
  shows "str_find CRLF (l @ CRLF @ rest) = Some (length l)"
  unfolding str_find_Some
proof (intro conjI allI impI notI)
  show "occurs_at CRLF (l @ CRLF @ rest) (length l)"
    by (auto simp: occurs_at_split)
  fix j assume j: "j < length l" "occurs_at CRLF (l @ CRLF @ rest) j"
  show False
  proof (cases "Suc j < length l")
    case True
    then have "occurs_at CRLF l j"
      using j by (auto simp: occurs_at_def sub_bytes_def)
    then show False
      using assms occurs_inI by blast
  next
    case False
    then have "(l @ CRLF @ rest) ! Suc j = CR"
      using j(1) by (simp add: nth_append less_Suc_eq not_less)
    moreover have "(l @ CRLF @ rest) ! Suc j = LF"
      using occurs_at_nth [OF j(2), of 1] by simp
    ultimately show False
      by simp
  qed
qed

lemma crlf_lines_simps [simp]:
  "crlf_lines [] = []" "crlf_lines (l # ls) = l @ CRLF @ crlf_lines ls"
  "crlf_lines (ls @ ms) = crlf_lines ls @ crlf_lines ms"
  by (simp_all add: crlf_lines_def)

lemma split_crlf_lines:
  "(\<forall>l \<in> set ls. \<not> occurs_in CRLF l) \<Longrightarrow> split_on CRLF (crlf_lines ls) = ls @ [[]]"
proof (induction ls)
  case Nil
  then show ?case by (simp add: split_on.simps)
next
  case (Cons l ls)
  have "split_on CRLF (l @ CRLF @ crlf_lines ls) =
      l # split_on CRLF (drop (length l + length CRLF) (l @ CRLF @ crlf_lines ls))"
    using find_crlf [of l "crlf_lines ls"] Cons.prems by (subst split_on.simps) simp
  then show ?case
    using Cons by simp
qed

lemma head_lines_ok: "l \<in> set (head_lines head) \<Longrightarrow> \<not> occurs_in CRLF l"
  unfolding head_lines_def by (rule split_on_no_sep) auto

lemma head_lines_ne [simp]: "head_lines head \<noteq> []"
  by (simp add: head_lines_def split_on_ne)

lemma not_header_empty [simp]: "\<not> is_header name []"
  by (simp add: is_header_def header_name_def split_once_def)

text \<open>A rewritten head: the first line and lines of one's own.\<close>

lemma head_lines_rewritten:
  assumes "\<forall>l \<in> set ls. \<not> occurs_in CRLF l"
  shows "head_lines (crlf_lines (hd (head_lines head) # ls)) = hd (head_lines head) # ls @ [[]]"
  unfolding head_lines_def [of "crlf_lines _"]
  by (subst split_crlf_lines) (use assms head_lines_ok [OF hd_in_set [OF head_lines_ne]] in auto)

lemma tl_lines_ok: "l \<in> set (tl (head_lines head)) \<Longrightarrow> \<not> occurs_in CRLF l"
  by (meson head_lines_ok list.set_sel(2) head_lines_ne)

lemma crlf_utf8 [simp]: "utf8_valid CRLF"
  by (rule utf8_valid_ascii) auto

lemma utf8_valid_crlf: "utf8_valid (a @ CRLF @ b) \<longleftrightarrow> utf8_valid a \<and> utf8_valid b"
  using utf8_valid_infix [of a CRLF b] utf8_valid_append_iff [OF crlf_utf8, of b] utf8_valid_append [of a "CRLF @ b"]
  by auto

lemma utf8_valid_crlf_lines: "utf8_valid (crlf_lines ls) \<longleftrightarrow> (\<forall>l \<in> set ls. utf8_valid l)"
  by (induction ls) (simp_all add: utf8_valid_crlf del: append_Cons)

lemma utf8_valid_join: "utf8_valid (str_join CRLF ls) \<Longrightarrow> l \<in> set ls \<Longrightarrow> utf8_valid l"
  by (induction CRLF ls rule: str_join.induct) (auto simp: utf8_valid_crlf simp del: append_Cons)

lemma head_lines_utf8: "utf8_valid head \<Longrightarrow> l \<in> set (head_lines head) \<Longrightarrow> utf8_valid l"
  using utf8_valid_join [of "head_lines head"] split_on_join [of CRLF head]
  by (simp add: head_lines_def)

text \<open>Where the head ends in a message whose head was rewritten.\<close>

lemma find_double_crlf:
  assumes "\<not> occurs_in CRLF l"
  shows "str_find (CRLF @ CRLF) (l @ CRLF @ rest) =
    (if prefix CRLF rest then Some (length l)
     else map_option (\<lambda>i. length l + 2 + i) (str_find (CRLF @ CRLF) rest))"
proof -
  let ?bs = "l @ CRLF @ rest"
  have before: "\<not> occurs_at (CRLF @ CRLF) ?bs j" if "j < length l" for j
  proof
    assume "occurs_at (CRLF @ CRLF) ?bs j"
    then have "occurs_at CRLF ?bs j"
      by (auto simp: occurs_at_prefix prefix_def)
    then show False
      using find_crlf [OF assms, of rest] that by (auto simp: str_find_Some)
  qed
  have here: "occurs_at (CRLF @ CRLF) ?bs (length l) \<longleftrightarrow> prefix CRLF rest"
    by (auto simp: occurs_at_prefix)
  have next_byte: "\<not> occurs_at (CRLF @ CRLF) ?bs (Suc (length l))"
    using occurs_at_nth [of "CRLF @ CRLF" ?bs "Suc (length l)" 0] by (auto simp: nth_append)
  have later: "occurs_at (CRLF @ CRLF) ?bs (length l + 2 + i) \<longleftrightarrow> occurs_at (CRLF @ CRLF) rest i" for i
    using occurs_at_append_left [of "CRLF @ CRLF" "l @ CRLF" rest i] by (simp add: add.assoc)
  show ?thesis
  proof (cases "prefix CRLF rest")
    case True
    then show ?thesis
      using before here by (simp add: str_find_Some)
  next
    case False
    show ?thesis
    proof (cases "str_find (CRLF @ CRLF) rest")
      case None
      have "\<not> occurs_at (CRLF @ CRLF) ?bs j" for j
      proof -
        consider "j < length l" | "j = length l" | "j = Suc (length l)" | "length l + 2 \<le> j"
          by linarith
        then show ?thesis
        proof cases
          case 4
          then show ?thesis
            using later [of "j - (length l + 2)", unfolded le_add_diff_inverse [OF 4]] None
            by (simp add: str_find_None)
        qed (use before here next_byte False in auto)
      qed
      then have "str_find (CRLF @ CRLF) ?bs = None"
        by (simp only: str_find_None) simp
      then show ?thesis
        using False None by simp
    next
      case (Some i)
      have "\<not> occurs_at (CRLF @ CRLF) ?bs j" if "j < length l + 2 + i" for j
      proof -
        consider "j < length l" | "j = length l" | "j = Suc (length l)" | "length l + 2 \<le> j"
          by linarith
        then show ?thesis
        proof cases
          case 4
          then show ?thesis
            using later [of "j - (length l + 2)", unfolded le_add_diff_inverse [OF 4]] that Some
            by (simp add: str_find_Some)
        qed (use before here next_byte False in auto)
      qed
      then have "str_find (CRLF @ CRLF) ?bs = Some (length l + 2 + i)"
        using later [of i] Some by (simp only: str_find_Some) simp
      then show ?thesis
        using False Some by simp
    qed
  qed
qed

lemma not_prefix_crlf: "\<not> occurs_in CRLF l \<Longrightarrow> l \<noteq> [] \<Longrightarrow> \<not> prefix CRLF (l @ CRLF @ rest)"
  using find_crlf [of l rest] by (auto simp: str_find_Some simp flip: occurs_at_0)

lemma find_header_end_lines:
  "ls \<noteq> [] \<Longrightarrow> \<forall>l \<in> set ls. l \<noteq> [] \<and> \<not> occurs_in CRLF l \<Longrightarrow>
   find_header_end (crlf_lines ls @ CRLF @ body) = Some (length (crlf_lines ls) - 2)"
proof (induction ls)
  case (Cons l ls)
  show ?case
  proof (cases ls)
    case Nil
    then show ?thesis
      using find_double_crlf [of l "CRLF @ body"] Cons.prems by (simp add: find_header_end_def)
  next
    case (Cons m ms)
    then have "\<not> prefix CRLF (crlf_lines ls @ CRLF @ body)"
      using not_prefix_crlf [of m] Cons.prems by simp
    moreover have "2 \<le> length (crlf_lines ls)"
      using Cons by simp
    ultimately show ?thesis
      using find_double_crlf [of l "crlf_lines ls @ CRLF @ body"] Cons.IH Cons.prems Cons
      by (simp add: find_header_end_def del: crlf_lines_simps(2)) (simp add: crlf_lines_def)
  qed
qed simp

section \<open>Reading a rewritten head\<close>

definition line_value :: "bytes \<Rightarrow> bytes option" where
  "line_value line = map_option (\<lambda>(_, value). str_trim value) (split_once '':'' line)"

definition lines_value :: "bytes list \<Rightarrow> bytes \<Rightarrow> bytes option" where
  "lines_value ls name =
     (case List.find (is_header name) ls of None \<Rightarrow> None | Some line \<Rightarrow> line_value line)"

lemma header_value_lines:
  "utf8_valid head \<Longrightarrow> header_value head name = lines_value (tl (head_lines head)) name"
  by (simp add: header_value_def lines_value_def line_value_def split: option.split)

lemma find_append: "List.find P (xs @ ys) = (case List.find P xs of None \<Rightarrow> List.find P ys | Some x \<Rightarrow> Some x)"
  by (induction xs) auto

lemma lines_value_simps [simp]:
  "lines_value [] name = None"
  "lines_value (l # ls) name = (if is_header name l then line_value l else lines_value ls name)"
  "lines_value (ls @ [[]]) name = lines_value ls name"
  by (simp_all add: lines_value_def find_append split: option.split)

lemma lines_value_none: "\<forall>l \<in> set ls. \<not> is_header name l \<Longrightarrow> lines_value ls name = None"
  by (induction ls) auto

text \<open>A head made of good lines reads as its lines.\<close>

lemma header_value_rewritten:
  assumes "utf8_valid head" and "\<forall>l \<in> set ls. \<not> occurs_in CRLF l \<and> utf8_valid l"
  shows "header_value (crlf_lines (hd (head_lines head) # ls)) name = lines_value ls name"
proof -
  have "utf8_valid (crlf_lines (hd (head_lines head) # ls))"
    using assms head_lines_utf8 [OF assms(1) hd_in_set [OF head_lines_ne]]
    by (simp only: utf8_valid_crlf_lines) simp
  then show ?thesis
    using assms(2) by (simp add: header_value_lines head_lines_rewritten del: crlf_lines_simps)
qed

lemma eq_ignore_sym: "eq_ignore_ascii_case a b \<longleftrightarrow> eq_ignore_ascii_case b a"
  by (auto simp: eq_ignore_ascii_case_def)

lemma is_header_other:
  "is_header m l \<Longrightarrow> is_header n l \<Longrightarrow> eq_ignore_ascii_case m n"
  by (auto simp: is_header_def eq_ignore_ascii_case_def split: option.splits)

lemma is_header_name: "is_header n l \<Longrightarrow> header_name l \<noteq> None"
  by (auto simp: is_header_def split: option.splits)

lemma tl_lines_utf8: "utf8_valid head \<Longrightarrow> l \<in> set (tl (head_lines head)) \<Longrightarrow> utf8_valid l"
  by (meson head_lines_utf8 list.set_sel(2) head_lines_ne)

lemma strip_header_spec:
  assumes "strip_header head name = Inr out"
  shows "header_value out name = None"
    and "\<not> eq_ignore_ascii_case m name \<Longrightarrow> header_value out m = header_value head m"
proof -
  have utf8: "utf8_valid head"
    and out: "out = crlf_lines (hd (head_lines head) #
      filter (\<lambda>l. header_name l \<noteq> None \<and> \<not> is_header name l) (tl (head_lines head)))"
    using assms by (auto simp: strip_header_def Let_def split: if_splits)
  have valued: "header_value out n = lines_value
      (filter (\<lambda>l. header_name l \<noteq> None \<and> \<not> is_header name l) (tl (head_lines head))) n" for n
    unfolding out by (rule header_value_rewritten [OF utf8]) (use tl_lines_ok tl_lines_utf8 [OF utf8] in auto)
  show "header_value out name = None"
    unfolding valued by (rule lines_value_none) auto
  assume m: "\<not> eq_ignore_ascii_case m name"
  have "lines_value (filter (\<lambda>l. header_name l \<noteq> None \<and> \<not> is_header name l) ls) m = lines_value ls m" for ls
    using m is_header_other [of m _ name] is_header_name [of m] by (induction ls) auto
  then show "header_value out m = header_value head m"
    by (simp add: valued header_value_lines [OF utf8])
qed

lemma digit_char_val: "d < 10 \<Longrightarrow> digit_char d \<in> set (map char_of [48..<58])"
  by (auto simp: digit_char_def)

lemma print_decimal: "set (print_radix 10 n) \<subseteq> set (map char_of [48..<58])"
proof (induction n rule: less_induct)
  case (less n)
  show ?case
  proof (cases "n < 10")
    case True
    then show ?thesis
      using digit_char_val [of n] by (simp add: print_radix.simps [of 10 n])
  next
    case False
    then show ?thesis
      using less [of "n div 10"] digit_char_val [of "n mod 10"]
      by (simp add: print_radix.simps [of 10 n])
  qed
qed

lemma byte_in: "c \<in> set (map char_of [a..<b]) \<Longrightarrow> b \<le> 256 \<Longrightarrow> a \<le> byte_val c \<and> byte_val c < b"
  by auto

lemma occurs_in_chars: "occurs_in p s \<Longrightarrow> set p \<subseteq> set s"
  by (auto simp: occurs_in_split)

lemma content_length_line_ok:
  "\<not> occurs_in CRLF (content_length_line n)" "utf8_valid (content_length_line n)"
  "is_header m (content_length_line n) \<longleftrightarrow> eq_ignore_ascii_case ''content-length'' m"
  "split_once '':'' (content_length_line n) = Some (''content-length'', CHR '' '' # print_radix 10 n)"
proof -
  have digits: "c \<in> set (print_radix 10 n) \<Longrightarrow> 48 \<le> byte_val c \<and> byte_val c < 58" for c
    using print_decimal [of n] byte_in [of c 48 58] by auto
  have chars: "c \<in> set (content_length_line n) \<Longrightarrow> 32 \<le> byte_val c \<and> byte_val c < 128" for c
    using digits [of c] by (auto simp: content_length_line_def)
  show "utf8_valid (content_length_line n)"
    using chars by (intro utf8_valid_ascii) auto
  show "\<not> occurs_in CRLF (content_length_line n)"
    using occurs_in_chars [of CRLF] chars [of LF] by auto
  have "str_find '':'' (content_length_line n) = Some 14"
    by (simp add: content_length_line_def)
  then show s: "split_once '':'' (content_length_line n) = Some (''content-length'', CHR '' '' # print_radix 10 n)"
    by (simp add: split_once_def content_length_line_def)
  then show "is_header m (content_length_line n) \<longleftrightarrow> eq_ignore_ascii_case ''content-length'' m"
    by (simp add: is_header_def header_name_def)
qed

text \<open>Trimming leaves text that begins and ends with a visible ASCII character.\<close>

definition visible :: "char \<Rightarrow> bool" where
  "visible c \<longleftrightarrow> 33 \<le> byte_val c \<and> byte_val c < 127"

lemma ws_len_visible:
  assumes "visible c"
  shows "ws_len whitespace_encodings (c # cs) = 0" "ws_len (map rev whitespace_encodings) (c # cs) = 0"
proof -
  have 1: "\<forall>w \<in> set whitespace_encodings. \<forall>d \<in> set w. byte_val d < 33 \<or> 127 < byte_val d"
    by (simp add: whitespace_encodings_def)
  have "\<not> prefix w (c # cs)" if "w \<in> set whitespace_encodings \<union> set (map rev whitespace_encodings)" for w
  proof
    assume "prefix w (c # cs)"
    moreover have "w \<noteq> []"
      using that by (auto simp: whitespace_encodings_def)
    ultimately have "c \<in> set w"
      by (cases w) auto
    then show False
      using that 1 assms by (fastforce simp: visible_def)
  qed
  then show "ws_len whitespace_encodings (c # cs) = 0" "ws_len (map rev whitespace_encodings) (c # cs) = 0"
    by (auto simp: ws_len_def list_find_None split: option.split dest: nth_mem_list_find)
qed

lemma trim_with_visible: "visible (hd s) \<Longrightarrow> trim_with whitespace_encodings s = s"
  "visible (hd s) \<Longrightarrow> trim_with (map rev whitespace_encodings) s = s"
  by (cases s; simp add: ws_len_visible)+

lemma str_trim_visible:
  assumes "s \<noteq> []" and "visible (hd s)" and "visible (last s)"
  shows "str_trim s = s" "str_trim (CHR '' '' # s) = s"
proof -
  have t: "trim_end s = s"
    using assms(1,3) by (simp add: trim_end_def trim_with_visible hd_rev)
  then show "str_trim s = s"
    using assms by (simp add: str_trim_def trim_start_def trim_with_visible)
  have "ws_len whitespace_encodings (CHR '' '' # s) = 1"
    by (simp add: ws_len_def whitespace_encodings_def char_of_eq_iff)
  then show "str_trim (CHR '' '' # s) = s"
    using assms t by (simp add: str_trim_def trim_start_def trim_with_visible)
qed

lemma print_decimal_visible: "c \<in> set (print_radix 10 n) \<Longrightarrow> visible c"
  using print_decimal [of n] byte_in [of c 48 58] by (auto simp: visible_def)

lemma str_trim_decimal [simp]:
  "str_trim (print_radix 10 n) = print_radix 10 n" "str_trim (CHR '' '' # print_radix 10 n) = print_radix 10 n"
  using str_trim_visible [of "print_radix 10 n"] print_decimal_visible [of _ n]
  by (auto simp: last_in_set hd_in_set)

lemma line_value_content_length: "line_value (content_length_line n) = Some (print_radix 10 n)"
  by (simp add: line_value_def content_length_line_ok)

lemma lines_value_append:
  "lines_value (xs @ ys) name = (if list_ex (is_header name) xs then lines_value xs name else lines_value ys name)"
  by (induction xs) auto

lemma map_filter_Cons: "List.map_filter f (x # xs) =
    (case f x of None \<Rightarrow> List.map_filter f xs | Some y \<Rightarrow> y # List.map_filter f xs)"
  by (simp add: map_filter_simps split: option.split)

lemma ascii_words_differ [simp]:
  "\<not> eq_ignore_ascii_case ''content-length'' ''transfer-encoding''"
  "\<not> eq_ignore_ascii_case ''content-length'' ''accept-encoding''"
  "\<not> eq_ignore_ascii_case ''content-length'' ''content-encoding''"
  "\<not> eq_ignore_ascii_case ''transfer-encoding'' ''content-length''"
  "\<not> eq_ignore_ascii_case ''transfer-encoding'' ''content-encoding''"
  "eq_ignore_ascii_case a a"
  by (simp_all add: eq_ignore_ascii_case_def to_ascii_lowercase_def to_ascii_lower_def)

text \<open>The headers after the body was replaced.\<close>

definition stripped_headers :: "bool \<Rightarrow> bytes list" where
  "stripped_headers strip = [''transfer-encoding'', if strip then ''accept-encoding'' else ''content-encoding'']"

lemma body_lines_other:
  assumes "\<not> eq_ignore_ascii_case m ''content-length''"
    and "\<forall>h \<in> set (stripped_headers strip). \<not> eq_ignore_ascii_case m h"
  shows "lines_value (List.map_filter (body_header_line n strip) ls) m = lines_value ls m"
proof (induction ls)
  case (Cons l ls)
  have other: "\<not> is_header h l" if "is_header m l" "\<not> eq_ignore_ascii_case m h" for h
    using is_header_other that by blast
  show ?case
    using Cons other [of "''content-length''"] other [of "''transfer-encoding''"] other [of "''accept-encoding''"]
      other [of "''content-encoding''"] assms is_header_name [of m l]
      content_length_line_ok(3) [of m n] eq_ignore_sym [of m "''content-length''"]
    by (cases "is_header m l")
      (auto simp: map_filter_Cons body_header_line_def stripped_headers_def split: option.split)
qed (simp add: map_filter_simps)

lemma body_lines_gone:
  assumes "h \<in> set (stripped_headers strip)"
  shows "\<forall>l \<in> set (List.map_filter (body_header_line n strip) ls). \<not> is_header h l"
  using assms content_length_line_ok(3) [of h n]
  by (induction ls)
    (auto simp: map_filter_Cons map_filter_simps body_header_line_def stripped_headers_def
      split: option.splits if_splits)

lemma body_lines_length:
  "lines_value (List.map_filter (body_header_line n strip) ls @
     (if list_ex (is_header ''content-length'') ls then [] else [content_length_line n])) ''content-length'' =
   Some (print_radix 10 n)"
proof (induction ls)
  case (Cons l ls)
  then show ?case
    using is_header_name [of "''content-length''" l]
    by (cases "is_header ''content-length'' l")
      (auto simp: map_filter_Cons body_header_line_def content_length_line_ok(3) line_value_content_length
        split: option.split)
qed (simp add: map_filter_simps content_length_line_ok(3) line_value_content_length)

text \<open>The lines of a rewritten head are good lines.\<close>

definition body_lines :: "nat \<Rightarrow> bool \<Rightarrow> bytes list \<Rightarrow> bytes list" where
  "body_lines n strip ls =
     List.map_filter (body_header_line n strip) ls @
     (if list_ex (is_header ''content-length'') ls then [] else [content_length_line n])"

lemma set_map_filter: "set (List.map_filter f xs) = {y. \<exists>x \<in> set xs. f x = Some y}"
  by (induction xs) (auto simp: map_filter_simps split: option.splits)

lemma header_line_ne: "header_name l \<noteq> None \<Longrightarrow> l \<noteq> []"
  by (auto simp: header_name_def split_once_def)

lemma body_header_line_Some:
  "body_header_line n strip x = Some y \<Longrightarrow> y = content_length_line n \<or> y = x \<and> header_name x \<noteq> None"
  unfolding body_header_line_def by (simp split: if_split_asm)

lemma chunked_header_line_Some:
  "chunked_header_line x = Some y \<Longrightarrow> y = chunked_line \<or> y = x \<and> header_name x \<noteq> None"
  unfolding chunked_header_line_def by (simp split: if_split_asm)

lemma body_lines_ok:
  assumes "utf8_valid head" and "l \<in> set (body_lines n strip (tl (head_lines head)))"
  shows "\<not> occurs_in CRLF l" "utf8_valid l" "l \<noteq> []"
proof -
  have "l = content_length_line n \<or> l \<in> set (tl (head_lines head)) \<and> header_name l \<noteq> None"
    using assms(2) body_header_line_Some unfolding body_lines_def set_append set_map_filter
    by (fastforce split: if_split_asm)
  then show "\<not> occurs_in CRLF l" "utf8_valid l" "l \<noteq> []"
    using tl_lines_ok [of l head] tl_lines_utf8 [OF assms(1), of l] content_length_line_ok(1,2) [of n]
      header_line_ne [of l] by (auto simp: content_length_line_def)
qed

lemma rewrite_body_Inr:
  assumes "rewrite_http_head_for_body head n strip = Inr out"
  shows "utf8_valid head" "out = crlf_lines (hd (head_lines head) # body_lines n strip (tl (head_lines head)))"
  using assms by (auto simp: rewrite_http_head_for_body_def body_lines_def Let_def split: if_splits)

lemma rewrite_body_value:
  assumes "rewrite_http_head_for_body head n strip = Inr out"
  shows "header_value out name = lines_value (body_lines n strip (tl (head_lines head))) name"
  using rewrite_body_Inr [OF assms] body_lines_ok [of head] header_value_rewritten [of head "body_lines n strip (tl (head_lines head))" name]
  by simp

lemma rewrite_body_spec:
  assumes run: "rewrite_http_head_for_body head n strip = Inr out" and n: "n < 2 ^ 64"
  shows "content_length out = Some n"
    and "h \<in> set (stripped_headers strip) \<Longrightarrow> header_value out h = None"
    and "\<not> eq_ignore_ascii_case m ''content-length'' \<Longrightarrow>
      (\<forall>h \<in> set (stripped_headers strip). \<not> eq_ignore_ascii_case m h) \<Longrightarrow>
      header_value out m = header_value head m"
    and "hd (head_lines head) \<noteq> [] \<Longrightarrow> find_header_end (out @ CRLF @ body) = Some (length out - 2)"
proof -
  let ?ls = "tl (head_lines head)"
  note utf8 = rewrite_body_Inr(1) [OF run] and out = rewrite_body_Inr(2) [OF run]
  note valued = rewrite_body_value [OF run]
  show "content_length out = Some n"
    using body_lines_length [of n strip ?ls] from_str_radix_print [of 10 n] n
    by (simp add: content_length_def valued body_lines_def)
  show "header_value out h = None" if h: "h \<in> set (stripped_headers strip)"
  proof -
    have "\<not> is_header h (content_length_line n)"
      using h by (auto simp: content_length_line_ok(3) stripped_headers_def split: if_splits)
    then show ?thesis
      unfolding valued body_lines_def
      by (intro lines_value_none) (use body_lines_gone [OF h, of n ?ls] in auto)
  qed
  show "header_value out m = header_value head m"
    if m: "\<not> eq_ignore_ascii_case m ''content-length''"
      "\<forall>h \<in> set (stripped_headers strip). \<not> eq_ignore_ascii_case m h"
  proof -
    have "\<not> is_header m (content_length_line n)"
      using m(1) eq_ignore_sym content_length_line_ok(3) by blast
    then show ?thesis
      using body_lines_other [OF m, of n ?ls]
      by (auto simp: valued body_lines_def header_value_lines [OF utf8] lines_value_append lines_value_none list_ex_iff)
  qed
  assume "hd (head_lines head) \<noteq> []"
  then show "find_header_end (out @ CRLF @ body) = Some (length out - 2)"
    unfolding out using body_lines_ok [OF utf8] head_lines_ok [OF hd_in_set [OF head_lines_ne]]
    by (intro find_header_end_lines) auto
qed

definition chunked_lines :: "bytes list \<Rightarrow> bytes list" where
  "chunked_lines ls = List.map_filter chunked_header_line ls @
     (if list_ex (is_header ''transfer-encoding'') ls then [] else [chunked_line])"

lemma chunked_line_ok:
  "\<not> occurs_in CRLF chunked_line" "utf8_valid chunked_line"
  "is_header m chunked_line \<longleftrightarrow> eq_ignore_ascii_case ''transfer-encoding'' m"
  "line_value chunked_line = Some ''chunked''"
proof -
  show "\<not> occurs_in CRLF chunked_line"
    using occurs_in_chars [of CRLF chunked_line] by (auto simp: chunked_line_def)
  show "utf8_valid chunked_line"
    by (rule utf8_valid_ascii) (auto simp: chunked_line_def)
  have "str_find '':'' chunked_line = Some 17"
    by (simp add: chunked_line_def)
  then have s: "split_once '':'' chunked_line = Some (''transfer-encoding'', '' chunked'')"
    by (simp add: split_once_def chunked_line_def)
  then show "is_header m chunked_line \<longleftrightarrow> eq_ignore_ascii_case ''transfer-encoding'' m"
    by (simp add: is_header_def header_name_def)
  show "line_value chunked_line = Some ''chunked''"
    using s str_trim_visible(2) [of "''chunked''"] by (simp add: line_value_def visible_def)
qed

lemma chunked_lines_ok:
  assumes "utf8_valid head" and "l \<in> set (chunked_lines (tl (head_lines head)))"
  shows "\<not> occurs_in CRLF l" "utf8_valid l" "l \<noteq> []"
proof -
  have "l = chunked_line \<or> l \<in> set (tl (head_lines head)) \<and> header_name l \<noteq> None"
    using assms(2) chunked_header_line_Some unfolding chunked_lines_def set_append set_map_filter
    by (fastforce split: if_split_asm)
  then show "\<not> occurs_in CRLF l" "utf8_valid l" "l \<noteq> []"
    using tl_lines_ok [of l head] tl_lines_utf8 [OF assms(1), of l] chunked_line_ok(1,2)
      header_line_ne [of l] by (auto simp: chunked_line_def)
qed

lemma rewrite_chunked_Inr:
  assumes "rewrite_http_head_for_chunked head = Inr out"
  shows "utf8_valid head" "out = crlf_lines (hd (head_lines head) # chunked_lines (tl (head_lines head)))"
  using assms by (auto simp: rewrite_http_head_for_chunked_def chunked_lines_def Let_def split: if_splits)

lemma te_not_other:
  assumes "is_header ''transfer-encoding'' l"
  shows "\<not> is_header ''content-length'' l" "\<not> is_header ''content-encoding'' l"
  using is_header_other [OF assms] by fastforce+

lemma chunked_lines_te: "lines_value (chunked_lines ls) ''transfer-encoding'' = Some ''chunked''"
proof (induction ls)
  case (Cons l ls)
  then show ?case
    using is_header_name [of "''transfer-encoding''" l]
    by (cases "is_header ''transfer-encoding'' l")
      (auto simp: map_filter_Cons chunked_header_line_def chunked_lines_def chunked_line_ok(3,4)
        te_not_other split: option.split)
qed (simp add: map_filter_simps chunked_lines_def chunked_line_ok(3,4))

lemma rewrite_chunked_spec:
  assumes run: "rewrite_http_head_for_chunked head = Inr out"
  shows "is_chunked_transfer out" "header_value out ''content-length'' = None"
    "header_value out ''content-encoding'' = None"
    "hd (head_lines head) \<noteq> [] \<Longrightarrow> find_header_end (out @ CRLF @ body) = Some (length out - 2)"
proof -
  let ?ls = "tl (head_lines head)"
  note utf8 = rewrite_chunked_Inr(1) [OF run] and out = rewrite_chunked_Inr(2) [OF run]
  have valued: "header_value out name = lines_value (chunked_lines ?ls) name" for name
    unfolding out by (rule header_value_rewritten [OF utf8]) (use chunked_lines_ok [OF utf8] in auto)
  have "str_trim ''chunked'' = ''chunked''"
    by (rule str_trim_visible) (simp_all add: visible_def)
  then show "is_chunked_transfer out"
    by (simp add: is_chunked_transfer_def valued chunked_lines_te split_on.simps)
  have "\<forall>l \<in> set (chunked_lines ?ls). \<not> is_header h l" if "h \<in> {''content-length'', ''content-encoding''}" for h
    using that by (auto simp: chunked_lines_def set_map_filter chunked_header_line_def chunked_line_ok(3) split: if_splits)
  then show "header_value out ''content-length'' = None" "header_value out ''content-encoding'' = None"
    unfolding valued by (auto intro!: lines_value_none)
  assume "hd (head_lines head) \<noteq> []"
  then show "find_header_end (out @ CRLF @ body) = Some (length out - 2)"
    unfolding out using chunked_lines_ok [OF utf8] head_lines_ok [OF hd_in_set [OF head_lines_ne]]
    by (intro find_header_end_lines) auto
qed

section \<open>What the receiver reads\<close>

definition message_parts :: "bytes \<Rightarrow> (bytes \<times> bytes) option" where
  "message_parts bs = map_option (\<lambda>i. (take i bs, drop (i + 4) bs)) (find_header_end bs)"

lemma crlf_lines_butlast: "crlf_lines (ls @ [l]) = str_join CRLF (ls @ [l]) @ CRLF"
proof (induction ls)
  case (Cons a ls)
  then show ?case
    by (cases ls) simp_all
qed simp

lemma split_joined_lines:
  "(\<forall>l \<in> set (ls @ [l]). \<not> occurs_in CRLF l) \<Longrightarrow> split_on CRLF (str_join CRLF (ls @ [l])) = ls @ [l]"
proof (induction ls)
  case Nil
  then have "str_find CRLF l = None"
    using occurs_inI [of CRLF l] by (auto simp: str_find_None)
  then show ?case
    by (simp add: split_on.simps [of CRLF l])
next
  case (Cons a ls)
  have join: "str_join CRLF ((a # ls) @ [l]) = a @ CRLF @ str_join CRLF (ls @ [l])"
    by (cases ls) simp_all
  have find: "str_find CRLF (a @ CRLF @ str_join CRLF (ls @ [l])) = Some (length a)"
    using Cons.prems by (intro find_crlf) simp
  have "split_on CRLF (a @ CRLF @ str_join CRLF (ls @ [l])) = a # split_on CRLF (str_join CRLF (ls @ [l]))"
    using find by (subst split_on.simps) simp
  then show ?case
    using Cons by (simp only: join) simp
qed

text \<open>The head that was written, without the line end that closes it, has the same fields.\<close>

lemma header_value_closed:
  assumes lines: "\<forall>l \<in> set ls. \<not> occurs_in CRLF l \<and> utf8_valid l" and "ls \<noteq> []"
  shows "header_value (take (length (crlf_lines ls) - 2) (crlf_lines ls)) name = header_value (crlf_lines ls) name"
proof -
  obtain ms m where ms: "ls = ms @ [m]"
    using \<open>ls \<noteq> []\<close> by (metis rev_exhaust)
  let ?j = "str_join CRLF ls"
  have cl: "crlf_lines ls = ?j @ CRLF"
    using crlf_lines_butlast [of ms m] ms by simp
  then have j: "take (length (crlf_lines ls) - 2) (crlf_lines ls) = ?j"
    by simp
  have lj: "head_lines ?j = ls" and lc: "head_lines (crlf_lines ls) = ls @ [[]]"
    unfolding head_lines_def using split_joined_lines [of ms m] split_crlf_lines [of ls] lines ms by auto
  have u: "utf8_valid (crlf_lines ls)"
    using lines by (simp only: utf8_valid_crlf_lines) simp
  then have uj: "utf8_valid ?j"
    using utf8_valid_crlf [of ?j "[]"] by (simp add: cl)
  show ?thesis
    unfolding j header_value_lines [OF u] header_value_lines [OF uj] lj lc
    using \<open>ls \<noteq> []\<close> by (cases ls) simp_all
qed

lemma rewritten_body_parts:
  assumes run: "rewrite_http_head_for_body head n strip = Inr out" and ne: "hd (head_lines head) \<noteq> []"
    and n: "n < 2 ^ 64"
  shows "message_parts (out @ CRLF @ body) = Some (take (length out - 2) out, body)"
    and "header_value (take (length out - 2) out) name = header_value out name"
proof -
  let ?ls = "hd (head_lines head) # body_lines n strip (tl (head_lines head))"
  note utf8 = rewrite_body_Inr(1) [OF run] and out = rewrite_body_Inr(2) [OF run]
  have "\<forall>l \<in> set ?ls. \<not> occurs_in CRLF l \<and> utf8_valid l"
    using body_lines_ok [OF utf8] head_lines_ok [OF hd_in_set [OF head_lines_ne]]
      head_lines_utf8 [OF utf8 hd_in_set [OF head_lines_ne]] by auto
  from header_value_closed [OF this] show "header_value (take (length out - 2) out) name = header_value out name"
    by (simp add: out)
  have "2 \<le> length out"
    by (simp add: out)
  then show "message_parts (out @ CRLF @ body) = Some (take (length out - 2) out, body)"
    using rewrite_body_spec(4) [OF run n ne, of body] by (auto simp: message_parts_def)
qed

end
