(* ===== verification/Byte_Source.thy ===== *)
theory Byte_Source
  imports Http_Head
begin

text \<open>
  Reading from a connection, as \<^verbatim>\<open>src/proxy/server.rs\<close> and \<^verbatim>\<open>src/proxy/websocket.rs\<close> do it:
  a source is the list of what the reads will return, and each loop takes what it needs.
  \<open>delivers\<close> says which bytes a source holds, and the lemmas show that every reader depends
  on them alone, not on how the network cut them into reads.
\<close>

section \<open>Sources\<close>

text \<open>What the connection does next: bytes arrive, or the read fails. After the last one it is
  closed, and a read returns no bytes.\<close>

datatype read_result = Got bytes | Failed bytes

type_synonym source = "read_result list"

text \<open>\<^verbatim>\<open>read\<close> into a buffer of \<open>limit\<close> bytes.\<close>

fun read_some :: "nat \<Rightarrow> source \<Rightarrow> (bytes + bytes) \<times> source" where
  "read_some limit [] = (Inr [], [])"
| "read_some limit (Failed e # src) = (Inl e, src)"
| "read_some limit (Got bs # src) =
     (if length bs \<le> limit then (Inr bs, src)
      else (Inr (take limit bs), Got (drop limit bs) # src))"

fun source_size :: "source \<Rightarrow> nat" where
  "source_size [] = 0"
| "source_size (Failed e # src) = Suc (source_size src)"
| "source_size (Got bs # src) = Suc (length bs + source_size src)"

text \<open>The source returns \<open>bs\<close>, in reads that are not empty, and is closed then.\<close>

fun delivers :: "source \<Rightarrow> bytes \<Rightarrow> bool" where
  "delivers [] bs \<longleftrightarrow> bs = []"
| "delivers (Failed e # src) bs \<longleftrightarrow> False"
| "delivers (Got b # src) bs \<longleftrightarrow> b \<noteq> [] \<and> prefix b bs \<and> delivers src (drop (length b) bs)"

lemma delivers_Got: "delivers (Got b # src) bs \<longleftrightarrow> b \<noteq> [] \<and> (\<exists>rest. bs = b @ rest \<and> delivers src rest)"
  by (auto simp: prefix_def)

lemma delivers_Cons_ne: "delivers (a # src) bs \<Longrightarrow> bs \<noteq> []"
  by (cases a) auto

lemma delivers_Nil_iff: "delivers src [] \<longleftrightarrow> src = []"
  by (cases src) (auto dest: delivers_Cons_ne)

lemma read_some_size:
  assumes "read_some limit src = (Inr bs, src')" and "bs \<noteq> []"
  shows "source_size src' + length bs \<le> source_size src"
  using assms by (induction limit src rule: read_some.induct) (auto split: if_splits)

lemma read_some_size_less:
  "read_some limit src = (Inr bs, src') \<Longrightarrow> bs \<noteq> [] \<Longrightarrow> source_size src' < source_size src"
  using read_some_size [of limit src bs src'] by (cases bs) auto

lemma read_some_delivers:
  assumes "delivers src bs" and "0 < limit" and "bs \<noteq> []"
  obtains b rest src' where "read_some limit src = (Inr b, src')" and "b \<noteq> []"
    and "bs = b @ rest" and "delivers src' rest" and "length b \<le> limit"
proof (cases src)
  case Nil
  then show ?thesis
    using assms by simp
next
  case (Cons r src1)
  then obtain b rest where b: "r = Got b" "b \<noteq> []" "bs = b @ rest" "delivers src1 rest"
    using assms(1) by (cases r) (auto simp: prefix_def)
  show ?thesis
  proof (cases "length b \<le> limit")
    case True
    then show ?thesis
      using that [of b src1 rest] b Cons by simp
  next
    case False
    have "delivers (Got (drop limit b) # src1) (drop limit b @ rest)"
      using b False by (simp add: delivers_Got)
    then show ?thesis
      using that [of "take limit b" "Got (drop limit b) # src1" "drop limit b @ rest"] b Cons False assms(2)
      by simp
  qed
qed

lemma read_some_closed: "delivers src [] \<Longrightarrow> read_some limit src = (Inr [], [])"
  by (simp add: delivers_Nil_iff)

text \<open>\<^verbatim>\<open>read_exact\<close>: fill the buffer; \<^const>\<open>Inl\<close> when the connection ends or fails before.\<close>

function read_exact :: "nat \<Rightarrow> source \<Rightarrow> (bytes + bytes) \<times> source" where
  "read_exact n src =
     (if n = 0 then (Inr [], src)
      else case read_some n src of
        (Inl e, src) \<Rightarrow> (Inl e, src)
      | (Inr bs, src) \<Rightarrow>
          (if bs = [] then (Inl ''early eof'', src)
           else and_then_st (read_exact (n - length bs) src) (\<lambda>rest src. (Inr (bs @ rest), src))))"
  by pat_completeness auto
termination
  by (relation "measure fst") auto

declare read_exact.simps [simp del]

lemma read_exact_0 [simp]: "read_exact 0 src = (Inr [], src)"
  by (simp add: read_exact.simps)

lemma read_exact_enough:
  assumes "delivers src bs" and "n \<le> length bs"
  shows "\<exists>src'. read_exact n src = (Inr (take n bs), src') \<and> delivers src' (drop n bs)"
  using assms
proof (induction n arbitrary: src bs rule: less_induct)
  case (less n)
  show ?case
  proof (cases "n = 0")
    case False
    then have "bs \<noteq> []" using less.prems by auto
    obtain b rest src1 where b: "read_some n src = (Inr b, src1)" "b \<noteq> []" "bs = b @ rest"
        "delivers src1 rest" "length b \<le> n"
      using read_some_delivers [OF less.prems(1) _ \<open>bs \<noteq> []\<close>, of n] False by blast
    have "0 < length b" using b(2) by simp
    then have "n - length b < n" and "n - length b \<le> length rest"
      using less.prems(2) b(3) False by auto
    then obtain src' where "read_exact (n - length b) src1 = (Inr (take (n - length b) rest), src')"
        "delivers src' (drop (n - length b) rest)"
      using less.IH [OF _ b(4)] by blast
    then show ?thesis
      using False b by (simp add: read_exact.simps [of n src])
  qed (use less in simp)
qed

lemma read_exact_short:
  assumes "delivers src bs" and "length bs < n"
  shows "read_exact n src = (Inl ''early eof'', [])"
  using assms
proof (induction n arbitrary: src bs rule: less_induct)
  case (less n)
  show ?case
  proof (cases "bs = []")
    case True
    then have "read_some n src = (Inr [], [])"
      using less.prems(1) read_some_closed by blast
    then show ?thesis
      using less.prems(2) by (simp add: read_exact.simps [of n src])
  next
    case False
    obtain b rest src1 where b: "read_some n src = (Inr b, src1)" "b \<noteq> []" "bs = b @ rest"
        "delivers src1 rest" "length b \<le> n"
      by (rule read_some_delivers [OF less.prems(1) less_le_trans [OF zero_less_Suc Suc_leI [OF less.prems(2)]] False])
    have "0 < length b" using b(2) by simp
    then have "n - length b < n" and "length rest < n - length b"
      using less.prems(2) b(3) by auto
    then have "read_exact (n - length b) src1 = (Inl ''early eof'', [])"
      using less.IH [OF _ b(4)] by blast
    then show ?thesis
      using b less.prems(2) by (simp add: read_exact.simps [of n src])
  qed
qed

text \<open>Enough bytes are read off the source, whatever comes after them.\<close>

lemma read_some_limit: "read_some limit src = (Inr bs, src') \<Longrightarrow> length bs \<le> limit"
  by (induction limit src rule: read_some.induct) (auto split: if_splits)

lemma read_exact_length:
  "read_exact n src = (Inr bs, src') \<Longrightarrow> length bs = n"
proof (induction n src arbitrary: bs src' rule: read_exact.induct)
  case (1 n src)
  show ?case
  proof (cases "n = 0")
    case False
    obtain r src1 where rd: "read_some n src = (r, src1)" by fastforce
    with 1(2) False obtain b where r: "r = Inr b" and "b \<noteq> []"
      by (cases r) (auto simp: read_exact.simps [of n src] split: if_splits)
    have "length b \<le> n"
      by (rule read_some_limit [OF rd [unfolded r]])
    moreover obtain rest where "read_exact (n - length b) src1 = (Inr rest, src')" "bs = b @ rest"
      using 1(2) False rd r \<open>b \<noteq> []\<close> by (auto simp: read_exact.simps [of n src] and_then_st_eq_Inr)
    moreover have "length rest = n - length b"
      by (rule 1(1) [OF False rd [symmetric] r \<open>b \<noteq> []\<close> calculation(2)])
    ultimately show ?thesis
      by simp
  qed (use 1 in simp)
qed

section \<open>The head of a message\<close>

definition head_limit :: nat where
  "head_limit = 32 * 1024"

function read_head_from :: "bytes \<Rightarrow> source \<Rightarrow> (crebro_error + http_head) \<times> source" where
  "read_head_from bs src =
     (case read_some 1024 src of
        (Inl e, src) \<Rightarrow> (Inl (crebro_error.Gateway (''failed to read HTTP head: '' @ e)), src)
      | (Inr buf, src) \<Rightarrow>
          (if buf = [] then (Inl (crebro_error.Gateway ''connection closed before HTTP head completed''), src)
           else if head_limit < length (bs @ buf)
           then (Inl (crebro_error.Gateway ''HTTP request head exceeded proxy limit''), src)
           else case find_header_end (bs @ buf) of
             Some i \<Rightarrow> (Inr \<lparr>hh_bytes = bs @ buf, hh_delimiter_start = i\<rparr>, src)
           | None \<Rightarrow> read_head_from (bs @ buf) src))"
  by pat_completeness auto
termination
  by (relation "measure (\<lambda>(bs, src). source_size src)") (auto dest!: sym [THEN read_some_size_less])

declare read_head_from.simps [simp del]

definition read_http_head :: "source \<Rightarrow> (crebro_error + http_head) \<times> source" where
  "read_http_head src = read_head_from [] src"

text \<open>\<^verbatim>\<open>read_remaining_body\<close>, which only the head's own count makes read.\<close>

definition read_remaining_body :: "http_head \<Rightarrow> source \<Rightarrow> (crebro_error + http_head) \<times> source" where
  "read_remaining_body h src =
     (let n = (case content_length (head_without_delimiter h) of None \<Rightarrow> 0 | Some n \<Rightarrow> n);
          buffered = length (extra_bytes h)
      in if buffered < n
         then (case read_exact (n - buffered) src of
             (Inl e, src) \<Rightarrow> (Inl (crebro_error.Gateway (''failed to read HTTP message body: '' @ e)), src)
           | (Inr body, src) \<Rightarrow> (Inr (h\<lparr>hh_bytes := hh_bytes h @ body\<rparr>), src))
         else (Inr h, src))"

section \<open>What the readers find\<close>

lemma find_header_end_bound: "find_header_end bs = Some i \<Longrightarrow> i + 4 \<le> length bs"
  using str_find_bound [of "CRLF @ CRLF" bs i] by (simp add: find_header_end_def)

lemma find_header_end_append: "find_header_end a = Some i \<Longrightarrow> find_header_end (a @ b) = Some i"
  unfolding find_header_end_def by (rule str_find_append)

lemma find_header_end_late:
  "find_header_end a = None \<Longrightarrow> find_header_end (a @ b) = Some i \<Longrightarrow> length a < i + 4"
  using str_find_append_late [of "CRLF @ CRLF" a b i] by (simp add: find_header_end_def)

text \<open>The head that is read is the one in front of the first empty line, for every way to cut the
  bytes into reads; nothing is lost between the head's own bytes and the rest of the source.\<close>

definition head_read :: "bytes \<Rightarrow> nat \<Rightarrow> http_head \<Rightarrow> source \<Rightarrow> bool" where
  "head_read bs i h src \<longleftrightarrow>
     hh_delimiter_start h = i \<and> i + 4 \<le> length (hh_bytes h) \<and>
     (\<exists>rest. bs = hh_bytes h @ rest \<and> delivers src rest)"

lemma head_readD:
  assumes "head_read bs i h src"
  shows "head_without_delimiter h = take i bs"
    "\<exists>rest. drop (i + 4) bs = extra_bytes h @ rest \<and> delivers src rest"
  using assms by (auto simp: head_read_def head_without_delimiter_def extra_bytes_def)

lemma read_head_from_finds:
  assumes "delivers src rest" and "find_header_end bs = None"
    and "find_header_end (bs @ rest) = Some i" and "i + 4 + 1024 \<le> head_limit"
  shows "\<exists>h src'. read_head_from bs src = (Inr h, src') \<and> head_read (bs @ rest) i h src'"
  using assms
proof (induction bs src arbitrary: rest rule: read_head_from.induct)
  case (1 bs src)
  have "rest \<noteq> []"
    using 1(3,4) by auto
  have "(0 :: nat) < 1024" by simp
  obtain b rest1 src1 where b: "read_some 1024 src = (Inr b, src1)" "b \<noteq> []" "rest = b @ rest1"
      "delivers src1 rest1" "length b \<le> 1024"
    by (rule read_some_delivers [OF 1(2) \<open>0 < 1024\<close> \<open>rest \<noteq> []\<close>])
  have "length bs < i + 4"
    by (rule find_header_end_late [OF 1(3,4)])
  then have fits: "length (bs @ b) \<le> head_limit"
    using b(5) 1(5) by simp
  show ?case
  proof (cases "find_header_end (bs @ b)")
    case None
    have "\<exists>h src'. read_head_from (bs @ b) src1 = (Inr h, src') \<and> head_read ((bs @ b) @ rest1) i h src'"
      by (rule 1(1) [OF b(1) [symmetric] refl b(2) _ None b(4) None _ 1(5)])
        (use fits 1(4) b(3) in auto)
    then show ?thesis
      using b fits None by (simp add: read_head_from.simps [of bs src])
  next
    case (Some j)
    then have "j = i"
      using find_header_end_append [OF Some, of rest1] 1(4) b(3) by simp
    then show ?thesis
      using b fits Some find_header_end_bound [OF Some]
      by (simp add: read_head_from.simps [of bs src] head_read_def)
  qed
qed

lemma read_http_head_finds:
  assumes "delivers src bs" and "find_header_end bs = Some i" and "i + 4 + 1024 \<le> head_limit"
  shows "\<exists>h src'. read_http_head src = (Inr h, src') \<and> head_read bs i h src'"
  using read_head_from_finds [of src bs "[]" i] assms
  by (simp add: read_http_head_def find_header_end_def)

text \<open>It never returns a head longer than the limit, and a returned head ends at an empty line.\<close>

lemma read_head_from_bounds:
  assumes "read_head_from bs src = (Inr h, src')" and "find_header_end bs = None"
  shows "length (hh_bytes h) \<le> head_limit \<and> find_header_end (hh_bytes h) = Some (hh_delimiter_start h)"
  using assms
proof (induction bs src rule: read_head_from.induct)
  case (1 bs src)
  obtain r src1 where rd: "read_some 1024 src = (r, src1)" by fastforce
  then obtain b where r: "r = Inr b" and "b \<noteq> []" and fits: "\<not> head_limit < length (bs @ b)"
    using 1(2) by (cases r) (auto simp: read_head_from.simps [of bs src] split: if_splits)
  show ?case
  proof (cases "find_header_end (bs @ b)")
    case None
    then have "read_head_from (bs @ b) src1 = (Inr h, src')"
      using 1(2) rd r \<open>b \<noteq> []\<close> fits by (simp add: read_head_from.simps [of bs src])
    then show ?thesis
      using 1(1) [OF rd [symmetric] r \<open>b \<noteq> []\<close> fits None] None by blast
  next
    case (Some i)
    then show ?thesis
      using 1(2) rd r \<open>b \<noteq> []\<close> fits by (auto simp: read_head_from.simps [of bs src])
  qed
qed

text \<open>The loop ends within as many reads as the limit has bytes: what the connection would send after
  those is never looked at.\<close>

lemma read_some_append:
  "src \<noteq> [] \<Longrightarrow> read_some limit (src @ later) = apsnd (\<lambda>rest. rest @ later) (read_some limit src)"
  by (cases src rule: source_size.cases) simp_all

lemma read_some_count:
  assumes "read_some limit src = (Inr bs, src')" and "bs \<noteq> []" and "0 < limit"
  shows "length src \<le> length bs + length src'"
  using assms by (induction limit src rule: read_some.induct) (auto split: if_splits simp: Suc_le_eq)

lemma read_head_from_append:
  assumes "length bs \<le> head_limit" and "head_limit < length bs + length src"
  shows "read_head_from bs (src @ later) = apsnd (\<lambda>rest. rest @ later) (read_head_from bs src)"
  using assms
proof (induction bs src rule: read_head_from.induct)
  case (1 bs src)
  obtain r src1 where rd: "read_some 1024 src = (r, src1)" by fastforce
  have "src \<noteq> []"
    using 1(2,3) by auto
  then have later: "read_some 1024 (src @ later) = (r, src1 @ later)"
    using rd by (simp add: read_some_append)
  show ?case
  proof (cases "\<exists>b. r = Inr b \<and> b \<noteq> [] \<and> \<not> head_limit < length (bs @ b) \<and> find_header_end (bs @ b) = None")
    case True
    then obtain b where b: "r = Inr b" "b \<noteq> []" "\<not> head_limit < length (bs @ b)" "find_header_end (bs @ b) = None"
      by blast
    have "head_limit < length (bs @ b) + length src1"
      using read_some_count [OF rd [unfolded b(1)] b(2)] 1(3) by simp
    then show ?thesis
      using 1(1) [OF rd [symmetric] b(1-4)] b(3) rd later b
      by (simp add: read_head_from.simps [of bs src] read_head_from.simps [of bs "src @ later"])
  next
    case False
    then show ?thesis
      using rd later
      by (auto simp: read_head_from.simps [of bs src] read_head_from.simps [of bs "src @ later"]
          split: sum.splits option.splits)
  qed
qed

lemma read_remaining_body_reads:
  assumes rd: "head_read bs i h src"
    and n: "content_length (take i bs) = Some n" and "i + 4 + n \<le> length bs"
    and short: "length (hh_bytes h) \<le> i + 4 + n"
  shows "\<exists>src'. read_remaining_body h src =
      (Inr \<lparr>hh_bytes = take (i + 4 + n) bs, hh_delimiter_start = i\<rparr>, src') \<and> delivers src' (drop (i + 4 + n) bs)"
proof -
  have head: "content_length (head_without_delimiter h) = Some n"
    using head_readD(1) [OF rd] n by simp
  obtain rest where rest: "bs = hh_bytes h @ rest" "delivers src rest" and i: "hh_delimiter_start h = i"
      "i + 4 \<le> length (hh_bytes h)"
    using rd by (auto simp: head_read_def)
  have len: "length (extra_bytes h) = length (hh_bytes h) - (i + 4)"
    using i by (simp add: extra_bytes_def)
  define k where "k = i + 4 + n - length (hh_bytes h)"
  have k: "k = n - length (extra_bytes h)" "k \<le> length rest"
    using len i short assms(3) rest(1) by (auto simp: k_def)
  have taken: "take (i + 4 + n) bs = hh_bytes h @ take k rest" "drop (i + 4 + n) bs = drop k rest"
    using short rest(1) by (simp_all add: k_def)
  have h: "h\<lparr>hh_bytes := x\<rparr> = \<lparr>hh_bytes = x, hh_delimiter_start = i\<rparr>" for x
    using i by (cases h) simp
  show ?thesis
  proof (cases "length (extra_bytes h) < n")
    case True
    obtain src' where "read_exact k src = (Inr (take k rest), src')" "delivers src' (drop k rest)"
      using read_exact_enough [OF rest(2) k(2)] by blast
    then show ?thesis
      using True head k(1) taken h by (simp add: read_remaining_body_def Let_def)
  next
    case False
    then have "k = 0" using k(1) by simp
    then show ?thesis
      using False head h [of "hh_bytes h"] rest(2) taken by (simp add: read_remaining_body_def Let_def)
  qed
qed

end
