(* ===== verification/Fragment_Restorer.thy ===== *)
theory Fragment_Restorer
  imports Restore Json_Value
begin

text \<open>
  \<^verbatim>\<open>PlaceholderFragmentRestorer\<close>, of which \<^verbatim>\<open>src/proxy/server.rs\<close> and
  \<^verbatim>\<open>src/proxy/websocket.rs\<close> hold one copy each: the text of a streamed answer arrives in
  fragments (one per server-sent event or message) and a placeholder may be cut by them. The
  copies differ in the word \<open>what\<close> of an error message.
\<close>

section \<open>The restorer\<close>

record fragment_restorer =
  fr_matcher :: placeholder_matcher
  fr_placeholders :: "bytes list"
  fr_pending :: bytes

definition fragment_restorer_new :: "matcher_lib \<Rightarrow> registry \<Rightarrow> crebro_error + fragment_restorer" where
  "fragment_restorer_new lib r =
     and_then (matcher_new lib r) (\<lambda>m.
       Inr \<lparr>fr_matcher = m, fr_placeholders = map fst (hash_order lib (reg_placeholders r)), fr_pending = []\<rparr>)"

text \<open>The longest proper prefix of a placeholder, of two bytes or more, that the text ends with.\<close>

definition hold_for :: "bytes \<Rightarrow> bytes \<Rightarrow> nat option" where
  "hold_for bs placeholder =
     List.find (\<lambda>len. drop (length bs - len) bs = take len placeholder)
       (rev [2..<Suc (min (length bs) (length placeholder - 1))])"

fun placeholder_prefix_suffix_len_from :: "nat \<Rightarrow> bytes \<Rightarrow> bytes list \<Rightarrow> nat" where
  "placeholder_prefix_suffix_len_from best bs [] = best"
| "placeholder_prefix_suffix_len_from best bs (placeholder # placeholders) =
     placeholder_prefix_suffix_len_from
       (case hold_for bs placeholder of None \<Rightarrow> best | Some len \<Rightarrow> max best len) bs placeholders"

definition placeholder_prefix_suffix_len :: "bytes \<Rightarrow> bytes list \<Rightarrow> nat" where
  "placeholder_prefix_suffix_len = placeholder_prefix_suffix_len_from 0"

fun restore_all ::
  "crypto \<Rightarrow> registry \<Rightarrow> bytes \<Rightarrow> bytes \<Rightarrow> nat \<Rightarrow> placeholder_match list \<Rightarrow> crebro_error + bytes" where
  "restore_all c r bs out cursor [] = Inr (out @ drop cursor bs)"
| "restore_all c r bs out cursor (m # ms) =
     (if mt_start m < cursor then restore_all c r bs out cursor ms
      else and_then (restore_to_vec c r (mt_id m) (out @ sub_bytes bs cursor (mt_start m)))
        (\<lambda>out. restore_all c r bs out (mt_end m) ms))"

definition restore_complete_placeholders ::
  "crypto \<Rightarrow> registry \<Rightarrow> fragment_restorer \<Rightarrow> bytes \<Rightarrow> crebro_error + bytes" where
  "restore_complete_placeholders c r fr bs =
     (let matches = find_in (fr_matcher fr) bs
      in if matches = [] then Inr bs else restore_all c r bs [] 0 matches)"

definition checked_text :: "bytes \<Rightarrow> bytes \<Rightarrow> crebro_error + bytes" where
  "checked_text what bs =
     (if utf8_valid bs then Inr bs
      else Inl (crebro_error.Restore (''restored '' @ what @ '' text is not UTF-8'')))"

definition fragment_push_text ::
  "crypto \<Rightarrow> bytes \<Rightarrow> bytes \<Rightarrow> registry \<Rightarrow> fragment_restorer \<Rightarrow>
   (crebro_error + bytes) \<times> fragment_restorer" where
  "fragment_push_text c what tx r fr =
     (if fr_placeholders fr = [] then (Inr tx, fr)
      else
        (let combined = fr_pending fr @ tx;
             fr = fr\<lparr>fr_pending := []\<rparr>;
             hold_len = placeholder_prefix_suffix_len combined (fr_placeholders fr);
             safe_len = length combined - hold_len
         in and_then_st (restore_complete_placeholders c r fr (take safe_len combined), fr)
              (\<lambda>restored fr.
                (checked_text what restored, fr\<lparr>fr_pending := fr_pending fr @ drop safe_len combined\<rparr>))))"

definition fragment_finish ::
  "crypto \<Rightarrow> bytes \<Rightarrow> registry \<Rightarrow> fragment_restorer \<Rightarrow> crebro_error + bytes" where
  "fragment_finish c what r fr =
     and_then (restore_complete_placeholders c r (fr\<lparr>fr_pending := []\<rparr>) (fr_pending fr)) (checked_text what)"

text \<open>\<^verbatim>\<open>restore_string_without_pending\<close>, of the WebSocket copy.\<close>

definition restore_string_without_pending ::
  "crypto \<Rightarrow> bytes \<Rightarrow> bytes \<Rightarrow> registry \<Rightarrow> fragment_restorer \<Rightarrow> crebro_error + bytes" where
  "restore_string_without_pending c what tx r fr =
     and_then (restore_complete_placeholders c r fr tx) (checked_text what)"

section \<open>What is held back\<close>

lemma find_rev_upt:
  "List.find P (rev [a..<b]) = Some n \<longleftrightarrow> a \<le> n \<and> n < b \<and> P n \<and> (\<forall>m. n < m \<and> m < b \<longrightarrow> \<not> P m)"
proof (induction b)
  case (Suc b)
  show ?case
    using Suc by (auto simp: less_Suc_eq)
qed simp

definition held :: "bytes \<Rightarrow> bytes \<Rightarrow> nat \<Rightarrow> bool" where
  "held bs p n \<longleftrightarrow> 2 \<le> n \<and> n \<le> length bs \<and> n < length p \<and> drop (length bs - n) bs = take n p"

lemma held_range:
  "held bs p n \<longleftrightarrow> 2 \<le> n \<and> n < Suc (min (length bs) (length p - 1)) \<and>
     drop (length bs - n) bs = take n p"
  unfolding held_def by (cases p) auto

lemma hold_for_Some: "hold_for bs p = Some n \<longleftrightarrow> held bs p n \<and> (\<forall>m. held bs p m \<longrightarrow> m \<le> n)"
proof
  assume "hold_for bs p = Some n"
  then show "held bs p n \<and> (\<forall>m. held bs p m \<longrightarrow> m \<le> n)"
    unfolding hold_for_def find_rev_upt held_range by (meson not_less)
next
  assume h: "held bs p n \<and> (\<forall>m. held bs p m \<longrightarrow> m \<le> n)"
  then have "\<not> held bs p m" if "n < m" for m
    using that by (meson not_less)
  then show "hold_for bs p = Some n"
    using h unfolding hold_for_def find_rev_upt held_range by (meson less_imp_le order_trans)
qed

lemma hold_for_None: "hold_for bs p = None \<longleftrightarrow> (\<forall>n. \<not> held bs p n)"
  unfolding hold_for_def held_range find_None_iff set_rev set_upt atLeastLessThan_iff by blast

lemma prefix_suffix_len_from:
  defines "len \<equiv> \<lambda>best bs ps. placeholder_prefix_suffix_len_from best bs ps"
  shows "(len best bs ps = best \<or> (\<exists>p \<in> set ps. held bs p (len best bs ps))) \<and>
    best \<le> len best bs ps \<and> (\<forall>p \<in> set ps. \<forall>n. held bs p n \<longrightarrow> n \<le> len best bs ps)"
  unfolding len_def
proof (induction best bs ps rule: placeholder_prefix_suffix_len_from.induct)
  case (2 best bs p ps)
  show ?case
  proof (cases "hold_for bs p")
    case None
    then have "\<not> held bs p n" for n
      by (simp add: hold_for_None)
    then show ?thesis
      using 2 None by auto
  next
    case (Some n)
    then have "held bs p n" "\<forall>m. held bs p m \<longrightarrow> m \<le> n"
      by (simp_all add: hold_for_Some)
    then show ?thesis
      using 2 Some by (fastforce simp: max_def split: if_splits)
  qed
qed simp

lemma prefix_suffix_len:
  "placeholder_prefix_suffix_len bs ps = 0 \<or> (\<exists>p \<in> set ps. held bs p (placeholder_prefix_suffix_len bs ps))"
  "p \<in> set ps \<Longrightarrow> held bs p n \<Longrightarrow> n \<le> placeholder_prefix_suffix_len bs ps"
  using prefix_suffix_len_from [of 0 bs ps] unfolding placeholder_prefix_suffix_len_def by auto

section \<open>Whole texts\<close>

lemma restore_all_matches:
  "\<forall>m \<in> set ms. mt_start m < length bs \<Longrightarrow>
   restore_all c r bs out cursor ms =
     and_then (restore_matches c r bs (length bs) out cursor commit ms) (\<lambda>(out, cursor, _).
       Inr (out @ drop cursor bs))"
proof (induction ms arbitrary: out cursor commit)
  case (Cons m ms)
  then show ?case
    by (cases "restore_to_vec c r (mt_id m) (out @ sub_bytes bs cursor (mt_start m))") auto
qed simp

lemma restore_complete_text:
  assumes m: "matcher_for c r table (fr_matcher fr)" and tab: "brace.table_ok table"
  shows "restore_complete_placeholders c r fr bs = Inr (restore_text table bs)"
proof -
  let ?ms = "find_in (fr_matcher fr) bs"
  have cov: "covers c r table bs 0 ?ms"
    using m by (simp add: matcher_for_def)
  show ?thesis
  proof (cases "?ms = []")
    case True
    then have "pattern_free table (sub_bytes bs 0 (length bs))"
      using covers_free [OF cov _ _ tab, of "length bs"] by simp
    then show ?thesis
      using True by (simp add: restore_complete_placeholders_def Let_def restore_text_free)
  next
    case False
    obtain out' cursor' commit where R:
      "restore_matches c r bs (length bs) [] 0 (max (length bs) 0) ?ms = Inr (out', cursor', commit)"
      "commit = max (length bs) cursor'" "cursor' \<le> length bs"
      "out' @ (if cursor' < length bs then sub_bytes bs cursor' (length bs) else []) =
        [] @ restore_text table (sub_bytes bs 0 commit)"
      using restore_matches_text [OF cov tab, of "length bs" "[]"] by auto
    have "mt_start x < length bs" if x: "x \<in> set ?ms" for x
    proof -
      obtain p s where p: "(p, s) \<in> set table" "occurs_at p bs (mt_start x)"
        using covers_each [OF cov x] by blast
      then have "p \<noteq> []"
        using brace.table_nonempty [OF tab] by auto
      then show ?thesis
        using occurs_atD(1) [OF p(2)] by (cases p) auto
    qed
    then have "restore_all c r bs [] 0 ?ms = Inr (out' @ drop cursor' bs)"
      using restore_all_matches [of ?ms bs c r "[]" 0 "length bs"] R(1) by simp
    moreover have "out' @ drop cursor' bs = restore_text table bs"
      using R(2-4) by (auto simp: sub_bytes_to_end max_def split: if_splits)
    ultimately show ?thesis
      using False by (simp add: restore_complete_placeholders_def Let_def)
  qed
qed

text \<open>Restoring keeps text valid when the secrets are text.\<close>

definition table_text :: "(bytes \<times> bytes) list \<Rightarrow> bool" where
  "table_text table \<longleftrightarrow> (\<forall>(p, s) \<in> set table. p \<noteq> [] \<and> utf8_valid p \<and> utf8_valid s)"

lemma restore_text_run:
  assumes "table_text table"
  shows "cont_ranges st \<Longrightarrow> utf8_run st bs = Some [] \<Longrightarrow> utf8_run st (restore_text table bs) = Some []"
  using assms
proof (induction table bs arbitrary: st rule: restore_text.induct)
  case (2 table ch cs)
  show ?case
  proof (cases "List.find (\<lambda>(p, s). prefix p (ch # cs)) table")
    case None
    obtain st' where st': "utf8_run st [ch] = Some st'" "utf8_run st' cs = Some []"
      using 2(4) utf8_run_append [of st "[ch]" cs] by (auto split: option.splits)
    have "utf8_run st' (restore_text table cs) = Some []"
      using 2(1) [OF None cont_ranges_run [OF 2(3) st'(1)] st'(2) 2(5)] .
    then show ?thesis
      using None st'(1) utf8_run_append [of st "[ch]" "restore_text table cs"] by simp
  next
    case (Some x)
    obtain p s where x: "x = (p, s)" by (cases x)
    then have ps: "(p, s) \<in> set table" "prefix p (ch # cs)"
      using nth_mem_list_find [OF Some] by auto
    then have valid: "utf8_valid p" "utf8_valid s" "p \<noteq> []"
      using 2(5) by (auto simp: table_text_def)
    then obtain p' where p: "p = ch # p'"
      using ps(2) by (cases p) auto
    then have "\<not> is_continuation ch"
      using valid(1) utf8_valid_head by simp
    then have st: "st = []"
      using utf8_run_boundary [OF 2(3), of ch cs] 2(4) by simp
    obtain rest where rest: "ch # cs = p @ rest" "rest = drop (length p - 1) cs"
      using ps(2) p by (auto simp: prefix_def)
    have "utf8_run [] rest = Some []"
      using 2(4) valid(1) unfolding st rest(1) by (simp add: utf8_valid_def utf8_run_append)
    then have "utf8_run [] (restore_text table rest) = Some []"
      using 2(2) [OF Some x [symmetric], of "[]"] 2(5) by (simp add: rest(2) cont_ranges_def)
    then show ?thesis
      using Some x valid(2) by (simp add: st rest(2) utf8_valid_def utf8_run_append)
  qed
qed simp

lemma restore_text_utf8: "table_text table \<Longrightarrow> utf8_valid bs \<Longrightarrow> utf8_valid (restore_text table bs)"
  using restore_text_run [of table "[]" bs] by (simp add: utf8_valid_def cont_ranges_def)

section \<open>Fragments\<close>

definition fragments_for :: "crypto \<Rightarrow> registry \<Rightarrow> (bytes \<times> bytes) list \<Rightarrow> fragment_restorer \<Rightarrow> bool" where
  "fragments_for c r table fr \<longleftrightarrow>
     matcher_for c r table (fr_matcher fr) \<and> set (fr_placeholders fr) = fst ` set table"

lemma fragment_restorer_new_for:
  assumes "lib_ok lib" and "registry_wf c r" and "hex_lowercase c"
    and run: "fragment_restorer_new lib r = Inr fr"
  shows "fragments_for c r (secret_table c r) fr" "fr_pending fr = []"
proof -
  obtain m where m: "matcher_new lib r = Inr m"
    "fr = \<lparr>fr_matcher = m, fr_placeholders = map fst (hash_order lib (reg_placeholders r)), fr_pending = []\<rparr>"
    using run by (auto simp: fragment_restorer_new_def)
  have "set (hash_order lib (reg_placeholders r)) = set (reg_placeholders r)"
    by (rule mset_eq_setD) (use assms(1) in \<open>simp add: lib_ok_def\<close>)
  moreover have "fst ` set (secret_table c r) = fst ` set (reg_placeholders r)"
    using secret_table_fst [OF assms(2)] by (metis set_map)
  ultimately show "fragments_for c r (secret_table c r) fr"
    using matcher_new_for [OF assms(1-3) m(1)] m(2) by (simp add: fragments_for_def)
  show "fr_pending fr = []"
    using m(2) by simp
qed

text \<open>A cut is clean unless it comes right after the first byte of a placeholder.\<close>

definition clean_cut :: "(bytes \<times> bytes) list \<Rightarrow> bytes \<Rightarrow> bytes \<Rightarrow> bool" where
  "clean_cut table a b \<longleftrightarrow> (\<forall>(p, s) \<in> set table. \<forall>i. occurs_at p (a @ b) i \<longrightarrow> Suc i \<noteq> length a)"

lemma held_starts:
  assumes "held bs p n" and "brace_shape p"
  shows "bs ! (length bs - n) = CHR ''{''" "bs ! Suc (length bs - n) = CHR ''{''"
proof -
  have eq: "bs ! (length bs - n + k) = p ! k" if "k < n" for k
  proof -
    have "drop (length bs - n) bs ! k = take n p ! k"
      using assms(1) by (simp add: held_def)
    then show ?thesis
      using that assms(1) by (simp add: held_def add.commute)
  qed
  have n: "2 \<le> n" "n < length p"
    using assms(1) by (auto simp: held_def)
  then have "p \<noteq> []"
    by auto
  then show "bs ! (length bs - n) = CHR ''{''" "bs ! Suc (length bs - n) = CHR ''{''"
    using eq [of 0] eq [of 1] brace_nth_open [OF assms(2), of 0] brace_nth_open [OF assms(2), of 1] n
    by simp_all
qed

lemma safe_unsplit:
  assumes tab: "brace.table_ok table" and ps: "set ps = fst ` set table" and cut: "clean_cut table b future"
  defines "safe \<equiv> length b - placeholder_prefix_suffix_len b ps"
  shows "unsplit table (take safe b) (drop safe b @ future)"
  unfolding unsplit_def
proof clarify
  fix p s i assume p: "(p, s) \<in> set table" and i: "i < length (take safe b)"
    and o: "occurs_at p (take safe b @ drop safe b @ future) i"
  let ?h = "placeholder_prefix_suffix_len b ps"
  have occ: "occurs_at p (b @ future) i"
    using o by (metis append.assoc append_take_drop_id)
  have brace: "brace_shape p" "4 \<le> length p"
    using tab p brace_length by (auto simp: brace.table_ok_def)
  have isafe: "i < safe" "safe \<le> length b"
    using i by (auto simp: safe_def)
  show "i + length p \<le> length (take safe b)"
  proof (rule ccontr)
    assume "\<not> i + length p \<le> length (take safe b)"
    then have beyond: "safe < i + length p"
      using isafe by simp
    show False
    proof (cases "length b < i + length p")
      case True
      let ?n = "length b - i"
      have "p = drop i b @ take (length p + i - length b) future"
        using occ isafe True by (auto simp: occurs_at_def sub_bytes_def)
      then have "drop i b = take ?n p"
        by (metis append_eq_conv_conj length_drop)
      moreover have "Suc i \<noteq> length b"
        using cut p occ by (auto simp: clean_cut_def)
      ultimately have "held b p ?n"
        using isafe True by (auto simp: held_def)
      then have "?n \<le> ?h"
        using prefix_suffix_len(2) ps p by force
      then show False
        using isafe by (simp add: safe_def)
    next
      case False
      then have occb: "occurs_at p b i"
        using occ by (auto simp: occurs_at_def sub_bytes_def)
      have "?h \<noteq> 0"
        using False beyond by (auto simp: safe_def)
      then obtain q where q: "q \<in> set ps" "held b q ?h"
        using prefix_suffix_len(1) [of b ps] by auto
      have "brace_shape q"
        using q(1) ps tab by (auto simp: brace.table_ok_def)
      note first = held_starts [OF q(2) this, folded safe_def]
      have "p ! (safe - i) = CHR ''{''"
        using occurs_at_nth [OF occb, of "safe - i"] first(1) beyond isafe by simp
      then have "safe = Suc i"
        using brace_nth_open [OF brace(1), of "safe - i"] beyond isafe by auto
      then have "p ! 2 = CHR ''{''"
        using occurs_at_nth [OF occb, of 2] first(2) brace(2) by simp
      then show False
        using brace_nth_open [OF brace(1), of 2] brace(2) by simp
    qed
  qed
qed

lemma safe_utf8:
  assumes tab: "brace.table_ok table" and ps: "set ps = fst ` set table" and "utf8_valid b"
  defines "safe \<equiv> length b - placeholder_prefix_suffix_len b ps"
  shows "utf8_valid (take safe b)" "utf8_valid (drop safe b)"
proof -
  have "is_char_boundary b safe"
  proof (cases "placeholder_prefix_suffix_len b ps = 0")
    case False
    then obtain q where q: "q \<in> set ps" "held b q (placeholder_prefix_suffix_len b ps)"
      using prefix_suffix_len(1) [of b ps] by auto
    have "brace_shape q"
      using q(1) ps tab by (auto simp: brace.table_ok_def)
    note first = held_starts [OF q(2) this, folded safe_def]
    then have "\<not> is_continuation (b ! safe)"
      by (simp add: is_continuation_def)
    moreover have "safe < length b"
      using False q(2) by (auto simp: safe_def held_def)
    ultimately show ?thesis
      by (simp add: is_char_boundary_def)
  qed (simp add: safe_def is_char_boundary_def)
  then show "utf8_valid (take safe b)" "utf8_valid (drop safe b)"
    using utf8_valid_at_boundary [OF assms(3)] by auto
qed

text \<open>All texts of a stream, then the end of it.\<close>

fun restore_fragments ::
  "crypto \<Rightarrow> bytes \<Rightarrow> registry \<Rightarrow> bytes list \<Rightarrow> fragment_restorer \<Rightarrow> crebro_error + bytes" where
  "restore_fragments c what r [] fr = fragment_finish c what r fr"
| "restore_fragments c what r (tx # txs) fr =
     (case fragment_push_text c what tx r fr of
        (Inl err, fr) \<Rightarrow> Inl err
      | (Inr out, fr) \<Rightarrow> and_then (restore_fragments c what r txs fr) (\<lambda>rest. Inr (out @ rest)))"

lemma fragment_push_text_spec:
  assumes fr: "fragments_for c r table fr" and tab: "brace.table_ok table" "table_text table"
    and tx: "utf8_valid (fr_pending fr @ tx)" and ne: "table \<noteq> []"
  defines "b \<equiv> fr_pending fr @ tx"
  defines "safe \<equiv> length b - placeholder_prefix_suffix_len b (fr_placeholders fr)"
  shows "fragment_push_text c what tx r fr =
    (Inr (restore_text table (take safe b)), fr\<lparr>fr_pending := drop safe b\<rparr>)"
proof -
  have ps: "set (fr_placeholders fr) = fst ` set table"
    using fr by (simp add: fragments_for_def)
  have "utf8_valid (restore_text table (take safe b))"
    using restore_text_utf8 [OF tab(2)] safe_utf8(1) [OF tab(1) ps, of b] tx by (simp add: b_def safe_def)
  moreover have "restore_complete_placeholders c r (fr\<lparr>fr_pending := []\<rparr>) (take safe b) =
      Inr (restore_text table (take safe b))"
    using restore_complete_text [OF _ tab(1), of c r "fr\<lparr>fr_pending := []\<rparr>"] fr by (simp add: fragments_for_def)
  moreover have "fr_placeholders fr \<noteq> []"
    using ps ne by auto
  ultimately show ?thesis
    by (simp add: fragment_push_text_def Let_def checked_text_def flip: b_def safe_def)
qed

text \<open>With clean cuts only, the fragments are restored as their concatenation.\<close>

definition clean_cuts :: "(bytes \<times> bytes) list \<Rightarrow> bytes \<Rightarrow> bytes list \<Rightarrow> bool" where
  "clean_cuts table pending txs \<longleftrightarrow>
     (\<forall>us vs. txs = us @ vs \<and> us \<noteq> [] \<longrightarrow> clean_cut table (pending @ concat us) (concat vs))"

lemma clean_cut_drop:
  assumes "clean_cut table (a @ b) d" shows "clean_cut table (drop k a @ b) d"
  unfolding clean_cut_def
proof clarify
  fix p s i assume p: "(p, s) \<in> set table" and o: "occurs_at p ((drop k a @ b) @ d) i"
    and i: "Suc i = length (drop k a @ b)"
  have "occurs_at p (take k a @ ((drop k a @ b) @ d)) (length (take k a) + i)"
    using o by (simp only: occurs_at_append_left)
  moreover have "take k a @ ((drop k a @ b) @ d) = (a @ b) @ d"
    by (metis append.assoc append_take_drop_id)
  ultimately have "occurs_at p ((a @ b) @ d) (length (take k a) + i)"
    by metis
  then have "Suc (length (take k a) + i) \<noteq> length (a @ b)"
    using assms p unfolding clean_cut_def by (metis (mono_tags, lifting) case_prodD)
  then show False
    using i by (cases "k \<le> length a") auto
qed

lemma clean_cuts_step:
  assumes "clean_cuts table pending (tx # txs)"
  shows "clean_cut table (pending @ tx) (concat txs)" "clean_cuts table (drop k (pending @ tx)) txs"
proof -
  show "clean_cut table (pending @ tx) (concat txs)"
    using assms by (auto simp: clean_cuts_def dest: spec [of _ "[tx]"])
  show "clean_cuts table (drop k (pending @ tx)) txs"
    unfolding clean_cuts_def
  proof clarify
    fix us vs assume "us \<noteq> []" "txs = us @ vs"
    then have "clean_cut table (pending @ concat (tx # us)) (concat vs)"
      using assms by (metis append_Cons clean_cuts_def list.distinct(1))
    then show "clean_cut table (drop k (pending @ tx) @ concat us) (concat vs)"
      using clean_cut_drop [of table "pending @ tx" "concat us"] by simp
  qed
qed

lemma restore_fragments_empty:
  assumes "fr_placeholders fr = []" and "fr_pending fr = []" and "fragments_for c r [] fr"
    and "\<forall>tx \<in> set txs. utf8_valid tx"
  shows "restore_fragments c what r txs fr = Inr (concat txs)"
  using assms(4)
proof (induction txs)
  case Nil
  have "brace.table_ok []"
    by (simp add: brace.table_ok_def)
  then show ?case
    using restore_complete_text [of c r "[]" "fr\<lparr>fr_pending := []\<rparr>" "[]"] assms(2,3)
    by (simp add: fragment_finish_def checked_text_def fragments_for_def)
qed (simp add: fragment_push_text_def assms)

lemma restore_fragments_text:
  assumes tab: "brace.table_ok table" "table_text table" and "table \<noteq> []"
  shows "fragments_for c r table fr \<Longrightarrow> utf8_valid (fr_pending fr) \<Longrightarrow> (\<forall>tx \<in> set txs. utf8_valid tx) \<Longrightarrow>
    clean_cuts table (fr_pending fr) txs \<Longrightarrow>
    restore_fragments c what r txs fr = Inr (restore_text table (fr_pending fr @ concat txs))"
proof (induction txs arbitrary: fr)
  case Nil
  then show ?case
    using restore_complete_text [OF _ tab(1), of c r "fr\<lparr>fr_pending := []\<rparr>"] restore_text_utf8 [OF tab(2)]
    by (simp add: fragment_finish_def checked_text_def fragments_for_def)
next
  case (Cons tx txs)
  define b where "b = fr_pending fr @ tx"
  define safe where "safe = length b - placeholder_prefix_suffix_len b (fr_placeholders fr)"
  let ?fr = "fr\<lparr>fr_pending := drop safe b\<rparr>"
  have ps: "set (fr_placeholders fr) = fst ` set table"
    using Cons.prems(1) by (simp add: fragments_for_def)
  have utf8: "utf8_valid b"
    using Cons.prems(2,3) by (auto simp: b_def)
  note cuts = clean_cuts_step [OF Cons.prems(4), folded b_def]
  have push: "fragment_push_text c what tx r fr = (Inr (restore_text table (take safe b)), ?fr)"
    by (rule fragment_push_text_spec [OF Cons.prems(1) tab utf8 [unfolded b_def] assms(3), folded b_def, folded safe_def])
  have "restore_fragments c what r txs ?fr = Inr (restore_text table (drop safe b @ concat txs))"
    using Cons.IH [of ?fr] Cons.prems(1,3) safe_utf8(2) [OF tab(1) ps utf8, folded safe_def] cuts(2) [of safe]
    by (simp add: fragments_for_def)
  moreover have "unsplit table (take safe b) (drop safe b @ concat txs)"
    by (rule safe_unsplit [OF tab(1) ps cuts(1), folded safe_def])
  then have "restore_text table (take safe b) @ restore_text table (drop safe b @ concat txs) =
      restore_text table (take safe b @ drop safe b @ concat txs)"
    using restore_text_append brace.table_nonempty [OF tab(1)] by metis
  moreover have "take safe b @ drop safe b @ concat txs = fr_pending fr @ concat (tx # txs)"
    by (metis append.assoc append_take_drop_id b_def concat.simps(2))
  ultimately show ?case
    by (simp add: push)
qed

section \<open>A cut that is not clean\<close>

text \<open>A placeholder cut right after its first byte comes out as it went in.\<close>

lemma brace_tail_free:
  assumes tab: "brace.table_ok table" and p: "brace_shape p"
  shows "pattern_free table (take 1 p)" "pattern_free table (drop 1 p)"
proof -
  have len: "4 \<le> length q" if "(q, s) \<in> set table" for q s
    using that tab brace_length by (auto simp: brace.table_ok_def)
  show "pattern_free table (take 1 p)"
    unfolding pattern_free_def occurs_in_def using len occurs_atD(1) by fastforce
  show "pattern_free table (drop 1 p)"
    unfolding pattern_free_def
  proof clarify
    fix q s assume q: "(q, s) \<in> set table" and "occurs_in q (drop 1 p)"
    then obtain i where o: "occurs_at q (drop 1 p) i"
      by (auto simp: occurs_in_def)
    have "occurs_at q (take 1 p @ drop 1 p) (length (take 1 p) + i)"
      using o by (simp only: occurs_at_append_left)
    moreover have "length (take 1 p) + i = Suc i"
      using brace_length [OF p] by simp
    ultimately have "occurs_at q p (Suc i)"
      by (simp only: append_take_drop_id)
    moreover have "brace_shape q"
      using q tab by (auto simp: brace.table_ok_def)
    ultimately have "0 + length p \<le> Suc i"
      using brace_apart [OF p _ \<open>brace_shape q\<close>, of p 0 "Suc i"] by (simp add: occurs_at_0)
    then show False
      using occurs_atD(1) [OF \<open>occurs_at q p (Suc i)\<close>] len [OF q] by simp
  qed
qed

lemma no_hold:
  assumes tab: "brace.table_ok table" and ps: "set ps = fst ` set table"
    and none: "\<And>i. Suc i < length b \<Longrightarrow> \<not> (b ! i = CHR ''{'' \<and> b ! Suc i = CHR ''{'')"
  shows "placeholder_prefix_suffix_len b ps = 0"
proof (rule ccontr)
  assume "placeholder_prefix_suffix_len b ps \<noteq> 0"
  then obtain q where q: "q \<in> set ps" "held b q (placeholder_prefix_suffix_len b ps)"
    using prefix_suffix_len(1) [of b ps] by auto
  have "brace_shape q"
    using q(1) ps tab by (auto simp: brace.table_ok_def)
  moreover have "Suc (length b - placeholder_prefix_suffix_len b ps) < length b"
    using q(2) by (auto simp: held_def)
  ultimately show False
    using held_starts [OF q(2)] none [of "length b - placeholder_prefix_suffix_len b ps"] by blast
qed

lemma first_byte_cut:
  assumes fr: "fragments_for c r table fr" "fr_pending fr = []"
    and tab: "brace.table_ok table" "table_text table" and p: "(p, s) \<in> set table"
  shows "restore_fragments c what r [take 1 p, drop 1 p] fr = Inr p"
proof -
  have ps: "set (fr_placeholders fr) = fst ` set table" and ne: "table \<noteq> []"
    using fr p by (auto simp: fragments_for_def)
  have brace: "brace_shape p" and utf8: "utf8_valid p"
    using tab p by (auto simp: brace.table_ok_def table_text_def)
  have p1: "take 1 p = [CHR ''{'']"
    using brace by (auto simp: brace_shape_def)
  then have "utf8_valid (take 1 p)"
    by (intro utf8_valid_ascii) auto
  then have utf8s: "utf8_valid (take 1 p)" "utf8_valid (drop 1 p)"
    using utf8 utf8_valid_append_iff [of "take 1 p" "drop 1 p"] by simp_all
  have "placeholder_prefix_suffix_len (take 1 p) (fr_placeholders fr) = 0"
    by (rule no_hold [OF tab(1) ps]) (simp add: p1)
  then have 1: "fragment_push_text c what (take 1 p) r fr = (Inr (take 1 p), fr)"
    using fragment_push_text_spec [OF fr(1) tab, of "take 1 p"] fr(2) ne utf8s(1) brace_tail_free(1) [OF tab(1) brace]
      brace_length [OF brace] by (simp add: restore_text_free min_absorb2)
  have "placeholder_prefix_suffix_len (drop 1 p) (fr_placeholders fr) = 0"
  proof (rule no_hold [OF tab(1) ps])
    fix i assume "Suc i < length (drop 1 p)"
    then show "\<not> (drop 1 p ! i = CHR ''{'' \<and> drop 1 p ! Suc i = CHR ''{'')"
      using brace_nth_open [OF brace, of "i + 2"] by simp
  qed
  then have 2: "fragment_push_text c what (drop 1 p) r fr = (Inr (drop 1 p), fr)"
    using fragment_push_text_spec [OF fr(1) tab, of "drop 1 p"] fr(2) ne utf8s(2) brace_tail_free(2) [OF tab(1) brace]
    by (simp add: restore_text_free)
  have 3: "fragment_finish c what r fr = Inr []"
    using restore_fragments_text [OF tab ne fr(1), of "[]"] fr(2) by (simp add: clean_cuts_def)
  show ?thesis
    using 1 2 3 by (simp del: One_nat_def)
qed

end
