(* ===== verification/Sse_Restorer.thy ===== *)
theory Sse_Restorer
  imports Fragment_Restorer
begin

text \<open>
  The text fields of streamed JSON (\<^verbatim>\<open>restore_text_fields_in_value\<close> in
  \<^verbatim>\<open>src/proxy/server.rs\<close>, \<^verbatim>\<open>restore_json_text_fields\<close> in \<^verbatim>\<open>src/proxy/websocket.rs\<close>) and
  the restorer of server-sent events built on them.
\<close>

section \<open>Text fields\<close>

definition is_stream_text_field :: "bytes \<Rightarrow> bool" where
  "is_stream_text_field key \<longleftrightarrow>
     key \<in> {''content'', ''delta'', ''text'', ''output_text'', ''message'', ''partial_json'', ''thinking''}"

text \<open>
  The two copies walk alike; they differ in what happens to a string outside of the text
  fields, \<open>plain\<close>. \<open>push\<close> is \<^verbatim>\<open>push_text\<close>.
\<close>

type_synonym 'f text_op = "bytes \<Rightarrow> 'f \<Rightarrow> (crebro_error + bytes) \<times> 'f"

fun restore_fields :: "'f text_op \<Rightarrow> 'f text_op \<Rightarrow> json \<Rightarrow> 'f \<Rightarrow> (crebro_error + json) \<times> 'f"
and restore_field_items :: "'f text_op \<Rightarrow> 'f text_op \<Rightarrow> json list \<Rightarrow> 'f \<Rightarrow> (crebro_error + json list) \<times> 'f"
and restore_field_members :: "'f text_op \<Rightarrow> 'f text_op \<Rightarrow> json_map \<Rightarrow> 'f \<Rightarrow> (crebro_error + json_map) \<times> 'f"
and restore_stream_field :: "'f text_op \<Rightarrow> 'f text_op \<Rightarrow> json \<Rightarrow> 'f \<Rightarrow> (crebro_error + json) \<times> 'f"
and restore_stream_items :: "'f text_op \<Rightarrow> 'f text_op \<Rightarrow> json list \<Rightarrow> 'f \<Rightarrow> (crebro_error + json list) \<times> 'f" where
  "restore_fields push plain (JString s) fr = and_then_st (plain s fr) (\<lambda>s fr. (Inr (JString s), fr))"
| "restore_fields push plain (JArray vs) fr =
     and_then_st (restore_field_items push plain vs fr) (\<lambda>vs fr. (Inr (JArray vs), fr))"
| "restore_fields push plain (JObject m) fr =
     and_then_st (restore_field_members push plain m fr) (\<lambda>m fr. (Inr (JObject m), fr))"
| "restore_fields push plain JNull fr = (Inr JNull, fr)"
| "restore_fields push plain (JBool b) fr = (Inr (JBool b), fr)"
| "restore_fields push plain (JNumber n) fr = (Inr (JNumber n), fr)"
| "restore_field_items push plain [] fr = (Inr [], fr)"
| "restore_field_items push plain (v # vs) fr =
     and_then_st (restore_fields push plain v fr) (\<lambda>v fr.
     and_then_st (restore_field_items push plain vs fr) (\<lambda>vs fr. (Inr (v # vs), fr)))"
| "restore_field_members push plain [] fr = (Inr [], fr)"
| "restore_field_members push plain ((k, v) # m) fr =
     and_then_st
       (if is_stream_text_field k then restore_stream_field push plain v fr
        else restore_fields push plain v fr) (\<lambda>v fr.
     and_then_st (restore_field_members push plain m fr) (\<lambda>m fr. (Inr ((k, v) # m), fr)))"
| "restore_stream_field push plain (JString s) fr = and_then_st (push s fr) (\<lambda>s fr. (Inr (JString s), fr))"
| "restore_stream_field push plain (JArray vs) fr =
     and_then_st (restore_stream_items push plain vs fr) (\<lambda>vs fr. (Inr (JArray vs), fr))"
| "restore_stream_field push plain (JObject m) fr =
     and_then_st (restore_field_members push plain m fr) (\<lambda>m fr. (Inr (JObject m), fr))"
| "restore_stream_field push plain JNull fr = (Inr JNull, fr)"
| "restore_stream_field push plain (JBool b) fr = (Inr (JBool b), fr)"
| "restore_stream_field push plain (JNumber n) fr = (Inr (JNumber n), fr)"
| "restore_stream_items push plain [] fr = (Inr [], fr)"
| "restore_stream_items push plain (v # vs) fr =
     and_then_st
       (case v of
          JString s \<Rightarrow> and_then_st (push s fr) (\<lambda>s fr. (Inr (JString s), fr))
        | _ \<Rightarrow> restore_fields push plain v fr) (\<lambda>v fr.
     and_then_st (restore_stream_items push plain vs fr) (\<lambda>vs fr. (Inr (v # vs), fr)))"

definition restore_text_fields_in_value ::
  "crypto \<Rightarrow> registry \<Rightarrow> json \<Rightarrow> fragment_restorer \<Rightarrow> (crebro_error + json) \<times> fragment_restorer" where
  "restore_text_fields_in_value c r =
     restore_fields (\<lambda>tx. fragment_push_text c ''SSE'' tx r) (\<lambda>tx fr. (Inr tx, fr))"

definition restore_json_text_fields ::
  "crypto \<Rightarrow> registry \<Rightarrow> json \<Rightarrow> fragment_restorer \<Rightarrow> (crebro_error + json) \<times> fragment_restorer" where
  "restore_json_text_fields c r =
     restore_fields (\<lambda>tx. fragment_push_text c ''websocket'' tx r)
       (\<lambda>tx fr. (restore_string_without_pending c ''websocket'' tx r fr, fr))"

section \<open>Server-sent events\<close>

record sse_restorer =
  sse_buffer :: bytes
  sse_text :: fragment_restorer

definition sse_restorer_new :: "matcher_lib \<Rightarrow> registry \<Rightarrow> crebro_error + sse_restorer" where
  "sse_restorer_new lib r =
     and_then (fragment_restorer_new lib r) (\<lambda>fr. Inr \<lparr>sse_buffer = [], sse_text = fr\<rparr>)"

definition find_sse_event_end :: "bytes \<Rightarrow> (nat \<times> nat) option" where
  "find_sse_event_end bs =
     (case (str_find [LF, LF] bs, str_find (CRLF @ CRLF) bs) of
        (Some lf, Some crlf) \<Rightarrow> if crlf \<le> lf then Some (crlf, 4) else Some (lf, 2)
      | (Some lf, None) \<Rightarrow> Some (lf, 2)
      | (None, Some crlf) \<Rightarrow> Some (crlf, 4)
      | (None, None) \<Rightarrow> None)"

definition restore_sse_data ::
  "crypto \<Rightarrow> serde \<Rightarrow> registry \<Rightarrow> bytes \<Rightarrow> fragment_restorer \<Rightarrow>
   (crebro_error + bytes) \<times> fragment_restorer" where
  "restore_sse_data c lib r data fr =
     (if data = ''[DONE]'' \<or> str_trim data = [] then (Inr data, fr)
      else case from_slice lib data of
        None \<Rightarrow> fragment_push_text c ''SSE'' data r fr
      | Some v \<Rightarrow>
          and_then_st (restore_text_fields_in_value c r v fr) (\<lambda>v fr. (print_json lib v, fr)))"

definition restore_sse_line ::
  "crypto \<Rightarrow> serde \<Rightarrow> registry \<Rightarrow> bytes \<Rightarrow> fragment_restorer \<Rightarrow>
   (crebro_error + bytes) \<times> fragment_restorer" where
  "restore_sse_line c lib r line fr =
     (case strip_prefix ''data:'' line of
        None \<Rightarrow> (Inr (line @ [LF]), fr)
      | Some data \<Rightarrow>
          (let had_space = starts_with data '' '';
               data = (case strip_prefix '' '' data of Some d \<Rightarrow> d | None \<Rightarrow> data)
           in and_then_st (restore_sse_data c lib r data fr) (\<lambda>restored fr.
                (Inr (''data:'' @ (if had_space then '' '' else []) @ restored @ [LF]), fr))))"

fun restore_sse_lines ::
  "crypto \<Rightarrow> serde \<Rightarrow> registry \<Rightarrow> bytes list \<Rightarrow> fragment_restorer \<Rightarrow>
   (crebro_error + bytes) \<times> fragment_restorer" where
  "restore_sse_lines c lib r [] fr = (Inr [], fr)"
| "restore_sse_lines c lib r (line # lines) fr =
     and_then_st (restore_sse_line c lib r line fr) (\<lambda>out fr.
     and_then_st (restore_sse_lines c lib r lines fr) (\<lambda>out2 fr. (Inr (out @ out2), fr)))"

definition restore_event ::
  "crypto \<Rightarrow> serde \<Rightarrow> registry \<Rightarrow> bytes \<Rightarrow> fragment_restorer \<Rightarrow>
   (crebro_error + bytes) \<times> fragment_restorer" where
  "restore_event c lib r event fr =
     (if \<not> utf8_valid event then (Inl (crebro_error.Restore ''SSE event is not UTF-8''), fr)
      else and_then_st (restore_sse_lines c lib r (str_lines [] event) fr) (\<lambda>out fr.
        (Inr (if ends_with out [LF] then butlast out else out), fr)))"

lemma find_sse_event_end_bound:
  "find_sse_event_end bs = Some (i, n) \<Longrightarrow> i + n \<le> length bs \<and> 2 \<le> n"
  by (auto simp: find_sse_event_end_def split: option.splits if_splits dest!: str_find_bound)

text \<open>The loop of \<^verbatim>\<open>push_chunk\<close>, which takes one event after the other off the buffer.\<close>

function sse_events ::
  "crypto \<Rightarrow> serde \<Rightarrow> registry \<Rightarrow> sse_restorer \<Rightarrow> (crebro_error + bytes) \<times> sse_restorer" where
  "sse_events c lib r sse =
     (case find_sse_event_end (sse_buffer sse) of
        None \<Rightarrow> (Inr [], sse)
      | Some (event_end, separator_len) \<Rightarrow>
          (let event = take event_end (sse_buffer sse);
               buffer = drop (event_end + separator_len) (sse_buffer sse)
           in case restore_event c lib r event (sse_text sse) of
                (Inl err, fr) \<Rightarrow> (Inl err, \<lparr>sse_buffer = buffer, sse_text = fr\<rparr>)
              | (Inr out, fr) \<Rightarrow>
                  and_then_st (sse_events c lib r \<lparr>sse_buffer = buffer, sse_text = fr\<rparr>) (\<lambda>out2 sse.
                    (Inr (out @ [LF, LF] @ out2), sse))))"
  by pat_completeness auto
termination
  by (relation "measure (\<lambda>(c, lib, r, sse). length (sse_buffer sse))")
    (auto dest!: find_sse_event_end_bound)

declare sse_events.simps [simp del]

definition sse_push_chunk ::
  "crypto \<Rightarrow> serde \<Rightarrow> registry \<Rightarrow> bytes \<Rightarrow> sse_restorer \<Rightarrow> (crebro_error + bytes) \<times> sse_restorer" where
  "sse_push_chunk c lib r chunk sse =
     sse_events c lib r (sse\<lparr>sse_buffer := sse_buffer sse @ chunk\<rparr>)"

definition sse_finish ::
  "crypto \<Rightarrow> serde \<Rightarrow> registry \<Rightarrow> sse_restorer \<Rightarrow> crebro_error + bytes" where
  "sse_finish c lib r sse =
     fst (and_then_st
       (if sse_buffer sse \<noteq> [] then restore_event c lib r (sse_buffer sse) (sse_text sse)
        else (Inr [], sse_text sse))
       (\<lambda>out fr.
         (and_then (fragment_finish c ''SSE'' r fr) (\<lambda>tail.
            if tail = [] then Inr out
            else and_then (print_json lib (JObject [(''delta'', JString tail)])) (\<lambda>json.
              Inr (out @ [LF] @ ''data: '' @ json @ [LF, LF]))), fr)))"

section \<open>Chunks of events do not matter\<close>

lemma find_sse_event_end_append:
  assumes "find_sse_event_end a = Some e"
  shows "find_sse_event_end (a @ b) = Some e"
proof (cases "str_find [LF, LF] a")
  case None
  then obtain i where i: "str_find (CRLF @ CRLF) a = Some i" and e: "e = (i, 4)"
    using assms by (auto simp: find_sse_event_end_def split: option.splits)
  have "i \<le> j" if j: "str_find [LF, LF] (a @ b) = Some j" for j
    using str_find_append_late [OF None j] str_find_bound [OF i] by simp
  then show ?thesis
    using str_find_append [OF i] e by (auto simp: find_sse_event_end_def split: option.split)
next
  case (Some j)
  show ?thesis
  proof (cases "str_find (CRLF @ CRLF) a")
    case None
    then have e: "e = (j, 2)"
      using assms Some by (auto simp: find_sse_event_end_def)
    have occ: "occurs_at [LF, LF] (a @ b) j"
      using str_find_append [OF Some] by (simp add: str_find_Some)
    have "j < i" if i: "str_find (CRLF @ CRLF) (a @ b) = Some i" for i
    proof (rule ccontr)
      assume "\<not> j < i"
      moreover have "j + 2 < i + 4"
        using str_find_append_late [OF None i] str_find_bound [OF Some] by simp
      ultimately have ij: "i = j \<or> j = Suc i"
        by linarith
      have crlf: "occurs_at (CRLF @ CRLF) (a @ b) i"
        using i by (simp add: str_find_Some)
      show False
        using ij occurs_at_nth [OF occ, of 0] occurs_at_nth [OF occ, of 1] occurs_at_nth [OF crlf, of 0]
          occurs_at_nth [OF crlf, of 2] by auto
    qed
    then show ?thesis
      using str_find_append [OF Some] e by (auto simp: find_sse_event_end_def split: option.split)
  next
    case (Some i)
    then show ?thesis
      using assms str_find_append [OF \<open>str_find [LF, LF] a = Some j\<close>] str_find_append [OF Some]
        \<open>str_find [LF, LF] a = Some j\<close> by (simp add: find_sse_event_end_def)
  qed
qed

lemma sse_events_append:
  "(\<forall>err. fst (sse_events c lib r sse) = Inl err \<longrightarrow>
      fst (sse_events c lib r (sse\<lparr>sse_buffer := sse_buffer sse @ b\<rparr>)) = Inl err) \<and>
   (\<forall>out sse1. sse_events c lib r sse = (Inr out, sse1) \<longrightarrow>
      sse_events c lib r (sse\<lparr>sse_buffer := sse_buffer sse @ b\<rparr>) =
        and_then_st (sse_events c lib r (sse1\<lparr>sse_buffer := sse_buffer sse1 @ b\<rparr>))
          (\<lambda>out2 sse. (Inr (out @ out2), sse)))"
proof (induction c lib r sse rule: sse_events.induct)
  case (1 c lib r sse)
  show ?case
  proof (cases "find_sse_event_end (sse_buffer sse)")
    case None
    then have "sse_events c lib r sse = (Inr [], sse)"
      by (simp add: sse_events.simps)
    then show ?thesis
      by simp
  next
    case (Some e)
    obtain i n where e: "e = (i, n)" by (cases e)
    have bound: "i + n \<le> length (sse_buffer sse)"
      using find_sse_event_end_bound Some e by simp
    let ?buffer = "drop (i + n) (sse_buffer sse)"
    obtain res fr where ev: "restore_event c lib r (take i (sse_buffer sse)) (sse_text sse) = (res, fr)"
      by fastforce
    note found = Some [unfolded e] find_sse_event_end_append [OF Some [unfolded e], of b]
    show ?thesis
    proof (cases res)
      case (Inl err)
      then show ?thesis
        using found ev bound
        by (subst (1 2 3) sse_events.simps) (simp add: sse_events.simps Let_def)
    next
      case (Inr out)
      let ?sse = "\<lparr>sse_buffer = ?buffer, sse_text = fr\<rparr>"
      note IH = 1 [OF Some e [symmetric] refl refl ev [symmetric] Inr]
      have run: "sse_events c lib r sse = and_then_st (sse_events c lib r ?sse) (\<lambda>out2 sse.
          (Inr (out @ [LF, LF] @ out2), sse))"
        using found ev Inr by (subst sse_events.simps) (simp add: Let_def)
      have run2: "sse_events c lib r (sse\<lparr>sse_buffer := sse_buffer sse @ b\<rparr>) =
          and_then_st (sse_events c lib r (?sse\<lparr>sse_buffer := ?buffer @ b\<rparr>)) (\<lambda>out2 sse.
            (Inr (out @ [LF, LF] @ out2), sse))"
        using found ev Inr bound by (subst sse_events.simps) (simp add: Let_def)
      show ?thesis
      proof (cases "sse_events c lib r ?sse")
        case (Pair res2 sse2)
        then show ?thesis
          using run run2 IH [THEN conjunct1] IH [THEN conjunct2]
          by (cases res2; cases "sse_events c lib r (sse2\<lparr>sse_buffer := sse_buffer sse2 @ b\<rparr>)";
              cases "fst (sse_events c lib r (sse2\<lparr>sse_buffer := sse_buffer sse2 @ b\<rparr>))")
            (auto simp: and_then_st_def split: prod.split sum.split)
      qed
    qed
  qed
qed

text \<open>A stream: one \<open>push_chunk\<close> per chunk, then \<open>finish\<close>.\<close>

fun restore_sse_chunks ::
  "crypto \<Rightarrow> serde \<Rightarrow> registry \<Rightarrow> bytes list \<Rightarrow> sse_restorer \<Rightarrow> crebro_error + bytes" where
  "restore_sse_chunks c lib r [] sse = sse_finish c lib r sse"
| "restore_sse_chunks c lib r (chunk # chunks) sse =
     (case sse_push_chunk c lib r chunk sse of
        (Inl err, sse) \<Rightarrow> Inl err
      | (Inr out, sse) \<Rightarrow> and_then (restore_sse_chunks c lib r chunks sse) (\<lambda>rest. Inr (out @ rest)))"

lemma restore_sse_two:
  "restore_sse_chunks c lib r (a # b # chunks) sse = restore_sse_chunks c lib r ((a @ b) # chunks) sse"
proof -
  let ?sse = "sse\<lparr>sse_buffer := sse_buffer sse @ a\<rparr>"
  have ab: "sse\<lparr>sse_buffer := sse_buffer sse @ a @ b\<rparr> = ?sse\<lparr>sse_buffer := sse_buffer ?sse @ b\<rparr>"
    by simp
  obtain res sse1 where ev: "sse_events c lib r ?sse = (res, sse1)"
    by fastforce
  show ?thesis
  proof (cases res)
    case (Inl err)
    then have "fst (sse_events c lib r (sse\<lparr>sse_buffer := sse_buffer sse @ a @ b\<rparr>)) = Inl err"
      using sse_events_append [of c lib r ?sse b] ev unfolding ab by simp
    then show ?thesis
      using ev Inl by (auto simp: sse_push_chunk_def split: prod.split)
  next
    case (Inr out)
    then have "sse_events c lib r (sse\<lparr>sse_buffer := sse_buffer sse @ a @ b\<rparr>) =
        and_then_st (sse_events c lib r (sse1\<lparr>sse_buffer := sse_buffer sse1 @ b\<rparr>))
          (\<lambda>out2 sse. (Inr (out @ out2), sse))"
      using sse_events_append [of c lib r ?sse b] ev unfolding ab by blast
    then show ?thesis
      using ev Inr
      by (cases "sse_events c lib r (sse1\<lparr>sse_buffer := sse_buffer sse1 @ b\<rparr>)";
          cases "fst (sse_events c lib r (sse1\<lparr>sse_buffer := sse_buffer sse1 @ b\<rparr>))")
        (auto simp: sse_push_chunk_def and_then_def split: sum.split)
  qed
qed

lemma restore_sse_concat:
  "chunks \<noteq> [] \<Longrightarrow> restore_sse_chunks c lib r chunks sse = restore_sse_chunks c lib r [concat chunks] sse"
proof (induction "length chunks" arbitrary: chunks)
  case (Suc n)
  show ?case
  proof (cases chunks rule: remdups_adj.cases)
    case (3 a b rest)
    have "restore_sse_chunks c lib r ((a @ b) # rest) sse =
        restore_sse_chunks c lib r [concat ((a @ b) # rest)] sse"
      using Suc(1) [of "(a @ b) # rest"] Suc(2) 3 by simp
    then show ?thesis
      by (simp only: 3 restore_sse_two concat.simps append_assoc)
  qed (use Suc in simp_all)
qed simp

section \<open>The text fields are pushed in order\<close>

text \<open>The texts a walk pushes, in the order in which it does.\<close>

fun stream_texts :: "json \<Rightarrow> bytes list" and stream_item_texts :: "json list \<Rightarrow> bytes list"
and stream_member_texts :: "json_map \<Rightarrow> bytes list" and stream_field_texts :: "json \<Rightarrow> bytes list"
and stream_field_item_texts :: "json list \<Rightarrow> bytes list" where
  "stream_texts (JArray vs) = stream_item_texts vs"
| "stream_texts (JObject m) = stream_member_texts m"
| "stream_texts _ = []"
| "stream_item_texts [] = []"
| "stream_item_texts (v # vs) = stream_texts v @ stream_item_texts vs"
| "stream_member_texts [] = []"
| "stream_member_texts ((k, v) # m) =
     (if is_stream_text_field k then stream_field_texts v else stream_texts v) @ stream_member_texts m"
| "stream_field_texts (JString s) = [s]"
| "stream_field_texts (JArray vs) = stream_field_item_texts vs"
| "stream_field_texts (JObject m) = stream_member_texts m"
| "stream_field_texts _ = []"
| "stream_field_item_texts [] = []"
| "stream_field_item_texts (v # vs) =
     (case v of JString s \<Rightarrow> [s] | _ \<Rightarrow> stream_texts v) @ stream_field_item_texts vs"

fun push_all :: "'f text_op \<Rightarrow> bytes list \<Rightarrow> 'f \<Rightarrow> (crebro_error + bytes list) \<times> 'f" where
  "push_all push [] fr = (Inr [], fr)"
| "push_all push (tx # txs) fr =
     and_then_st (push tx fr) (\<lambda>out fr. and_then_st (push_all push txs fr) (\<lambda>outs fr. (Inr (out # outs), fr)))"

lemma push_all_append:
  "push_all push (xs @ ys) fr =
     and_then_st (push_all push xs fr) (\<lambda>as fr. and_then_st (push_all push ys fr) (\<lambda>bs fr. (Inr (as @ bs), fr)))"
  by (induction xs arbitrary: fr) (auto simp: and_then_st_assoc)

lemma push_all_appendI:
  "push_all push xs fr = (Inr as, fr1) \<Longrightarrow> push_all push ys fr1 = (Inr bs, fr2) \<Longrightarrow>
   push_all push (xs @ ys) fr = (Inr (as @ bs), fr2)"
  by (simp add: push_all_append)

lemma restore_fields_texts:
  "restore_fields push plain v fr = (Inr v', fr') \<Longrightarrow> (\<forall>s fr. snd (plain s fr) = fr) \<Longrightarrow>
      push_all push (stream_texts v) fr = (Inr (stream_texts v'), fr')"
  "restore_field_items push plain vs fr = (Inr vs', fr') \<Longrightarrow> (\<forall>s fr. snd (plain s fr) = fr) \<Longrightarrow>
      push_all push (stream_item_texts vs) fr = (Inr (stream_item_texts vs'), fr')"
  "restore_field_members push plain m fr = (Inr m', fr') \<Longrightarrow> (\<forall>s fr. snd (plain s fr) = fr) \<Longrightarrow>
      push_all push (stream_member_texts m) fr = (Inr (stream_member_texts m'), fr')"
  "restore_stream_field push plain v fr = (Inr v', fr') \<Longrightarrow> (\<forall>s fr. snd (plain s fr) = fr) \<Longrightarrow>
      push_all push (stream_field_texts v) fr = (Inr (stream_field_texts v'), fr')"
  "restore_stream_items push plain vs fr = (Inr vs', fr') \<Longrightarrow> (\<forall>s fr. snd (plain s fr) = fr) \<Longrightarrow>
      push_all push (stream_field_item_texts vs) fr = (Inr (stream_field_item_texts vs'), fr')"
proof (induction push plain v fr and push plain vs fr and push plain m fr and push plain v fr and push plain vs fr
    arbitrary: v' fr' and vs' fr' and m' fr' and v' fr' and vs' fr'
    rule: restore_fields_restore_field_items_restore_field_members_restore_stream_field_restore_stream_items.induct)
  case (1 push plain s fr)
  then show ?case
    by (auto simp: and_then_st_eq_Inr) (metis snd_conv)
next
  case (8 push plain v vs fr)
  obtain w fr1 vs2 where w: "restore_fields push plain v fr = (Inr w, fr1)"
      "restore_field_items push plain vs fr1 = (Inr vs2, fr')" "vs' = w # vs2"
    using 8(3) by (auto simp: and_then_st_eq_Inr)
  have "push_all push (stream_item_texts vs) fr1 = (Inr (stream_item_texts vs2), fr')"
    using 8(2) w 8(4) by blast
  then show ?case
    using 8(1) [OF w(1) 8(4)] w(3) by (auto intro: push_all_appendI)
next
  case (10 push plain k v m fr)
  obtain w fr1 m2 where
    "(if is_stream_text_field k then restore_stream_field push plain v fr else restore_fields push plain v fr) = (Inr w, fr1)"
    "restore_field_members push plain m fr1 = (Inr m2, fr')" "m' = (k, w) # m2"
    using 10(4) by (auto simp: and_then_st_eq_Inr)
  then show ?case
    using 10(1-3,5) by (cases "is_stream_text_field k") (auto intro: push_all_appendI)
next
  case (18 push plain v vs fr)
  obtain w fr1 vs2 where w:
    "(case v of JString s \<Rightarrow> and_then_st (push s fr) (\<lambda>s fr. (Inr (JString s), fr))
      | _ \<Rightarrow> restore_fields push plain v fr) = (Inr w, fr1)"
    and rest: "restore_stream_items push plain vs fr1 = (Inr vs2, fr')" "vs' = w # vs2"
    using 18(7) by (auto simp: and_then_st_eq_Inr)
  have "push_all push (case v of JString s \<Rightarrow> [s] | _ \<Rightarrow> stream_texts v) fr =
      (Inr (case w of JString s \<Rightarrow> [s] | _ \<Rightarrow> stream_texts w), fr1)"
    using w 18(1-5,8) by (cases v) (auto simp: and_then_st_eq_Inr)
  moreover have "push_all push (stream_field_item_texts vs) fr1 = (Inr (stream_field_item_texts vs2), fr')"
    using 18(6) w rest(1) 18(8) by blast
  ultimately show ?case
    using rest(2) by (auto intro: push_all_appendI)
qed (auto simp: and_then_st_eq_Inr intro: push_all_appendI)

end
