(* ===== verification/Http_Chunked.thy ===== *)
theory Http_Chunked
  imports Byte_Source Sse_Restorer
begin

text \<open>
  Chunked transfer (\<^verbatim>\<open>read_chunk_line\<close> to \<^verbatim>\<open>write_http_chunk\<close> and the two forwarding loops of
  \<^verbatim>\<open>src/proxy/server.rs\<close>). The writer is a list of bytes: what was written when the function
  returned, with an error or without.
\<close>

section \<open>Reading chunks\<close>

text \<open>The bytes that were read but not used yet, and the connection.\<close>

type_synonym reader = "bytes \<times> source"

definition reader_size :: "reader \<Rightarrow> nat" where
  "reader_size rd = length (fst rd) + source_size (snd rd)"

function read_chunk_line :: "reader \<Rightarrow> (crebro_error + bytes) \<times> reader" where
  "read_chunk_line (pending, src) =
     (case str_find CRLF pending of
        Some pos \<Rightarrow> (Inr (take pos pending), (drop (pos + 2) pending, src))
      | None \<Rightarrow>
         (case read_some 8192 src of
            (Inl e, src) \<Rightarrow> (Inl (crebro_error.Gateway (''failed to read HTTP chunk: '' @ e)), (pending, src))
          | (Inr buf, src) \<Rightarrow>
              (if buf = []
               then (Inl (crebro_error.Gateway ''connection closed before chunked response completed''), (pending, src))
               else read_chunk_line (pending @ buf, src))))"
  by pat_completeness auto
termination
  by (relation "measure (\<lambda>(pending, src). source_size src)") (auto dest!: sym [THEN read_some_size_less])

declare read_chunk_line.simps [simp del]

function read_exact_pending :: "nat \<Rightarrow> reader \<Rightarrow> (crebro_error + bytes) \<times> reader" where
  "read_exact_pending len (pending, src) =
     (if len \<le> length pending then (Inr (take len pending), (drop len pending, src))
      else case read_some 8192 src of
        (Inl e, src) \<Rightarrow> (Inl (crebro_error.Gateway (''failed to read HTTP chunk body: '' @ e)), (pending, src))
      | (Inr buf, src) \<Rightarrow>
          (if buf = []
           then (Inl (crebro_error.Gateway ''connection closed before chunked response body completed''), (pending, src))
           else read_exact_pending len (pending @ buf, src)))"
  by pat_completeness auto
termination
  by (relation "measure (\<lambda>(len, pending, src). source_size src)") (auto dest!: sym [THEN read_some_size_less])

declare read_exact_pending.simps [simp del]

lemma read_chunk_line_size:
  "read_chunk_line rd = (Inr line, rd') \<Longrightarrow> reader_size rd' < reader_size rd"
proof (induction rd rule: read_chunk_line.induct)
  case (1 pending src)
  show ?case
  proof (cases "str_find CRLF pending")
    case None
    obtain r src1 where rd: "read_some 8192 src = (r, src1)" by fastforce
    with 1(2) None obtain b where r: "r = Inr b" and "b \<noteq> []"
      by (cases r) (auto simp: read_chunk_line.simps [of pending src] split: if_splits)
    then have "read_chunk_line (pending @ b, src1) = (Inr line, rd')"
      using 1(2) rd None by (simp add: read_chunk_line.simps [of pending src])
    then have "reader_size rd' < reader_size (pending @ b, src1)"
      using 1(1) [OF None rd [symmetric] r \<open>b \<noteq> []\<close>] by simp
    then show ?thesis
      using read_some_size [OF rd [unfolded r] \<open>b \<noteq> []\<close>] by (simp add: reader_size_def)
  next
    case (Some pos)
    then show ?thesis
      using 1(2) str_find_bound [OF Some] by (auto simp: read_chunk_line.simps [of pending src] reader_size_def)
  qed
qed

lemma read_exact_pending_size:
  "read_exact_pending n rd = (Inr bs, rd') \<Longrightarrow> reader_size rd' + n \<le> reader_size rd"
proof (induction n rd rule: read_exact_pending.induct)
  case (1 len pending src)
  show ?case
  proof (cases "len \<le> length pending")
    case False
    obtain r src1 where rd: "read_some 8192 src = (r, src1)" by fastforce
    with 1(2) False obtain b where r: "r = Inr b" and "b \<noteq> []"
      by (cases r) (auto simp: read_exact_pending.simps [of len pending src] split: if_splits)
    then have "read_exact_pending len (pending @ b, src1) = (Inr bs, rd')"
      using 1(2) rd False by (simp add: read_exact_pending.simps [of len pending src])
    then have "reader_size rd' + len \<le> reader_size (pending @ b, src1)"
      using 1(1) [OF False rd [symmetric] r \<open>b \<noteq> []\<close>] by simp
    then show ?thesis
      using read_some_size [OF rd [unfolded r] \<open>b \<noteq> []\<close>] by (simp add: reader_size_def)
  next
    case True
    then show ?thesis
      using 1(2) by (auto simp: read_exact_pending.simps [of len pending src] reader_size_def)
  qed
qed

function read_chunk_trailers :: "reader \<Rightarrow> (crebro_error + unit) \<times> reader" where
  "read_chunk_trailers rd =
     (case read_chunk_line rd of
        (Inl e, rd) \<Rightarrow> (Inl e, rd)
      | (Inr line, rd) \<Rightarrow> (if line = [] then (Inr (), rd) else read_chunk_trailers rd))"
  by pat_completeness auto
termination
  by (relation "measure reader_size") (auto dest!: sym [THEN read_chunk_line_size])

declare read_chunk_trailers.simps [simp del]

lemma read_chunk_trailers_size:
  "read_chunk_trailers rd = (Inr u, rd') \<Longrightarrow> reader_size rd' < reader_size rd"
proof (induction rd rule: read_chunk_trailers.induct)
  case (1 rd)
  obtain r rd1 where rd: "read_chunk_line rd = (r, rd1)" by (cases "read_chunk_line rd")
  with 1(2) obtain line where r: "r = Inr line"
    by (cases r) (auto simp: read_chunk_trailers.simps [of rd])
  then show ?case
    using 1(1) [OF rd [symmetric] r] 1(2) rd read_chunk_line_size [OF rd [unfolded r]]
    by (cases "line = []") (auto simp: read_chunk_trailers.simps [of rd])
qed

definition parse_chunk_len :: "bytes \<Rightarrow> crebro_error + nat" where
  "parse_chunk_len line =
     (if \<not> utf8_valid line then Inl (crebro_error.Gateway ''chunk size line is not UTF-8'')
      else case from_str_radix 16 (str_trim (hd (split_on '';'' line))) of
        None \<Rightarrow> Inl (crebro_error.Gateway ''invalid HTTP chunk size'')
      | Some n \<Rightarrow> Inr n)"

definition write_http_chunk :: "bytes \<Rightarrow> bytes" where
  "write_http_chunk bs = (if bs = [] then [] else print_radix 16 (length bs) @ CRLF @ bs @ CRLF)"

text \<open>One turn of the loops: the next chunk, or nothing after the last one and the trailers.\<close>

definition chunk_body :: "nat \<Rightarrow> reader \<Rightarrow> (crebro_error + bytes) \<times> reader" where
  "chunk_body n rd =
     (if n = 0 then and_then_st (read_chunk_trailers rd) (\<lambda>_ rd. (Inr [], rd))
      else and_then_st (read_exact_pending n rd) (\<lambda>chunk rd.
        and_then_st (read_exact_pending 2 rd) (\<lambda>delimiter rd.
          if delimiter \<noteq> CRLF
          then (Inl (crebro_error.Gateway ''invalid chunked HTTP response delimiter''), rd)
          else (Inr chunk, rd))))"

definition next_chunk :: "reader \<Rightarrow> (crebro_error + bytes) \<times> reader" where
  "next_chunk rd =
     and_then_st (read_chunk_line rd) (\<lambda>line rd.
       case parse_chunk_len line of
         Inl e \<Rightarrow> (Inl e, rd)
       | Inr n \<Rightarrow> chunk_body n rd)"

lemma next_chunk_size:
  assumes "next_chunk rd = (Inr chunk, rd')"
  shows "reader_size rd' < reader_size rd"
proof -
  obtain line rd1 where line: "read_chunk_line rd = (Inr line, rd1)"
    and body: "(case parse_chunk_len line of Inl e \<Rightarrow> (Inl e, rd1) | Inr n \<Rightarrow> chunk_body n rd1) = (Inr chunk, rd')"
    using assms unfolding next_chunk_def and_then_st_eq_Inr by blast
  then obtain n where rest: "chunk_body n rd1 = (Inr chunk, rd')"
    by (cases "parse_chunk_len line") auto
  have "reader_size rd' \<le> reader_size rd1"
  proof (cases "n = 0")
    case True
    then have "\<exists>u. read_chunk_trailers rd1 = (Inr u, rd')"
      using rest by (auto simp: chunk_body_def and_then_st_def split: prod.splits sum.splits)
    then show ?thesis
      using read_chunk_trailers_size less_imp_le by blast
  next
    case False
    then obtain a rd2 b where a: "read_exact_pending n rd1 = (Inr a, rd2)" "read_exact_pending 2 rd2 = (Inr b, rd')"
      using rest that by (auto simp: chunk_body_def and_then_st_def split: prod.splits sum.splits if_splits)
    show ?thesis
      using read_exact_pending_size [OF a(1)] read_exact_pending_size [OF a(2)] by simp
  qed
  then show ?thesis
    using read_chunk_line_size [OF line(1)] by simp
qed

text \<open>
  The loops of \<^verbatim>\<open>forward_chunked_http_response\<close> and \<^verbatim>\<open>forward_sse_chunked_http_response\<close>, which
  differ in the restorer.
\<close>

definition last_chunk :: bytes where
  "last_chunk = ''0'' @ CRLF @ CRLF"

function forward_chunks ::
  "(bytes \<Rightarrow> 's \<Rightarrow> (crebro_error + bytes) \<times> 's) \<Rightarrow> ('s \<Rightarrow> crebro_error + bytes) \<Rightarrow>
   's \<Rightarrow> reader \<Rightarrow> (crebro_error + unit) \<times> bytes" where
  "forward_chunks push finish st rd =
     (case next_chunk rd of
        (Inl e, rd) \<Rightarrow> (Inl e, [])
      | (Inr chunk, rd) \<Rightarrow>
          (if chunk = [] then
             (case finish st of
                Inl e \<Rightarrow> (Inl e, [])
              | Inr tail \<Rightarrow> (Inr (), write_http_chunk tail @ last_chunk))
           else case push chunk st of
             (Inl e, st) \<Rightarrow> (Inl e, [])
           | (Inr restored, st) \<Rightarrow>
               (case forward_chunks push finish st rd of
                  (res, out) \<Rightarrow> (res, write_http_chunk restored @ out))))"
  by pat_completeness auto
termination
  by (relation "measure (\<lambda>(push, finish, st, rd). reader_size rd)") (auto dest!: sym [THEN next_chunk_size])

declare forward_chunks.simps [simp del]

definition forward_chunked_http_response ::
  "crypto \<Rightarrow> matcher_lib \<Rightarrow> registry \<Rightarrow> http_head \<Rightarrow> source \<Rightarrow> (crebro_error + unit) \<times> bytes" where
  "forward_chunked_http_response c lib r response src =
     (case rewrite_http_head_for_chunked (head_without_delimiter response) of
        Inl e \<Rightarrow> (Inl e, [])
      | Inr head \<Rightarrow>
          (case restorer_new lib r of
             Inl e \<Rightarrow> (Inl e, head @ CRLF)
           | Inr rr \<Rightarrow>
               (case forward_chunks (\<lambda>chunk. push_chunk c chunk r) (restorer_finish c r) rr
                       (extra_bytes response, src) of
                  (res, out) \<Rightarrow> (res, head @ CRLF @ out))))"

definition forward_sse_chunked_http_response ::
  "crypto \<Rightarrow> matcher_lib \<Rightarrow> serde \<Rightarrow> registry \<Rightarrow> http_head \<Rightarrow> source \<Rightarrow> (crebro_error + unit) \<times> bytes" where
  "forward_sse_chunked_http_response c lib js r response src =
     (case rewrite_http_head_for_chunked (head_without_delimiter response) of
        Inl e \<Rightarrow> (Inl e, [])
      | Inr head \<Rightarrow>
          (case sse_restorer_new lib r of
             Inl e \<Rightarrow> (Inl e, head @ CRLF)
           | Inr sse \<Rightarrow>
               (case forward_chunks (sse_push_chunk c js r) (sse_finish c js r) sse
                       (extra_bytes response, src) of
                  (res, out) \<Rightarrow> (res, head @ CRLF @ out))))"

section \<open>What the readers find\<close>

definition reader_delivers :: "reader \<Rightarrow> bytes \<Rightarrow> bool" where
  "reader_delivers rd bs \<longleftrightarrow> (\<exists>rest. bs = fst rd @ rest \<and> delivers (snd rd) rest)"

lemma reader_deliversI: "delivers src rest \<Longrightarrow> reader_delivers (pending, src) (pending @ rest)"
  by (auto simp: reader_delivers_def)

lemma read_chunk_line_delivers:
  assumes "reader_delivers rd bs" and "str_find CRLF bs = Some i"
  shows "\<exists>rd'. read_chunk_line rd = (Inr (take i bs), rd') \<and> reader_delivers rd' (drop (i + 2) bs)"
  using assms
proof (induction rd rule: read_chunk_line.induct)
  case (1 pending src)
  obtain rest where rest: "bs = pending @ rest" "delivers src rest"
    using 1(2) by (auto simp: reader_delivers_def)
  show ?case
  proof (cases "str_find CRLF pending")
    case None
    then have "rest \<noteq> []" using rest 1(3) by auto
    have "(0 :: nat) < 8192" by simp
    obtain b rest1 src1 where b: "read_some 8192 src = (Inr b, src1)" "b \<noteq> []" "rest = b @ rest1"
        "delivers src1 rest1"
      by (rule read_some_delivers [OF rest(2) \<open>0 < 8192\<close> \<open>rest \<noteq> []\<close>])
    have "reader_delivers (pending @ b, src1) bs"
      using reader_deliversI [OF b(4), of "pending @ b"] rest(1) b(3) by simp
    then show ?thesis
      using 1(1) [OF None b(1) [symmetric] refl b(2) _ 1(3)] b None
      by (simp add: read_chunk_line.simps [of pending src])
  next
    case (Some j)
    then have "j = i" using str_find_append [OF Some, of rest] 1(3) rest(1) by simp
    then show ?thesis
      using Some str_find_bound [OF Some] rest
      by (simp add: read_chunk_line.simps [of pending src] reader_delivers_def)
  qed
qed

lemma read_exact_pending_delivers:
  assumes "reader_delivers rd bs" and "n \<le> length bs"
  shows "\<exists>rd'. read_exact_pending n rd = (Inr (take n bs), rd') \<and> reader_delivers rd' (drop n bs)"
  using assms
proof (induction n rd rule: read_exact_pending.induct)
  case (1 len pending src)
  obtain rest where rest: "bs = pending @ rest" "delivers src rest"
    using 1(2) by (auto simp: reader_delivers_def)
  show ?case
  proof (cases "len \<le> length pending")
    case False
    then have "rest \<noteq> []" using rest 1(3) by auto
    have "(0 :: nat) < 8192" by simp
    obtain b rest1 src1 where b: "read_some 8192 src = (Inr b, src1)" "b \<noteq> []" "rest = b @ rest1"
        "delivers src1 rest1"
      by (rule read_some_delivers [OF rest(2) \<open>0 < 8192\<close> \<open>rest \<noteq> []\<close>])
    have "reader_delivers (pending @ b, src1) bs"
      using reader_deliversI [OF b(4), of "pending @ b"] rest(1) b(3) by simp
    then show ?thesis
      using 1(1) [OF False b(1) [symmetric] refl b(2) _ 1(3)] b False
      by (simp add: read_exact_pending.simps [of len pending src])
  next
    case True
    then show ?thesis
      using rest by (simp add: read_exact_pending.simps [of len pending src] reader_delivers_def)
  qed
qed

lemma read_line_delivers:
  assumes "reader_delivers rd (line @ CRLF @ rest)" and "\<not> occurs_in CRLF line"
  shows "\<exists>rd'. read_chunk_line rd = (Inr line, rd') \<and> reader_delivers rd' rest"
  using read_chunk_line_delivers [OF assms(1) find_crlf [OF assms(2)]] by simp

lemma no_crlf_Nil [simp]: "\<not> occurs_in CRLF []"
  by (auto simp: occurs_in_split)

lemma read_chunk_trailers_delivers:
  assumes "reader_delivers rd (crlf_lines trailers @ CRLF @ rest)"
    and "\<forall>l \<in> set trailers. l \<noteq> [] \<and> \<not> occurs_in CRLF l"
  shows "\<exists>rd'. read_chunk_trailers rd = (Inr (), rd') \<and> reader_delivers rd' rest"
  using assms
proof (induction trailers arbitrary: rd)
  case Nil
  then obtain rd' where "read_chunk_line rd = (Inr [], rd')" "reader_delivers rd' rest"
    using read_line_delivers [of rd "[]" rest] by auto
  then show ?case
    by (simp add: read_chunk_trailers.simps [of rd])
next
  case (Cons l ls)
  have del: "reader_delivers rd (l @ CRLF @ crlf_lines ls @ CRLF @ rest)" and l: "\<not> occurs_in CRLF l" "l \<noteq> []"
    using Cons.prems by simp_all
  obtain rd1 where rd1: "read_chunk_line rd = (Inr l, rd1)"
      "reader_delivers rd1 (crlf_lines ls @ CRLF @ rest)"
    using read_line_delivers [OF del l(1)] by blast
  obtain rd' where "read_chunk_trailers rd1 = (Inr (), rd')" "reader_delivers rd' rest"
    using Cons.IH [OF rd1(2)] Cons.prems(2) by auto
  then show ?case
    using rd1(1) l(2) by (simp add: read_chunk_trailers.simps [of rd])
qed

section \<open>Chunked bodies\<close>

text \<open>A body on the wire: frames of a size line and the bytes, the line of the last chunk (size 0)
  and the trailers. Size lines may have extensions, leading zeros and capital digits.\<close>

definition frame_ok :: "bytes \<times> bytes \<Rightarrow> bool" where
  "frame_ok f \<longleftrightarrow> \<not> occurs_in CRLF (fst f) \<and> parse_chunk_len (fst f) = Inr (length (snd f)) \<and> snd f \<noteq> []"

definition frame_bytes :: "bytes \<times> bytes \<Rightarrow> bytes" where
  "frame_bytes f = fst f @ CRLF @ snd f @ CRLF"

definition body_ok :: "(bytes \<times> bytes) list \<Rightarrow> bytes \<Rightarrow> bytes list \<Rightarrow> bool" where
  "body_ok frames final trailers \<longleftrightarrow>
     (\<forall>f \<in> set frames. frame_ok f) \<and> \<not> occurs_in CRLF final \<and> parse_chunk_len final = Inr 0 \<and>
     (\<forall>l \<in> set trailers. l \<noteq> [] \<and> \<not> occurs_in CRLF l)"

definition body_bytes :: "(bytes \<times> bytes) list \<Rightarrow> bytes \<Rightarrow> bytes list \<Rightarrow> bytes" where
  "body_bytes frames final trailers =
     concat (map frame_bytes frames) @ final @ CRLF @ crlf_lines trailers @ CRLF"

lemma next_chunk_frame:
  assumes "reader_delivers rd (frame_bytes f @ rest)" and ok: "frame_ok f"
  shows "\<exists>rd'. next_chunk rd = (Inr (snd f), rd') \<and> reader_delivers rd' rest"
proof -
  have line_ok: "\<not> occurs_in CRLF (fst f)" "parse_chunk_len (fst f) = Inr (length (snd f))" "snd f \<noteq> []"
    using ok by (auto simp: frame_ok_def)
  obtain rd1 where rd1: "read_chunk_line rd = (Inr (fst f), rd1)"
      "reader_delivers rd1 (snd f @ CRLF @ rest)"
    using read_line_delivers [OF _ line_ok(1), of rd "snd f @ CRLF @ rest"] assms(1)
    by (auto simp: frame_bytes_def)
  then obtain rd2 where rd2: "read_exact_pending (length (snd f)) rd1 = (Inr (snd f), rd2)"
      "reader_delivers rd2 (CRLF @ rest)"
    using read_exact_pending_delivers [OF rd1(2), of "length (snd f)"] by auto
  then obtain rd3 where "read_exact_pending 2 rd2 = (Inr CRLF, rd3)" "reader_delivers rd3 rest"
    using read_exact_pending_delivers [OF rd2(2), of 2] by auto
  then show ?thesis
    using line_ok rd1(1) rd2(1) by (simp add: next_chunk_def chunk_body_def)
qed

lemma next_chunk_last:
  assumes "reader_delivers rd (body_bytes [] final trailers @ rest)" and ok: "body_ok [] final trailers"
  shows "\<exists>rd'. next_chunk rd = (Inr [], rd') \<and> reader_delivers rd' rest"
proof -
  have line_ok: "\<not> occurs_in CRLF final" "parse_chunk_len final = Inr 0"
    using ok by (auto simp: body_ok_def)
  obtain rd1 where rd1: "read_chunk_line rd = (Inr final, rd1)"
      "reader_delivers rd1 (crlf_lines trailers @ CRLF @ rest)"
    using read_line_delivers [OF _ line_ok(1), of rd "crlf_lines trailers @ CRLF @ rest"] assms(1)
    by (auto simp: body_bytes_def)
  then obtain rd2 where "read_chunk_trailers rd1 = (Inr (), rd2)" "reader_delivers rd2 rest"
    using read_chunk_trailers_delivers [OF rd1(2)] ok by (auto simp: body_ok_def)
  then show ?thesis
    using line_ok rd1(1) by (simp add: next_chunk_def chunk_body_def)
qed

text \<open>What the loops do to the chunks: the pieces that are written, with the one of \<open>finish\<close>.\<close>

fun run_chunks ::
  "(bytes \<Rightarrow> 's \<Rightarrow> (crebro_error + bytes) \<times> 's) \<Rightarrow> ('s \<Rightarrow> crebro_error + bytes) \<Rightarrow>
   's \<Rightarrow> bytes list \<Rightarrow> (crebro_error + unit) \<times> bytes list" where
  "run_chunks push finish st [] =
     (case finish st of Inl e \<Rightarrow> (Inl e, []) | Inr tail \<Rightarrow> (Inr (), [tail]))"
| "run_chunks push finish st (chunk # chunks) =
     (case push chunk st of
        (Inl e, st) \<Rightarrow> (Inl e, [])
      | (Inr restored, st) \<Rightarrow>
          (case run_chunks push finish st chunks of (res, pieces) \<Rightarrow> (res, restored # pieces)))"

definition written :: "(crebro_error + unit) \<times> bytes list \<Rightarrow> (crebro_error + unit) \<times> bytes" where
  "written run = (fst run, concat (map write_http_chunk (snd run)) @ (if isl (fst run) then [] else last_chunk))"

lemma forward_chunks_runs:
  assumes "reader_delivers rd (body_bytes frames final trailers @ rest)" and "body_ok frames final trailers"
  shows "forward_chunks push finish st rd = written (run_chunks push finish st (map snd frames))"
  using assms
proof (induction frames arbitrary: st rd)
  case Nil
  then show ?case
    using next_chunk_last [of rd final trailers rest]
    by (subst forward_chunks.simps) (auto simp: written_def split: sum.split)
next
  case (Cons f frames)
  have f: "frame_ok f" and ok: "body_ok frames final trailers"
    using Cons.prems(2) by (auto simp: body_ok_def)
  obtain rd1 where rd1: "next_chunk rd = (Inr (snd f), rd1)"
      "reader_delivers rd1 (body_bytes frames final trailers @ rest)"
    using next_chunk_frame [OF _ f, of rd "body_bytes frames final trailers @ rest"] Cons.prems(1)
    by (auto simp: body_bytes_def)
  note IH = Cons.IH [OF rd1(2) ok]
  have "snd f \<noteq> []" using f by (simp add: frame_ok_def)
  then show ?case
    using rd1(1) IH by (subst forward_chunks.simps) (auto simp: written_def split: prod.split sum.split)
qed

text \<open>What is written is a chunked body again, of the pieces that are not empty.\<close>

definition hex_frame :: "bytes \<Rightarrow> bytes \<times> bytes" where
  "hex_frame piece = (print_radix 16 (length piece), piece)"

definition hex_frames :: "bytes list \<Rightarrow> (bytes \<times> bytes) list" where
  "hex_frames pieces = map hex_frame (filter (\<lambda>p. p \<noteq> []) pieces)"

lemma write_chunks_frames:
  "concat (map write_http_chunk pieces) = concat (map frame_bytes (hex_frames pieces))"
  by (induction pieces) (auto simp: write_http_chunk_def hex_frames_def hex_frame_def frame_bytes_def)

lemma written_body:
  "concat (map write_http_chunk pieces) @ last_chunk = body_bytes (hex_frames pieces) ''0'' []"
  by (simp add: write_chunks_frames body_bytes_def last_chunk_def)

lemma digit_char_hex: "d < 16 \<Longrightarrow> digit_char d \<in> set (map char_of ([48..<58] @ [97..<103]))"
  by (auto simp: digit_char_def)

lemma print_hex: "set (print_radix 16 n) \<subseteq> set (map char_of ([48..<58] @ [97..<103]))"
proof (induction n rule: less_induct)
  case (less n)
  show ?case
  proof (cases "n < 16")
    case True
    then show ?thesis
      using digit_char_hex [of n] by (simp add: print_radix.simps [of 16 n])
  next
    case False
    then show ?thesis
      using less [of "n div 16"] digit_char_hex [of "n mod 16"]
      by (simp add: print_radix.simps [of 16 n])
  qed
qed

lemma hex_chars:
  assumes "c \<in> set (print_radix 16 n)"
  shows "visible c" "c \<noteq> CHR '';''" "c \<noteq> LF"
proof -
  have "c \<in> set (map char_of ([48..<58] @ [97..<103]))"
    using assms print_hex by blast
  then have "(48 \<le> byte_val c \<and> byte_val c < 58) \<or> (97 \<le> byte_val c \<and> byte_val c < 103)"
    by auto
  then show "visible c" "c \<noteq> CHR '';''" "c \<noteq> LF"
    by (auto simp: visible_def)
qed

lemma parse_hex_line:
  assumes "n < 2 ^ 64"
  shows "parse_chunk_len (print_radix 16 n) = Inr n" "\<not> occurs_in CRLF (print_radix 16 n)"
proof -
  let ?s = "print_radix 16 n"
  have "\<forall>c \<in> set ?s. byte_val c < 128"
    using hex_chars(1) [of _ n] by (fastforce simp: visible_def)
  then have "utf8_valid ?s"
    by (intro utf8_valid_ascii) auto
  moreover have "str_find '';'' ?s = None"
    using occurs_in_chars [of "'';''" ?s] hex_chars(2) [of "CHR '';''" n] occurs_inI
    by (fastforce simp: str_find_None)
  then have "split_on '';'' ?s = [?s]"
    by (simp add: split_on.simps)
  moreover have "str_trim ?s = ?s"
    using str_trim_visible(1) [of ?s] hex_chars [of _ n] by (simp add: last_in_set hd_in_set)
  ultimately show "parse_chunk_len ?s = Inr n"
    using from_str_radix_print [of 16 n] assms by (simp add: parse_chunk_len_def)
  show "\<not> occurs_in CRLF ?s"
    using occurs_in_chars [of CRLF ?s] hex_chars [of LF n] by auto
qed

lemma hex_frames_ok:
  assumes "\<forall>p \<in> set pieces. length p < 2 ^ 64"
  shows "body_ok (hex_frames pieces) ''0'' []"
proof -
  have "print_radix 16 0 = ''0''"
    by (simp add: print_radix.simps [of 16 0] digit_char_def char_of_eq_iff)
  then have "parse_chunk_len ''0'' = Inr 0" "\<not> occurs_in CRLF ''0''"
    using parse_hex_line [of 0] by simp_all
  then show ?thesis
    using assms parse_hex_line by (auto simp: body_ok_def hex_frames_def hex_frame_def frame_ok_def)
qed

lemma hex_frames_payload: "concat (map snd (hex_frames pieces)) = concat pieces"
  by (induction pieces) (auto simp: hex_frames_def hex_frame_def)

section \<open>The forwarded responses\<close>

lemma run_restore_chunks:
  assumes "restore_chunks c (map (\<lambda>chunk. (chunk, r)) chunks) r rr = Inr tx"
  shows "\<exists>pieces. run_chunks (\<lambda>chunk. push_chunk c chunk r) (restorer_finish c r) rr chunks = (Inr (), pieces) \<and>
    concat pieces = tx"
  using assms
proof (induction chunks arbitrary: rr tx)
  case (Cons chunk chunks)
  obtain res rr1 where push: "push_chunk c chunk r rr = (res, rr1)"
    by (cases "push_chunk c chunk r rr")
  then obtain out rest where out: "res = Inr out" "tx = out @ rest"
      "restore_chunks c (map (\<lambda>chunk. (chunk, r)) chunks) r rr1 = Inr rest"
    using Cons.prems by (cases res) auto
  obtain pieces where "run_chunks (\<lambda>chunk. push_chunk c chunk r) (restorer_finish c r) rr1 chunks = (Inr (), pieces)"
      "concat pieces = rest"
    using Cons.IH [OF out(3)] by blast
  then show ?case
    using push out by simp
qed simp

lemma run_restore_sse_chunks:
  assumes "restore_sse_chunks c js r chunks sse = Inr tx"
  shows "\<exists>pieces. run_chunks (sse_push_chunk c js r) (sse_finish c js r) sse chunks = (Inr (), pieces) \<and>
    concat pieces = tx"
  using assms
proof (induction chunks arbitrary: sse tx)
  case (Cons chunk chunks)
  obtain res sse1 where push: "sse_push_chunk c js r chunk sse = (res, sse1)"
    by (cases "sse_push_chunk c js r chunk sse")
  then obtain out rest where out: "res = Inr out" "tx = out @ rest"
      "restore_sse_chunks c js r chunks sse1 = Inr rest"
    using Cons.prems by (cases res) auto
  obtain pieces where "run_chunks (sse_push_chunk c js r) (sse_finish c js r) sse1 chunks = (Inr (), pieces)"
      "concat pieces = rest"
    using Cons.IH [OF out(3)] by blast
  then show ?case
    using push out by simp
qed simp

lemma forward_chunked_runs:
  assumes head: "rewrite_http_head_for_chunked (head_without_delimiter response) = Inr head"
    and new: "restorer_new lib r = Inr rr"
    and body: "reader_delivers (extra_bytes response, src) (body_bytes frames final trailers @ rest)"
    and ok: "body_ok frames final trailers"
    and restored: "restore_chunks c (map (\<lambda>chunk. (chunk, r)) (map snd frames)) r rr = Inr tx"
  shows "\<exists>pieces. forward_chunked_http_response c lib r response src =
      (Inr (), head @ CRLF @ body_bytes (hex_frames pieces) ''0'' []) \<and> concat pieces = tx"
proof -
  obtain pieces where "run_chunks (\<lambda>chunk. push_chunk c chunk r) (restorer_finish c r) rr (map snd frames) =
      (Inr (), pieces)" "concat pieces = tx"
    using run_restore_chunks [OF restored] by blast
  then show ?thesis
    using forward_chunks_runs [OF body ok, of "\<lambda>chunk. push_chunk c chunk r" "restorer_finish c r" rr] head new
    by (intro exI [of _ pieces]) (simp add: forward_chunked_http_response_def written_def written_body)
qed

lemma forward_sse_runs:
  assumes head: "rewrite_http_head_for_chunked (head_without_delimiter response) = Inr head"
    and new: "sse_restorer_new lib r = Inr sse"
    and body: "reader_delivers (extra_bytes response, src) (body_bytes frames final trailers @ rest)"
    and ok: "body_ok frames final trailers"
    and restored: "restore_sse_chunks c js r (map snd frames) sse = Inr tx"
  shows "\<exists>pieces. forward_sse_chunked_http_response c lib js r response src =
      (Inr (), head @ CRLF @ body_bytes (hex_frames pieces) ''0'' []) \<and> concat pieces = tx"
proof -
  obtain pieces where "run_chunks (sse_push_chunk c js r) (sse_finish c js r) sse (map snd frames) =
      (Inr (), pieces)" "concat pieces = tx"
    using run_restore_sse_chunks [OF restored] by blast
  then show ?thesis
    using forward_chunks_runs [OF body ok, of "sse_push_chunk c js r" "sse_finish c js r" sse] head new
    by (intro exI [of _ pieces]) (simp add: forward_sse_chunked_http_response_def written_def written_body)
qed

end
