(* ===== verification/Stats.thy ===== *)
theory Stats
  imports Json_Sanitizer
begin

text \<open>
  \<^verbatim>\<open>src/stats.rs\<close>: the counters of redactions in the stats file. The file is what its path
  holds, a value of the type \<open>'f\<close> of file contents, \<^const>\<open>None\<close> when there is none; the format
  (\<^verbatim>\<open>serde_json\<close>) is a parameter, writing is taken to succeed, and the clock is the argument \<open>now\<close>.
\<close>

section \<open>Data\<close>

record secret_redaction_counter =
  sc_label :: bytes
  sc_count :: u64

record pattern_match_counter =
  pc_action :: bytes
  pc_count :: u64

record stats_file =
  sf_version :: nat
  sf_updated :: u64
  sf_secrets :: "bytes \<rightharpoonup> secret_redaction_counter"
  sf_patterns :: "bytes \<rightharpoonup> pattern_match_counter"

definition stats_file_default :: stats_file where
  "stats_file_default = \<lparr>sf_version = 0, sf_updated = 0, sf_secrets = Map.empty, sf_patterns = Map.empty\<rparr>"

record 'f stats_format =
  stats_from_slice :: "'f \<Rightarrow> stats_file option"
  stats_to_vec_pretty :: "stats_file \<Rightarrow> 'f option"

section \<open>Counting\<close>

definition saturating_inc :: "u64 \<Rightarrow> u64" where
  "saturating_inc n = (if n = - 1 then n else n + 1)"

definition action_name :: "on_unregistered_match \<Rightarrow> bytes" where
  "action_name action =
     (case action of
        RequireExplicitSecret \<Rightarrow> ''require_explicit_secret''
      | AutoRedact \<Rightarrow> ''auto_redact''
      | Allow \<Rightarrow> ''allow'')"

definition increment_pattern :: "bytes \<Rightarrow> on_unregistered_match \<Rightarrow> stats_file \<Rightarrow> stats_file" where
  "increment_pattern pattern_id action stats =
     (let counter = (case sf_patterns stats pattern_id of
            Some counter \<Rightarrow> counter
          | None \<Rightarrow> \<lparr>pc_action = action_name action, pc_count = 0\<rparr>)
      in stats\<lparr>sf_patterns := (sf_patterns stats)(pattern_id \<mapsto>
           \<lparr>pc_action = action_name action, pc_count = saturating_inc (pc_count counter)\<rparr>)\<rparr>)"

text \<open>The body of the loop over the redacted secrets.\<close>

definition count_secret :: "registry \<Rightarrow> u64 \<Rightarrow> stats_file \<Rightarrow> stats_file" where
  "count_secret r ident stats =
     (case stats_identity_for r ident of
        None \<Rightarrow> stats
      | Some (placeholder, label) \<Rightarrow>
          (let counter = (case sf_secrets stats placeholder of
                 Some counter \<Rightarrow> counter
               | None \<Rightarrow> \<lparr>sc_label = label, sc_count = 0\<rparr>)
           in stats\<lparr>sf_secrets := (sf_secrets stats)(placeholder \<mapsto>
                \<lparr>sc_label = label, sc_count = saturating_inc (sc_count counter)\<rparr>)\<rparr>))"

definition count_report :: "registry \<Rightarrow> sanitizer_report \<Rightarrow> stats_file \<Rightarrow> stats_file" where
  "count_report r report stats =
     fold (\<lambda>pattern_id. increment_pattern pattern_id Allow) (sr_pattern_ids report)
       (fold (count_secret r) (sr_secret_ids report) stats)"

section \<open>The file\<close>

definition read_stats_file :: "'f stats_format \<Rightarrow> 'f option \<Rightarrow> stats_file option" where
  "read_stats_file fmt file = Option.bind file (stats_from_slice fmt)"

definition update_stats_file ::
  "'f stats_format \<Rightarrow> u64 \<Rightarrow> (stats_file \<Rightarrow> stats_file) \<Rightarrow> 'f option \<Rightarrow> 'f option" where
  "update_stats_file fmt now update file =
     (let stats = (case read_stats_file fmt file of Some s \<Rightarrow> s | None \<Rightarrow> stats_file_default);
          stats = (update (stats\<lparr>sf_version := 1\<rparr>))\<lparr>sf_updated := now\<rparr>
      in case stats_to_vec_pretty fmt stats of
           None \<Rightarrow> file
         | Some contents \<Rightarrow> Some contents)"

text \<open>The recorder has a path or it does not record.\<close>

record stats_recorder =
  stats_enabled :: bool

definition recorder_update ::
  "'f stats_format \<Rightarrow> u64 \<Rightarrow> stats_recorder \<Rightarrow> (stats_file \<Rightarrow> stats_file) \<Rightarrow> 'f option \<Rightarrow> 'f option" where
  "recorder_update fmt now rec update file =
     (if \<not> stats_enabled rec then file else update_stats_file fmt now update file)"

definition record_sanitizer_report ::
  "'f stats_format \<Rightarrow> u64 \<Rightarrow> stats_recorder \<Rightarrow> registry \<Rightarrow> sanitizer_report \<Rightarrow> 'f option \<Rightarrow> 'f option" where
  "record_sanitizer_report fmt now rec r report file =
     (if sr_secret_ids report = [] \<and> sr_pattern_ids report = [] then file
      else recorder_update fmt now rec (count_report r report) file)"

definition record_error ::
  "'f stats_format \<Rightarrow> u64 \<Rightarrow> stats_recorder \<Rightarrow> crebro_error \<Rightarrow> 'f option \<Rightarrow> 'f option" where
  "record_error fmt now rec err file =
     (case err of
        UnregisteredCredential pattern_id \<Rightarrow>
          recorder_update fmt now rec (increment_pattern pattern_id RequireExplicitSecret) file
      | _ \<Rightarrow> file)"

definition stats_path :: "bytes option \<Rightarrow> bytes option \<Rightarrow> bytes option \<Rightarrow> (bytes \<Rightarrow> bytes \<Rightarrow> bytes) \<Rightarrow> bytes option" where
  "stats_path stats_dir env_dir home join =
     map_option (\<lambda>dir. join dir ''stats.json'')
       (case stats_dir of
          Some dir \<Rightarrow> Some dir
        | None \<Rightarrow> (case env_dir of
            Some dir \<Rightarrow> Some dir
          | None \<Rightarrow> map_option (\<lambda>h. join h ''.crebro'') home))"

section \<open>What is counted\<close>

definition u64_max :: nat where
  "u64_max = 2 ^ 64 - 1"

lemma unat_le_max: "unat (n :: u64) \<le> u64_max"
  using unsigned_less [of n, where 'a = nat] by (simp add: u64_max_def)

lemma sat_add: "min m (min m a + b) = min m (a + b :: nat)"
  by simp

lemma unat_saturating_inc: "unat (saturating_inc n) = min u64_max (Suc (unat n))"
proof (cases "n = - 1")
  case False
  then have "n + 1 \<noteq> 0"
    by (metis eq_neg_iff_add_eq_0)
  then have "unat (n + 1) = Suc (unat n)"
    by (simp add: unatSuc add.commute)
  then show ?thesis
    using False unat_le_max [of "n + 1"] by (simp add: saturating_inc_def)
next
  case True
  then show ?thesis
    by (simp add: saturating_inc_def u64_max_def unsigned_minus_1_eq_mask mask_eq_exp_minus_1)
qed

definition secret_count :: "stats_file \<Rightarrow> bytes \<Rightarrow> nat" where
  "secret_count stats p = (case sf_secrets stats p of None \<Rightarrow> 0 | Some n \<Rightarrow> unat (sc_count n))"

definition pattern_count :: "stats_file \<Rightarrow> bytes \<Rightarrow> nat" where
  "pattern_count stats p = (case sf_patterns stats p of None \<Rightarrow> 0 | Some n \<Rightarrow> unat (pc_count n))"

lemma secret_count_bound: "secret_count stats p \<le> u64_max"
  using unat_le_max by (auto simp: secret_count_def split: option.split)

lemma pattern_count_bound: "pattern_count stats p \<le> u64_max"
  using unat_le_max by (auto simp: pattern_count_def split: option.split)

lemma count_secret_count:
  "secret_count (count_secret r ident stats) p =
     (if map_option fst (stats_identity_for r ident) = Some p then min u64_max (Suc (secret_count stats p))
      else secret_count stats p)"
  by (auto simp: count_secret_def secret_count_def unat_saturating_inc Let_def split: option.splits)

lemma increment_pattern_count:
  "pattern_count (increment_pattern pid action stats) p =
     (if pid = p then min u64_max (Suc (pattern_count stats p)) else pattern_count stats p)"
  by (auto simp: increment_pattern_def pattern_count_def unat_saturating_inc Let_def split: option.splits)

lemma other_counts [simp]:
  "sf_patterns (count_secret r ident stats) = sf_patterns stats"
  "sf_secrets (increment_pattern pid action stats) = sf_secrets stats"
  by (simp_all add: count_secret_def increment_pattern_def Let_def split: option.split)

lemma fold_count_secret:
  "secret_count (fold (count_secret r) ids stats) p =
     min u64_max (secret_count stats p +
       length (filter (\<lambda>ident. map_option fst (stats_identity_for r ident) = Some p) ids))"
proof (induction ids arbitrary: stats)
  case Nil
  then show ?case
    using secret_count_bound [of stats p] by simp
qed (auto simp: count_secret_count sat_add)

lemma fold_increment_pattern:
  "pattern_count (fold (\<lambda>pid. increment_pattern pid action) pids stats) p =
     min u64_max (pattern_count stats p + count_list pids p)"
proof (induction pids arbitrary: stats)
  case Nil
  then show ?case
    using pattern_count_bound [of stats p] by simp
qed (auto simp: increment_pattern_count sat_add)

lemma fold_other_counts [simp]:
  "sf_patterns (fold (count_secret r) ids stats) = sf_patterns stats"
  "sf_secrets (fold (\<lambda>pid. increment_pattern pid action) pids stats) = sf_secrets stats"
  by (induction ids arbitrary: stats; simp) (induction pids arbitrary: stats; simp)

lemma count_report_counts:
  "secret_count (count_report r report stats) p =
     min u64_max (secret_count stats p +
       length (filter (\<lambda>ident. map_option fst (stats_identity_for r ident) = Some p) (sr_secret_ids report)))"
  "pattern_count (count_report r report stats) p =
     min u64_max (pattern_count stats p + count_list (sr_pattern_ids report) p)"
  using fold_count_secret [of r "sr_secret_ids report" stats p]
    fold_increment_pattern [of Allow "sr_pattern_ids report" "fold (count_secret r) (sr_secret_ids report) stats" p]
  by (simp_all add: count_report_def secret_count_def pattern_count_def)

text \<open>A format that reads what it wrote, as \<^verbatim>\<open>serde\<close> derives it.\<close>

definition format_ok :: "'f stats_format \<Rightarrow> bool" where
  "format_ok fmt \<longleftrightarrow>
     (\<forall>stats. \<exists>bs. stats_to_vec_pretty fmt stats = Some bs \<and> stats_from_slice fmt bs = Some stats)"

definition stats_of :: "'f stats_format \<Rightarrow> 'f option \<Rightarrow> stats_file" where
  "stats_of fmt file = (case read_stats_file fmt file of Some s \<Rightarrow> s | None \<Rightarrow> stats_file_default)"

lemma update_stats_file_read:
  assumes "format_ok fmt"
  shows "stats_of fmt (update_stats_file fmt now update file) =
    (update ((stats_of fmt file)\<lparr>sf_version := 1\<rparr>))\<lparr>sf_updated := now\<rparr>"
proof -
  let ?s = "(update ((stats_of fmt file)\<lparr>sf_version := 1\<rparr>))\<lparr>sf_updated := now\<rparr>"
  obtain bs where "stats_to_vec_pretty fmt ?s = Some bs" "stats_from_slice fmt bs = Some ?s"
    using assms unfolding format_ok_def by blast
  then show ?thesis
    by (simp add: update_stats_file_def stats_of_def [symmetric] Let_def)
      (simp add: stats_of_def read_stats_file_def)
qed

lemma counts_update [simp]:
  "secret_count (stats\<lparr>sf_version := v\<rparr>) p = secret_count stats p"
  "secret_count (stats\<lparr>sf_updated := t\<rparr>) p = secret_count stats p"
  "pattern_count (stats\<lparr>sf_version := v\<rparr>) p = pattern_count stats p"
  "pattern_count (stats\<lparr>sf_updated := t\<rparr>) p = pattern_count stats p"
  by (simp_all add: secret_count_def pattern_count_def)

lemma record_report_counts:
  assumes "format_ok fmt" and "stats_enabled rec"
  shows "secret_count (stats_of fmt (record_sanitizer_report fmt now rec r report file)) p =
      min u64_max (secret_count (stats_of fmt file) p +
        length (filter (\<lambda>ident. map_option fst (stats_identity_for r ident) = Some p) (sr_secret_ids report)))"
    "pattern_count (stats_of fmt (record_sanitizer_report fmt now rec r report file)) p =
      min u64_max (pattern_count (stats_of fmt file) p + count_list (sr_pattern_ids report) p)"
  using assms secret_count_bound [of "stats_of fmt file" p] pattern_count_bound [of "stats_of fmt file" p]
  by (auto simp: record_sanitizer_report_def recorder_update_def update_stats_file_read count_report_counts)

end
