(* ===== verification/Payload_Tap.thy ===== *)
theory Payload_Tap
  imports Http_Head
begin

text \<open>
  \<^verbatim>\<open>src/payload_tap.rs\<close>: what is noted of the requests that left the proxy, when the tap file is
  configured. The tap is the list of its records; their serialisation and the time stamps are
  left out.
\<close>

record tap_record =
  tap_kind :: bytes
  tap_method :: "bytes option"
  tap_host :: "bytes option"
  tap_path :: "bytes option"
  tap_payload :: bytes

definition tap_from_http_request :: "bytes \<Rightarrow> bytes \<Rightarrow> tap_record option" where
  "tap_from_http_request head body =
     (if \<not> utf8_valid body \<or> body = [] \<or> \<not> utf8_valid head then None
      else
        (let parts = split_whitespace (hd (head_lines head))
         in Some \<lparr>tap_kind = ''http'',
              tap_method = (case parts of [] \<Rightarrow> None | m # _ \<Rightarrow> Some m),
              tap_host = header_value head ''host'',
              tap_path = (case parts of _ # p # _ \<Rightarrow> Some p | _ \<Rightarrow> None),
              tap_payload = body\<rparr>))"

definition append_record :: "bool \<Rightarrow> tap_record \<Rightarrow> tap_record list \<Rightarrow> tap_record list" where
  "append_record configured rec tap = (if configured then tap @ [rec] else tap)"

definition append_http_request :: "bool \<Rightarrow> bytes \<Rightarrow> bytes \<Rightarrow> tap_record list \<Rightarrow> tap_record list" where
  "append_http_request configured head body tap =
     (case tap_from_http_request head body of
        None \<Rightarrow> tap
      | Some rec \<Rightarrow> append_record configured rec tap)"

definition append_websocket_request :: "bool \<Rightarrow> bytes \<Rightarrow> tap_record list \<Rightarrow> tap_record list" where
  "append_websocket_request configured payload tap =
     (if \<not> utf8_valid payload \<or> payload = [] then tap
      else append_record configured
        \<lparr>tap_kind = ''websocket'', tap_method = None, tap_host = None, tap_path = None,
         tap_payload = payload\<rparr> tap)"

text \<open>The tap only grows, and only by the payload it is given.\<close>

lemma append_http_request_grows:
  "\<exists>recs. append_http_request configured head body tap = tap @ recs \<and>
     (\<forall>rec \<in> set recs. tap_payload rec = body)"
  by (auto simp: append_http_request_def append_record_def tap_from_http_request_def Let_def)

lemma append_websocket_request_grows:
  "\<exists>recs. append_websocket_request configured payload tap = tap @ recs \<and>
     (\<forall>rec \<in> set recs. tap_payload rec = payload)"
  by (auto simp: append_websocket_request_def append_record_def)

end
