(* ===== verification/Http_Proxy.thy ===== *)
theory Http_Proxy
  imports Http_Chunked Stats Payload_Tap
begin

text \<open>
  The connections of \<^verbatim>\<open>src/proxy/server.rs\<close>: the answer to CONNECT, the request that is read,
  sanitized and sent upstream, and the response that is restored. A connection is a source to
  read from and the bytes written to it. TLS and TCP are parameters: reaching the upstream may
  fail, and what it answers is a function of what was sent.
\<close>

section \<open>State\<close>

text \<open>What does not change while the proxy runs.\<close>

record 'f proxy_env =
  env_crypto :: crypto
  env_serde :: serde
  env_matcher :: matcher_lib
  env_sanitizer :: json_sanitizer
  env_format :: "'f stats_format"
  env_recorder :: stats_recorder
  env_now :: u64
  env_tap :: bool
  env_allowlist :: "bytes set"
  env_mitm :: bool

text \<open>What the connections share: the cache and the registry (behind their locks), the stats file
  and the tap.\<close>

record 'f proxy_state =
  px_san :: san_state
  px_stats :: "'f option"
  px_tap :: "tap_record list"

abbreviation px_registry :: "'f proxy_state \<Rightarrow> registry" where
  "px_registry st \<equiv> snd (px_san st)"

definition normalized_allowlist :: "bytes list \<Rightarrow> bytes set" where
  "normalized_allowlist targets = set (map to_ascii_lowercase targets)"

section \<open>Bodies\<close>

definition sanitize_http_body ::
  "'f proxy_env \<Rightarrow> bytes \<Rightarrow> bytes \<Rightarrow> san_state \<Rightarrow> (crebro_error + bytes \<times> sanitizer_report) \<times> san_state" where
  "sanitize_http_body env head body st =
     (if is_json_http_body head
      then sanitize_json (env_crypto env) (env_serde env) (env_sanitizer env) body st
      else if \<not> utf8_valid body then (Inl (crebro_error.Gateway ''HTTP text body was not UTF-8''), st)
      else sanitize_text_payload (env_crypto env) (env_sanitizer env) body st)"

text \<open>The sanitizer under its lock, with the stats of its report or of its error.\<close>

definition sanitize_recorded ::
  "'f proxy_env \<Rightarrow> (san_state \<Rightarrow> (crebro_error + bytes \<times> sanitizer_report) \<times> san_state) \<Rightarrow>
   'f proxy_state \<Rightarrow> (crebro_error + bytes) \<times> 'f proxy_state" where
  "sanitize_recorded env run st =
     (case run (px_san st) of
        (Inr (sanitized, report), san) \<Rightarrow>
          (Inr sanitized, st\<lparr>px_san := san, px_stats :=
             record_sanitizer_report (env_format env) (env_now env) (env_recorder env) (snd san) report (px_stats st)\<rparr>)
      | (Inl err, san) \<Rightarrow>
          (Inl err, st\<lparr>px_san := san, px_stats :=
             record_error (env_format env) (env_now env) (env_recorder env) err (px_stats st)\<rparr>))"

definition sanitize_http_request ::
  "'f proxy_env \<Rightarrow> http_head \<Rightarrow> 'f proxy_state \<Rightarrow> (crebro_error + bytes) \<times> 'f proxy_state" where
  "sanitize_http_request env request st =
     (let head = head_without_delimiter request
      in case content_length head of
        None \<Rightarrow> (strip_http_message_header request ''accept-encoding'', st)
      | Some n \<Rightarrow>
          (if n = 0 \<or> \<not> is_redactable_http_body head
           then (strip_http_message_header request ''accept-encoding'', st)
           else
             (let body = extra_bytes request
              in and_then_st (sanitize_recorded env (sanitize_http_body env head body) st) (\<lambda>sanitized st.
                   let st = st\<lparr>px_tap := append_http_request (env_tap env) head sanitized (px_tap st)\<rparr>
                   in if sanitized = body \<and> \<not> has_header head ''accept-encoding''
                      then (Inr (hh_bytes request), st)
                      else and_then_st (rewrite_http_head_for_body head (length sanitized) True, st)
                        (\<lambda>head st. (Inr (head @ CRLF @ sanitized), st))))))"

definition restore_body :: "'f proxy_env \<Rightarrow> registry \<Rightarrow> bytes \<Rightarrow> crebro_error + bytes" where
  "restore_body env r body =
     and_then (restorer_new (env_matcher env) r) (\<lambda>rr.
       case push_chunk (env_crypto env) body r rr of
         (Inl err, rr) \<Rightarrow> Inl err
       | (Inr out, rr) \<Rightarrow> and_then (restorer_finish (env_crypto env) r rr) (\<lambda>tail. Inr (out @ tail)))"

definition restore_http_response :: "'f proxy_env \<Rightarrow> registry \<Rightarrow> http_head \<Rightarrow> crebro_error + bytes" where
  "restore_http_response env r response =
     (let head = head_without_delimiter response
      in case content_length head of
        None \<Rightarrow> Inr (hh_bytes response)
      | Some n \<Rightarrow>
          (if n = 0 \<or> \<not> is_redactable_http_body head then Inr (hh_bytes response)
           else
             (let body = extra_bytes response
              in and_then (restore_body env r body) (\<lambda>restored.
                   if restored = body then Inr (hh_bytes response)
                   else and_then (rewrite_http_head_for_body head (length restored) False)
                     (\<lambda>head. Inr (head @ CRLF @ restored))))))"

section \<open>One request\<close>

text \<open>\<^verbatim>\<open>tokio::io::copy\<close>: all that still comes.\<close>

fun copy_source :: "source \<Rightarrow> (bytes + unit) \<times> bytes" where
  "copy_source [] = (Inr (), [])"
| "copy_source (Failed e # src) = (Inl e, [])"
| "copy_source (Got bs # src) =
     (if bs = [] then (Inr (), []) else (case copy_source src of (res, out) \<Rightarrow> (res, bs @ out)))"

definition forward_passthrough_http_response :: "http_head \<Rightarrow> source \<Rightarrow> (crebro_error + unit) \<times> bytes" where
  "forward_passthrough_http_response response src =
     (case copy_source src of
        (Inl e, out) \<Rightarrow> (Inl (crebro_error.Gateway (''failed to copy HTTP response: '' @ e)), hh_bytes response @ out)
      | (Inr _, out) \<Rightarrow> (Inr (), hh_bytes response @ out))"

text \<open>What one connection did: what was written to the upstream and to the client.\<close>

record 'f exchange =
  ex_result :: "crebro_error + unit"
  ex_upstream :: bytes
  ex_client :: bytes
  ex_state :: "'f proxy_state"

definition failed_exchange :: "crebro_error \<Rightarrow> bytes \<Rightarrow> 'f proxy_state \<Rightarrow> 'f exchange" where
  "failed_exchange err sent st = \<lparr>ex_result = Inl err, ex_upstream = sent, ex_client = [], ex_state = st\<rparr>"

definition forward_http_response ::
  "'f proxy_env \<Rightarrow> registry \<Rightarrow> bool \<Rightarrow> http_head \<Rightarrow> source \<Rightarrow> (crebro_error + unit) \<times> bytes" where
  "forward_http_response env r request_is_head response src =
     (let head = head_without_delimiter response
      in if \<not> response_can_have_body request_is_head head then (Inr (), http_head_only response)
         else if is_chunked_transfer head then
           (if is_sse_http_body head \<and> \<not> has_header head ''content-encoding''
            then forward_sse_chunked_http_response (env_crypto env) (env_matcher env) (env_serde env) r response src
            else if is_redactable_http_body head \<and> \<not> has_header head ''content-encoding''
            then forward_chunked_http_response (env_crypto env) (env_matcher env) r response src
            else forward_passthrough_http_response response src)
         else (case read_remaining_body response src of
             (Inl err, src) \<Rightarrow> (Inl err, [])
           | (Inr response, src) \<Rightarrow>
               (case restore_http_response env r response of
                  Inl err \<Rightarrow> (Inl err, [])
                | Inr out \<Rightarrow> (Inr (), out))))"

definition forward_http ::
  "'f proxy_env \<Rightarrow> crebro_error + (bytes \<Rightarrow> source) \<Rightarrow> http_head \<Rightarrow> source \<Rightarrow> 'f proxy_state \<Rightarrow> 'f exchange" where
  "forward_http env conn request src st =
     (case conn of
        Inl err \<Rightarrow> failed_exchange err [] st
      | Inr upstream \<Rightarrow>
          (case read_remaining_body request src of
             (Inl err, src) \<Rightarrow> failed_exchange err [] st
           | (Inr whole, src) \<Rightarrow>
               (case sanitize_http_request env whole st of
                  (Inl err, st) \<Rightarrow> failed_exchange err [] st
                | (Inr sent, st) \<Rightarrow>
                    (case read_http_head (upstream sent) of
                       (Inl err, src) \<Rightarrow> failed_exchange err sent st
                     | (Inr response, src) \<Rightarrow>
                         (case forward_http_response env (px_registry st)
                                 (request_method_is (head_without_delimiter request) ''HEAD'') response src of
                            (res, out) \<Rightarrow>
                              \<lparr>ex_result = res, ex_upstream = sent, ex_client = out, ex_state = st\<rparr>)))))"

section \<open>CONNECT\<close>

datatype connect_action =
    Respond nat bytes
  | Tunnel bytes http_head
  | Mitm bytes http_head

definition connect_established :: bytes where
  "connect_established = ''HTTP/1.1 200 Connection Established'' @ CRLF @ CRLF"

definition proxy_response :: "nat \<Rightarrow> bytes \<Rightarrow> bytes" where
  "proxy_response status reason =
     ''HTTP/1.1 '' @ print_radix 10 status @ '' '' @ reason @ CRLF @ ''content-length: 0'' @ CRLF @ CRLF"

definition nth_or_empty :: "bytes list \<Rightarrow> nat \<Rightarrow> bytes" where
  "nth_or_empty parts i = (if i < length parts then parts ! i else [])"

definition handle_proxy_connection :: "'f proxy_env \<Rightarrow> source \<Rightarrow> (crebro_error + connect_action) \<times> source" where
  "handle_proxy_connection env src =
     and_then_st (read_http_head src) (\<lambda>request src.
       let header = head_without_delimiter request
       in if \<not> utf8_valid header then (Inl (crebro_error.Gateway ''proxy request header is not UTF-8''), src)
          else
            (let parts = split_whitespace (hd (head_lines header));
                 target = nth_or_empty parts 1
             in if \<not> starts_with (nth_or_empty parts 2) ''HTTP/'' then (Inr (Respond 400 ''Bad Request''), src)
                else if nth_or_empty parts 0 \<noteq> ''CONNECT'' then (Inr (Respond 405 ''Method Not Allowed''), src)
                else if to_ascii_lowercase target \<notin> env_allowlist env then (Inr (Respond 403 ''Forbidden''), src)
                else if env_mitm env then (Inr (Mitm target request), src)
                else (Inr (Tunnel target request), src)))"

text \<open>What is written to the client and to the target when a tunnel is opened; from then on the
  bytes are copied both ways.\<close>

definition handle_tunnel_connect :: "http_head \<Rightarrow> bytes \<times> bytes" where
  "handle_tunnel_connect request = (connect_established, extra_bytes request)"

text \<open>The start of an intercepted connection: the host to present a certificate for and what is
  written in the clear, before TLS.\<close>

definition handle_mitm_connect :: "bytes \<Rightarrow> http_head \<Rightarrow> crebro_error + bytes \<times> bytes" where
  "handle_mitm_connect target request =
     (if extra_bytes request \<noteq> []
      then Inl (crebro_error.Gateway ''buffered bytes after CONNECT are not supported in proxy MITM mode'')
      else Inr (target_host target, connect_established))"

section \<open>The request that is sent\<close>

lemma sanitize_recorded_Inr:
  assumes "sanitize_recorded env run st = (Inr sanitized, st')"
  shows "\<exists>report. run (px_san st) = (Inr (sanitized, report), px_san st')" "px_tap st' = px_tap st"
  using assms by (auto simp: sanitize_recorded_def split: prod.splits sum.splits)

lemma sanitize_recorded_Inl:
  assumes "sanitize_recorded env run st = (Inl err, st')"
  shows "run (px_san st) = (Inl err, px_san st')" "px_tap st' = px_tap st"
  using assms by (auto simp: sanitize_recorded_def split: prod.splits sum.splits)

text \<open>A request whose body the proxy reads: its length is declared and its type is JSON or text.\<close>

definition body_is_read :: "http_head \<Rightarrow> bool" where
  "body_is_read request \<longleftrightarrow>
     (\<exists>n. content_length (head_without_delimiter request) = Some n \<and> n \<noteq> 0) \<and>
     is_redactable_http_body (head_without_delimiter request)"

text \<open>A request as \<^const>\<open>read_http_head\<close> returns it, with a first line.\<close>

definition request_wf :: "http_head \<Rightarrow> bool" where
  "request_wf request \<longleftrightarrow>
     find_header_end (hh_bytes request) = Some (hh_delimiter_start request) \<and>
     hd (head_lines (head_without_delimiter request)) \<noteq> []"

lemma request_parts:
  "request_wf request \<Longrightarrow> message_parts (hh_bytes request) = Some (head_without_delimiter request, extra_bytes request)"
  by (simp add: request_wf_def message_parts_def head_without_delimiter_def extra_bytes_def)

lemma sanitize_http_request_read:
  assumes run: "sanitize_http_request env request st = (Inr sent, st')"
    and read: "body_is_read request" and wf: "request_wf request"
    and size: "length sent < 2 ^ 64"
  shows "\<exists>head sanitized report.
    sanitize_http_body env (head_without_delimiter request) (extra_bytes request) (px_san st) =
      (Inr (sanitized, report), px_san st') \<and>
    message_parts sent = Some (head, sanitized) \<and>
    (sent \<noteq> hh_bytes request \<longrightarrow> content_length head = Some (length sanitized)) \<and>
    header_value head ''accept-encoding'' = None"
proof -
  let ?head = "head_without_delimiter request"
  let ?body = "extra_bytes request"
  obtain n where n: "content_length ?head = Some n" "n \<noteq> 0" and red: "is_redactable_http_body ?head"
    using read by (auto simp: body_is_read_def)
  obtain sanitized st1 where rec: "sanitize_recorded env (sanitize_http_body env ?head ?body) st = (Inr sanitized, st1)"
    and rest: "(let st = st1\<lparr>px_tap := append_http_request (env_tap env) ?head sanitized (px_tap st1)\<rparr>
        in if sanitized = ?body \<and> \<not> has_header ?head ''accept-encoding'' then (Inr (hh_bytes request), st)
           else and_then_st (rewrite_http_head_for_body ?head (length sanitized) True, st)
             (\<lambda>head st. (Inr (head @ CRLF @ sanitized), st))) = (Inr sent, st')"
    using run n red unfolding sanitize_http_request_def Let_def by (auto simp: and_then_st_eq_Inr)
  obtain report where body: "sanitize_http_body env ?head ?body (px_san st) = (Inr (sanitized, report), px_san st1)"
    using sanitize_recorded_Inr(1) [OF rec] by blast
  have san: "px_san st' = px_san st1"
    using rest by (auto simp: Let_def and_then_st_eq_Inr split: if_splits)
  show ?thesis
  proof (cases "sanitized = ?body \<and> \<not> has_header ?head ''accept-encoding''")
    case True
    then have sent: "sent = hh_bytes request"
      using rest by (simp add: Let_def)
    have "message_parts sent = Some (?head, sanitized)"
      unfolding sent request_parts [OF wf] using True by simp
    moreover have "header_value ?head ''accept-encoding'' = None"
      using True by (simp add: has_header_def)
    ultimately show ?thesis
      using body san sent by auto
  next
    case False
    then obtain head' where head': "rewrite_http_head_for_body ?head (length sanitized) True = Inr head'"
      and sent: "sent = head' @ CRLF @ sanitized"
      using rest by (auto simp: Let_def and_then_st_eq_Inr simp del: de_Morgan_conj)
    have ne: "hd (head_lines ?head) \<noteq> []"
      using wf by (simp add: request_wf_def)
    have fits: "length sanitized < 2 ^ 64"
      using size sent by simp
    note parts = rewritten_body_parts [OF head' ne fits]
    note spec = rewrite_body_spec [OF head' fits]
    have "message_parts sent = Some (take (length head' - 2) head', sanitized)"
      unfolding sent by (rule parts(1))
    moreover have "content_length (take (length head' - 2) head') = Some (length sanitized)"
      using spec(1) by (simp add: content_length_def parts(2))
    moreover have "header_value (take (length head' - 2) head') ''accept-encoding'' = None"
      using spec(2) [of "''accept-encoding''"] by (simp add: parts(2) stripped_headers_def)
    ultimately show ?thesis
      using body san by (intro exI conjI) auto
  qed
qed

text \<open>Bodies that are not announced by a length are passed on as they are, and so is what the
  state of the proxy.\<close>

lemma sanitize_http_request_unread:
  assumes "content_length (head_without_delimiter request) = None"
  shows "sanitize_http_request env request st = (strip_http_message_header request ''accept-encoding'', st)"
  using assms by (simp add: sanitize_http_request_def Let_def)

section \<open>Nothing leaves but what the sanitizer returned\<close>

lemma forward_http_sent:
  assumes ex: "forward_http env conn request src st = ex" and sent: "ex_upstream ex \<noteq> []"
  shows "\<exists>whole src'. read_remaining_body request src = (Inr whole, src') \<and>
    sanitize_http_request env whole st = (Inr (ex_upstream ex), ex_state ex)"
proof -
  obtain upstream where "conn = Inr upstream"
    using ex sent by (cases conn) (auto simp: forward_http_def failed_exchange_def)
  moreover obtain whole src' where whole: "read_remaining_body request src = (Inr whole, src')"
    using ex sent calculation
    by (cases "read_remaining_body request src"; cases "fst (read_remaining_body request src)")
      (auto simp: forward_http_def failed_exchange_def)
  moreover obtain out st' where "sanitize_http_request env whole st = (Inr out, st')"
    using ex sent calculation
    by (cases "sanitize_http_request env whole st"; cases "fst (sanitize_http_request env whole st)")
      (auto simp: forward_http_def failed_exchange_def)
  ultimately show ?thesis
    using ex
    by (cases "read_http_head (upstream out)"; cases "fst (read_http_head (upstream out))")
      (auto simp: forward_http_def failed_exchange_def split: prod.split)
qed

lemma forward_http_failed:
  assumes "read_remaining_body request src = (Inr whole, src')"
    and "sanitize_http_request env whole st = (Inl err, st')"
  shows "ex_result (forward_http env (Inr upstream) request src st) = Inl err"
    "ex_upstream (forward_http env (Inr upstream) request src st) = []"
    "ex_client (forward_http env (Inr upstream) request src st) = []"
  using assms by (simp_all add: forward_http_def failed_exchange_def)

section \<open>Responses\<close>

lemma restore_body_text:
  assumes "lib_ok (env_matcher env)" and "hex_lowercase (env_crypto env)" and "registry_wf (env_crypto env) r"
    and "restorer_new (env_matcher env) r = Inr rr"
  shows "restore_body env r body = Inr (restore_text (secret_table (env_crypto env) r) body)"
proof -
  have "restore_chunks (env_crypto env) [(body, r)] r rr =
      Inr (restore_text (secret_table (env_crypto env) r) body)"
    using restored_chunks_text [OF assms, of "[(body, r)]" r] by simp
  then show ?thesis
    using assms(4) by (auto simp: restore_body_def and_then_def split: prod.splits sum.splits)
qed

end
