(* ===== verification/Ws_Frame.thy ===== *)
theory Ws_Frame
  imports Byte_Source Secrets_Crypto
begin

unbundle bit_operations_syntax

text \<open>
  The WebSocket frames of \<^verbatim>\<open>src/proxy/websocket.rs\<close>: reading and writing them with the bit
  operations of the code, masking, and the round trip.
\<close>

section \<open>Data\<close>

definition OPCODE_CONTINUATION :: u8 where "OPCODE_CONTINUATION = 0"
definition OPCODE_TEXT :: u8 where "OPCODE_TEXT = 1"
definition OPCODE_BINARY :: u8 where "OPCODE_BINARY = 2"
definition OPCODE_CLOSE :: u8 where "OPCODE_CLOSE = 8"
definition OPCODE_PING :: u8 where "OPCODE_PING = 9"
definition OPCODE_PONG :: u8 where "OPCODE_PONG = 10"

definition MAX_TEXT_MESSAGE_BYTES :: nat where
  "MAX_TEXT_MESSAGE_BYTES = 16 * 1024 * 1024"

record frame =
  fm_fin :: bool
  fm_opcode :: u8
  fm_payload :: bytes

definition u8_of :: "char \<Rightarrow> u8" where
  "u8_of c = word_of_nat (byte_val c)"

definition char_of_u8 :: "u8 \<Rightarrow> char" where
  "char_of_u8 w = char_of (unat w)"

lemma u8_of_char [simp]: "u8_of (char_of_u8 w) = w"
  using unsigned_less [of w, where 'a = nat] by (simp add: u8_of_def char_of_u8_def)

lemma char_of_u8_of [simp]: "char_of_u8 (u8_of c) = c"
  by (simp add: u8_of_def char_of_u8_def unat_of_nat take_bit_eq_mod)

text \<open>\<^verbatim>\<open>to_be_bytes\<close> and \<^verbatim>\<open>from_be_bytes\<close> of \<open>k\<close> bytes\<close>

definition be_bytes :: "nat \<Rightarrow> nat \<Rightarrow> bytes" where
  "be_bytes k n = rev (le_digits k n)"

definition be_value :: "bytes \<Rightarrow> nat" where
  "be_value bs = le_value (rev bs)"

lemma be_value_bytes [simp]: "n < 256 ^ k \<Longrightarrow> be_value (be_bytes k n) = n"
  by (simp add: be_value_def be_bytes_def le_value_digits)

lemma length_be_bytes [simp]: "length (be_bytes k n) = k"
  by (simp add: be_bytes_def)

definition apply_mask :: "bytes \<Rightarrow> bytes \<Rightarrow> bytes" where
  "apply_mask payload key =
     map (\<lambda>(index, byte). char_of_u8 (u8_of byte XOR u8_of (key ! (index mod 4)))) (enumerate 0 payload)"

section \<open>Reading and writing\<close>

definition read_extended_length :: "nat \<Rightarrow> source \<Rightarrow> (bytes + nat) \<times> source" where
  "read_extended_length len src =
     (if len = 126 then and_then_st (read_exact 2 src) (\<lambda>ext src. (Inr (be_value ext), src))
      else if len = 127 then and_then_st (read_exact 8 src) (\<lambda>ext src. (Inr (be_value ext), src))
      else (Inr len, src))"

definition ws_error :: "bytes \<Rightarrow> (bytes + 'a) \<times> source \<Rightarrow> (crebro_error + 'a) \<times> source" where
  "ws_error what res =
     (case res of
        (Inl e, src) \<Rightarrow> (Inl (crebro_error.Gateway (''failed to read websocket '' @ what @ '': '' @ e)), src)
      | (Inr a, src) \<Rightarrow> (Inr a, src))"

definition read_frame :: "bool \<Rightarrow> source \<Rightarrow> (crebro_error + frame option) \<times> source" where
  "read_frame expect_masked src =
     (case read_exact 2 src of
        (Inl e, src) \<Rightarrow>
          (if e = ''early eof'' then (Inr None, src)
           else (Inl (crebro_error.Gateway (''failed to read websocket frame header: '' @ e)), src))
      | (Inr header, src) \<Rightarrow>
          (let b0 = u8_of (header ! 0);
               b1 = u8_of (header ! 1);
               fin = (b0 AND 0x80 \<noteq> 0);
               opcode = b0 AND 0x0f;
               masked = (b1 AND 0x80 \<noteq> 0)
           in if masked \<noteq> expect_masked
              then (Inl (crebro_error.Gateway ''websocket frame masking did not match direction''), src)
              else and_then_st (ws_error ''extended length'' (read_extended_length (unat (b1 AND 0x7f)) src)) (\<lambda>len src.
                if MAX_TEXT_MESSAGE_BYTES < len
                then (Inl (crebro_error.Gateway ''websocket frame exceeded maximum supported length''), src)
                else and_then_st (if masked then ws_error ''mask'' (read_exact 4 src) else (Inr (replicate 4 (char_of (0 :: nat))), src)) (\<lambda>key src.
                  and_then_st (ws_error ''frame payload'' (read_exact len src)) (\<lambda>payload src.
                    (Inr (Some \<lparr>fm_fin = fin, fm_opcode = opcode,
                       fm_payload = (if masked then apply_mask payload key else payload)\<rparr>), src))))))"

text \<open>The two first bytes and the extended length, then the mask and the payload. The mask comes from
  the operating system and may fail to.\<close>

definition frame_head :: "bool \<Rightarrow> u8 \<Rightarrow> nat \<Rightarrow> bool \<Rightarrow> bytes" where
  "frame_head fin opcode len masked =
     (let mask_bit = (if masked then 0x80 else 0)
      in char_of_u8 (if fin then 0x80 OR opcode else opcode) #
         (if len < 126 then [char_of_u8 (mask_bit OR word_of_nat len)]
          else if len \<le> 65535 then char_of_u8 (mask_bit OR 126) # be_bytes 2 len
          else char_of_u8 (mask_bit OR 127) # be_bytes 8 len))"

definition write_frame :: "bytes option \<Rightarrow> bool \<Rightarrow> u8 \<Rightarrow> bytes \<Rightarrow> bool \<Rightarrow> crebro_error + bytes" where
  "write_frame random fin opcode payload masked =
     (let out = frame_head fin opcode (length payload) masked
      in if masked
         then (case random of
             None \<Rightarrow> Inl (crebro_error.Gateway ''failed to generate websocket mask'')
           | Some key \<Rightarrow> Inr (out @ key @ apply_mask payload key))
         else Inr (out @ payload))"

section \<open>Masking\<close>

lemma length_apply_mask [simp]: "length (apply_mask payload key) = length payload"
  by (simp add: apply_mask_def)

lemma apply_mask_nth:
  "i < length payload \<Longrightarrow>
   apply_mask payload key ! i = char_of_u8 (u8_of (payload ! i) XOR u8_of (key ! (i mod 4)))"
  by (simp add: apply_mask_def nth_enumerate_eq)

lemma apply_mask_twice [simp]: "apply_mask (apply_mask payload key) key = payload"
  by (rule nth_equalityI) (simp_all add: apply_mask_nth xor.assoc)

section \<open>The round trip\<close>

lemma u8_bits:
  fixes n :: u8
  assumes "unat n < 2 ^ k" and "k < 8"
  shows "n AND mask k = n" "(0x80 OR n) AND mask k = n"
    "n AND 0x80 = 0" "(0x80 OR n) AND 0x80 \<noteq> 0"
proof -
  have n: "take_bit k n = n"
    using assms by (simp add: word_unat_eq_iff unsigned_take_bit_eq take_bit_nat_eq_self_iff)
  then show "n AND mask k = n"
    by (simp add: take_bit_eq_mask)
  have top: "bit (0x80 :: u8) i \<longleftrightarrow> i = 7" for i
    using bit_exp_iff [where 'a = u8, of 7 i] by auto
  have nk: "bit n i \<Longrightarrow> i < k" for i
    by (metis n bit_take_bit_iff)
  show "(0x80 OR n) AND mask k = n"
  proof (rule bit_word_eqI)
    fix i
    show "bit ((0x80 OR n) AND mask k) i \<longleftrightarrow> bit n i"
      using assms(2) nk [of i] top [of i] unfolding bit_and_iff bit_or_iff bit_mask_iff by auto
  qed
  show "n AND 0x80 = 0"
  proof (rule bit_word_eqI)
    fix i
    show "bit (n AND 0x80) i \<longleftrightarrow> bit 0 i"
      using assms(2) nk [of i] top [of i] unfolding bit_and_iff by auto
  qed
  have "bit ((0x80 OR n) AND 0x80) 7"
    by (simp add: bit_simps top)
  then show "(0x80 OR n) AND 0x80 \<noteq> 0"
    by auto
qed

lemma u8_nibble:
  fixes n :: u8
  assumes "n < 16"
  shows "n AND 0x0f = n" "(0x80 OR n) AND 0x0f = n" "n AND 0x80 = 0" "(0x80 OR n) AND 0x80 \<noteq> 0"
  using u8_bits [of n 4] assms by (simp_all add: mask_eq_exp_minus_1 word_less_nat_alt)

lemma u8_seven:
  fixes n :: u8
  assumes "n < 128"
  shows "n AND 0x7f = n" "(0x80 OR n) AND 0x7f = n" "n AND 0x80 = 0" "(0x80 OR n) AND 0x80 \<noteq> 0"
  using u8_bits [of n 7] assms by (simp_all add: mask_eq_exp_minus_1 word_less_nat_alt)

definition length_code :: "nat \<Rightarrow> nat" where
  "length_code len = (if len < 126 then len else if len \<le> 65535 then 126 else 127)"

definition length_ext :: "nat \<Rightarrow> bytes" where
  "length_ext len = (if len < 126 then [] else if len \<le> 65535 then be_bytes 2 len else be_bytes 8 len)"

lemma frame_head_split:
  "frame_head fin opcode len masked =
     [char_of_u8 (if fin then 0x80 OR opcode else opcode),
      char_of_u8 ((if masked then 0x80 else 0) OR word_of_nat (length_code len))] @ length_ext len"
  by (simp add: frame_head_def length_code_def length_ext_def Let_def)

lemma read_extended_length_delivers:
  assumes "len \<le> MAX_TEXT_MESSAGE_BYTES" and "delivers src (length_ext len @ rest)"
  shows "\<exists>src'. read_extended_length (length_code len) src = (Inr len, src') \<and> delivers src' rest"
proof -
  consider "len < 126" | "126 \<le> len" "len \<le> 65535" | "65535 < len"
    by linarith
  then show ?thesis
  proof cases
    case 1
    then show ?thesis
      using assms(2) by (simp add: length_code_def length_ext_def read_extended_length_def)
  next
    case 2
    then have ext: "length_code len = 126" "length_ext len = be_bytes 2 len"
      by (simp_all add: length_code_def length_ext_def)
    obtain src' where "read_exact 2 src = (Inr (be_bytes 2 len), src')" "delivers src' rest"
      using read_exact_enough [OF assms(2), of 2] ext(2) by auto
    moreover have "be_value (be_bytes 2 len) = len"
      by (rule be_value_bytes) (use 2 in simp)
    ultimately show ?thesis
      by (simp add: read_extended_length_def ext(1))
  next
    case 3
    then have ext: "length_code len = 127" "length_ext len = be_bytes 8 len"
      by (simp_all add: length_code_def length_ext_def)
    obtain src' where "read_exact 8 src = (Inr (be_bytes 8 len), src')" "delivers src' rest"
      using read_exact_enough [OF assms(2), of 8] ext(2) by auto
    moreover have "be_value (be_bytes 8 len) = len"
      by (rule be_value_bytes) (use assms(1) in \<open>simp add: MAX_TEXT_MESSAGE_BYTES_def\<close>)
    ultimately show ?thesis
      by (simp add: read_extended_length_def ext(1))
  qed
qed

text \<open>Every frame that is written is read back, with the same flag, opcode and payload, and nothing
  after it is touched.\<close>

lemma read_frame_written:
  assumes op: "opcode < 16" and len: "length payload \<le> MAX_TEXT_MESSAGE_BYTES"
    and key: "masked \<Longrightarrow> (\<exists>key. random = Some key \<and> length key = 4)"
    and wr: "write_frame random fin opcode payload masked = Inr out"
    and src: "delivers src (out @ rest)"
  shows "\<exists>src'. read_frame masked src =
      (Inr (Some \<lparr>fm_fin = fin, fm_opcode = opcode, fm_payload = payload\<rparr>), src') \<and> delivers src' rest"
proof -
  let ?n = "length payload"
  let ?code = "word_of_nat (length_code ?n) :: u8"
  let ?b0 = "if fin then 0x80 OR opcode else opcode"
  let ?b1 = "(if masked then 0x80 else 0) OR ?code"
  define body where "body = (if masked then the random @ apply_mask payload (the random) else payload)"
  have out: "out = [char_of_u8 ?b0, char_of_u8 ?b1] @ length_ext ?n @ body"
    using wr key unfolding write_frame_def frame_head_split body_def by (auto simp: Let_def)
  have code: "length_code ?n < 128"
    by (simp add: length_code_def)
  then have unat: "unat ?code = length_code ?n"
    by (simp add: unsigned_of_nat take_bit_nat_eq_self)
  then have small: "?code < 128"
    using code by (simp add: word_less_nat_alt)
  note bits = u8_nibble [OF op] u8_seven [OF small]
  obtain src1 where src1: "read_exact 2 src = (Inr [char_of_u8 ?b0, char_of_u8 ?b1], src1)"
      "delivers src1 (length_ext ?n @ body @ rest)"
    using read_exact_enough [OF src, of 2] by (auto simp: out)
  obtain src2 where src2: "read_extended_length (length_code ?n) src1 = (Inr ?n, src2)"
      "delivers src2 (body @ rest)"
    using read_extended_length_delivers [OF len src1(2)] by blast
  have fields: "(?b0 AND 0x80 \<noteq> 0) = fin" "?b0 AND 0x0f = opcode" "(?b1 AND 0x80 \<noteq> 0) = masked"
      "unat (?b1 AND 0x7f) = length_code ?n"
    using bits unat by auto
  show ?thesis
  proof (cases masked)
    case True
    obtain key where key: "random = Some key" "length key = 4"
      using key True by blast
    obtain src3 where src3: "read_exact 4 src2 = (Inr key, src3)" "delivers src3 (apply_mask payload key @ rest)"
      using read_exact_enough [OF src2(2), of 4] key True by (auto simp: body_def)
    obtain src4 where "read_exact ?n src3 = (Inr (apply_mask payload key), src4)" "delivers src4 rest"
      using read_exact_enough [OF src3(2), of ?n] by auto
    then show ?thesis
      using src1(1) src2(1) src3(1) fields True len
      by (simp add: read_frame_def ws_error_def Let_def not_less)
  next
    case False
    obtain src4 where "read_exact ?n src2 = (Inr payload, src4)" "delivers src4 rest"
      using read_exact_enough [OF src2(2), of ?n] False by (auto simp: body_def)
    then show ?thesis
      using src1(1) src2(1) fields False len
      by (simp add: read_frame_def ws_error_def Let_def not_less)
  qed
qed

lemma read_frame_closed: "delivers src [] \<Longrightarrow> read_frame masked src = (Inr None, [])"
  using read_exact_short [of src "[]" 2] by (simp add: read_frame_def)

lemma ws_error_Inr [simp]: "ws_error what res = (Inr a, src) \<longleftrightarrow> res = (Inr a, src)"
  by (auto simp: ws_error_def split: prod.splits sum.splits)

lemma read_frame_bounds:
  assumes "read_frame masked src = (Inr (Some f), src')"
  shows "length (fm_payload f) \<le> MAX_TEXT_MESSAGE_BYTES"
  using assms
  by (auto simp: read_frame_def Let_def and_then_st_eq_Inr
      dest!: read_exact_length split: prod.splits sum.splits if_splits)

end
