(* ===== verification/Websocket.thy ===== *)
theory Websocket
  imports Http_Proxy Ws_Frame Json_Walk
begin

text \<open>
  The relay of \<^verbatim>\<open>src/proxy/websocket.rs\<close>: text messages of the client are sanitized, text messages of
  the upstream are restored, fragments are put together first, and the other frames pass. The
  two directions run in one loop over a \<^verbatim>\<open>select!\<close>; an interleaving is a list of events.
\<close>

section \<open>State\<close>

record message_buffer =
  mb_opcode :: "u8 option"
  mb_payload :: bytes

definition message_buffer_default :: message_buffer where
  "message_buffer_default = \<lparr>mb_opcode = None, mb_payload = []\<rparr>"

record ws_restorer =
  wr_version :: u64
  wr_text :: fragment_restorer

text \<open>What the handlers of the client's frames change: the buffer, what is shared, and the bytes
  written to the upstream. \<open>randoms\<close> are the masks the operating system will give.\<close>

record 'f client_side =
  cs_buffer :: message_buffer
  cs_state :: "'f proxy_state"
  cs_written :: bytes
  cs_randoms :: "bytes option list"

record upstream_side =
  us_buffer :: message_buffer
  us_restorer :: "ws_restorer option"
  us_written :: bytes

section \<open>Payloads\<close>

definition append_fragment :: "bytes \<Rightarrow> message_buffer \<Rightarrow> (crebro_error + unit) \<times> message_buffer" where
  "append_fragment payload buffer =
     (if MAX_TEXT_MESSAGE_BYTES < length (mb_payload buffer) + length payload
      then (Inl (crebro_error.Gateway ''websocket text message exceeded redaction buffer limit''), buffer)
      else (Inr (), buffer\<lparr>mb_payload := mb_payload buffer @ payload\<rparr>))"

definition sanitize_client_payload ::
  "'f proxy_env \<Rightarrow> bytes \<Rightarrow> san_state \<Rightarrow> (crebro_error + bytes \<times> sanitizer_report) \<times> san_state" where
  "sanitize_client_payload env payload =
     (if from_slice (env_serde env) payload \<noteq> None
      then sanitize_json (env_crypto env) (env_serde env) (env_sanitizer env) payload
      else sanitize_text_payload (env_crypto env) (env_sanitizer env) payload)"

definition sanitize_client_text ::
  "'f proxy_env \<Rightarrow> bytes \<Rightarrow> 'f proxy_state \<Rightarrow> (crebro_error + bytes) \<times> 'f proxy_state" where
  "sanitize_client_text env payload st =
     (if from_slice (env_serde env) payload = None \<and> \<not> utf8_valid payload
      then (Inl (crebro_error.Gateway ''websocket text frame was not UTF-8''), st)
      else and_then_st (sanitize_recorded env (sanitize_client_payload env payload) st) (\<lambda>sanitized st.
        (Inr sanitized, st\<lparr>px_tap := append_websocket_request (env_tap env) sanitized (px_tap st)\<rparr>)))"

definition ws_restorer_new :: "'f proxy_env \<Rightarrow> registry \<Rightarrow> crebro_error + ws_restorer" where
  "ws_restorer_new env r =
     and_then (fragment_restorer_new (env_matcher env) r) (\<lambda>fr. Inr \<lparr>wr_version = reg_version r, wr_text = fr\<rparr>)"

definition restore_payload ::
  "'f proxy_env \<Rightarrow> registry \<Rightarrow> bytes \<Rightarrow> ws_restorer \<Rightarrow> (crebro_error + bytes) \<times> ws_restorer" where
  "restore_payload env r payload wr =
     (case from_slice (env_serde env) payload of
        Some value \<Rightarrow>
          (case restore_json_text_fields (env_crypto env) r value (wr_text wr) of
             (res, fr) \<Rightarrow> (and_then res (print_json (env_serde env)), wr\<lparr>wr_text := fr\<rparr>))
      | None \<Rightarrow>
          (if \<not> utf8_valid payload then (Inl (crebro_error.Gateway ''websocket text frame was not UTF-8''), wr)
           else (case fragment_push_text (env_crypto env) ''websocket'' payload r (wr_text wr) of
             (res, fr) \<Rightarrow> (res, wr\<lparr>wr_text := fr\<rparr>))))"

definition restore_upstream_text ::
  "'f proxy_env \<Rightarrow> registry \<Rightarrow> bytes \<Rightarrow> ws_restorer option \<Rightarrow> (crebro_error + bytes) \<times> ws_restorer option" where
  "restore_upstream_text env r payload restorer =
     (let current = (case restorer of None \<Rightarrow> False | Some wr \<Rightarrow> wr_version wr = reg_version r)
      in case (if current then Inr (the restorer) else ws_restorer_new env r) of
           Inl err \<Rightarrow> (Inl err, restorer)
         | Inr wr \<Rightarrow> (case restore_payload env r payload wr of (res, wr) \<Rightarrow> (res, Some wr)))"

section \<open>Frames\<close>

text \<open>The frame that a control or binary frame becomes, and whether the relay ends with it.\<close>

definition handle_passthrough_frame :: "bytes option \<Rightarrow> frame \<Rightarrow> bool \<Rightarrow> crebro_error + bytes \<times> bool" where
  "handle_passthrough_frame random f mask_output =
     (let opcode = fm_opcode f
      in if opcode = OPCODE_BINARY \<or> opcode = OPCODE_CONTINUATION
         then and_then (write_frame random (fm_fin f) opcode (fm_payload f) mask_output) (\<lambda>out. Inr (out, False))
         else if opcode = OPCODE_CLOSE
         then and_then (write_frame random True OPCODE_CLOSE (fm_payload f) mask_output) (\<lambda>out. Inr (out, True))
         else if opcode = OPCODE_PING \<or> opcode = OPCODE_PONG
         then and_then (write_frame random True opcode (fm_payload f) mask_output) (\<lambda>out. Inr (out, False))
         else if opcode = OPCODE_TEXT then Inl (crebro_error.Gateway ''unexpected websocket text passthrough'')
         else Inl (crebro_error.Gateway (''unsupported websocket opcode '' @ print_radix 10 (unat opcode))))"

text \<open>Writing to the upstream takes the next mask.\<close>

definition next_random :: "'f client_side \<Rightarrow> bytes option" where
  "next_random cs = (case cs_randoms cs of [] \<Rightarrow> None | random # _ \<Rightarrow> random)"

definition written_upstream :: "bytes \<Rightarrow> 'f client_side \<Rightarrow> 'f client_side" where
  "written_upstream out cs = cs\<lparr>cs_written := cs_written cs @ out, cs_randoms := tl (cs_randoms cs)\<rparr>"

definition send_client_text :: "'f proxy_env \<Rightarrow> bytes \<Rightarrow> 'f client_side \<Rightarrow> (crebro_error + bool) \<times> 'f client_side" where
  "send_client_text env payload cs =
     (case sanitize_client_text env payload (cs_state cs) of
        (Inl err, st) \<Rightarrow> (Inl err, cs\<lparr>cs_state := st\<rparr>)
      | (Inr payload, st) \<Rightarrow>
          (case write_frame (next_random cs) True OPCODE_TEXT payload True of
             Inl err \<Rightarrow> (Inl err, cs\<lparr>cs_state := st\<rparr>)
           | Inr out \<Rightarrow> (Inr False, written_upstream out (cs\<lparr>cs_state := st\<rparr>))))"

definition buffer_client_text :: "bytes \<Rightarrow> 'f client_side \<Rightarrow> (crebro_error + unit) \<times> 'f client_side" where
  "buffer_client_text payload cs =
     (case append_fragment payload (cs_buffer cs) of (res, buffer) \<Rightarrow> (res, cs\<lparr>cs_buffer := buffer\<rparr>))"

definition handle_client_frame :: "'f proxy_env \<Rightarrow> frame \<Rightarrow> 'f client_side \<Rightarrow> (crebro_error + bool) \<times> 'f client_side" where
  "handle_client_frame env f cs =
     (if fm_opcode f = OPCODE_TEXT then
        (if fm_fin f then send_client_text env (fm_payload f) cs
         else and_then_st
           (buffer_client_text (fm_payload f) (cs\<lparr>cs_buffer := (cs_buffer cs)\<lparr>mb_opcode := Some OPCODE_TEXT\<rparr>\<rparr>))
           (\<lambda>_ cs. (Inr False, cs)))
      else if fm_opcode f = OPCODE_CONTINUATION \<and> mb_opcode (cs_buffer cs) = Some OPCODE_TEXT then
        and_then_st (buffer_client_text (fm_payload f) cs) (\<lambda>_ cs.
          if fm_fin f
          then send_client_text env (mb_payload (cs_buffer cs)) (cs\<lparr>cs_buffer := message_buffer_default\<rparr>)
          else (Inr False, cs))
      else
        (case handle_passthrough_frame (next_random cs) f True of
           Inl err \<Rightarrow> (Inl err, cs)
         | Inr (out, ended) \<Rightarrow> (Inr ended, written_upstream out cs)))"

definition send_upstream_text ::
  "'f proxy_env \<Rightarrow> registry \<Rightarrow> bytes \<Rightarrow> upstream_side \<Rightarrow> (crebro_error + bool) \<times> upstream_side" where
  "send_upstream_text env r payload us =
     (case restore_upstream_text env r payload (us_restorer us) of
        (Inl err, restorer) \<Rightarrow> (Inl err, us\<lparr>us_restorer := restorer\<rparr>)
      | (Inr payload, restorer) \<Rightarrow>
          (case write_frame None True OPCODE_TEXT payload False of
             Inl err \<Rightarrow> (Inl err, us\<lparr>us_restorer := restorer\<rparr>)
           | Inr out \<Rightarrow> (Inr False, us\<lparr>us_restorer := restorer, us_written := us_written us @ out\<rparr>)))"

definition buffer_upstream_text :: "bytes \<Rightarrow> upstream_side \<Rightarrow> (crebro_error + unit) \<times> upstream_side" where
  "buffer_upstream_text payload us =
     (case append_fragment payload (us_buffer us) of (res, buffer) \<Rightarrow> (res, us\<lparr>us_buffer := buffer\<rparr>))"

definition handle_upstream_frame ::
  "'f proxy_env \<Rightarrow> registry \<Rightarrow> frame \<Rightarrow> upstream_side \<Rightarrow> (crebro_error + bool) \<times> upstream_side" where
  "handle_upstream_frame env r f us =
     (if fm_opcode f = OPCODE_TEXT then
        (if fm_fin f then send_upstream_text env r (fm_payload f) us
         else and_then_st
           (buffer_upstream_text (fm_payload f) (us\<lparr>us_buffer := (us_buffer us)\<lparr>mb_opcode := Some OPCODE_TEXT\<rparr>\<rparr>))
           (\<lambda>_ us. (Inr False, us)))
      else if fm_opcode f = OPCODE_CONTINUATION \<and> mb_opcode (us_buffer us) = Some OPCODE_TEXT then
        and_then_st (buffer_upstream_text (fm_payload f) us) (\<lambda>_ us.
          if fm_fin f
          then send_upstream_text env r (mb_payload (us_buffer us)) (us\<lparr>us_buffer := message_buffer_default\<rparr>)
          else (Inr False, us))
      else
        (case handle_passthrough_frame None f False of
           Inl err \<Rightarrow> (Inl err, us)
         | Inr (out, ended) \<Rightarrow> (Inr ended, us\<lparr>us_written := us_written us @ out\<rparr>)))"

section \<open>The relay\<close>

text \<open>What \<^const>\<open>read_frame\<close> returned, and for which side.\<close>

datatype relay_event =
    From_client "crebro_error + frame option"
  | From_upstream "crebro_error + frame option"

record 'f relay =
  rl_client :: "'f client_side"
  rl_upstream :: upstream_side

text \<open>One turn of the loop; \<^const>\<open>True\<close> when the relay ends.\<close>

definition relay_step :: "'f proxy_env \<Rightarrow> relay_event \<Rightarrow> 'f relay \<Rightarrow> (crebro_error + bool) \<times> 'f relay" where
  "relay_step env event rl =
     (case event of
        From_client res \<Rightarrow>
          (case res of
             Inl err \<Rightarrow> (Inl err, rl)
           | Inr None \<Rightarrow> (Inr True, rl)
           | Inr (Some f) \<Rightarrow>
               (case handle_client_frame env f (rl_client rl) of (res, cs) \<Rightarrow> (res, rl\<lparr>rl_client := cs\<rparr>)))
      | From_upstream res \<Rightarrow>
          (case res of
             Inl err \<Rightarrow> (Inl err, rl)
           | Inr None \<Rightarrow> (Inr True, rl)
           | Inr (Some f) \<Rightarrow>
               (case handle_upstream_frame env (px_registry (cs_state (rl_client rl))) f (rl_upstream rl) of
                  (res, us) \<Rightarrow> (res, rl\<lparr>rl_upstream := us\<rparr>))))"

fun relay_with_rewrite :: "'f proxy_env \<Rightarrow> relay_event list \<Rightarrow> 'f relay \<Rightarrow> (crebro_error + bool) \<times> 'f relay" where
  "relay_with_rewrite env [] rl = (Inr False, rl)"
| "relay_with_rewrite env (event # events) rl =
     and_then_st (relay_step env event rl) (\<lambda>ended rl.
       if ended then (Inr True, rl) else relay_with_rewrite env events rl)"

section \<open>The buffer is bounded\<close>

definition buffer_ok :: "message_buffer \<Rightarrow> bool" where
  "buffer_ok buffer \<longleftrightarrow>
     length (mb_payload buffer) \<le> MAX_TEXT_MESSAGE_BYTES \<and>
     (mb_opcode buffer = None \<and> mb_payload buffer = [] \<or> mb_opcode buffer = Some OPCODE_TEXT)"

lemma buffer_ok_default [simp]: "buffer_ok message_buffer_default"
  by (simp add: buffer_ok_def message_buffer_default_def)

lemma buffer_ok_text: "buffer_ok buffer \<Longrightarrow> buffer_ok (buffer\<lparr>mb_opcode := Some OPCODE_TEXT\<rparr>)"
  by (auto simp: buffer_ok_def)

lemma append_fragment_ok:
  "append_fragment payload buffer = (res, buffer') \<Longrightarrow> mb_opcode buffer = Some OPCODE_TEXT \<Longrightarrow>
   buffer_ok buffer \<Longrightarrow> buffer_ok buffer' \<and> mb_opcode buffer' = Some OPCODE_TEXT"
  by (auto simp: append_fragment_def buffer_ok_def split: if_splits)

lemma send_client_text_buffer [simp]: "cs_buffer (snd (send_client_text env payload cs)) = cs_buffer cs"
  by (auto simp: send_client_text_def written_upstream_def split: prod.split sum.split)

lemma handle_client_frame_buffer:
  assumes "buffer_ok (cs_buffer cs)"
  shows "buffer_ok (cs_buffer (snd (handle_client_frame env f cs)))"
proof -
  let ?text = "(cs_buffer cs)\<lparr>mb_opcode := Some OPCODE_TEXT\<rparr>"
  obtain res b where b: "append_fragment (fm_payload f) ?text = (res, b)"
    by fastforce
  obtain res2 b2 where b2: "append_fragment (fm_payload f) (cs_buffer cs) = (res2, b2)"
    by fastforce
  have "buffer_ok b"
    using append_fragment_ok [OF b _ buffer_ok_text [OF assms]] by simp
  moreover have "mb_opcode (cs_buffer cs) = Some OPCODE_TEXT \<Longrightarrow> buffer_ok b2"
    using append_fragment_ok [OF b2 _ assms] by blast
  ultimately show ?thesis
    using assms b b2
    by (cases res; cases res2)
      (auto simp: handle_client_frame_def buffer_client_text_def written_upstream_def split: prod.split sum.split)
qed

lemma send_upstream_text_buffer [simp]: "us_buffer (snd (send_upstream_text env r payload us)) = us_buffer us"
  by (auto simp: send_upstream_text_def split: prod.split sum.split)

lemma handle_upstream_frame_buffer:
  assumes "buffer_ok (us_buffer us)"
  shows "buffer_ok (us_buffer (snd (handle_upstream_frame env r f us)))"
proof -
  let ?text = "(us_buffer us)\<lparr>mb_opcode := Some OPCODE_TEXT\<rparr>"
  obtain res b where b: "append_fragment (fm_payload f) ?text = (res, b)"
    by fastforce
  obtain res2 b2 where b2: "append_fragment (fm_payload f) (us_buffer us) = (res2, b2)"
    by fastforce
  have "buffer_ok b"
    using append_fragment_ok [OF b _ buffer_ok_text [OF assms]] by simp
  moreover have "mb_opcode (us_buffer us) = Some OPCODE_TEXT \<Longrightarrow> buffer_ok b2"
    using append_fragment_ok [OF b2 _ assms] by blast
  ultimately show ?thesis
    using assms b b2
    by (cases res; cases res2)
      (auto simp: handle_upstream_frame_def buffer_upstream_text_def split: prod.split sum.split)
qed

definition relay_ok :: "'f relay \<Rightarrow> bool" where
  "relay_ok rl \<longleftrightarrow> buffer_ok (cs_buffer (rl_client rl)) \<and> buffer_ok (us_buffer (rl_upstream rl))"

lemma relay_step_ok: "relay_ok rl \<Longrightarrow> relay_ok (snd (relay_step env event rl))"
  using handle_client_frame_buffer [of "rl_client rl" env] handle_upstream_frame_buffer [of "rl_upstream rl" env]
  by (auto simp: relay_step_def relay_ok_def split: relay_event.split sum.split option.split prod.split)
    (metis snd_conv)+

lemma relay_ok_run: "relay_ok rl \<Longrightarrow> relay_ok (snd (relay_with_rewrite env events rl))"
proof (induction events arbitrary: rl)
  case (Cons event events)
  then show ?case
    using relay_step_ok [OF Cons.prems, of env event]
    by (cases "relay_step env event rl"; cases "fst (relay_step env event rl)") auto
qed simp

section \<open>Fragments\<close>

fun handle_client_frames :: "'f proxy_env \<Rightarrow> frame list \<Rightarrow> 'f client_side \<Rightarrow> (crebro_error + bool) \<times> 'f client_side" where
  "handle_client_frames env [] cs = (Inr False, cs)"
| "handle_client_frames env (f # fs) cs =
     and_then_st (handle_client_frame env f cs) (\<lambda>ended cs.
       if ended then (Inr True, cs) else handle_client_frames env fs cs)"

definition text_frame :: "bool \<Rightarrow> bytes \<Rightarrow> frame" where
  "text_frame fin payload = \<lparr>fm_fin = fin, fm_opcode = OPCODE_TEXT, fm_payload = payload\<rparr>"

definition continuation_frame :: "bool \<Rightarrow> bytes \<Rightarrow> frame" where
  "continuation_frame fin payload = \<lparr>fm_fin = fin, fm_opcode = OPCODE_CONTINUATION, fm_payload = payload\<rparr>"

lemmas opcode_defs = OPCODE_TEXT_def OPCODE_CONTINUATION_def OPCODE_BINARY_def OPCODE_CLOSE_def
  OPCODE_PING_def OPCODE_PONG_def

lemma send_client_text_ended: "fst (send_client_text env payload cs) \<noteq> Inr True"
  by (auto simp: send_client_text_def split: prod.split sum.split)

lemma continuation_run:
  assumes "mb_opcode (cs_buffer cs) = Some OPCODE_TEXT"
    and "length (mb_payload (cs_buffer cs)) + length (concat qs) + length q \<le> MAX_TEXT_MESSAGE_BYTES"
  shows "handle_client_frames env (map (continuation_frame False) qs @ [continuation_frame True q]) cs =
    send_client_text env (mb_payload (cs_buffer cs) @ concat qs @ q) (cs\<lparr>cs_buffer := message_buffer_default\<rparr>)"
  using assms
proof (induction qs arbitrary: cs)
  case Nil
  let ?run = "send_client_text env (mb_payload (cs_buffer cs) @ q) (cs\<lparr>cs_buffer := message_buffer_default\<rparr>)"
  have "fst ?run \<noteq> Inr True"
    by (rule send_client_text_ended)
  then show ?case
    using Nil
    by (cases ?run; cases "fst ?run")
      (auto simp: handle_client_frame_def continuation_frame_def opcode_defs buffer_client_text_def append_fragment_def)
next
  case (Cons a qs)
  let ?cs = "cs\<lparr>cs_buffer := (cs_buffer cs)\<lparr>mb_payload := mb_payload (cs_buffer cs) @ a\<rparr>\<rparr>"
  have "handle_client_frame env (continuation_frame False a) cs = (Inr False, ?cs)"
    using Cons.prems
    by (simp add: handle_client_frame_def continuation_frame_def opcode_defs buffer_client_text_def append_fragment_def)
  then show ?case
    using Cons.IH [of ?cs] Cons.prems by simp
qed

lemma handle_text_frame: "handle_client_frame env (text_frame True p) cs = send_client_text env p cs"
  by (simp add: handle_client_frame_def text_frame_def)

text \<open>A message in fragments is sent as the one frame that its whole text is.\<close>

lemma fragments_run:
  assumes "cs_buffer cs = message_buffer_default"
    and "length (p @ concat qs @ q) \<le> MAX_TEXT_MESSAGE_BYTES"
  shows "handle_client_frames env
      (text_frame False p # map (continuation_frame False) qs @ [continuation_frame True q]) cs =
    handle_client_frame env (text_frame True (p @ concat qs @ q)) cs"
proof -
  let ?cs = "cs\<lparr>cs_buffer := \<lparr>mb_opcode = Some OPCODE_TEXT, mb_payload = p\<rparr>\<rparr>"
  have "handle_client_frame env (text_frame False p) cs = (Inr False, ?cs)"
    using assms by (simp add: handle_client_frame_def text_frame_def buffer_client_text_def
        append_fragment_def message_buffer_default_def)
  moreover have "?cs\<lparr>cs_buffer := message_buffer_default\<rparr> = cs"
    using assms(1) by (cases cs) simp
  ultimately show ?thesis
    using continuation_run [of ?cs qs q env] assms(2) by (simp add: handle_text_frame)
qed

section \<open>Only sanitized text is sent\<close>

text \<open>
  The specification, over the client's frames: the text messages they carry, put together from their
  fragments (\<open>pending\<close> is the unfinished one), and what sanitizing them one after the other gives.
\<close>

fun text_messages :: "bytes option \<Rightarrow> frame list \<Rightarrow> bytes list" where
  "text_messages pending [] = []"
| "text_messages pending (f # fs) =
     (if fm_opcode f = OPCODE_TEXT then
        (if fm_fin f then fm_payload f # text_messages pending fs
         else text_messages (Some ((case pending of None \<Rightarrow> [] | Some p \<Rightarrow> p) @ fm_payload f)) fs)
      else if fm_opcode f = OPCODE_CONTINUATION then
        (case pending of
           None \<Rightarrow> text_messages None fs
         | Some p \<Rightarrow>
             (if fm_fin f then (p @ fm_payload f) # text_messages None fs
              else text_messages (Some (p @ fm_payload f)) fs))
      else text_messages pending fs)"

fun sanitize_messages :: "'f proxy_env \<Rightarrow> bytes list \<Rightarrow> san_state \<Rightarrow> bytes list" where
  "sanitize_messages env [] san = []"
| "sanitize_messages env (msg # msgs) san =
     (case sanitize_client_payload env msg san of
        (Inl err, san) \<Rightarrow> []
      | (Inr (sanitized, report), san) \<Rightarrow> sanitized # sanitize_messages env msgs san)"

definition client_frames :: "relay_event list \<Rightarrow> frame list" where
  "client_frames = List.map_filter (\<lambda>event. case event of From_client (Inr (Some f)) \<Rightarrow> Some f | _ \<Rightarrow> None)"

definition pending_text :: "message_buffer \<Rightarrow> bytes option" where
  "pending_text buffer = (if mb_opcode buffer = Some OPCODE_TEXT then Some (mb_payload buffer) else None)"

text \<open>
  A frame and the bytes it was written as: masked with a key of four bytes, with an opcode of the
  protocol, and a text frame is a whole message. So the bytes are read back as that frame and no other.
\<close>

definition frame_sent :: "frame \<Rightarrow> bytes \<Rightarrow> bool" where
  "frame_sent f out \<longleftrightarrow>
     (\<exists>key. length key = 4 \<and> write_frame (Some key) (fm_fin f) (fm_opcode f) (fm_payload f) True = Inr out) \<and>
     fm_opcode f \<in> {OPCODE_CONTINUATION, OPCODE_TEXT, OPCODE_BINARY, OPCODE_CLOSE, OPCODE_PING, OPCODE_PONG} \<and>
     (fm_opcode f = OPCODE_TEXT \<longrightarrow> fm_fin f)"

definition text_payloads :: "frame list \<Rightarrow> bytes list" where
  "text_payloads fs = map fm_payload (filter (\<lambda>f. fm_opcode f = OPCODE_TEXT) fs)"

fun read_frames :: "nat \<Rightarrow> source \<Rightarrow> frame list" where
  "read_frames 0 src = []"
| "read_frames (Suc n) src =
     (case read_frame True src of
        (Inr (Some f), src) \<Rightarrow> f # read_frames n src
      | _ \<Rightarrow> [])"

lemma text_payloads_simps [simp]:
  "text_payloads [] = []" "text_payloads (fs @ gs) = text_payloads fs @ text_payloads gs"
  "text_payloads (f # fs) = (if fm_opcode f = OPCODE_TEXT then [fm_payload f] else []) @ text_payloads fs"
  by (simp_all add: text_payloads_def)

lemma client_frames_simps [simp]:
  "client_frames [] = []"
  "client_frames (From_client (Inr (Some f)) # events) = f # client_frames events"
  "client_frames (From_client (Inr None) # events) = client_frames events"
  "client_frames (From_client (Inl err) # events) = client_frames events"
  "client_frames (From_upstream res # events) = client_frames events"
  by (simp_all add: client_frames_def List.map_filter_def)

lemma frames_read_back:
  assumes "list_all (\<lambda>(f, out). frame_sent f out) sent"
    and "list_all (\<lambda>(f, out). length (fm_payload f) \<le> MAX_TEXT_MESSAGE_BYTES) sent"
    and "delivers src (concat (map snd sent) @ rest)"
  shows "read_frames (length sent) src = map fst sent"
  using assms
proof (induction sent arbitrary: src)
  case (Cons p sent)
  obtain f out where p: "p = (f, out)" by (cases p)
  obtain key where key: "length key = 4"
      "write_frame (Some key) (fm_fin f) (fm_opcode f) (fm_payload f) True = Inr out"
    using Cons.prems(1) by (auto simp: p frame_sent_def)
  have op: "fm_opcode f < 16"
    using Cons.prems(1) by (auto simp: p frame_sent_def opcode_defs)
  have src: "delivers src (out @ (concat (map snd sent) @ rest))"
    using Cons.prems(3) by (simp add: p)
  obtain src' where "read_frame True src =
      (Inr (Some \<lparr>fm_fin = fm_fin f, fm_opcode = fm_opcode f, fm_payload = fm_payload f\<rparr>), src')"
    and rest: "delivers src' (concat (map snd sent) @ rest)"
    using read_frame_written [OF op _ _ key(2) src] key(1) Cons.prems(2) by (auto simp: p)
  then show ?case
    using Cons.IH [OF _ _ rest] Cons.prems(1,2) by (simp add: p)
qed simp

lemma sanitize_client_payload_step:
  "registry_step (env_crypto env) (snd st) (snd (snd (sanitize_client_payload env payload st)))"
  by (simp add: sanitize_client_payload_def sanitize_json_step sanitize_text_payload_step)

lemma sanitize_client_text_state:
  assumes "sanitize_client_text env payload st = (Inr tx, st')"
  shows "\<exists>report. sanitize_client_payload env payload (px_san st) = (Inr (tx, report), px_san st')"
proof -
  obtain res1 st1 where run: "sanitize_recorded env (sanitize_client_payload env payload) st = (res1, st1)"
    by (cases "sanitize_recorded env (sanitize_client_payload env payload) st")
  have san: "px_san st1 = snd (sanitize_client_payload env payload (px_san st))"
    using run by (auto simp: sanitize_recorded_def split: prod.splits sum.splits)
  have "res1 = Inr tx" "px_san st' = px_san st1"
    using assms run by (cases res1; auto simp: sanitize_client_text_def split: if_splits)+
  then show ?thesis
    using sanitize_recorded_Inr(1) run by fastforce
qed

text \<open>
  What one call of a handler does: it writes frames, and as long as the relay goes on, the texts of
  these frames and what is left to do are together what was to do before.
\<close>

definition masks_ok :: "'f client_side \<Rightarrow> bool" where
  "masks_ok cs \<longleftrightarrow> (\<forall>key. Some key \<in> set (cs_randoms cs) \<longrightarrow> length key = 4)"

abbreviation texts_of :: "(frame \<times> bytes) list \<Rightarrow> bytes list" where
  "texts_of sent \<equiv> text_payloads (map fst sent)"

definition sends :: "(frame \<times> bytes) list \<Rightarrow> 'f client_side \<Rightarrow> 'f client_side \<Rightarrow> bool" where
  "sends sent cs cs' \<longleftrightarrow>
     cs_written cs' = cs_written cs @ concat (map snd sent) \<and> list_all (\<lambda>(f, out). frame_sent f out) sent \<and>
     (masks_ok cs \<longrightarrow> masks_ok cs')"

definition left_to_send :: "'f proxy_env \<Rightarrow> frame list \<Rightarrow> 'f client_side \<Rightarrow> bytes list" where
  "left_to_send env fs cs =
     sanitize_messages env (text_messages (pending_text (cs_buffer cs)) fs) (px_san (cs_state cs))"

lemma next_random_ok: "masks_ok cs \<Longrightarrow> next_random cs = Some key \<Longrightarrow> length key = 4"
  by (cases "cs_randoms cs") (auto simp: masks_ok_def next_random_def)

lemma masks_ok_written [simp]: "masks_ok cs \<Longrightarrow> masks_ok (written_upstream out (cs\<lparr>cs_state := st\<rparr>))"
  by (cases "cs_randoms cs") (auto simp: masks_ok_def written_upstream_def)

lemma write_frame_key:
  "write_frame random fin opcode payload True = Inr out \<Longrightarrow> \<exists>key. random = Some key"
  by (cases random) (simp_all add: write_frame_def Let_def)

lemma send_client_text_sends:
  assumes run: "send_client_text env payload cs = (res, cs')" and masks: "masks_ok cs"
  shows "\<exists>sent. sends sent cs cs' \<and>
    (if res = Inr False
     then \<forall>fs. texts_of sent @ left_to_send env fs cs' =
       sanitize_messages env (payload # text_messages (pending_text (cs_buffer cs)) fs) (px_san (cs_state cs))
     else texts_of sent = [])"
proof (cases "\<exists>tx st out. sanitize_client_text env payload (cs_state cs) = (Inr tx, st) \<and>
    write_frame (next_random cs) True OPCODE_TEXT tx True = Inr out")
  case True
  then obtain tx st out where tx: "sanitize_client_text env payload (cs_state cs) = (Inr tx, st)"
    "write_frame (next_random cs) True OPCODE_TEXT tx True = Inr out"
    by blast
  then have cs': "res = Inr False" "cs' = written_upstream out (cs\<lparr>cs_state := st\<rparr>)"
    using run by (simp_all add: send_client_text_def)
  obtain key where "next_random cs = Some key"
    using write_frame_key [OF tx(2)] by blast
  then have "frame_sent (text_frame True tx) out"
    using tx(2) next_random_ok [OF masks] by (auto simp: frame_sent_def text_frame_def)
  then have "sends [(text_frame True tx, out)] cs cs'"
    using masks by (simp add: sends_def cs') (simp add: written_upstream_def)
  moreover have "left_to_send env fs cs' =
      sanitize_messages env (text_messages (pending_text (cs_buffer cs)) fs) (px_san st)" for fs
    by (simp add: left_to_send_def cs' written_upstream_def)
  ultimately show ?thesis
    using sanitize_client_text_state [OF tx(1)] cs'(1)
    by (intro exI [of _ "[(text_frame True tx, out)]"]) (auto simp: text_frame_def)
next
  case False
  have "res \<noteq> Inr False \<and> cs_written cs' = cs_written cs \<and> cs_randoms cs' = cs_randoms cs"
    using run False by (auto simp: send_client_text_def split: prod.splits sum.splits)
  then show ?thesis
    by (intro exI [of _ "[]"]) (auto simp: sends_def masks_ok_def)
qed

lemma passthrough_sent:
  assumes "handle_passthrough_frame random f True = Inr (out, ended)"
    and "\<And>key. random = Some key \<Longrightarrow> length key = 4"
  shows "\<exists>f'. frame_sent f' out \<and> fm_opcode f' \<noteq> OPCODE_TEXT \<and> fm_opcode f' = fm_opcode f \<and>
    fm_payload f' = fm_payload f \<and> fm_opcode f \<noteq> OPCODE_TEXT"
proof -
  obtain fin where w: "write_frame random fin (fm_opcode f) (fm_payload f) True = Inr out"
    and op: "fm_opcode f \<in> {OPCODE_CONTINUATION, OPCODE_BINARY, OPCODE_CLOSE, OPCODE_PING, OPCODE_PONG}"
    using assms(1) by (auto simp: handle_passthrough_frame_def Let_def and_then_eq_Inr split: if_splits)
  then show ?thesis
    using write_frame_key [OF w] assms(2)
    by (intro exI [of _ "\<lparr>fm_fin = fin, fm_opcode = fm_opcode f, fm_payload = fm_payload f\<rparr>"])
      (auto simp: frame_sent_def opcode_defs)
qed

lemma append_fragment_result:
  "append_fragment payload buffer = (res, b) \<Longrightarrow>
     res = Inr () \<and> b = buffer\<lparr>mb_payload := mb_payload buffer @ payload\<rparr> \<or> (\<exists>err. res = Inl err)"
  by (auto simp: append_fragment_def split: if_splits)

lemma sends_buffer [simp]:
  "sends sent (cs\<lparr>cs_buffer := b\<rparr>) cs' \<longleftrightarrow> sends sent cs cs'"
  "sends sent cs (cs'\<lparr>cs_buffer := b\<rparr>) \<longleftrightarrow> sends sent cs cs'"
  "masks_ok (cs\<lparr>cs_buffer := b\<rparr>) \<longleftrightarrow> masks_ok cs"
  by (simp_all add: sends_def masks_ok_def)

lemma sends_none [simp]: "sends [] cs cs"
  by (simp add: sends_def)

lemma sends_trans:
  "sends xs a b \<Longrightarrow> sends ys b c \<Longrightarrow> sends (xs @ ys) a c"
  by (simp add: sends_def)

text \<open>One frame of the client.\<close>

lemma handle_client_frame_sends:
  assumes run: "handle_client_frame env f cs = (res, cs')" and masks: "masks_ok cs" and ok: "buffer_ok (cs_buffer cs)"
  shows "\<exists>sent. sends sent cs cs' \<and>
    (if res = Inr False then \<forall>fs. texts_of sent @ left_to_send env fs cs' = left_to_send env (f # fs) cs
     else texts_of sent = [])"
proof -
  consider (whole) "fm_opcode f = OPCODE_TEXT" "fm_fin f"
    | (start) "fm_opcode f = OPCODE_TEXT" "\<not> fm_fin f"
    | (more) "fm_opcode f \<noteq> OPCODE_TEXT" "fm_opcode f = OPCODE_CONTINUATION" "mb_opcode (cs_buffer cs) = Some OPCODE_TEXT"
    | (other) "fm_opcode f \<noteq> OPCODE_TEXT" "fm_opcode f = OPCODE_CONTINUATION \<longrightarrow> mb_opcode (cs_buffer cs) \<noteq> Some OPCODE_TEXT"
    by blast
  then show ?thesis
  proof cases
    case whole
    then show ?thesis
      using run send_client_text_sends [OF _ masks, of env "fm_payload f" res cs']
      by (simp add: handle_client_frame_def left_to_send_def split del: if_split cong: if_cong del: sanitize_messages.simps)
  next
    case start
    let ?text = "(cs_buffer cs)\<lparr>mb_opcode := Some OPCODE_TEXT\<rparr>"
    obtain r b where b: "append_fragment (fm_payload f) ?text = (r, b)"
      by (cases "append_fragment (fm_payload f) ?text")
    have "mb_payload (cs_buffer cs) = (case pending_text (cs_buffer cs) of None \<Rightarrow> [] | Some p \<Rightarrow> p)"
      using ok by (auto simp: buffer_ok_def pending_text_def)
    then show ?thesis
      using append_fragment_result [OF b] run start b
      by (intro exI [of _ "[]"])
        (auto simp: handle_client_frame_def buffer_client_text_def left_to_send_def pending_text_def
          split: if_splits)
  next
    case more
    obtain r b where b: "append_fragment (fm_payload f) (cs_buffer cs) = (r, b)"
      by (cases "append_fragment (fm_payload f) (cs_buffer cs)")
    let ?p = "mb_payload (cs_buffer cs) @ fm_payload f"
    let ?cs = "cs\<lparr>cs_buffer := message_buffer_default\<rparr>"
    show ?thesis
    proof (cases "r = Inr () \<and> fm_fin f")
      case True
      then have "send_client_text env ?p ?cs = (res, cs')"
        using run more b append_fragment_result [OF b] by (auto simp: handle_client_frame_def buffer_client_text_def)
      from send_client_text_sends [OF this] show ?thesis
        using masks more True
        by (simp add: left_to_send_def pending_text_def message_buffer_default_def
          split del: if_split cong: if_cong del: sanitize_messages.simps)
    next
      case False
      then show ?thesis
        using append_fragment_result [OF b] run more b
        by (intro exI [of _ "[]"])
          (auto simp: handle_client_frame_def buffer_client_text_def left_to_send_def pending_text_def)
    qed
  next
    case other
    then have skip: "left_to_send env (f # fs) cs = left_to_send env fs cs" for fs
      by (simp add: left_to_send_def pending_text_def)
    show ?thesis
    proof (cases "handle_passthrough_frame (next_random cs) f True")
      case (Inl err)
      then have "res = Inl err" "cs' = cs"
        using run other by (auto simp: handle_client_frame_def)
      then show ?thesis
        by (intro exI [of _ "[]"]) simp
    next
      case (Inr x)
      obtain out ended where x: "x = (out, ended)" by (cases x)
      have cs': "res = Inr ended" "cs' = written_upstream out cs"
        using run other Inr x by (auto simp: handle_client_frame_def)
      obtain f' where f': "frame_sent f' out" "fm_opcode f' \<noteq> OPCODE_TEXT"
        using passthrough_sent [OF Inr [unfolded x] next_random_ok [OF masks]] by blast
      have "masks_ok (written_upstream out cs)"
        using masks_ok_written [OF masks, of out "cs_state cs"] by simp
      then have "sends [(f', out)] cs cs'"
        using f'(1) by (simp add: sends_def cs') (simp add: written_upstream_def)
      then show ?thesis
        using f'(2) by (intro exI [of _ "[(f', out)]"]) (simp add: skip, simp add: left_to_send_def cs' written_upstream_def)
    qed
  qed
qed

lemma relay_step_sends:
  assumes run: "relay_step env event rl = (res, rl')" and masks: "masks_ok (rl_client rl)"
    and ok: "buffer_ok (cs_buffer (rl_client rl))"
  shows "\<exists>sent. sends sent (rl_client rl) (rl_client rl') \<and>
    (if res = Inr False then \<forall>fs. texts_of sent @ left_to_send env fs (rl_client rl') =
       left_to_send env (client_frames [event] @ fs) (rl_client rl)
     else texts_of sent = [])"
proof (cases "\<exists>f. event = From_client (Inr (Some f))")
  case True
  then obtain f where f: "event = From_client (Inr (Some f))" ..
  then have "handle_client_frame env f (rl_client rl) = (res, rl_client rl')"
    using run by (auto simp: relay_step_def split: prod.splits)
  from handle_client_frame_sends [OF this masks ok] show ?thesis
    by (simp add: f split del: if_split cong: if_cong)
next
  case False
  have "rl_client rl' = rl_client rl" "res = Inr False \<longrightarrow> client_frames [event] = []"
    using run False
    by (auto simp: relay_step_def split: relay_event.splits sum.splits option.splits prod.splits)
  then show ?thesis
    by (intro exI [of _ "[]"]) auto
qed

lemma client_frames_Cons: "client_frames (event # events) = client_frames [event] @ client_frames events"
  by (simp add: client_frames_def List.map_filter_def)

lemma relay_sends:
  assumes "relay_with_rewrite env events rl = (res, rl')" and "masks_ok (rl_client rl)" and "relay_ok rl"
  shows "\<exists>sent. sends sent (rl_client rl) (rl_client rl') \<and>
    prefix (texts_of sent) (left_to_send env (client_frames events) (rl_client rl)) \<and>
    (res = Inr False \<longrightarrow> texts_of sent = left_to_send env (client_frames events) (rl_client rl))"
  using assms
proof (induction events arbitrary: rl)
  case Nil
  then show ?case
    by (intro exI [of _ "[]"]) (simp add: left_to_send_def)
next
  case (Cons event events)
  obtain res1 rl1 where st: "relay_step env event rl = (res1, rl1)"
    by (cases "relay_step env event rl")
  have ok1: "relay_ok rl1"
    using relay_step_ok [OF Cons.prems(3), of env event] st by simp
  have "buffer_ok (cs_buffer (rl_client rl))"
    using Cons.prems(3) by (simp add: relay_ok_def)
  from relay_step_sends [OF st Cons.prems(2) this] obtain xs where
    xs: "sends xs (rl_client rl) (rl_client rl1)" "if res1 = Inr False then
      \<forall>fs. texts_of xs @ left_to_send env fs (rl_client rl1) = left_to_send env (client_frames [event] @ fs) (rl_client rl)
      else texts_of xs = []"
    by blast
  show ?case
  proof (cases "res1 = Inr False")
    case True
    have masks: "masks_ok (rl_client rl1)"
      using xs(1) Cons.prems(2) by (simp add: sends_def)
    have "relay_with_rewrite env events rl1 = (res, rl')"
      using Cons.prems(1) st True by simp
    from Cons.IH [OF this masks ok1] obtain ys where
      ys: "sends ys (rl_client rl1) (rl_client rl')"
        "prefix (texts_of ys) (left_to_send env (client_frames events) (rl_client rl1))"
        "res = Inr False \<longrightarrow> texts_of ys = left_to_send env (client_frames events) (rl_client rl1)"
      by blast
    have whole: "left_to_send env (client_frames (event # events)) (rl_client rl) =
        texts_of xs @ left_to_send env (client_frames events) (rl_client rl1)"
      using xs(2) True by (simp add: client_frames_Cons [of event events])
    show ?thesis
      using sends_trans [OF xs(1) ys(1)] ys(2,3) by (intro exI [of _ "xs @ ys"]) (simp add: whole)
  next
    case False
    then have "rl' = rl1" "res \<noteq> Inr False"
      using Cons.prems(1) st by (cases res1; auto)+
    then show ?thesis
      using xs False by (intro exI [of _ xs]) simp
  qed
qed

section \<open>Restored text\<close>

text \<open>A new version of the registry replaces the restorer, and what it held back is lost.\<close>

lemma restorer_replaced:
  assumes "wr_version wr \<noteq> reg_version r"
  shows "fst (restore_upstream_text env r payload (Some wr)) = fst (restore_upstream_text env r payload None)"
    and "ws_restorer_new env r = Inr new \<Longrightarrow>
      snd (restore_upstream_text env r payload (Some wr)) = snd (restore_upstream_text env r payload None)"
  using assms by (auto simp: restore_upstream_text_def split: sum.split prod.split)

section \<open>The handshake\<close>

text \<open>\<^verbatim>\<open>forward_websocket\<close> of \<^verbatim>\<open>src/proxy/server.rs\<close> up to the relay: how it ended, or what the
  relay goes on to read from the upstream; then the bytes written to the upstream and to the client.\<close>

datatype ws_handshake = Ws_ended "crebro_error + unit" | Ws_relay source

definition ws_extensions :: bytes where
  "ws_extensions = ''sec-websocket-extensions''"

definition answer_websocket :: "http_head \<Rightarrow> http_head \<Rightarrow> source \<Rightarrow> ws_handshake \<times> bytes" where
  "answer_websocket request response src =
     (case strip_header (head_without_delimiter response) ws_extensions of
        Inl err \<Rightarrow> (Ws_ended (Inl err), [])
      | Inr head \<Rightarrow>
          (if \<not> response_is_switching_protocols (head_without_delimiter response)
           then (case copy_source src of
               (Inl e, out) \<Rightarrow>
                 (Ws_ended (Inl (crebro_error.Gateway (''failed to copy upstream response: '' @ e))),
                  head @ CRLF @ extra_bytes response @ out)
             | (Inr _, out) \<Rightarrow> (Ws_ended (Inr ()), head @ CRLF @ extra_bytes response @ out))
           else if extra_bytes request \<noteq> [] \<or> extra_bytes response \<noteq> []
           then (Ws_ended (Inl (crebro_error.Gateway ''buffered websocket bytes after handshake are not supported yet'')),
                 head @ CRLF)
           else (Ws_relay src, head @ CRLF)))"

definition forward_websocket ::
  "crebro_error + (bytes \<Rightarrow> source) \<Rightarrow> http_head \<Rightarrow> ws_handshake \<times> bytes \<times> bytes" where
  "forward_websocket conn request =
     (case conn of
        Inl err \<Rightarrow> (Ws_ended (Inl err), [], [])
      | Inr upstream \<Rightarrow>
          (case strip_header (head_without_delimiter request) ws_extensions of
             Inl err \<Rightarrow> (Ws_ended (Inl err), [], [])
           | Inr head \<Rightarrow>
               (let sent = head @ CRLF
                in case read_http_head (upstream sent) of
                     (Inl err, src) \<Rightarrow> (Ws_ended (Inl err), sent, [])
                   | (Inr response, src) \<Rightarrow>
                       (case answer_websocket request response src of (res, out) \<Rightarrow> (res, sent, out)))))"

text \<open>The first request of an intercepted connection, and which of the two forwarders takes it.\<close>

definition intercepted_request :: "source \<Rightarrow> (crebro_error + bool \<times> http_head) \<times> source" where
  "intercepted_request src =
     and_then_st (read_http_head src) (\<lambda>request src.
       (Inr (is_websocket_upgrade (head_without_delimiter request), request), src))"

text \<open>Neither side hears of an extension of the other, so no frame is compressed, and the relay goes on
  right behind the upstream's head.\<close>

lemma read_head_from_takes:
  "read_head_from bs src = (Inr h, src') \<Longrightarrow> delivers src rest \<Longrightarrow> find_header_end bs = None \<Longrightarrow>
     head_read (bs @ rest) (hh_delimiter_start h) h src'"
proof (induction bs src arbitrary: rest rule: read_head_from.induct)
  case (1 bs src)
  have "rest \<noteq> []"
  proof
    assume "rest = []"
    then have "read_some 1024 src = (Inr [], src)"
      using read_some_closed [of src 1024] 1(3) by (simp add: delivers_Nil_iff)
    then show False
      using 1(2) by (simp add: read_head_from.simps [of bs src])
  qed
  have "(0 :: nat) < 1024" by simp
  obtain b rest1 src1 where b: "read_some 1024 src = (Inr b, src1)" "b \<noteq> []" "rest = b @ rest1" "delivers src1 rest1"
    by (rule read_some_delivers [OF 1(3) \<open>0 < 1024\<close> \<open>rest \<noteq> []\<close>])
  have fits: "\<not> head_limit < length (bs @ b)"
    using 1(2) b(1,2) by (auto simp: read_head_from.simps [of bs src] split: if_splits)
  show ?case
  proof (cases "find_header_end (bs @ b)")
    case None
    have "read_head_from (bs @ b) src1 = (Inr h, src')"
      using 1(2) b(1,2) fits None by (simp add: read_head_from.simps [of bs src])
    from 1(1) [OF b(1) [symmetric] refl b(2) fits None this b(4) None] show ?thesis
      by (simp add: b(3))
  next
    case (Some i)
    then have "h = \<lparr>hh_bytes = bs @ b, hh_delimiter_start = i\<rparr>" "src' = src1"
      using 1(2) b(1,2) fits by (auto simp: read_head_from.simps [of bs src])
    then show ?thesis
      using find_header_end_bound [OF Some] b(3,4) by (simp add: head_read_def)
  qed
qed

lemma read_http_head_exact:
  assumes bs: "delivers src bs" and run: "read_http_head src = (Inr h, src')" and none: "extra_bytes h = []"
  shows "\<exists>i. find_header_end bs = Some i \<and> delivers src' (drop (i + 4) bs)"
proof -
  let ?i = "hh_delimiter_start h"
  have empty: "find_header_end [] = None"
    by (simp add: find_header_end_def)
  have rd: "head_read bs ?i h src'"
    using read_head_from_takes [OF run [unfolded read_http_head_def] bs empty] by simp
  then obtain rest where rest: "bs = hh_bytes h @ rest" "delivers src' rest" "?i + 4 \<le> length (hh_bytes h)"
    by (auto simp: head_read_def)
  have "find_header_end (hh_bytes h) = Some ?i"
    using read_head_from_bounds [OF run [unfolded read_http_head_def] empty] by simp
  moreover have "length (hh_bytes h) = ?i + 4"
    using none rest(3) by (simp add: extra_bytes_def)
  ultimately show ?thesis
    using rest(2) find_header_end_append [of "hh_bytes h" ?i rest] rest(1) by (intro exI [of _ ?i]) simp
qed

lemma forward_websocket_plain:
  assumes run: "forward_websocket (Inr upstream) request = (Ws_relay src, sent, answered)"
  shows "\<exists>head head'. sent = head @ CRLF \<and> header_value head ws_extensions = None \<and>
    answered = head' @ CRLF \<and> header_value head' ws_extensions = None \<and> extra_bytes request = [] \<and>
    (\<forall>bs. delivers (upstream sent) bs \<longrightarrow> (\<exists>i. find_header_end bs = Some i \<and> delivers src (drop (i + 4) bs)))"
proof -
  obtain head where head: "strip_header (head_without_delimiter request) ws_extensions = Inr head"
    using run by (cases "strip_header (head_without_delimiter request) ws_extensions")
      (auto simp: forward_websocket_def)
  obtain res src1 where rd: "read_http_head (upstream (head @ CRLF)) = (res, src1)"
    by (cases "read_http_head (upstream (head @ CRLF))")
  then obtain response where response: "res = Inr response"
    using run head by (cases res) (auto simp: forward_websocket_def)
  then have ans: "answer_websocket request response src1 = (Ws_relay src, answered)" and sent: "sent = head @ CRLF"
    using run head rd by (auto simp: forward_websocket_def split: prod.splits)
  then obtain head' where head': "strip_header (head_without_delimiter response) ws_extensions = Inr head'"
    by (cases "strip_header (head_without_delimiter response) ws_extensions") (auto simp: answer_websocket_def)
  then have parts: "answered = head' @ CRLF" "extra_bytes request = []" "extra_bytes response = []" "src1 = src"
    using ans by (auto simp: answer_websocket_def split: if_splits prod.splits sum.splits)
  have "\<exists>i. find_header_end bs = Some i \<and> delivers src (drop (i + 4) bs)" if "delivers (upstream sent) bs" for bs
    using read_http_head_exact [OF that] rd response parts(3,4) sent by blast
  then show ?thesis
    using sent parts strip_header_spec(1) [OF head] strip_header_spec(1) [OF head'] by blast
qed

end
