(* ===== verification/Child_Env.thy ===== *)
theory Child_Env
  imports Http_Head
begin

text \<open>
  The environment of the child process (\<^verbatim>\<open>src/process.rs\<close>): the variables of the parent, the ones
  that lead its traffic through the proxy, and the loop-back hosts that must not go through it.
\<close>

record proxy_child_env_config =
  cc_proxy_url :: bytes
  cc_ca_bundle_path :: "bytes option"

definition proxy_child_env_overrides :: "proxy_child_env_config \<Rightarrow> (bytes \<times> bytes) list" where
  "proxy_child_env_overrides config =
     [(''HTTPS_PROXY'', cc_proxy_url config), (''HTTP_PROXY'', cc_proxy_url config),
      (''https_proxy'', cc_proxy_url config), (''http_proxy'', cc_proxy_url config),
      (''NODE_USE_ENV_PROXY'', ''1''), (''CREBRO_PROXY_URL'', cc_proxy_url config)] @
     (case cc_ca_bundle_path config of
        None \<Rightarrow> []
      | Some path \<Rightarrow>
          (let ca_bundle_path = from_utf8_lossy path
           in [(''SSL_CERT_FILE'', ca_bundle_path), (''NODE_EXTRA_CA_CERTS'', ca_bundle_path),
               (''REQUESTS_CA_BUNDLE'', ca_bundle_path), (''CURL_CA_BUNDLE'', ca_bundle_path),
               (''GIT_SSL_CAINFO'', ca_bundle_path), (''DENO_CERT'', ca_bundle_path)]))"

text \<open>\<^verbatim>\<open>HashMap::extend\<close>: later values win.\<close>

definition extend_env :: "(bytes \<rightharpoonup> bytes) \<Rightarrow> (bytes \<times> bytes) list \<Rightarrow> (bytes \<rightharpoonup> bytes)" where
  "extend_env = foldl (\<lambda>env (k, v). env(k \<mapsto> v))"

definition LOOPBACKS :: "bytes list" where
  "LOOPBACKS = [''localhost'', ''127.0.0.1'', ''::1'']"

definition no_proxy_values :: "bytes option \<Rightarrow> bytes list" where
  "no_proxy_values v =
     (case v of None \<Rightarrow> [] | Some v \<Rightarrow> filter (\<lambda>x. x \<noteq> []) (map str_trim (split_on '','' v)))"

definition add_missing :: "bytes list \<Rightarrow> bytes list \<Rightarrow> bytes list" where
  "add_missing = foldl (\<lambda>vs x. if x \<in> set vs then vs else vs @ [x])"

definition merge_loopback_no_proxy :: "bytes \<Rightarrow> (bytes \<rightharpoonup> bytes) \<Rightarrow> (bytes \<rightharpoonup> bytes)" where
  "merge_loopback_no_proxy key env =
     env(key \<mapsto> str_join '','' (add_missing (no_proxy_values (env key)) LOOPBACKS))"

definition proxy_child_environment ::
  "(bytes \<times> bytes) list \<Rightarrow> proxy_child_env_config \<Rightarrow> (bytes \<rightharpoonup> bytes)" where
  "proxy_child_environment base_env config =
     merge_loopback_no_proxy ''no_proxy'' (merge_loopback_no_proxy ''NO_PROXY''
       (extend_env (extend_env Map.empty base_env) (proxy_child_env_overrides config)))"

text \<open>The program, its arguments and its environment, which is nothing but the one given.\<close>

definition build_child_command_with_env ::
  "bytes list \<Rightarrow> (bytes \<rightharpoonup> bytes) \<Rightarrow> crebro_error + bytes \<times> bytes list \<times> (bytes \<rightharpoonup> bytes)" where
  "build_child_command_with_env command child_env =
     (case command of
        [] \<Rightarrow> Inl (Child ''missing child command'')
      | program # args \<Rightarrow> Inr (program, args, child_env))"

section \<open>What the child sees\<close>

lemma add_missing_set [simp]: "set (add_missing vs xs) = set vs \<union> set xs"
  by (induction xs arbitrary: vs) (auto simp: add_missing_def)

lemma add_missing_prefix: "\<exists>ys. add_missing vs xs = vs @ ys \<and> set ys \<subseteq> set xs - set vs \<and> distinct ys"
proof (induction xs rule: rev_induct)
  case (snoc x xs)
  then obtain ys where ys: "add_missing vs xs = vs @ ys" "set ys \<subseteq> set xs - set vs" "distinct ys"
    by blast
  show ?case
  proof (cases "x \<in> set (vs @ ys)")
    case True
    then show ?thesis using ys by (auto simp: add_missing_def)
  next
    case False
    then have "add_missing vs (xs @ [x]) = vs @ (ys @ [x])"
      using ys(1) by (simp add: add_missing_def)
    then show ?thesis using ys False by (intro exI [of _ "ys @ [x]"]) auto
  qed
qed (simp add: add_missing_def)

lemma extend_env_other: "k \<notin> fst ` set kvs \<Longrightarrow> extend_env env kvs k = env k"
  by (induction kvs arbitrary: env) (auto simp: extend_env_def)

lemma extend_env_given:
  assumes "distinct (map fst kvs)" and "(k, v) \<in> set kvs"
  shows "extend_env env kvs k = Some v"
  using assms
proof (induction kvs arbitrary: env)
  case (Cons kv kvs)
  show ?case
  proof (cases "(k, v) \<in> set kvs")
    case True
    then show ?thesis using Cons by (auto simp: extend_env_def split: prod.split)
  next
    case False
    then have "kv = (k, v)" "k \<notin> fst ` set kvs"
      using Cons.prems by (auto simp: image_iff)
    then show ?thesis
      using extend_env_other [of k kvs "env(k \<mapsto> v)"] by (simp add: extend_env_def del: image_iff)
  qed
qed simp

lemma overrides_distinct: "distinct (map fst (proxy_child_env_overrides config))"
  by (cases "cc_ca_bundle_path config") (simp_all add: proxy_child_env_overrides_def Let_def)

lemma overrides_not_no_proxy:
  "(k, v) \<in> set (proxy_child_env_overrides config) \<Longrightarrow> k \<noteq> ''NO_PROXY'' \<and> k \<noteq> ''no_proxy''"
  by (auto simp: proxy_child_env_overrides_def Let_def split: option.splits)

lemma child_env_overrides:
  assumes "(k, v) \<in> set (proxy_child_env_overrides config)"
  shows "proxy_child_environment base_env config k = Some v"
  using overrides_not_no_proxy [OF assms] extend_env_given [OF overrides_distinct assms]
  by (simp add: proxy_child_environment_def merge_loopback_no_proxy_def)

lemma child_env_other:
  assumes "k \<notin> fst ` set (proxy_child_env_overrides config)" and "k \<noteq> ''NO_PROXY''" and "k \<noteq> ''no_proxy''"
  shows "proxy_child_environment base_env config k = extend_env Map.empty base_env k"
  using extend_env_other [OF assms(1)] assms(2,3)
  by (simp add: proxy_child_environment_def merge_loopback_no_proxy_def)

text \<open>The values the child reads back from a merged variable: its own, in order, and the loop-backs.\<close>

lemma split_on_byte_free: "l \<in> set (split_on [c] bs) \<Longrightarrow> c \<notin> set l"
proof
  assume l: "l \<in> set (split_on [c] bs)" and "c \<in> set l"
  then obtain xs ys where "l = xs @ c # ys"
    by (auto dest: split_list)
  then have "occurs_at [c] l (length xs)"
    by (simp add: occurs_at_def sub_bytes_def)
  then show False
    using split_on_no_sep [OF _ l] occurs_inI by blast
qed

lemma no_proxy_values_ok:
  assumes "x \<in> set (no_proxy_values v)"
  shows "x \<noteq> []" "CHR '','' \<notin> set x" "str_trim x = x"
proof -
  obtain l v' where l: "x = str_trim l" "l \<in> set (split_on '','' v')" "x \<noteq> []"
    using assms by (auto simp: no_proxy_values_def split: option.splits)
  then show "x \<noteq> []" "CHR '','' \<notin> set x" "str_trim x = x"
    using split_on_byte_free [OF l(2)] str_trim_subset [of l] by auto
qed

lemma loopbacks_ok:
  assumes "x \<in> set LOOPBACKS"
  shows "x \<noteq> []" "CHR '','' \<notin> set x" "str_trim x = x"
proof -
  have *: "x \<noteq> []" "CHR '','' \<notin> set x" "visible (hd x)" "visible (last x)"
    using assms by (auto simp: LOOPBACKS_def visible_def)
  then show "x \<noteq> []" "CHR '','' \<notin> set x" "str_trim x = x"
    by (simp_all add: str_trim_visible)
qed

lemma no_proxy_merged:
  "no_proxy_values (merge_loopback_no_proxy key env key) = add_missing (no_proxy_values (env key)) LOOPBACKS"
proof -
  let ?vs = "add_missing (no_proxy_values (env key)) LOOPBACKS"
  have ok: "x \<noteq> [] \<and> CHR '','' \<notin> set x \<and> str_trim x = x" if "x \<in> set ?vs" for x
    using that no_proxy_values_ok [of x] loopbacks_ok [of x] unfolding add_missing_set by blast
  then have "map str_trim ?vs = ?vs" "filter (\<lambda>x. x \<noteq> []) ?vs = ?vs"
    by (auto intro: map_idI simp: filter_id_conv)
  moreover have "?vs \<noteq> []"
    by (metis LOOPBACKS_def Un_empty add_missing_set list.distinct(1) set_empty)
  ultimately show ?thesis
    using ok by (simp add: merge_loopback_no_proxy_def no_proxy_values_def [of "Some _"] split_on_byte_join)
qed

end
