(* ===== verification/Paths.thy ===== *)
theory Paths
  imports Child_Env
begin

text \<open>
  Paths as \<^verbatim>\<open>std::path\<close> takes them apart, and which files of stored conversations are candidates
  by their names (\<^verbatim>\<open>src/sanitize.rs\<close>).
\<close>

section \<open>Paths\<close>

definition path_components :: "bytes \<Rightarrow> bytes list" where
  "path_components p = filter (\<lambda>s. s \<noteq> [] \<and> s \<noteq> ''.'') (split_on ''/'' p)"

definition path_file_name :: "bytes \<Rightarrow> bytes option" where
  "path_file_name p =
     (let cs = path_components p
      in if cs = [] \<or> last cs = ''..'' then None else Some (last cs))"

definition path_extension :: "bytes \<Rightarrow> bytes option" where
  "path_extension p =
     (case path_file_name p of
        None \<Rightarrow> None
      | Some name \<Rightarrow>
          (case rsplit_once CHR ''.'' name of
             None \<Rightarrow> None
           | Some (stem, ext) \<Rightarrow> if stem = [] then None else Some ext))"

definition has_extension :: "bytes list \<Rightarrow> bytes \<Rightarrow> bool" where
  "has_extension exts p \<longleftrightarrow>
     (case path_extension p of None \<Rightarrow> False | Some ext \<Rightarrow> to_ascii_lowercase ext \<in> set exts)"

definition is_candidate_text_path :: "bytes \<Rightarrow> bool" where
  "is_candidate_text_path p \<longleftrightarrow>
     path_file_name p \<in> {Some ''history.jsonl'', Some ''session_index.jsonl''} \<or>
     has_extension [''json'', ''jsonl'', ''md'', ''txt'', ''log'', ''toml'', ''yaml'', ''yml''] p"

definition is_candidate_binary_path :: "bytes \<Rightarrow> bool" where
  "is_candidate_binary_path p = has_extension [''pb'', ''bin''] p"

definition is_sqlite_path :: "bytes \<Rightarrow> bool" where
  "is_sqlite_path p = has_extension [''sqlite'', ''db''] p"

definition should_skip_dir :: "bytes \<Rightarrow> bool" where
  "should_skip_dir p \<longleftrightarrow>
     path_file_name p \<in> {Some ''.git'', Some ''node_modules'', Some ''target'', Some ''vendor''}"

text \<open>\<^verbatim>\<open>Path::join\<close> with a relative path.\<close>

definition path_join :: "bytes \<Rightarrow> bytes \<Rightarrow> bytes" where
  "path_join p q = (if p = [] \<or> last p = CHR 0x2F then p @ q else p @ ''/'' @ q)"

definition path_joins :: "bytes \<Rightarrow> bytes list \<Rightarrow> bytes" where
  "path_joins = foldl path_join"

lemma rsplit_once_join: "rsplit_once c bs = Some (u, v) \<Longrightarrow> bs = u @ c # v"
proof -
  assume "rsplit_once c bs = Some (u, v)"
  then obtain i where i: "str_find [c] (rev bs) = Some i" "v = rev (take i (rev bs))" "u = rev (drop (Suc i) (rev bs))"
    by (auto simp: rsplit_once_def split_once_def)
  then obtain zs where "drop i (rev bs) = c # zs"
    by (auto simp: str_find_Some occurs_at_prefix prefix_def)
  then have "rev bs = rev v @ c # rev u"
    using i(2,3) append_take_drop_id [of i "rev bs"] by (simp add: drop_Suc drop_tl)
  then show ?thesis
    by (metis append.assoc append_Cons append_Nil rev_append rev_rev_ident rev.simps(2))
qed

end
