(* ===== verification/Atomic_Write.thy ===== *)
theory Atomic_Write
  imports Paths
begin

text \<open>
  \<^verbatim>\<open>write_file_atomic\<close> of \<^verbatim>\<open>src/sanitize.rs\<close>, step by step: the new contents go to a temporary file in
  the same directory, which then replaces the file. The result comes with every state the disk passes
  through, so a process that is killed leaves one of them. There are no links on this disk: that
  \<^verbatim>\<open>fs::write\<close> follows a symbolic link that someone planted at the temporary name, which can be
  guessed, is outside of the model.
\<close>

section \<open>Places\<close>

text \<open>A file is known by its components, however its path is spelled. \<open>path_parent\<close> is \<^verbatim>\<open>Path::parent\<close>
  up to such spellings.\<close>

type_synonym location = "bool \<times> bytes list"

definition location :: "bytes \<Rightarrow> location" where
  "location p = (starts_with p ''/'', path_components p)"

definition path_parent :: "bytes \<Rightarrow> bytes option" where
  "path_parent p =
     (let cs = path_components p
      in if cs = [] then None
         else Some ((if starts_with p ''/'' then ''/'' else []) @ str_join ''/'' (butlast cs)))"

definition temporary_name :: "nat \<Rightarrow> bytes \<Rightarrow> bytes" where
  "temporary_name pid path =
     ''.'' @ (case path_file_name path of None \<Rightarrow> ''crebro-file'' | Some name \<Rightarrow> from_utf8_lossy name) @
     ''.crebro-tmp-'' @ print_radix 10 pid"

definition temporary_path :: "nat \<Rightarrow> bytes \<Rightarrow> bytes" where
  "temporary_path pid path =
     path_join (case path_parent path of None \<Rightarrow> ''.'' | Some dir \<Rightarrow> dir) (temporary_name pid path)"

section \<open>The steps\<close>

type_synonym disk = "location \<rightharpoonup> bytes"

text \<open>How \<^verbatim>\<open>fs::write\<close> ends: the file is not created, the write fails after some bytes, or it is done.\<close>

datatype write_answer =
    Not_created crebro_error
  | Failed_after nat crebro_error
  | Written

text \<open>The file is created empty and grows.\<close>

definition write_states :: "location \<Rightarrow> bytes \<Rightarrow> nat \<Rightarrow> disk \<Rightarrow> disk list" where
  "write_states loc bs n dk = map (\<lambda>k. dk(loc \<mapsto> take k bs)) [0..<Suc (min n (length bs))]"

text \<open>The permissions that are copied to the temporary file change no contents. \<open>renamed\<close> is the error
  of \<^verbatim>\<open>fs::rename\<close>, if any.\<close>

definition write_file_atomic ::
  "write_answer \<Rightarrow> crebro_error option \<Rightarrow> nat \<Rightarrow> bytes \<Rightarrow> bytes \<Rightarrow> disk \<Rightarrow> (crebro_error + unit) \<times> disk list" where
  "write_file_atomic wrote renamed pid path bs dk =
     (let tmp = location (temporary_path pid path)
      in case wrote of
           Not_created err \<Rightarrow> (Inl err, [dk])
         | Failed_after n err \<Rightarrow> (Inl err, dk # write_states tmp bs n dk)
         | Written \<Rightarrow>
             (let states = dk # write_states tmp bs (length bs) dk
              in case renamed of
                   Some err \<Rightarrow> (Inl err, states)
                 | None \<Rightarrow> (Inr (), states @ [(last states)(location path \<mapsto> bs, tmp := None)])))"

section \<open>The temporary file is another file\<close>

lemma lossy_chars: "set (from_utf8_lossy bs) \<subseteq> set bs \<union> set replacement_char"
proof (induction bs rule: from_utf8_lossy.induct)
  case (2 c cs)
  show ?case
  proof (cases "utf8_ranges (byte_val c)")
    case None
    with "2.IH"(1) show ?thesis by auto
  next
    case (Some st)
    let ?n = "match_ranges st cs"
    have "set (from_utf8_lossy (drop ?n cs)) \<subseteq> set (drop ?n cs) \<union> set replacement_char"
      using "2.IH"(2) [OF Some] by blast
    then have "set (from_utf8_lossy (drop ?n cs)) \<subseteq> set cs \<union> set replacement_char"
      using set_drop_subset by fast
    with Some show ?thesis
      using set_take_subset [of ?n cs] by (auto simp: Let_def)
  qed
qed simp

lemma match_ranges_st: "match_ranges st cs \<le> length st"
  by (induction st cs rule: match_ranges.induct) auto

lemma utf8_ranges_len: "utf8_ranges b = Some st \<Longrightarrow> length st \<le> 3"
  by (auto simp: utf8_ranges_def split: if_splits)

text \<open>An ill-formed subsequence has at most the three bytes of its replacement.\<close>

lemma lossy_length: "length bs \<le> length (from_utf8_lossy bs)"
proof (induction bs rule: from_utf8_lossy.induct)
  case (2 c cs)
  show ?case
  proof (cases "utf8_ranges (byte_val c)")
    case None
    with "2.IH"(1) show ?thesis by (simp add: replacement_char_def)
  next
    case (Some st)
    let ?n = "match_ranges st cs"
    have "length (drop ?n cs) \<le> length (from_utf8_lossy (drop ?n cs))"
      using "2.IH"(2) [OF Some] by blast
    then show ?thesis
      using Some utf8_ranges_len [OF Some] match_ranges_st [of st cs] match_ranges_le [of st cs]
      by (auto simp: Let_def replacement_char_def min_def)
  qed
qed simp

lemma str_join_snoc: "xss \<noteq> [] \<Longrightarrow> str_join sep (xss @ [x]) = str_join sep xss @ sep @ x"
  by (induction xss rule: induct_list012) simp_all

lemma split_on_snoc:
  assumes "c \<notin> set name"
  shows "split_on [c] (p @ c # name) = split_on [c] p @ [name]"
proof -
  have "p @ c # name = str_join [c] (split_on [c] p @ [name])"
    by (simp add: str_join_snoc split_on_ne split_on_join)
  moreover have "\<forall>xs \<in> set (split_on [c] p @ [name]). c \<notin> set xs"
    using assms by (auto dest: split_on_byte_free)
  ultimately show ?thesis
    using split_on_byte_join [of "split_on [c] p @ [name]" c] by simp
qed

lemma path_components_join:
  assumes "CHR ''/'' \<notin> set name" and "name \<noteq> []" and "name \<noteq> ''.''"
  shows "path_components (path_join p name) = path_components p @ [name]"
proof (cases "p = [] \<or> last p = CHR ''/''")
  case False
  then show ?thesis
    using assms by (simp add: path_components_def path_join_def split_on_snoc)
next
  case True
  show ?thesis
  proof (cases "p = []")
    case True
    then show ?thesis
      using assms by (simp add: path_components_def path_join_def split_on_byte_end)
  next
    case False
    with True have p: "p = butlast p @ ''/''"
      by (metis append_butlast_last_id)
    have "split_on ''/'' (p @ name) = split_on ''/'' (butlast p) @ [name]"
      by (subst p) (simp add: split_on_snoc [OF assms(1)])
    moreover have "split_on ''/'' p = split_on ''/'' (butlast p) @ [[]]"
      by (subst p) (simp add: split_on_snoc)
    ultimately show ?thesis
      using assms True by (simp add: path_components_def path_join_def)
  qed
qed

lemma file_name_component: "path_file_name p = Some name \<Longrightarrow> path_components p \<noteq> [] \<and> name = last (path_components p)"
  by (auto simp: path_file_name_def Let_def split: if_splits)

lemma file_name_chars: "path_file_name p = Some name \<Longrightarrow> CHR ''/'' \<notin> set name"
  using last_in_set [of "path_components p"]
  by (auto dest!: file_name_component simp: path_components_def dest: split_on_byte_free)

lemma slash_not_replacement: "CHR ''/'' \<notin> set replacement_char"
  by code_simp

lemma slash_not_digit: "CHR ''/'' \<notin> set (map char_of [48..<58])"
  by code_simp

lemma temporary_name_chars: "CHR ''/'' \<notin> set (temporary_name pid path)"
proof -
  have "CHR ''/'' \<notin> set (print_radix 10 pid)"
    using print_decimal [of pid] slash_not_digit by blast
  moreover have "path_file_name path = Some name \<Longrightarrow> CHR ''/'' \<notin> set (from_utf8_lossy name)" for name
    using lossy_chars [of name] file_name_chars [of path name] slash_not_replacement by blast
  ultimately show ?thesis
    by (auto simp: temporary_name_def split: option.splits)
qed

lemma temporary_name_longer: "path_file_name path = Some name \<Longrightarrow> length name < length (temporary_name pid path)"
  using lossy_length [of name] by (simp add: temporary_name_def)

lemma temporary_name_dots: "temporary_name pid path \<noteq> ''..''"
  by (auto simp: temporary_name_def append_eq_Cons_conv split: option.splits)

lemma temporary_components:
  "path_components (temporary_path pid path) =
   path_components (case path_parent path of None \<Rightarrow> ''.'' | Some dir \<Rightarrow> dir) @ [temporary_name pid path]"
  unfolding temporary_path_def
  by (rule path_components_join [OF temporary_name_chars]) (simp_all add: temporary_name_def)

lemma temporary_elsewhere: "location (temporary_path pid path) \<noteq> location path"
proof
  assume "location (temporary_path pid path) = location path"
  then have "\<exists>cs. path_components path = cs @ [temporary_name pid path]"
    using temporary_components [of pid path] unfolding location_def by (metis prod.inject)
  then have "path_file_name path = Some (temporary_name pid path)"
    using temporary_name_dots [of pid path] by (auto simp: path_file_name_def Let_def)
  then show False
    using temporary_name_longer by blast
qed

section \<open>What the steps leave\<close>

lemma write_states_elsewhere: "dk' \<in> set (write_states loc bs n dk) \<Longrightarrow> l \<noteq> loc \<Longrightarrow> dk' l = dk l"
  by (auto simp: write_states_def)

lemma write_states_last: "last (write_states loc bs (length bs) dk) = dk(loc \<mapsto> bs)"
  by (simp add: write_states_def)

lemma write_states_ne [simp]: "write_states loc bs n dk \<noteq> []"
  by (simp add: write_states_def)

text \<open>The state at the end: only the temporary file differs after an error.\<close>

lemma write_file_atomic_last:
  assumes "write_file_atomic wrote renamed pid path bs dk = (res, states)"
  shows "case res of
      Inl err \<Rightarrow> (\<forall>l. l \<noteq> location (temporary_path pid path) \<longrightarrow> last states l = dk l)
    | Inr _ \<Rightarrow> last states = dk(location path \<mapsto> bs, location (temporary_path pid path) := None)"
proof -
  let ?tmp = "location (temporary_path pid path)"
  have "last (write_states ?tmp bs n dk) l = dk l" if "l \<noteq> ?tmp" for n l
    by (rule write_states_elsewhere [OF last_in_set [OF write_states_ne] that])
  moreover have "dk(?tmp \<mapsto> bs, location path \<mapsto> bs, ?tmp := None) = dk(location path \<mapsto> bs, ?tmp := None)"
    using temporary_elsewhere [of pid path] by (simp add: fun_upd_def fun_eq_iff)
  ultimately show ?thesis
    using assms by (auto simp: write_file_atomic_def Let_def write_states_last split: write_answer.splits option.splits)
qed

section \<open>Names beside a file\<close>

lemma split_on_suffix:
  assumes "c \<notin> set sfx"
  shows "split_on [c] (p @ sfx) = butlast (split_on [c] p) @ [last (split_on [c] p) @ sfx]"
proof -
  let ?segs = "split_on [c] p"
  have join: "str_join sep (xss @ [x @ y]) = str_join sep (xss @ [x]) @ y" for sep xss and x y :: bytes
    by (cases "xss = []") (simp_all add: str_join_snoc)
  have "p @ sfx = str_join [c] (butlast ?segs @ [last ?segs @ sfx])"
    unfolding join by (simp add: split_on_ne split_on_join)
  moreover have "\<forall>xs \<in> set (butlast ?segs @ [last ?segs @ sfx]). c \<notin> set xs"
    using assms last_in_set [OF split_on_ne, of "[c]" p] by (auto dest: in_set_butlastD split_on_byte_free)
  ultimately show ?thesis
    using split_on_byte_join [of "butlast ?segs @ [last ?segs @ sfx]" c] by simp
qed

text \<open>The file beside a database that SQLite names after it has a name of its own.\<close>

lemma sidecar_name:
  assumes sfx: "sfx \<in> {''-wal'', ''-shm'', ''-journal''}" and db: "is_sqlite_path p"
  shows "\<exists>n n'. path_file_name p = Some n \<and> path_file_name (p @ sfx) = Some n' \<and> n' \<noteq> n"
proof -
  let ?n' = "last (split_on ''/'' p) @ sfx"
  have "CHR ''/'' \<notin> set sfx" and ends: "\<And>x :: bytes. x @ sfx \<noteq> []" "\<And>x. x @ sfx \<noteq> ''.''" "\<And>x. x @ sfx \<noteq> ''..''"
    using sfx by (auto simp: append_eq_Cons_conv)
  then have "path_components (p @ sfx) =
      filter (\<lambda>s. s \<noteq> [] \<and> s \<noteq> ''.'') (butlast (split_on ''/'' p)) @ [?n']"
    by (simp add: path_components_def split_on_suffix)
  then have name': "path_file_name (p @ sfx) = Some ?n'"
    using ends by (simp add: path_file_name_def Let_def)
  obtain ext where ext: "path_extension p = Some ext" "to_ascii_lowercase ext \<in> {''sqlite'', ''db''}"
    using db by (auto simp: is_sqlite_path_def has_extension_def split: option.splits)
  then obtain n stem where n: "path_file_name p = Some n" "rsplit_once CHR ''.'' n = Some (stem, ext)"
    by (auto simp: path_extension_def split: option.splits if_splits)
  have ne: "ext \<noteq> []"
    using ext(2) by (auto simp: to_ascii_lowercase_def)
  have "n = stem @ ''.'' @ ext"
    using rsplit_once_join [OF n(2)] by simp
  then have "last n = last ext"
    using ne by simp
  moreover have "to_ascii_lower (last ext) \<in> {CHR ''e'', CHR ''b''}"
    using ext(2) ne last_map [of ext to_ascii_lower] by (auto simp: to_ascii_lowercase_def)
  moreover have "last ?n' \<in> {CHR ''l'', CHR ''m''}"
    using sfx by auto
  then have "to_ascii_lower (last ?n') \<in> {CHR ''l'', CHR ''m''}"
    by (auto simp: to_ascii_lower_def is_ascii_upper_def)
  ultimately have "?n' \<noteq> n"
    by auto
  then show ?thesis
    using n(1) name' by blast
qed

end
