(* ===== verification/Conversation.thy ===== *)
theory Conversation
  imports Text_Sanitizer
begin

text \<open>
  \<^verbatim>\<open>ConversationSanitizer\<close> of \<^verbatim>\<open>src/sanitize.rs\<close>: stored conversations are cleaned by putting
  random text of the same length in place of every secret, always the same text for the same
  secret. The operating system's random numbers are the parameter \<open>rand\<close>, drawn one after the other.
\<close>

section \<open>Data\<close>

definition REPLACEMENT_ALPHABET :: bytes where
  "REPLACEMENT_ALPHABET = ''abcdefghijklmnopqrstuvwxyzABCDEFGHIJKLMNOPQRSTUVWXYZ0123456789''"

record replacement_span =
  rs_start :: nat
  rs_end :: nat
  rs_id :: u64

record conversation_engine =
  ce_registry :: registry
  ce_replacements :: "u64 \<rightharpoonup> bytes"
  ce_draws :: nat

record text_sanitize_result =
  tr_text :: bytes
  tr_redactions :: nat

definition conversation_new :: "crypto \<Rightarrow> nat \<Rightarrow> conversation_engine" where
  "conversation_new c n =
     \<lparr>ce_registry = with_generated_keys c n, ce_replacements = Map.empty, ce_draws = 0\<rparr>"

definition on_engine ::
  "(registry \<Rightarrow> 'a \<times> registry) \<Rightarrow> conversation_engine \<Rightarrow> 'a \<times> conversation_engine" where
  "on_engine f eng = (case f (ce_registry eng) of (a, r) \<Rightarrow> (a, eng\<lparr>ce_registry := r\<rparr>))"

definition conversation_ingest ::
  "crypto \<Rightarrow> bytes \<Rightarrow> bytes \<Rightarrow> conversation_engine \<Rightarrow> (crebro_error + u64) \<times> conversation_engine" where
  "conversation_ingest c label secret = on_engine (ingest c label secret)"

section \<open>Replacements\<close>

definition random_ascii :: "(nat \<Rightarrow> nat) \<Rightarrow> nat \<Rightarrow> nat \<Rightarrow> bytes" where
  "random_ascii rand n len =
     map (\<lambda>i. REPLACEMENT_ALPHABET ! (rand (n + i) mod length REPLACEMENT_ALPHABET)) [0..<len]"

text \<open>The loop that draws again, at most \<open>k\<close> times, and the number of draws.\<close>

fun draw_until_other :: "(nat \<Rightarrow> nat) \<Rightarrow> nat \<Rightarrow> bytes \<Rightarrow> nat \<Rightarrow> bytes \<Rightarrow> nat \<Rightarrow> bytes \<times> nat" where
  "draw_until_other rand len original 0 replacement n = (replacement, n)"
| "draw_until_other rand len original (Suc k) replacement n =
     (if replacement \<noteq> original then (replacement, n)
      else draw_until_other rand len original k (random_ascii rand n len) (n + len))"

definition force_other :: "bytes \<Rightarrow> bytes \<Rightarrow> bytes" where
  "force_other original replacement =
     (if replacement = original \<and> replacement \<noteq> []
      then replacement[0 := if replacement ! 0 = CHR ''a'' then CHR ''b'' else CHR ''a'']
      else replacement)"

definition replacement_for ::
  "crypto \<Rightarrow> (nat \<Rightarrow> nat) \<Rightarrow> u64 \<Rightarrow> conversation_engine \<Rightarrow> (crebro_error + bytes) \<times> conversation_engine" where
  "replacement_for c rand ident eng =
     (case ce_replacements eng ident of
        Some replacement \<Rightarrow> (Inr replacement, eng)
      | None \<Rightarrow>
          (case entry_of (ce_registry eng) ident of
             None \<Rightarrow> (Inl (Secret (''unknown secret id '' @ print_radix 10 (unat ident))), eng)
           | Some e \<Rightarrow>
               (case restore_to_vec c (ce_registry eng) ident [] of
                  Inl err \<Rightarrow> (Inl err, eng)
                | Inr original \<Rightarrow>
                    (let len = e_len e;
                         n = ce_draws eng;
                         (replacement, n) = draw_until_other rand len original 8 (random_ascii rand n len) (n + len);
                         replacement = force_other original replacement
                     in (Inr replacement,
                         eng\<lparr>ce_replacements := (ce_replacements eng)(ident \<mapsto> replacement), ce_draws := n\<rparr>)))))"

section \<open>Spans\<close>

definition rs_len :: "replacement_span \<Rightarrow> nat" where
  "rs_len s = rs_end s - rs_start s"

definition rs_overlaps :: "replacement_span \<Rightarrow> replacement_span \<Rightarrow> bool" where
  "rs_overlaps s t \<longleftrightarrow> rs_start s < rs_end t \<and> rs_start t < rs_end s"

definition select_replacement_spans :: "replacement_span list \<Rightarrow> replacement_span list" where
  "select_replacement_spans spans =
     (let sorted_spans = sort_key (\<lambda>s. (- int (rs_len s), rs_start s, rs_id s)) spans;
          selected = keep_disjoint rs_overlaps [] sorted_spans
      in sort_key (\<lambda>s. (rs_start s, - int (rs_len s), rs_id s)) selected)"

definition find_bytes :: "bytes \<Rightarrow> bytes \<Rightarrow> nat list" where
  "find_bytes haystack needle =
     (if needle = [] \<or> length haystack < length needle then []
      else filter (\<lambda>i. sub_bytes haystack i (i + length needle) = needle)
             [0..<Suc (length haystack - length needle)])"

fun replace_spans ::
  "crypto \<Rightarrow> (nat \<Rightarrow> nat) \<Rightarrow> bytes \<Rightarrow> nat \<Rightarrow> replacement_span list \<Rightarrow> conversation_engine \<Rightarrow>
   (crebro_error + bytes) \<times> conversation_engine" where
  "replace_spans c rand bs cursor [] eng = (Inr (if cursor < length bs then drop cursor bs else []), eng)"
| "replace_spans c rand bs cursor (sp # spans) eng =
     and_then_st (replacement_for c rand (rs_id sp) eng) (\<lambda>replacement eng.
     and_then_st (replace_spans c rand bs (rs_end sp) spans eng) (\<lambda>rest eng.
       (Inr ((if cursor < rs_start sp then sub_bytes bs cursor (rs_start sp) else []) @ replacement @ rest), eng)))"

definition apply_replacement_spans ::
  "crypto \<Rightarrow> (nat \<Rightarrow> nat) \<Rightarrow> bytes \<Rightarrow> replacement_span list \<Rightarrow> conversation_engine \<Rightarrow>
   (crebro_error + bytes) \<times> conversation_engine" where
  "apply_replacement_spans c rand bs spans eng =
     (if spans = [] then (Inr bs, eng) else replace_spans c rand bs 0 spans eng)"

definition scanned_spans :: "redaction_span list \<Rightarrow> replacement_span list" where
  "scanned_spans = map (\<lambda>sp. \<lparr>rs_start = sp_start sp, rs_end = span_end sp, rs_id = sp_id sp\<rparr>)"

section \<open>Texts\<close>

fun render_directives :: "directive_part list \<Rightarrow> bytes \<times> (bytes \<times> u64) list" where
  "render_directives [] = ([], [])"
| "render_directives (Plain_part t # ps) = (case render_directives ps of (out, phs) \<Rightarrow> (t @ out, phs))"
| "render_directives (Secret_part placeholder ident # ps) =
     (case render_directives ps of (out, phs) \<Rightarrow> (placeholder @ out, (placeholder, ident) # phs))"

definition normalize_directives ::
  "crypto \<Rightarrow> bytes \<Rightarrow> conversation_engine \<Rightarrow> (crebro_error + bytes \<times> (bytes \<times> u64) list) \<times> conversation_engine" where
  "normalize_directives c tx eng =
     and_then_st (on_engine (parse_user_secret_directives c tx) eng) (\<lambda>replacement eng.
       case replacement of
         None \<Rightarrow> (Inr (tx, []), eng)
       | Some parts \<Rightarrow> (Inr (render_directives parts), eng))"

definition placeholder_spans :: "bytes \<Rightarrow> (bytes \<times> u64) list \<Rightarrow> replacement_span list" where
  "placeholder_spans normalized phs =
     concat (map (\<lambda>(placeholder, ident).
       map (\<lambda>start. \<lparr>rs_start = start, rs_end = start + length placeholder, rs_id = ident\<rparr>)
         (find_bytes normalized placeholder)) phs)"

definition sanitize_text ::
  "crypto \<Rightarrow> (nat \<Rightarrow> nat) \<Rightarrow> pattern_set \<Rightarrow> bytes \<Rightarrow> conversation_engine \<Rightarrow>
   (crebro_error + text_sanitize_result) \<times> conversation_engine" where
  "sanitize_text c rand ps tx eng =
     and_then_st (normalize_directives c tx eng) (\<lambda>(normalized, phs) eng.
     and_then_st (on_engine (auto_register_pattern_matches c ps normalized) eng) (\<lambda>_ eng.
     and_then_st (scan_string_token c normalized (ce_registry eng), eng) (\<lambda>scanned eng.
       let spans = select_replacement_spans (scanned_spans scanned @ placeholder_spans normalized phs)
       in and_then_st (apply_replacement_spans c rand normalized spans eng) (\<lambda>out eng.
            if utf8_valid out then (Inr \<lparr>tr_text = out, tr_redactions = length spans\<rparr>, eng)
            else (Inl (Redaction ''sanitized text is not valid UTF-8''), eng)))))"

definition sanitize_bytes_exact ::
  "crypto \<Rightarrow> (nat \<Rightarrow> nat) \<Rightarrow> bytes \<Rightarrow> conversation_engine \<Rightarrow> (crebro_error + bytes \<times> nat) \<times> conversation_engine" where
  "sanitize_bytes_exact c rand bs eng =
     and_then_st (scan_string_token c bs (ce_registry eng), eng) (\<lambda>scanned eng.
       let spans = select_replacement_spans (scanned_spans scanned)
       in and_then_st (apply_replacement_spans c rand bs spans eng) (\<lambda>out eng. (Inr (out, length spans), eng)))"

section \<open>The selection\<close>

lemma rs_overlaps_symp: "symp rs_overlaps"
  by (auto simp: symp_def rs_overlaps_def)

lemma select_replacement_select_by:
  "select_replacement_spans =
   select_by (\<lambda>s. (- int (rs_len s), rs_start s, rs_id s))
     (\<lambda>s. (rs_start s, - int (rs_len s), rs_id s)) rs_overlaps"
  by (simp add: fun_eq_iff select_replacement_spans_def select_by_def Let_def)

interpretation replace_sel: range_selection select_replacement_spans rs_start rs_end
proof (unfold_locales, goal_cases)
  case (1 xs)
  show ?case by (simp add: select_replacement_select_by select_by_subset)
next
  case (2 xs)
  have "sorted (map (\<lambda>s. (rs_start s, - int (rs_len s), rs_id s)) (select_replacement_spans xs))"
    by (simp add: select_replacement_select_by select_by_sorted)
  then show ?case
    unfolding sorted_map by (rule sorted_wrt_mono_rel [rotated]) (auto simp: less_eq_prod_def)
next
  case (3 xs)
  show ?case
    using select_by_disjoint [OF rs_overlaps_symp]
    by (simp add: select_replacement_select_by rs_overlaps_def [abs_def])
next
  case (4 x xs)
  then show ?case
    using select_by_maximal [OF 4, of "\<lambda>s. (- int (rs_len s), rs_start s, rs_id s)"
        "\<lambda>s. (rs_start s, - int (rs_len s), rs_id s)" rs_overlaps]
    by (auto simp: select_replacement_select_by rs_overlaps_def less_eq_prod_def rs_len_def)
next
  case (5 xs)
  then show ?case
    using select_by_mset [OF rs_overlaps_symp, of xs]
    by (simp add: select_replacement_select_by rs_overlaps_def [abs_def])
qed

section \<open>Replacements are stable, as long as the secret, and never the secret\<close>

lemma length_random_ascii [simp]: "length (random_ascii rand n len) = len"
  by (simp add: random_ascii_def)

lemma random_ascii_alphabet: "set (random_ascii rand n len) \<subseteq> set REPLACEMENT_ALPHABET"
proof -
  have "0 < length REPLACEMENT_ALPHABET"
    by (simp add: REPLACEMENT_ALPHABET_def)
  then show ?thesis
    by (auto simp: random_ascii_def intro!: nth_mem)
qed

lemma draw_until_other_length:
  "length replacement = len \<Longrightarrow> length (fst (draw_until_other rand len original k replacement n)) = len"
  by (induction rand len original k replacement n rule: draw_until_other.induct) auto

lemma length_force_other [simp]: "length (force_other original replacement) = length replacement"
  by (simp add: force_other_def)

lemma force_other_differs:
  assumes "replacement \<noteq> []"
  shows "force_other original replacement \<noteq> original"
proof
  assume eq: "force_other original replacement = original"
  show False
  proof (cases "replacement = original")
    case True
    let ?x = "if replacement ! 0 = CHR ''a'' then CHR ''b'' else CHR ''a''"
    have "force_other original replacement = replacement[0 := ?x]"
      using True assms by (simp add: force_other_def)
    then have "replacement[0 := ?x] ! 0 = replacement ! 0"
      using eq True by simp
    then show False
      using assms by (auto split: if_splits)
  next
    case False
    then show False
      using eq by (simp add: force_other_def)
  qed
qed

text \<open>The engine's invariant: every replacement on file belongs to a secret and is as long as the
  secret, and differs from it.\<close>

definition replacement_ok :: "crypto \<Rightarrow> registry \<Rightarrow> u64 \<Rightarrow> bytes \<Rightarrow> bool" where
  "replacement_ok c r ident replacement \<longleftrightarrow>
     (\<exists>e s. entry_of r ident = Some e \<and> secret_of c r e = Some s \<and>
        length replacement = length s \<and> replacement \<noteq> s)"

definition engine_ok :: "crypto \<Rightarrow> conversation_engine \<Rightarrow> bool" where
  "engine_ok c eng \<longleftrightarrow>
     registry_wf c (ce_registry eng) \<and>
     (\<forall>ident replacement. ce_replacements eng ident = Some replacement \<longrightarrow>
        replacement_ok c (ce_registry eng) ident replacement)"

lemma replacement_for_spec:
  assumes ok: "engine_ok c eng" and run: "replacement_for c rand ident eng = (Inr replacement, eng')"
  shows "engine_ok c eng'" "ce_registry eng' = ce_registry eng"
    "ce_replacements eng \<subseteq>\<^sub>m ce_replacements eng'" "ce_replacements eng' ident = Some replacement"
proof -
  have "engine_ok c eng' \<and> ce_registry eng' = ce_registry eng \<and>
    ce_replacements eng \<subseteq>\<^sub>m ce_replacements eng' \<and> ce_replacements eng' ident = Some replacement"
  proof (cases "ce_replacements eng ident")
    case (Some x)
    then show ?thesis
      using run ok by (simp add: replacement_for_def)
  next
    case None
    let ?r = "ce_registry eng"
    obtain e where e: "entry_of ?r ident = Some e"
      using run None by (cases "entry_of ?r ident") (simp_all add: replacement_for_def)
    have wf: "registry_wf c ?r"
      using ok by (simp add: engine_ok_def)
    have "entry_wf c (reg_keys ?r) e"
      using wf e by (auto simp: registry_wf_def entry_of_def list_all_iff Let_def split: if_splits)
    then obtain s where s: "secret_of c ?r e = Some s" "s \<noteq> []" "e_len e = length s"
      by (auto simp: entry_wf_def secret_of_def split: option.splits)
    have rest: "restore_to_vec c ?r ident [] = Inr s"
      using restore_to_vec_eq [OF e s(1)] by simp
    let ?first = "random_ascii rand (ce_draws eng) (length s)"
    obtain rep n where d: "draw_until_other rand (length s) s 8 ?first (ce_draws eng + length s) = (rep, n)"
      by fastforce
    have len: "length rep = length s"
      using draw_until_other_length [of ?first "length s" rand s 8 "ce_draws eng + length s"] d by simp
    then have "replacement_ok c ?r ident (force_other s rep)"
      unfolding replacement_ok_def using e s force_other_differs [of rep s] by fastforce
    moreover have "replacement = force_other s rep"
      "eng' = eng\<lparr>ce_replacements := (ce_replacements eng)(ident \<mapsto> force_other s rep), ce_draws := n\<rparr>"
      using run None e rest d s(3) by (auto simp: replacement_for_def Let_def)
    ultimately show ?thesis
      using ok None by (auto simp: engine_ok_def map_le_def)
  qed
  then show "engine_ok c eng'" "ce_registry eng' = ce_registry eng"
    "ce_replacements eng \<subseteq>\<^sub>m ce_replacements eng'" "ce_replacements eng' ident = Some replacement"
    by blast+
qed

lemma replacement_for_registry [simp]:
  "ce_registry (snd (replacement_for c rand ident eng)) = ce_registry eng"
  by (simp add: replacement_for_def Let_def split: option.split sum.split prod.split)

lemma replace_spans_registry: "ce_registry (snd (replace_spans c rand bs cursor spans eng)) = ce_registry eng"
proof (induction spans arbitrary: cursor eng)
  case (Cons sp spans)
  obtain res eng1 where rep: "replacement_for c rand (rs_id sp) eng = (res, eng1)"
    by (cases "replacement_for c rand (rs_id sp) eng")
  then have "ce_registry eng1 = ce_registry eng"
    using replacement_for_registry [of c rand "rs_id sp" eng] by simp
  then show ?case
    using rep Cons.IH [of "rs_end sp" eng1] by (cases res) (simp_all add: and_then_st_snd_const)
qed simp

lemma apply_replacement_registry:
  "apply_replacement_spans c rand bs spans eng = (res, eng') \<Longrightarrow> ce_registry eng' = ce_registry eng"
  using replace_spans_registry [of c rand bs 0 spans eng] by (auto simp: apply_replacement_spans_def split: if_splits)

section \<open>Replaced bytes\<close>

definition replacement_edits :: "(u64 \<rightharpoonup> bytes) \<Rightarrow> replacement_span list \<Rightarrow> edit list" where
  "replacement_edits reps = map (\<lambda>sp. (rs_start sp, rs_end sp, the (reps (rs_id sp))))"

lemma replacement_edits_mono:
  assumes "reps \<subseteq>\<^sub>m reps'" and "\<forall>sp \<in> set spans. rs_id sp \<in> dom reps"
  shows "replacement_edits reps' spans = replacement_edits reps spans"
  using assms by (auto simp: replacement_edits_def map_le_def)

lemma replace_spans_spec:
  assumes "engine_ok c eng" and "replace_spans c rand bs cursor spans eng = (Inr out, eng')"
    and "edits_ok (length bs) cursor (replacement_edits reps spans)"
  shows "engine_ok c eng' \<and> ce_registry eng' = ce_registry eng \<and> ce_replacements eng \<subseteq>\<^sub>m ce_replacements eng' \<and>
    (\<forall>sp \<in> set spans. rs_id sp \<in> dom (ce_replacements eng')) \<and>
    out = replace_edits bs cursor (replacement_edits (ce_replacements eng') spans)"
  using assms
proof (induction spans arbitrary: cursor eng out)
  case Nil
  then show ?case by (auto simp: replacement_edits_def)
next
  case (Cons sp spans)
  obtain rep eng1 rest where rep: "replacement_for c rand (rs_id sp) eng = (Inr rep, eng1)"
    and rest: "replace_spans c rand bs (rs_end sp) spans eng1 = (Inr rest, eng')"
    and out: "out = (if cursor < rs_start sp then sub_bytes bs cursor (rs_start sp) else []) @ rep @ rest"
    using Cons.prems(2) by (auto simp: and_then_st_eq_Inr)
  note one = replacement_for_spec [OF Cons.prems(1) rep]
  have ok: "cursor \<le> rs_start sp" "edits_ok (length bs) (rs_end sp) (replacement_edits reps spans)"
    using Cons.prems(3) by (auto simp: replacement_edits_def)
  note IH = Cons.IH [OF one(1) rest ok(2)]
  have stored: "ce_replacements eng' (rs_id sp) = Some rep"
    using IH one(4) by (auto simp: map_le_def dom_def)
  have "sub_bytes bs cursor (rs_start sp) = (if cursor < rs_start sp then sub_bytes bs cursor (rs_start sp) else [])"
    using ok(1) by (auto simp: sub_bytes_def)
  then show ?case
    using IH one stored out map_le_trans [OF one(3)] by (auto simp: replacement_edits_def)
qed

lemma edits_ok_replacements:
  "edits_ok n cur (map (\<lambda>sp. (rs_start sp, rs_end sp, f sp)) spans) \<longleftrightarrow>
   edits_ok n cur (map (\<lambda>sp. (rs_start sp, rs_end sp, g sp)) spans)"
  by (induction spans arbitrary: cur) auto

text \<open>Each span names the secret whose length it has.\<close>

definition span_sized :: "crypto \<Rightarrow> registry \<Rightarrow> replacement_span \<Rightarrow> bool" where
  "span_sized c r sp \<longleftrightarrow>
     (\<exists>e s. entry_of r (rs_id sp) = Some e \<and> secret_of c r e = Some s \<and> rs_end sp - rs_start sp = length s)"

lemma scanned_span_sized:
  assumes wf: "registry_wf c r" and "window_hit c r bs sp"
  shows "span_sized c r \<lparr>rs_start = sp_start sp, rs_end = span_end sp, rs_id = sp_id sp\<rparr>"
proof -
  obtain e where e: "e \<in> set (reg_entries r)" "sp_id sp = e_id e" "sp_len sp = e_len e"
    using assms(2) by (auto simp: window_hit_def)
  moreover obtain s where "secret_of c r e = Some s" "e_len e = length s"
    using wf e(1) by (auto simp: registry_wf_def list_all_iff entry_wf_def secret_of_def split: option.splits)
  ultimately show ?thesis
    using entry_of_id [OF wf e(1)] by (auto simp: span_sized_def span_end_def)
qed

text \<open>
  What is left of the bytes: the secrets the scanner found are replaced, one by one and length for
  length, and what is kept is free of secrets.
\<close>

definition bytes_replaced :: "crypto \<Rightarrow> conversation_engine \<Rightarrow> bytes \<Rightarrow> bytes \<Rightarrow> bool" where
  "bytes_replaced c eng bs out \<longleftrightarrow>
     (\<exists>edits. edits_ok (length bs) 0 edits \<and> out = replace_edits bs 0 edits \<and>
        (\<forall>(a, b, replacement) \<in> set edits. length replacement = b - a \<and>
           (\<exists>ident. ce_replacements eng ident = Some replacement \<and>
              replacement_ok c (ce_registry eng) ident replacement)) \<and>
        (\<forall>g \<in> set (kept_fragments bs 0 edits). secret_free c (ce_registry eng) g))"

lemma replacement_edits_select:
  assumes wf: "registry_wf c r" and scan: "scan_string_token c bs r = Inr scanned"
  shows "select_replacement_spans (scanned_spans scanned) = scanned_spans scanned"
proof -
  let ?xs = "scanned_spans scanned"
  have pos: "\<forall>x \<in> set ?xs. rs_start x < rs_end x"
    using scan_sound(1) [OF wf scan] window_hitD(1) [of c r bs] wf
    by (auto simp: scanned_spans_def)
  have ord: "sorted_wrt (\<lambda>a b. rs_end a \<le> rs_start b) ?xs"
    using scan_sound(2) [OF wf scan] by (simp add: scanned_spans_def sorted_wrt_map)
  have strict: "sorted (map rs_start ys) \<and> distinct (map rs_start ys)"
    if "sorted_wrt (\<lambda>a b. rs_end a \<le> rs_start b) ys" "\<forall>y \<in> set ys. rs_start y < rs_end y" for ys
    using that by (induction ys) (fastforce simp: image_iff)+
  have "sorted_wrt (\<lambda>a b. \<not> (rs_start a < rs_end b \<and> rs_start b < rs_end a)) ?xs"
    using ord by (rule sorted_wrt_mono_rel [rotated]) auto
  then have m: "mset (select_replacement_spans ?xs) = mset ?xs"
    by (rule replace_sel.select_keeps_disjoint)
  then have set: "set (select_replacement_spans ?xs) = set ?xs"
    by (rule mset_eq_setD)
  have "sorted_wrt (\<lambda>a b. rs_end a \<le> rs_start b) (select_replacement_spans ?xs)"
    using pos by (rule replace_sel.select_in_order)
  then have sel: "sorted (map rs_start (select_replacement_spans ?xs)) \<and> distinct (map rs_start (select_replacement_spans ?xs))"
    by (rule strict) (use pos set in auto)
  have xs: "sorted (map rs_start ?xs) \<and> distinct (map rs_start ?xs)"
    by (rule strict [OF ord pos])
  then have "inj_on rs_start (set (select_replacement_spans ?xs) \<union> set ?xs)"
    by (simp add: set distinct_map)
  then show ?thesis
    using map_sorted_distinct_set_unique [of rs_start "select_replacement_spans ?xs" ?xs] sel xs set by blast
qed

lemma replacement_edits_span_edits:
  "kept_fragments bs cur (replacement_edits reps (scanned_spans scanned)) = kept_fragments bs cur (span_edits scanned)"
  "edits_ok n cur (replacement_edits reps (scanned_spans scanned)) = edits_ok n cur (span_edits scanned)"
  by (induction scanned arbitrary: cur) (simp_all add: replacement_edits_def scanned_spans_def span_edits_def)

lemma apply_scanned_spec:
  assumes ok: "engine_ok c eng" and scan: "scan_string_token c bs (ce_registry eng) = Inr scanned"
    and run: "apply_replacement_spans c rand bs (scanned_spans scanned) eng = (Inr out, eng')"
  shows "engine_ok c eng' \<and> ce_registry eng' = ce_registry eng \<and> ce_replacements eng \<subseteq>\<^sub>m ce_replacements eng' \<and>
    bytes_replaced c eng' bs out"
proof -
  have wf: "registry_wf c (ce_registry eng)"
    using ok by (simp add: engine_ok_def)
  let ?spans = "scanned_spans scanned"
  have eds: "edits_ok (length bs) 0 (replacement_edits reps ?spans)" for reps
    using scan_sound(3) [OF wf scan] by (simp add: replacement_edits_span_edits)
  have spec: "engine_ok c eng' \<and> ce_registry eng' = ce_registry eng \<and> ce_replacements eng \<subseteq>\<^sub>m ce_replacements eng' \<and>
    (\<forall>sp \<in> set ?spans. rs_id sp \<in> dom (ce_replacements eng')) \<and>
    out = replace_edits bs 0 (replacement_edits (ce_replacements eng') ?spans)"
  proof (cases "?spans = []")
    case True
    then show ?thesis
      using run ok by (simp add: apply_replacement_spans_def replacement_edits_def)
  next
    case False
    then show ?thesis
      using run replace_spans_spec [OF ok _ eds] by (simp add: apply_replacement_spans_def)
  qed
  let ?edits = "replacement_edits (ce_replacements eng') ?spans"
  have sized: "span_sized c (ce_registry eng') sp" if "sp \<in> set ?spans" for sp
    using that scan_sound(1) [OF wf scan] scanned_span_sized [OF wf] spec by (auto simp: scanned_spans_def)
  have "length rep = b - a \<and> (\<exists>ident. ce_replacements eng' ident = Some rep \<and>
      replacement_ok c (ce_registry eng') ident rep)" if m: "(a, b, rep) \<in> set ?edits" for a b rep
  proof -
    obtain sp where sp: "sp \<in> set ?spans" "a = rs_start sp" "b = rs_end sp"
        "rep = the (ce_replacements eng' (rs_id sp))"
      using m by (auto simp: replacement_edits_def)
    then have stored: "ce_replacements eng' (rs_id sp) = Some rep"
      using spec by force
    then have "replacement_ok c (ce_registry eng') (rs_id sp) rep"
      using spec [THEN conjunct1] unfolding engine_ok_def by blast
    moreover obtain e s where "entry_of (ce_registry eng') (rs_id sp) = Some e"
        "secret_of c (ce_registry eng') e = Some s" "b - a = length s"
      using sized [OF sp(1)] unfolding span_sized_def sp(2,3) by blast
    ultimately have "length rep = b - a"
      unfolding replacement_ok_def by (metis option.inject)
    then show ?thesis
      using stored \<open>replacement_ok c (ce_registry eng') (rs_id sp) rep\<close> by blast
  qed
  moreover have "\<forall>g \<in> set (kept_fragments bs 0 ?edits). secret_free c (ce_registry eng') g"
    using kept_fragments_secret_free [OF wf scan] spec by (simp add: replacement_edits_span_edits)
  ultimately have "bytes_replaced c eng' bs out"
    unfolding bytes_replaced_def using eds spec by (intro exI [of _ ?edits]) auto
  then show ?thesis
    using spec by blast
qed

lemma bytes_replaced_length: "bytes_replaced c eng bs out \<Longrightarrow> length out = length bs"
  unfolding bytes_replaced_def
  by (elim exE conjE, simp, subst replace_edits_length) auto

lemma sanitize_bytes_exact_spec:
  assumes ok: "engine_ok c eng" and run: "sanitize_bytes_exact c rand bs eng = (Inr (out, n), eng')"
  shows "engine_ok c eng' \<and> ce_registry eng' = ce_registry eng \<and> ce_replacements eng \<subseteq>\<^sub>m ce_replacements eng' \<and>
    bytes_replaced c eng' bs out"
proof -
  have wf: "registry_wf c (ce_registry eng)"
    using ok by (simp add: engine_ok_def)
  obtain scanned where scan: "scan_string_token c bs (ce_registry eng) = Inr scanned"
    and rest: "apply_replacement_spans c rand bs (select_replacement_spans (scanned_spans scanned)) eng = (Inr out, eng')"
    using run by (auto simp: sanitize_bytes_exact_def and_then_st_eq_Inr Let_def)
  show ?thesis
    using apply_scanned_spec [OF ok scan rest [unfolded replacement_edits_select [OF wf scan]]] .
qed

lemma replacement_ok_step:
  "registry_step c r r' \<Longrightarrow> replacement_ok c r ident rep \<Longrightarrow> replacement_ok c r' ident rep"
  by (auto simp: replacement_ok_def registry_step_def secret_of_extends dest: entry_of_extends)

lemma engine_ok_step:
  assumes "engine_ok c eng" and "registry_step c (ce_registry eng) r'" and "registry_wf c r'"
  shows "engine_ok c (eng\<lparr>ce_registry := r'\<rparr>)"
  using assms replacement_ok_step [OF assms(2)] by (simp add: engine_ok_def)

text \<open>A text without directives: what matches a credential pattern is registered first.\<close>

lemma sanitize_text_plain_spec:
  assumes ok: "engine_ok c eng" and aead: "aead_correct c" and tags: "tag_free tx"
    and run: "sanitize_text c rand ps tx eng = (Inr res, eng')" and fits: "registry_fits (ce_registry eng')"
  shows "engine_ok c eng' \<and> registry_step c (ce_registry eng) (ce_registry eng') \<and>
    ce_replacements eng \<subseteq>\<^sub>m ce_replacements eng' \<and> bytes_replaced c eng' tx (tr_text res)"
proof -
  obtain b r1 where a: "auto_register_pattern_matches c ps tx (ce_registry eng) = (Inr b, r1)"
    and rest: "and_then_st (scan_string_token c tx r1, eng\<lparr>ce_registry := r1\<rparr>) (\<lambda>scanned eng.
       let spans = select_replacement_spans (scanned_spans scanned)
       in and_then_st (apply_replacement_spans c rand tx spans eng) (\<lambda>out eng.
            if utf8_valid out then (Inr \<lparr>tr_text = out, tr_redactions = length spans\<rparr>, eng)
            else (Inl (Redaction ''sanitized text is not valid UTF-8''), eng))) = (Inr res, eng')"
    using run
    by (cases "auto_register_pattern_matches c ps tx (ce_registry eng)";
        cases "fst (auto_register_pattern_matches c ps tx (ce_registry eng))")
      (auto simp: sanitize_text_def normalize_directives_def on_engine_def placeholder_spans_def
        parse_user_secret_directives_none [OF tags])
  let ?eng = "eng\<lparr>ce_registry := r1\<rparr>"
  obtain scanned where scan: "scan_string_token c tx (ce_registry ?eng) = Inr scanned"
    and apply_run: "apply_replacement_spans c rand tx (select_replacement_spans (scanned_spans scanned)) ?eng =
      (Inr (tr_text res), eng')"
    using rest by (auto simp: and_then_st_eq_Inr Let_def split: if_splits)
  have step: "registry_step c (ce_registry eng) r1"
    using auto_register_step [of c "ce_registry eng" ps tx] a by simp
  have reg: "ce_registry eng' = r1"
    using apply_replacement_registry [OF apply_run] by simp
  have "registry_wf c r1"
    using registry_stepD(2) [OF step aead] ok fits reg by (simp add: engine_ok_def)
  note ok1 = engine_ok_step [OF ok step this]
  have wf1: "registry_wf c (ce_registry ?eng)"
    using \<open>registry_wf c r1\<close> by simp
  from apply_scanned_spec [OF ok1 scan apply_run [unfolded replacement_edits_select [OF wf1 scan]]]
  show ?thesis
    using step by simp
qed

end
