(* ===== verification/Discovery.thy ===== *)
theory Discovery
  imports Patterns Secrets_Crypto
begin

text \<open>
  Where the secrets come from at the start (\<^verbatim>\<open>src/secrets/discovery.rs\<close>): the variables of the
  environment and the assignments of a \<^verbatim>\<open>.env\<close> file that the rules of the pattern set take for
  credentials. The environment is the list of its variables, a file the result of reading it.
\<close>

section \<open>The environment\<close>

type_synonym secret_candidate = "bytes \<times> bytes"

fun env_candidates_from ::
  "pattern_set \<Rightarrow> nat \<Rightarrow> secret_candidate list \<Rightarrow> (bytes \<times> bytes) list \<Rightarrow> secret_candidate list" where
  "env_candidates_from ps limit found [] = found"
| "env_candidates_from ps limit found ((key, value') # vars) =
     (if length found \<ge> limit then found
      else if \<not> utf8_valid key then env_candidates_from ps limit found vars
      else if is_secret_candidate ps key (from_utf8_lossy value')
      then env_candidates_from ps limit (found @ [(secret_label key, from_utf8_lossy value')]) vars
      else env_candidates_from ps limit found vars)"

definition discover_env_candidates_with_patterns ::
  "pattern_set \<Rightarrow> nat \<Rightarrow> (bytes \<times> bytes) list \<Rightarrow> secret_candidate list" where
  "discover_env_candidates_with_patterns ps limit vars = env_candidates_from ps limit [] vars"

section \<open>Lines of a dotenv file\<close>

definition trim_ascii :: "bytes \<Rightarrow> bytes" where
  "trim_ascii = trim_bytes is_ascii_whitespace"

definition strip_export_prefix :: "bytes \<Rightarrow> bytes" where
  "strip_export_prefix bs =
     (let bs = trim_ascii bs
      in if length bs \<ge> 7 \<and> eq_ignore_ascii_case (take 7 bs) ''export '' then trim_ascii (drop 7 bs) else bs)"

definition strip_matching_quotes :: "bytes \<Rightarrow> bytes" where
  "strip_matching_quotes bs =
     (if length bs \<ge> 2 \<and>
         (hd bs = CHR 0x22 \<and> last bs = CHR 0x22 \<or> hd bs = CHR 0x27 \<and> last bs = CHR 0x27)
      then butlast (tl bs) else bs)"

definition dotenv_assignment :: "bytes \<Rightarrow> (bytes \<times> bytes) option" where
  "dotenv_assignment line =
     (let line = strip_export_prefix (trim_ascii line)
      in if line = [] \<or> hd line = CHR ''#'' then None
         else case str_find ''='' line of
           None \<Rightarrow> None
         | Some eq_index \<Rightarrow>
             (let key = trim_ascii (take eq_index line);
                  value' = strip_matching_quotes (trim_ascii (strip_export_prefix (drop (eq_index + 1) line)))
              in if utf8_valid key then Some (key, value') else None))"

fun dotenv_candidates_from ::
  "pattern_set \<Rightarrow> nat \<Rightarrow> secret_candidate list \<Rightarrow> bytes list \<Rightarrow> secret_candidate list" where
  "dotenv_candidates_from ps limit found [] = found"
| "dotenv_candidates_from ps limit found (line # lns) =
     (if length found \<ge> limit then found
      else case dotenv_assignment line of
        None \<Rightarrow> dotenv_candidates_from ps limit found lns
      | Some (key, value') \<Rightarrow>
          (if is_secret_candidate ps key value'
           then dotenv_candidates_from ps limit (found @ [(secret_label key, value')]) lns
           else dotenv_candidates_from ps limit found lns))"

text \<open>The candidates, and what is left of the bytes read: zeros.\<close>

definition parse_dotenv_candidates_from_bytes ::
  "pattern_set \<Rightarrow> nat \<Rightarrow> bytes \<Rightarrow> secret_candidate list \<times> bytes" where
  "parse_dotenv_candidates_from_bytes ps limit bs =
     (dotenv_candidates_from ps limit [] (split_on [LF] bs), replicate (length bs) (CHR 0x00))"

text \<open>What reading the file gives: its bytes, that there is none, or another error.\<close>

datatype file_read = File_bytes bytes | File_not_found | File_error crebro_error

definition discover_dotenv_candidates_with_patterns ::
  "pattern_set \<Rightarrow> nat \<Rightarrow> file_read \<Rightarrow> crebro_error + secret_candidate list" where
  "discover_dotenv_candidates_with_patterns ps limit content =
     (case content of
        File_not_found \<Rightarrow> Inr []
      | File_error err \<Rightarrow> Inl err
      | File_bytes bs \<Rightarrow> Inr (fst (parse_dotenv_candidates_from_bytes ps limit bs)))"

section \<open>The candidates are the first of all\<close>

text \<open>The reference: every assignment of the source that is a credential, then the first \<open>limit\<close>.\<close>

definition candidate_of :: "pattern_set \<Rightarrow> (bytes \<times> bytes) option \<Rightarrow> secret_candidate option" where
  "candidate_of ps kv =
     (case kv of None \<Rightarrow> None
      | Some (key, value') \<Rightarrow> if is_secret_candidate ps key value' then Some (secret_label key, value') else None)"

lemma dotenv_candidates_first:
  "length found \<le> limit \<Longrightarrow>
   dotenv_candidates_from ps limit found lns =
     take limit (found @ List.map_filter (\<lambda>line. candidate_of ps (dotenv_assignment line)) lns)"
  by (induction lns arbitrary: found)
    (auto simp: candidate_of_def map_filter_simps Suc_le_eq take_Cons' split: option.split)

lemma env_candidates_first:
  "length found \<le> limit \<Longrightarrow>
   env_candidates_from ps limit found vars =
     take limit (found @ List.map_filter (\<lambda>(key, value').
       candidate_of ps (if utf8_valid key then Some (key, from_utf8_lossy value') else None)) vars)"
  by (induction vars arbitrary: found)
    (auto simp: candidate_of_def map_filter_simps Suc_le_eq take_Cons' split: option.split)

lemma candidate_of_SomeE:
  assumes "candidate_of ps kv = Some (label, v)"
  shows "\<exists>key. kv = Some (key, v) \<and> is_secret_candidate ps key v \<and> label = secret_label key"
  using assms by (auto simp: candidate_of_def split: option.splits if_splits)

lemma map_filter_SomeE: "y \<in> set (List.map_filter f xs) \<Longrightarrow> \<exists>x \<in> set xs. f x = Some y"
  by (auto simp: map_filter_def)

lemma candidates_registrable:
  assumes "(label, v) \<in> set (fst (parse_dotenv_candidates_from_bytes ps limit bs)) \<or>
    (label, v) \<in> set (discover_env_candidates_with_patterns ps limit vars)"
  shows "label_ok label" "v \<noteq> []"
proof -
  have "\<exists>kv. candidate_of ps kv = Some (label, v)"
    using assms
    by (auto simp: parse_dotenv_candidates_from_bytes_def discover_env_candidates_with_patterns_def
        dotenv_candidates_first env_candidates_first dest!: in_set_takeD map_filter_SomeE)
  then obtain key where "is_secret_candidate ps key v" "label = secret_label key"
    using candidate_of_SomeE by blast
  then show "label_ok label" "v \<noteq> []"
    using is_secret_candidate_nonempty by (auto simp: is_secret_candidate_def)
qed

section \<open>Quoted assignments\<close>

lemma trim_ascii_id:
  "xs \<noteq> [] \<Longrightarrow> \<not> is_ascii_whitespace (hd xs) \<Longrightarrow> \<not> is_ascii_whitespace (last xs) \<Longrightarrow> trim_ascii xs = xs"
proof -
  assume "xs \<noteq> []" "\<not> is_ascii_whitespace (hd xs)" "\<not> is_ascii_whitespace (last xs)"
  then have "dropWhile is_ascii_whitespace xs = xs" "dropWhile is_ascii_whitespace (rev xs) = rev xs"
    by (simp_all add: dropWhile_eq_self_iff hd_rev)
  then show ?thesis
    by (simp add: trim_ascii_def trim_bytes_def)
qed

definition env_name :: "bytes \<Rightarrow> bool" where
  "env_name key \<longleftrightarrow> key \<noteq> [] \<and> hd key \<noteq> CHR ''#'' \<and> CHR ''='' \<notin> set key \<and>
     (\<forall>ch \<in> set key. \<not> is_ascii_whitespace ch) \<and> utf8_valid key"

definition quoted_assignment :: "bytes \<times> bytes \<Rightarrow> bytes" where
  "quoted_assignment kv = fst kv @ ''='' @ [CHR 0x22] @ snd kv @ [CHR 0x22]"

lemma lower_space: "to_ascii_lower ch = CHR '' '' \<Longrightarrow> is_ascii_whitespace ch"
proof (cases "is_ascii_upper ch")
  case True
  assume "to_ascii_lower ch = CHR '' ''"
  then have "(of_char (char_of (byte_val ch + 32)) :: nat) = of_char (CHR '' '')"
    using True by (simp add: to_ascii_lower_def)
  then show ?thesis
    using True by (simp add: is_ascii_upper_def)
qed (simp add: to_ascii_lower_def is_ascii_whitespace_def)

lemma not_export:
  assumes "env_name key"
  shows "\<not> eq_ignore_ascii_case (take 7 (key @ CHR ''='' # rest)) ''export ''"
proof
  assume eq: "eq_ignore_ascii_case (take 7 (key @ CHR ''='' # rest)) ''export ''"
  have lower: "map to_ascii_lower (take 7 (key @ CHR ''='' # rest)) = map to_ascii_lower ''export ''"
    using eq by (simp only: eq_ignore_ascii_case_def to_ascii_lowercase_def)
  have low_eq: "to_ascii_lower (CHR ''='') = CHR ''=''"
    by (simp add: to_ascii_lower_def is_ascii_upper_def)
  show False
  proof (cases "length key < 7")
    case True
    then have "CHR ''='' \<in> set (take 7 (key @ CHR ''='' # rest))"
      by (cases "7 - length key") auto
    then have "CHR ''='' \<in> set (map to_ascii_lower ''export '')"
      unfolding lower [symmetric] using low_eq by (metis image_eqI list.set_map)
    then show False
      by (simp add: to_ascii_lower_def is_ascii_upper_def)
  next
    case False
    then have k: "take 7 (key @ CHR ''='' # rest) = take 7 key" "length (take 7 key) = 7"
      by auto
    have "map to_ascii_lower (take 7 key) ! 6 = CHR '' ''"
      unfolding k(1) [symmetric] lower by (simp add: to_ascii_lower_def is_ascii_upper_def)
    then have "to_ascii_lower (key ! 6) = CHR '' ''"
      using False by simp
    then have "is_ascii_whitespace (key ! 6)"
      using lower_space by blast
    then show False
      using False assms by (simp add: env_name_def)
  qed
qed

lemma strip_export_prefix_id:
  assumes "env_name key"
  shows "strip_export_prefix (key @ CHR ''='' # rest @ [CHR 0x22]) = key @ CHR ''='' # rest @ [CHR 0x22]"
    "trim_ascii (key @ CHR ''='' # rest @ [CHR 0x22]) = key @ CHR ''='' # rest @ [CHR 0x22]"
proof -
  show t: "trim_ascii (key @ CHR ''='' # rest @ [CHR 0x22]) = key @ CHR ''='' # rest @ [CHR 0x22]"
    by (rule trim_ascii_id) (use assms in \<open>auto simp: env_name_def is_ascii_whitespace_def\<close>)
  show "strip_export_prefix (key @ CHR ''='' # rest @ [CHR 0x22]) = key @ CHR ''='' # rest @ [CHR 0x22]"
    using not_export [OF assms] by (simp add: strip_export_prefix_def t)
qed

lemma quoted_value:
  "strip_matching_quotes (trim_ascii (strip_export_prefix (CHR 0x22 # v @ [CHR 0x22]))) = v"
proof -
  have t: "trim_ascii (CHR 0x22 # v @ [CHR 0x22]) = CHR 0x22 # v @ [CHR 0x22]"
    by (rule trim_ascii_id) (simp_all add: is_ascii_whitespace_def)
  have "strip_export_prefix (CHR 0x22 # v @ [CHR 0x22]) = CHR 0x22 # v @ [CHR 0x22]"
    by (simp add: strip_export_prefix_def t eq_ignore_ascii_case_def to_ascii_lowercase_def
        to_ascii_lower_def is_ascii_upper_def)
  then show ?thesis
    by (simp add: t strip_matching_quotes_def)
qed

lemma dotenv_assignment_quoted:
  assumes "env_name key"
  shows "dotenv_assignment (quoted_assignment (key, v)) = Some (key, v)"
proof -
  note strip = strip_export_prefix_id [OF assms, of "CHR 0x22 # v"]
  have "str_find ''='' (key @ CHR ''='' # CHR 0x22 # v @ [CHR 0x22]) = Some (length key)"
    by (rule str_find_byte) (use assms in \<open>simp add: env_name_def\<close>)
  moreover have "trim_ascii key = key"
    by (rule trim_ascii_id) (use assms in \<open>auto simp: env_name_def\<close>)
  ultimately show ?thesis
    using strip assms
    by (simp add: quoted_assignment_def dotenv_assignment_def quoted_value Let_def env_name_def)
qed

lemma dotenv_quoted_file:
  assumes "kvs \<noteq> []" and "\<forall>(key, v) \<in> set kvs. env_name key \<and> LF \<notin> set v"
  shows "fst (parse_dotenv_candidates_from_bytes ps limit (str_join [LF] (map quoted_assignment kvs))) =
    take limit (List.map_filter (\<lambda>kv. candidate_of ps (Some kv)) kvs)"
proof -
  have white: "is_ascii_whitespace LF"
    by (simp add: is_ascii_whitespace_def)
  have "\<forall>line \<in> set (map quoted_assignment kvs). LF \<notin> set line"
    using assms(2) white by (fastforce simp: quoted_assignment_def env_name_def)
  then have lns: "split_on [LF] (str_join [LF] (map quoted_assignment kvs)) = map quoted_assignment kvs"
    using assms(1) by (intro split_on_byte_join) auto
  have "List.map_filter (\<lambda>line. candidate_of ps (dotenv_assignment line)) (map quoted_assignment kvs) =
      List.map_filter (\<lambda>kv. candidate_of ps (Some kv)) kvs"
    using assms(2) by (induction kvs) (auto simp: map_filter_simps dotenv_assignment_quoted split: option.split)
  then show ?thesis
    by (simp add: parse_dotenv_candidates_from_bytes_def lns dotenv_candidates_first)
qed

end
