(* ===== verification/Conversation_Files.thy ===== *)
theory Conversation_Files
  imports Atomic_Write Conversation Stats Discovery
begin

text \<open>
  The files of stored conversations (\<^verbatim>\<open>run_sanitize_conversations\<close> to \<^verbatim>\<open>process_sqlite\<close> of
  \<^verbatim>\<open>src/sanitize.rs\<close>): which files are read, what is reported of each and what is written. The
  directories are a tree of nodes that stays as it is during the run; the contents of the files are on a disk
  that every copy and every write changes, so a file that is reached twice is read as the run left it. What
  the operating system and SQLite answer is in \<open>file_ops\<close>. A path names one place on the disk: links other than the
  ones of the tree, and \<^verbatim>\<open>..\<close>, are not followed.
\<close>

section \<open>Agents\<close>

datatype sanitize_agent = Codex | Claude | Gemini | Opencode

definition default_agent_paths :: "bytes option \<Rightarrow> sanitize_agent \<Rightarrow> bytes list" where
  "default_agent_paths home_dir agent =
     (case home_dir of
        None \<Rightarrow> []
      | Some home \<Rightarrow>
          (case agent of
             Codex \<Rightarrow>
               (let codex = path_join home ''.codex''
                in [path_join codex ''sessions'', path_join codex ''archived_sessions'',
                    path_join codex ''history.jsonl'', path_join codex ''session_index.jsonl'',
                    path_join codex ''logs_2.sqlite'', path_join codex ''state_5.sqlite''])
           | Claude \<Rightarrow>
               (let claude = path_join home ''.claude''
                in [path_join claude ''projects'', path_join claude ''transcripts'',
                    path_join claude ''sessions'', path_join claude ''history.jsonl''])
           | Gemini \<Rightarrow>
               (let gemini = path_join home ''.gemini''
                in [path_join gemini ''history'', path_join gemini ''tmp'',
                    path_joins gemini [''antigravity'', ''brain''],
                    path_joins gemini [''antigravity'', ''conversations''],
                    path_joins gemini [''antigravity'', ''implicit'']])
           | Opencode \<Rightarrow>
               (let opencode = path_joins home [''.local'', ''share'', ''opencode'']
                in [path_join opencode ''storage'', path_join opencode ''opencode.db''])))"

definition resolve_backup_dir :: "bytes option \<Rightarrow> nat \<Rightarrow> bytes option \<Rightarrow> crebro_error + bytes" where
  "resolve_backup_dir home_dir now_unix configured =
     (case configured of
        Some path \<Rightarrow> Inr path
      | None \<Rightarrow>
          (case home_dir of
             None \<Rightarrow> Inl (Config ''HOME is not set; pass --backup-dir'')
           | Some home \<Rightarrow>
               Inr (path_joins home [''.crebro'', ''backups'', ''conversations'', print_radix 10 now_unix])))"

section \<open>The report\<close>

record target_report =
  tg_path :: bytes
  tg_kind :: bytes
  tg_redactions :: u64
  tg_rows :: u64

record sanitize_report =
  rp_files_scanned :: u64
  rp_files_changed :: u64
  rp_databases_scanned :: u64
  rp_rows_changed :: u64
  rp_redactions :: u64
  rp_backups :: "(bytes \<times> bytes) list"
  rp_targets :: "target_report list"
  rp_findings :: "(bytes \<times> bytes \<times> bytes) list"
  rp_unsupported :: "bytes list"
  rp_errors :: "(bytes \<times> crebro_error) list"

definition report_new :: sanitize_report where
  "report_new = \<lparr>rp_files_scanned = 0, rp_files_changed = 0, rp_databases_scanned = 0, rp_rows_changed = 0,
     rp_redactions = 0, rp_backups = [], rp_targets = [], rp_findings = [], rp_unsupported = [], rp_errors = []\<rparr>"

definition saturating_add :: "u64 \<Rightarrow> u64 \<Rightarrow> u64" where
  "saturating_add a b = (if a \<le> - 1 - b then a + b else - 1)"

definition report_error :: "bytes \<Rightarrow> crebro_error \<Rightarrow> sanitize_report \<Rightarrow> sanitize_report" where
  "report_error path err rp = rp\<lparr>rp_errors := rp_errors rp @ [(path, err)]\<rparr>"

definition report_target :: "target_report \<Rightarrow> sanitize_report \<Rightarrow> sanitize_report" where
  "report_target t rp = rp\<lparr>rp_redactions := saturating_add (rp_redactions rp) (tg_redactions t),
     rp_targets := rp_targets rp @ [t]\<rparr>"

definition count_scanned :: "sanitize_report \<Rightarrow> sanitize_report" where
  "count_scanned rp = rp\<lparr>rp_files_scanned := saturating_inc (rp_files_scanned rp)\<rparr>"

definition count_changed :: "sanitize_report \<Rightarrow> sanitize_report" where
  "count_changed rp = rp\<lparr>rp_files_changed := saturating_inc (rp_files_changed rp)\<rparr>"

section \<open>Writing\<close>

text \<open>Rows to be written: table, column, row and text.\<close>

type_synonym sqlite_update = "bytes \<times> bytes \<times> int \<times> bytes"

text \<open>A database: the columns of type TEXT, and per column the rows of the query, \<^const>\<open>None\<close> when it
  cannot be prepared; a row may be an error.\<close>

record database =
  db_text_columns :: "(bytes \<times> bytes) set"
  db_rows :: "bytes \<times> bytes \<Rightarrow> (crebro_error + int \<times> bytes) list option"

text \<open>What the operating system, SHA-256 and SQLite answer. The number is how many changes of the disk the run
  has tried before. \<open>fo_copy\<close> and \<open>fo_write\<close> say how far a copy (with the directories made for it) and a write get,
  \<open>fo_read_error\<close> and \<open>fo_rename\<close> are the errors, if any. \<open>fo_open\<close> reads a database off the disk;
  \<open>fo_transaction\<close> makes the updates, and gives the disk after it whether it commits or not.\<close>

record file_ops =
  fo_sha256 :: "bytes \<Rightarrow> bytes"
  fo_pid :: nat
  fo_canonical :: "bytes \<Rightarrow> bytes option"
  fo_read_error :: "nat \<Rightarrow> bytes \<Rightarrow> crebro_error option"
  fo_copy :: "nat \<Rightarrow> bytes \<Rightarrow> bytes \<Rightarrow> write_answer"
  fo_write :: "nat \<Rightarrow> bytes \<Rightarrow> write_answer"
  fo_rename :: "nat \<Rightarrow> bytes \<Rightarrow> crebro_error option"
  fo_open :: "nat \<Rightarrow> disk \<Rightarrow> bytes \<Rightarrow> crebro_error + database"
  fo_transaction :: "nat \<Rightarrow> disk \<Rightarrow> bytes \<Rightarrow> sqlite_update list \<Rightarrow> (crebro_error + unit) \<times> disk"

text \<open>What the run does to the disk: a copy to a backup, a file replaced, a temporary file that could not
  take its place, the rows of a database updated. The log has the disk after each.\<close>

datatype disk_op =
    Backup bytes bytes
  | Replace bytes
  | Temporary bytes
  | Update bytes "sqlite_update list"

type_synonym disk_log = "(disk_op \<times> disk) list"

record sanitize_run =
  sr_engine :: conversation_engine
  sr_report :: sanitize_report
  sr_disk :: disk
  sr_log :: disk_log

definition did :: "disk_op \<Rightarrow> disk \<Rightarrow> sanitize_run \<Rightarrow> sanitize_run" where
  "did op dk st = st\<lparr>sr_disk := dk, sr_log := sr_log st @ [(op, dk)]\<rparr>"

text \<open>\<^verbatim>\<open>fs::read\<close> and \<^verbatim>\<open>fs::copy\<close>. A file copied onto itself keeps its contents here.\<close>

definition read_file :: "file_ops \<Rightarrow> bytes \<Rightarrow> sanitize_run \<Rightarrow> crebro_error + bytes" where
  "read_file ops path st =
     (case fo_read_error ops (length (sr_log st)) path of
        Some err \<Rightarrow> Inl err
      | None \<Rightarrow> (case sr_disk st (location path) of None \<Rightarrow> Inl Io | Some bs \<Rightarrow> Inr bs))"

definition copy_file :: "write_answer \<Rightarrow> bytes \<Rightarrow> bytes \<Rightarrow> disk \<Rightarrow> (crebro_error + unit) \<times> disk" where
  "copy_file copied src dst dk =
     (case dk (location src) of
        None \<Rightarrow> (Inl Io, dk)
      | Some bs \<Rightarrow>
          (case copied of
             Not_created err \<Rightarrow> (Inl err, dk)
           | Failed_after n err \<Rightarrow> (Inl err, dk(location dst \<mapsto> take n bs))
           | Written \<Rightarrow> (Inr (), dk(location dst \<mapsto> bs))))"

definition on_report :: "(sanitize_report \<Rightarrow> sanitize_report) \<Rightarrow> sanitize_run \<Rightarrow> sanitize_run" where
  "on_report f st = st\<lparr>sr_report := f (sr_report st)\<rparr>"

definition path_digest :: "crypto \<Rightarrow> file_ops \<Rightarrow> bytes \<Rightarrow> bytes" where
  "path_digest c ops path = hex_encode c (take 8 (fo_sha256 ops (from_utf8_lossy path)))"

definition backup_path :: "crypto \<Rightarrow> file_ops \<Rightarrow> bytes \<Rightarrow> bytes \<Rightarrow> bytes" where
  "backup_path c ops dir path =
     path_joins dir [path_digest c ops path,
       case path_file_name path of None \<Rightarrow> ''file'' | Some name \<Rightarrow> name]"

definition backup_file ::
  "crypto \<Rightarrow> file_ops \<Rightarrow> bytes option \<Rightarrow> bytes \<Rightarrow> sanitize_run \<Rightarrow> (crebro_error + unit) \<times> sanitize_run" where
  "backup_file c ops backup_dir path st =
     (case backup_dir of
        None \<Rightarrow> (Inr (), st)
      | Some dir \<Rightarrow>
          (let dst = backup_path c ops dir path;
               (res, dk) = copy_file (fo_copy ops (length (sr_log st)) path dst) path dst (sr_disk st);
               st = did (Backup path dst) dk st
           in case res of
                Inl err \<Rightarrow> (Inl err, st)
              | Inr _ \<Rightarrow> (Inr (), on_report (\<lambda>rp. rp\<lparr>rp_backups := rp_backups rp @ [(path, dst)]\<rparr>) st)))"

text \<open>The steps of the write are in \<^const>\<open>write_file_atomic\<close>; the run goes on from the last one.\<close>

definition backup_and_write_file ::
  "crypto \<Rightarrow> file_ops \<Rightarrow> bytes option \<Rightarrow> bytes \<Rightarrow> bytes \<Rightarrow> sanitize_run \<Rightarrow> (crebro_error + unit) \<times> sanitize_run" where
  "backup_and_write_file c ops backup_dir path bs st =
     and_then_st (backup_file c ops backup_dir path st) (\<lambda>_ st.
       let n = length (sr_log st);
           (res, states) = write_file_atomic (fo_write ops n path) (fo_rename ops n path) (fo_pid ops) path bs (sr_disk st)
       in case res of
            Inl err \<Rightarrow> (Inl err, did (Temporary path) (last states) st)
          | Inr _ \<Rightarrow> (Inr (), did (Replace path) (last states) st))"

text \<open>\<^verbatim>\<open>if let Err(err) = ... { report_error(report, path, err); }\<close>\<close>

definition or_report :: "bytes \<Rightarrow> (crebro_error + unit) \<times> sanitize_run \<Rightarrow> sanitize_run" where
  "or_report path res =
     (case res of (Inl err, st) \<Rightarrow> on_report (report_error path err) st | (Inr _, st) \<Rightarrow> st)"

section \<open>Files\<close>

record sanitize_config =
  sc_crypto :: crypto
  sc_rand :: "nat \<Rightarrow> nat"
  sc_patterns :: pattern_set
  sc_ops :: file_ops
  sc_write :: bool
  sc_backup :: "bytes option"
  sc_strict :: bool

definition write_if ::
  "sanitize_config \<Rightarrow> bytes \<Rightarrow> bytes \<Rightarrow> sanitize_run \<Rightarrow> sanitize_run" where
  "write_if cfg path bs st =
     (if sc_write cfg then or_report path (backup_and_write_file (sc_crypto cfg) (sc_ops cfg) (sc_backup cfg) path bs st) else st)"

definition changed_target :: "bytes \<Rightarrow> bytes \<Rightarrow> nat \<Rightarrow> target_report" where
  "changed_target path kind redactions =
     \<lparr>tg_path = path, tg_kind = kind, tg_redactions = word_of_nat redactions, tg_rows = 0\<rparr>"

definition process_text_file :: "sanitize_config \<Rightarrow> bytes \<Rightarrow> bytes \<Rightarrow> sanitize_run \<Rightarrow> sanitize_run" where
  "process_text_file cfg path tx st =
     (let st = on_report count_scanned st
      in case sanitize_text (sc_crypto cfg) (sc_rand cfg) (sc_patterns cfg) tx (sr_engine st) of
           (Inl err, eng) \<Rightarrow> on_report (report_error path err) (st\<lparr>sr_engine := eng\<rparr>)
         | (Inr res, eng) \<Rightarrow>
             (let st = st\<lparr>sr_engine := eng\<rparr>
              in if tr_text res = tx then st
                 else write_if cfg path (tr_text res)
                   (on_report (\<lambda>rp. report_target (changed_target path ''text-file'' (tr_redactions res)) (count_changed rp)) st)))"

definition unsupported_binary_patterns :: "bytes \<Rightarrow> pattern_set \<Rightarrow> bytes list" where
  "unsupported_binary_patterns bs ps =
     remdups_adj (sort (map am_pattern (auto_redact_matches ps (from_utf8_lossy bs))))"

definition report_unsupported :: "bytes \<Rightarrow> bytes list \<Rightarrow> sanitize_report \<Rightarrow> sanitize_report" where
  "report_unsupported path ids rp =
     (if ids = [] then rp
      else rp\<lparr>rp_unsupported := rp_unsupported rp @ [path],
              rp_findings := rp_findings rp @ map (\<lambda>i. (path, i, ''unsupported_binary_pattern_scan'')) ids\<rparr>)"

definition process_binary_file :: "sanitize_config \<Rightarrow> bytes \<Rightarrow> bytes \<Rightarrow> sanitize_run \<Rightarrow> sanitize_run" where
  "process_binary_file cfg path bs st =
     (let st = on_report count_scanned st
      in case sanitize_bytes_exact (sc_crypto cfg) (sc_rand cfg) bs (sr_engine st) of
           (Inl err, eng) \<Rightarrow> on_report (report_error path err) (st\<lparr>sr_engine := eng\<rparr>)
         | (Inr (out, redactions), eng) \<Rightarrow>
             (let unsupported = unsupported_binary_patterns bs (sc_patterns cfg);
                  st = on_report (report_unsupported path unsupported) (st\<lparr>sr_engine := eng\<rparr>)
              in if unsupported \<noteq> [] \<and> sc_strict cfg
                 then on_report (report_error path (Redaction
                   ''binary file contains credential-like patterns that cannot be pattern-redacted safely'')) st
                 else if out = bs then st
                 else write_if cfg path out
                   (on_report (\<lambda>rp. report_target (changed_target path ''binary-file'' redactions) (count_changed rp)) st)))"

section \<open>Databases\<close>

definition KNOWN_SQLITE_TEXT_COLUMNS :: "(bytes \<times> bytes) list" where
  "KNOWN_SQLITE_TEXT_COLUMNS =
     [(''message'', ''data''), (''part'', ''data''), (''session_message'', ''data''), (''event'', ''data''),
      (''logs'', ''feedback_log_body''), (''threads'', ''first_user_message''), (''threads'', ''preview''),
      (''threads'', ''title''), (''stage1_outputs'', ''raw_memory''), (''stage1_outputs'', ''rollout_summary''),
      (''agent_jobs'', ''instruction''), (''agent_jobs'', ''last_error''), (''agent_job_items'', ''row_json''),
      (''agent_job_items'', ''result_json''), (''agent_job_items'', ''last_error''), (''session'', ''title''),
      (''session'', ''summary_diffs''), (''todo'', ''content'')]"

definition sqlite_text_columns :: "database \<Rightarrow> (bytes \<times> bytes) list" where
  "sqlite_text_columns db = filter (\<lambda>entry. entry \<in> db_text_columns db) KNOWN_SQLITE_TEXT_COLUMNS"

definition quote_identifier :: "bytes \<Rightarrow> bytes" where
  "quote_identifier identifier =
     [CHR 0x22] @ concat (map (\<lambda>ch. if ch = CHR 0x22 then [ch, ch] else [ch]) identifier) @ [CHR 0x22]"

fun sanitize_rows ::
  "sanitize_config \<Rightarrow> bytes \<times> bytes \<Rightarrow> (crebro_error + int \<times> bytes) list \<Rightarrow> conversation_engine \<Rightarrow>
   (crebro_error + sqlite_update list \<times> u64) \<times> conversation_engine" where
  "sanitize_rows cfg column [] eng = (Inr ([], 0), eng)"
| "sanitize_rows cfg column (Inl err # rows) eng = (Inl err, eng)"
| "sanitize_rows cfg column (Inr (rowid, tx) # rows) eng =
     and_then_st (sanitize_text (sc_crypto cfg) (sc_rand cfg) (sc_patterns cfg) tx eng) (\<lambda>res eng.
     and_then_st (sanitize_rows cfg column rows eng) (\<lambda>(updates, redactions) eng.
       if tr_text res = tx then (Inr (updates, redactions), eng)
       else (Inr ((fst column, snd column, rowid, tr_text res) # updates,
                  saturating_add (word_of_nat (tr_redactions res)) redactions), eng)))"

fun sanitize_columns ::
  "sanitize_config \<Rightarrow> database \<Rightarrow> (bytes \<times> bytes) list \<Rightarrow> conversation_engine \<Rightarrow>
   (crebro_error + sqlite_update list \<times> u64) \<times> conversation_engine" where
  "sanitize_columns cfg db [] eng = (Inr ([], 0), eng)"
| "sanitize_columns cfg db (column # columns) eng =
     (case db_rows db column of
        None \<Rightarrow> sanitize_columns cfg db columns eng
      | Some rows \<Rightarrow>
          and_then_st (sanitize_rows cfg column rows eng) (\<lambda>(updates, redactions) eng.
          and_then_st (sanitize_columns cfg db columns eng) (\<lambda>(updates2, redactions2) eng.
            (Inr (updates @ updates2, saturating_add redactions redactions2), eng))))"

fun backup_sidecars :: "crypto \<Rightarrow> file_ops \<Rightarrow> bytes option \<Rightarrow> bytes list \<Rightarrow> sanitize_run \<Rightarrow> (crebro_error + unit) \<times> sanitize_run" where
  "backup_sidecars c ops backup_dir [] st = (Inr (), st)"
| "backup_sidecars c ops backup_dir (sidecar # sidecars) st =
     (if sr_disk st (location sidecar) \<noteq> None
      then and_then_st (backup_file c ops backup_dir sidecar st) (\<lambda>_ st. backup_sidecars c ops backup_dir sidecars st)
      else backup_sidecars c ops backup_dir sidecars st)"

definition backup_sqlite :: "crypto \<Rightarrow> file_ops \<Rightarrow> bytes option \<Rightarrow> bytes \<Rightarrow> sanitize_run \<Rightarrow> (crebro_error + unit) \<times> sanitize_run" where
  "backup_sqlite c ops backup_dir path st =
     and_then_st (backup_file c ops backup_dir path st) (\<lambda>_ st.
       backup_sidecars c ops backup_dir [path @ ''-wal'', path @ ''-shm''] st)"

definition process_sqlite ::
  "sanitize_config \<Rightarrow> bytes \<Rightarrow> sanitize_run \<Rightarrow> (crebro_error + unit) \<times> sanitize_run" where
  "process_sqlite cfg path st =
     (let st = on_report (\<lambda>rp. rp\<lparr>rp_databases_scanned := saturating_inc (rp_databases_scanned rp)\<rparr>) st
      in case fo_open (sc_ops cfg) (length (sr_log st)) (sr_disk st) path of
           Inl err \<Rightarrow> (Inl err, st)
         | Inr db \<Rightarrow>
             (case sanitize_columns cfg db (sqlite_text_columns db) (sr_engine st) of
                (Inl err, eng) \<Rightarrow> (Inl err, st\<lparr>sr_engine := eng\<rparr>)
              | (Inr (updates, redactions), eng) \<Rightarrow>
                  (let st = st\<lparr>sr_engine := eng\<rparr>;
                       rows = word_of_nat (length updates)
                   in if updates = [] then (Inr (), st)
                      else
                        (let st = on_report (\<lambda>rp. report_target
                               \<lparr>tg_path = path, tg_kind = ''sqlite-database'', tg_redactions = redactions, tg_rows = rows\<rparr>
                               (rp\<lparr>rp_rows_changed := saturating_add (rp_rows_changed rp) rows\<rparr>)) st
                         in if \<not> sc_write cfg then (Inr (), st)
                            else and_then_st (backup_sqlite (sc_crypto cfg) (sc_ops cfg) (sc_backup cfg) path st) (\<lambda>_ st.
                              let (res, dk) = fo_transaction (sc_ops cfg) (length (sr_log st)) (sr_disk st) path updates
                              in (res, did (Update path updates) dk st))))))"

section \<open>Directories\<close>

text \<open>What is found at a path: its metadata cannot be read, a symbolic link, a directory that
  cannot be listed or with its entries, a file, or anything else.\<close>

datatype node =
    Missing crebro_error
  | Symlink
  | Unlisted crebro_error
  | Directory "dir_entry list"
  | Regular
  | Special
and dir_entry =
    Entry_failed crebro_error
  | Entry bytes node

definition process_file :: "sanitize_config \<Rightarrow> bool \<Rightarrow> bytes \<Rightarrow> sanitize_run \<Rightarrow> sanitize_run" where
  "process_file cfg explicit path st =
     (if is_sqlite_path path then or_report path (process_sqlite cfg path st)
      else if \<not> explicit \<and> \<not> is_candidate_text_path path \<and> \<not> is_candidate_binary_path path then st
      else case read_file (sc_ops cfg) path st of
        Inl err \<Rightarrow> on_report (report_error path err) st
      | Inr bs \<Rightarrow>
          (if utf8_valid bs then process_text_file cfg path bs st else process_binary_file cfg path bs st))"

text \<open>\<^verbatim>\<open>child.is_dir()\<close> follows links; a link to a directory is not entered either way.\<close>

fun is_dir_node :: "node \<Rightarrow> bool" where
  "is_dir_node (Directory _) = True"
| "is_dir_node (Unlisted _) = True"
| "is_dir_node _ = False"

fun process_path :: "sanitize_config \<Rightarrow> bool \<Rightarrow> bytes \<Rightarrow> node \<Rightarrow> sanitize_run \<Rightarrow> sanitize_run"
and process_entries :: "sanitize_config \<Rightarrow> bytes \<Rightarrow> dir_entry list \<Rightarrow> sanitize_run \<Rightarrow> sanitize_run" where
  "process_path cfg explicit path (Missing err) st = (if explicit then on_report (report_error path err) st else st)"
| "process_path cfg explicit path Symlink st = st"
| "process_path cfg explicit path (Unlisted err) st = on_report (report_error path err) st"
| "process_path cfg explicit path (Directory entries) st = process_entries cfg path entries st"
| "process_path cfg explicit path Regular st = process_file cfg explicit path st"
| "process_path cfg explicit path Special st = st"
| "process_entries cfg path [] st = st"
| "process_entries cfg path (Entry_failed err # entries) st =
     process_entries cfg path entries (on_report (report_error path err) st)"
| "process_entries cfg path (Entry child nd # entries) st =
     process_entries cfg path entries
       (if is_dir_node nd \<and> should_skip_dir child then st else process_path cfg False child nd st)"

text \<open>The roots, each once by its normalized key.\<close>

definition normalized_path_key :: "file_ops \<Rightarrow> bytes \<Rightarrow> bytes" where
  "normalized_path_key ops path =
     from_utf8_lossy (case fo_canonical ops path of None \<Rightarrow> path | Some canonical \<Rightarrow> canonical)"

fun process_roots ::
  "sanitize_config \<Rightarrow> (bytes \<Rightarrow> node) \<Rightarrow> bytes set \<Rightarrow> (bytes \<times> bool) list \<Rightarrow> sanitize_run \<Rightarrow> sanitize_run" where
  "process_roots cfg fs seen [] st = st"
| "process_roots cfg fs seen ((start, explicit) # roots) st =
     (let key = normalized_path_key (sc_ops cfg) start
      in if key \<in> seen then process_roots cfg fs seen roots st
         else process_roots cfg fs (insert key seen) roots (process_path cfg explicit start (fs start) st))"

definition ingest_candidates ::
  "crypto \<Rightarrow> (bytes \<times> bytes) list \<Rightarrow> conversation_engine \<Rightarrow> (crebro_error + unit) \<times> conversation_engine" where
  "ingest_candidates c found = on_engine (ingest_all c found)"

definition run_backup_dir :: "sanitize_config \<Rightarrow> bytes option \<Rightarrow> nat \<Rightarrow> crebro_error + bytes option" where
  "run_backup_dir cfg home_dir now_unix =
     (if sc_write cfg then map_sum id Some (resolve_backup_dir home_dir now_unix (sc_backup cfg))
      else Inr (sc_backup cfg))"

definition run_roots :: "bytes option \<Rightarrow> sanitize_agent list \<Rightarrow> bytes list \<Rightarrow> (bytes \<times> bool) list" where
  "run_roots home_dir agents paths =
     concat (map (\<lambda>agent. map (\<lambda>p. (p, False)) (default_agent_paths home_dir agent)) agents) @
     map (\<lambda>p. (p, True)) paths"

definition run_sanitize_conversations ::
  "sanitize_config \<Rightarrow> bytes option \<Rightarrow> nat \<Rightarrow> (bytes \<Rightarrow> node) \<Rightarrow> disk \<Rightarrow> nat \<Rightarrow>
   (bytes \<times> bytes) list \<Rightarrow> file_read \<Rightarrow> sanitize_agent list \<Rightarrow> bytes list \<Rightarrow>
   crebro_error + sanitize_run" where
  "run_sanitize_conversations cfg home_dir now_unix fs dk n vars env_file agents paths =
     and_then (run_backup_dir cfg home_dir now_unix) (\<lambda>backup_dir.
       case ingest_candidates (sc_crypto cfg) (discover_env_candidates_with_patterns (sc_patterns cfg) 512 vars)
              (conversation_new (sc_crypto cfg) n) of
        (Inl err, eng) \<Rightarrow> Inl err
      | (Inr _, eng) \<Rightarrow>
          and_then (discover_dotenv_candidates_with_patterns (sc_patterns cfg) 512 env_file) (\<lambda>found.
            case ingest_candidates (sc_crypto cfg) found eng of
              (Inl err, eng) \<Rightarrow> Inl err
            | (Inr _, eng) \<Rightarrow>
                Inr (process_roots (cfg\<lparr>sc_backup := backup_dir\<rparr>) fs {}
                  (run_roots home_dir agents paths)
                  \<lparr>sr_engine = eng, sr_report = report_new, sr_disk = dk, sr_log = []\<rparr>)))"

section \<open>What a run keeps\<close>

text \<open>A property of the run that every file and every reported error keeps is kept by the whole run.\<close>

definition file_invariant :: "sanitize_config \<Rightarrow> (sanitize_run \<Rightarrow> bool) \<Rightarrow> bool" where
  "file_invariant cfg P \<longleftrightarrow>
     (\<forall>path err st. P st \<longrightarrow> P (on_report (report_error path err) st)) \<and>
     (\<forall>explicit path st. P st \<longrightarrow> P (process_file cfg explicit path st))"

lemma process_path_keeps:
  "file_invariant cfg P \<Longrightarrow> P st \<Longrightarrow> P (process_path cfg explicit path nd st)"
  "file_invariant cfg P \<Longrightarrow> P st \<Longrightarrow> P (process_entries cfg path entries st)"
  by (induction cfg explicit path nd st and cfg path entries st rule: process_path_process_entries.induct)
    (simp_all add: file_invariant_def)

lemma process_roots_keeps:
  "file_invariant cfg P \<Longrightarrow> P st \<Longrightarrow> P (process_roots cfg fs seen roots st)"
  by (induction cfg fs seen roots st rule: process_roots.induct) (simp_all add: process_path_keeps(1) Let_def)

lemma on_report_simps [simp]:
  "sr_engine (on_report f st) = sr_engine st" "sr_disk (on_report f st) = sr_disk st"
  "sr_log (on_report f st) = sr_log st" "sr_report (on_report f st) = f (sr_report st)"
  by (simp_all add: on_report_def)

lemma did_simps [simp]:
  "sr_engine (did op dk st) = sr_engine st" "sr_disk (did op dk st) = dk"
  "sr_log (did op dk st) = sr_log st @ [(op, dk)]" "sr_report (did op dk st) = sr_report st"
  by (simp_all add: did_def)

lemma report_backups [simp]:
  "rp_backups (report_error path err rp) = rp_backups rp"
  "rp_backups (report_target t rp) = rp_backups rp"
  "rp_backups (count_scanned rp) = rp_backups rp"
  "rp_backups (count_changed rp) = rp_backups rp"
  "rp_backups (report_unsupported path ids rp) = rp_backups rp"
  by (simp_all add: report_error_def report_target_def count_scanned_def count_changed_def report_unsupported_def)

subsection \<open>A dry run\<close>

definition untouched :: "disk \<Rightarrow> disk_log \<Rightarrow> (bytes \<times> bytes) list \<Rightarrow> sanitize_run \<Rightarrow> bool" where
  "untouched dk lg bks st \<longleftrightarrow> sr_disk st = dk \<and> sr_log st = lg \<and> rp_backups (sr_report st) = bks"

lemma untouched_on_report:
  "(\<And>rp. rp_backups (f rp) = rp_backups rp) \<Longrightarrow> untouched dk lg bks (on_report f st) = untouched dk lg bks st"
  by (simp add: untouched_def)

lemma untouched_engine [simp]: "untouched dk lg bks (st\<lparr>sr_engine := eng\<rparr>) = untouched dk lg bks st"
  by (simp add: untouched_def)

lemma dry_text: "\<not> sc_write cfg \<Longrightarrow> untouched dk lg bks st \<Longrightarrow> untouched dk lg bks (process_text_file cfg path tx st)"
  by (auto simp: process_text_file_def write_if_def Let_def untouched_on_report split: prod.split sum.split)

lemma dry_binary: "\<not> sc_write cfg \<Longrightarrow> untouched dk lg bks st \<Longrightarrow> untouched dk lg bks (process_binary_file cfg path bs st)"
  by (auto simp: process_binary_file_def write_if_def Let_def untouched_on_report split: prod.split sum.split)

lemma dry_sqlite:
  "\<not> sc_write cfg \<Longrightarrow> untouched dk lg bks st \<Longrightarrow> untouched dk lg bks (or_report path (process_sqlite cfg path st))"
  by (auto simp: process_sqlite_def or_report_def Let_def untouched_on_report split: prod.splits sum.splits if_splits)

lemma dry_file:
  "\<not> sc_write cfg \<Longrightarrow> untouched dk lg bks st \<Longrightarrow> untouched dk lg bks (process_file cfg explicit path st)"
  by (auto simp: process_file_def dry_text dry_binary dry_sqlite untouched_on_report split: sum.split)

lemma dry_run_roots:
  assumes "\<not> sc_write cfg" and "untouched dk lg bks st"
  shows "untouched dk lg bks (process_roots cfg fs seen roots st)"
  by (rule process_roots_keeps [where P = "untouched dk lg bks", OF _ assms(2)])
    (simp add: file_invariant_def untouched_on_report dry_file [OF assms(1)])

subsection \<open>No write without a backup\<close>

text \<open>The places an operation may change: beside a file its temporary one, beside a database the files that
  SQLite names after it.\<close>

definition database_files :: "bytes \<Rightarrow> location set" where
  "database_files path = location ` {path, path @ ''-wal'', path @ ''-shm'', path @ ''-journal''}"

definition written_to :: "nat \<Rightarrow> disk_op \<Rightarrow> location set" where
  "written_to pid op =
     (case op of
        Backup src dst \<Rightarrow> {location dst}
      | Replace path \<Rightarrow> {location path, location (temporary_path pid path)}
      | Temporary path \<Rightarrow> {location (temporary_path pid path)}
      | Update path updates \<Rightarrow> database_files path)"

definition rewritten :: "disk_op \<Rightarrow> bytes option" where
  "rewritten op = (case op of Replace path \<Rightarrow> Some path | Update path updates \<Rightarrow> Some path | _ \<Rightarrow> None)"

text \<open>A step from \<open>dk\<close> to \<open>dk'\<close>: a file is rewritten only when a reported backup of it holds its
  contents, and the backup is left as it is, unless it is the file itself. Nothing else is touched.\<close>

definition step_ok :: "nat \<Rightarrow> (bytes \<times> bytes) list \<Rightarrow> disk_op \<Rightarrow> disk \<Rightarrow> disk \<Rightarrow> bool" where
  "step_ok pid backups op dk dk' \<longleftrightarrow>
     (\<forall>path. rewritten op = Some path \<longrightarrow>
        dk (location path) \<noteq> None \<and>
        (\<exists>backup. (path, backup) \<in> set backups \<and> dk (location backup) = dk (location path) \<and>
           (location backup \<noteq> location path \<longrightarrow> dk' (location backup) = dk (location path)))) \<and>
     (\<forall>l. l \<notin> written_to pid op \<longrightarrow> dk' l = dk l)"

fun log_ok :: "nat \<Rightarrow> (bytes \<times> bytes) list \<Rightarrow> disk \<Rightarrow> disk_log \<Rightarrow> bool" where
  "log_ok pid backups dk [] = True"
| "log_ok pid backups dk ((op, dk') # lg) = (step_ok pid backups op dk dk' \<and> log_ok pid backups dk' lg)"

fun disk_after :: "disk \<Rightarrow> disk_log \<Rightarrow> disk" where
  "disk_after dk [] = dk"
| "disk_after dk ((op, dk') # lg) = disk_after dk' lg"

lemma disk_after_snoc [simp]: "disk_after dk (lg @ [(op, dk')]) = dk'"
  by (induction dk lg rule: disk_after.induct) simp_all

lemma log_ok_snoc [simp]:
  "log_ok pid bks dk (lg @ [(op, dk')]) \<longleftrightarrow> log_ok pid bks dk lg \<and> step_ok pid bks op (disk_after dk lg) dk'"
  by (induction pid bks dk lg rule: log_ok.induct) simp_all

lemma step_ok_mono: "step_ok pid bks op dk dk' \<Longrightarrow> set bks \<subseteq> set bks' \<Longrightarrow> step_ok pid bks' op dk dk'"
  unfolding step_ok_def by (meson subsetD)

lemma step_ok_untouched: "step_ok pid bks op dk dk' \<Longrightarrow> l \<notin> written_to pid op \<Longrightarrow> dk' l = dk l"
  unfolding step_ok_def by blast

lemma log_ok_mono: "log_ok pid bks dk lg \<Longrightarrow> set bks \<subseteq> set bks' \<Longrightarrow> log_ok pid bks' dk lg"
  by (induction pid bks dk lg rule: log_ok.induct) (auto intro: step_ok_mono)

lemma log_ok_untouched:
  "log_ok pid bks dk lg \<Longrightarrow> \<forall>(op, dk') \<in> set lg. l \<notin> written_to pid op \<Longrightarrow> disk_after dk lg l = dk l"
  by (induction pid bks dk lg rule: log_ok.induct) (auto dest: step_ok_untouched)

text \<open>The backup is named as the file, so it is no file beside it.\<close>

definition backup_name :: "bytes \<Rightarrow> bytes" where
  "backup_name path = (case path_file_name path of None \<Rightarrow> ''file'' | Some name \<Rightarrow> name)"

lemma backup_components:
  "\<exists>cs. path_components (backup_path c ops dir path) = cs @ [backup_name path]"
proof -
  have "name \<noteq> [] \<and> name \<noteq> ''.''" if "path_file_name path = Some name" for name
    using last_in_set [of "path_components path"] file_name_component [OF that] by (auto simp: path_components_def)
  then have "CHR ''/'' \<notin> set (backup_name path)" "backup_name path \<noteq> []" "backup_name path \<noteq> ''.''"
    using file_name_chars [of path] by (auto simp: backup_name_def split: option.split)
  from path_components_join [OF this, of "path_join dir (path_digest c ops path)"] show ?thesis
    by (auto simp: backup_path_def path_joins_def backup_name_def)
qed

lemma backup_elsewhere:
  assumes "path_components other = cs @ [name]" and "name \<noteq> backup_name path"
  shows "location (backup_path c ops dir path) \<noteq> location other"
  using backup_components [of c ops dir path] assms by (auto simp: location_def)

lemma backup_not_temporary: "location (backup_path c ops dir path) \<noteq> location (temporary_path pid path)"
proof (rule backup_elsewhere [OF temporary_components])
  show "temporary_name pid path \<noteq> backup_name path"
  proof (cases "path_file_name path")
    case None
    then show ?thesis
      by (simp add: backup_name_def temporary_name_def)
  next
    case (Some name)
    then show ?thesis
      using temporary_name_longer [OF Some, of pid] by (auto simp: backup_name_def)
  qed
qed

lemma sidecar_elsewhere:
  assumes "sfx \<in> {''-wal'', ''-shm'', ''-journal''}" and "is_sqlite_path path"
  shows "location (backup_path c ops dir path) \<noteq> location (path @ sfx)"
    "location (backup_path c ops dir (path @ sfx)) \<noteq> location path"
    "location (backup_path c ops dir (path @ sfx)) \<noteq> location (backup_path c ops' dir' path)"
proof -
  obtain n n' where n: "path_file_name path = Some n" "path_file_name (path @ sfx) = Some n'" "n' \<noteq> n"
    using sidecar_name [OF assms] by blast
  have comps: "\<exists>cs. path_components p = cs @ [m]" if "path_file_name p = Some m" for p m
    using file_name_component [OF that] by (metis append_butlast_last_id)
  have names: "backup_name path = n" "backup_name (path @ sfx) = n'"
    using n by (simp_all add: backup_name_def)
  show "location (backup_path c ops dir path) \<noteq> location (path @ sfx)"
    using comps [OF n(2)] backup_elsewhere names n(3) by metis
  show "location (backup_path c ops dir (path @ sfx)) \<noteq> location path"
    using comps [OF n(1)] backup_elsewhere names n(3) by metis
  show "location (backup_path c ops dir (path @ sfx)) \<noteq> location (backup_path c ops' dir' path)"
    using backup_components [of c ops' dir' path] backup_elsewhere names n(3) by metis
qed

text \<open>What SQLite does to the disk: a transaction on a database stays within its files.\<close>

definition transactions_local :: "file_ops \<Rightarrow> bool" where
  "transactions_local ops \<longleftrightarrow>
     (\<forall>n dk path updates l. l \<notin> database_files path \<longrightarrow> snd (fo_transaction ops n dk path updates) l = dk l)"

definition run_ok :: "nat \<Rightarrow> disk \<Rightarrow> sanitize_run \<Rightarrow> bool" where
  "run_ok pid dk st \<longleftrightarrow>
     log_ok pid (rp_backups (sr_report st)) dk (sr_log st) \<and> sr_disk st = disk_after dk (sr_log st)"

lemma run_ok_on_report:
  "(\<And>rp. rp_backups (f rp) = rp_backups rp) \<Longrightarrow> run_ok pid dk (on_report f st) = run_ok pid dk st"
  by (simp add: run_ok_def)

lemma run_ok_engine [simp]: "run_ok pid dk (st\<lparr>sr_engine := eng\<rparr>) = run_ok pid dk st"
  by (simp add: run_ok_def)

lemma run_ok_did:
  "run_ok pid dk st \<Longrightarrow> step_ok pid (rp_backups (sr_report st)) op (sr_disk st) dk' \<Longrightarrow> run_ok pid dk (did op dk' st)"
  by (simp add: run_ok_def)

lemma run_ok_backup:
  "run_ok pid dk st \<Longrightarrow> run_ok pid dk (on_report (\<lambda>rp. rp\<lparr>rp_backups := rp_backups rp @ [bk]\<rparr>) st)"
  by (auto simp: run_ok_def intro: log_ok_mono)

definition has_backup :: "bytes \<Rightarrow> bytes \<Rightarrow> sanitize_run \<Rightarrow> bool" where
  "has_backup path backup st \<longleftrightarrow>
     (path, backup) \<in> set (rp_backups (sr_report st)) \<and>
     sr_disk st (location path) \<noteq> None \<and> sr_disk st (location backup) = sr_disk st (location path)"

lemma copy_file_elsewhere: "copy_file ans src dst dk = (res, dk') \<Longrightarrow> l \<noteq> location dst \<Longrightarrow> dk' l = dk l"
  by (auto simp: copy_file_def split: option.splits write_answer.splits)

lemma copy_file_done:
  assumes "copy_file ans src dst dk = (Inr u, dk')"
  shows "dk' (location src) \<noteq> None \<and> dk' (location dst) = dk' (location src)"
  using assms by (auto simp: copy_file_def split: option.splits write_answer.splits)

lemma backup_file_ok:
  assumes "run_ok pid dk st" and "backup_file c ops (Some dir) path st = (res, st')"
  shows "run_ok pid dk st'" "res = Inr u \<Longrightarrow> has_backup path (backup_path c ops dir path) st'"
    "l \<noteq> location (backup_path c ops dir path) \<Longrightarrow> sr_disk st' l = sr_disk st l"
    "set (rp_backups (sr_report st)) \<subseteq> set (rp_backups (sr_report st'))"
proof -
  let ?dst = "backup_path c ops dir path"
  obtain res1 dk1 where copied: "copy_file (fo_copy ops (length (sr_log st)) path ?dst) path ?dst (sr_disk st) = (res1, dk1)"
    by (cases "copy_file (fo_copy ops (length (sr_log st)) path ?dst) path ?dst (sr_disk st)")
  have "run_ok pid dk (did (Backup path ?dst) dk1 st)"
    by (rule run_ok_did [OF assms(1)])
      (use copy_file_elsewhere [OF copied] in \<open>simp add: step_ok_def written_to_def rewritten_def\<close>)
  note kept = this run_ok_backup [OF this, of "(path, ?dst)"]
  show "run_ok pid dk st'"
    using assms(2) copied kept by (cases res1) (auto simp: backup_file_def Let_def)
  show "has_backup path ?dst st'" if "res = Inr u"
    using that assms(2) copied copy_file_done [of _ path ?dst "sr_disk st" _ dk1]
    by (cases res1) (auto simp: backup_file_def Let_def has_backup_def)
  show "sr_disk st' l = sr_disk st l" if "l \<noteq> location ?dst"
    using assms(2) copied copy_file_elsewhere [OF copied that] by (cases res1) (auto simp: backup_file_def Let_def)
  show "set (rp_backups (sr_report st)) \<subseteq> set (rp_backups (sr_report st'))"
    using assms(2) copied by (cases res1) (auto simp: backup_file_def Let_def)
qed

lemma backup_and_write_ok:
  assumes "run_ok (fo_pid ops) dk st"
  shows "run_ok (fo_pid ops) dk (snd (backup_and_write_file c ops (Some dir) path bs st))"
proof -
  obtain res st1 where b: "backup_file c ops (Some dir) path st = (res, st1)"
    by (cases "backup_file c ops (Some dir) path st")
  note one = backup_file_ok [OF assms b]
  show ?thesis
  proof (cases res)
    case (Inr u)
    let ?n = "length (sr_log st1)" and ?tmp = "location (temporary_path (fo_pid ops) path)"
    obtain ans states where w: "write_file_atomic (fo_write ops ?n path) (fo_rename ops ?n path) (fo_pid ops) path bs (sr_disk st1) = (ans, states)"
      by (cases "write_file_atomic (fo_write ops ?n path) (fo_rename ops ?n path) (fo_pid ops) path bs (sr_disk st1)")
    note at_end = write_file_atomic_last [OF w]
    have "step_ok (fo_pid ops) (rp_backups (sr_report st1))
        (case ans of Inl _ \<Rightarrow> Temporary path | Inr _ \<Rightarrow> Replace path) (sr_disk st1) (last states)"
    proof (cases ans)
      case (Inl err)
      then show ?thesis
        using at_end by (simp add: step_ok_def written_to_def rewritten_def)
    next
      case Inr
      then show ?thesis
        using at_end one(2) [OF \<open>res = Inr u\<close>] backup_not_temporary [of c ops dir path "fo_pid ops"]
        by (fastforce simp: step_ok_def written_to_def rewritten_def has_backup_def)
    qed
    then show ?thesis
      using b w Inr run_ok_did [OF one(1)] by (cases ans) (simp_all add: backup_and_write_file_def Let_def)
  qed (use b one(1) in \<open>simp add: backup_and_write_file_def\<close>)
qed

lemma or_report_ok: "run_ok pid dk (snd res) \<Longrightarrow> run_ok pid dk (or_report path res)"
  by (auto simp: or_report_def run_ok_on_report split: prod.splits sum.splits)

lemma write_if_ok:
  "sc_backup cfg = Some dir \<Longrightarrow> run_ok (fo_pid (sc_ops cfg)) dk st \<Longrightarrow> run_ok (fo_pid (sc_ops cfg)) dk (write_if cfg path bs st)"
  by (simp add: write_if_def or_report_ok backup_and_write_ok)

lemma text_ok:
  "sc_backup cfg = Some dir \<Longrightarrow> run_ok (fo_pid (sc_ops cfg)) dk st \<Longrightarrow>
   run_ok (fo_pid (sc_ops cfg)) dk (process_text_file cfg path tx st)"
  by (auto simp: process_text_file_def Let_def run_ok_on_report write_if_ok split: prod.split sum.split)

lemma binary_ok:
  "sc_backup cfg = Some dir \<Longrightarrow> run_ok (fo_pid (sc_ops cfg)) dk st \<Longrightarrow>
   run_ok (fo_pid (sc_ops cfg)) dk (process_binary_file cfg path bs st)"
  by (auto simp: process_binary_file_def Let_def run_ok_on_report write_if_ok split: prod.split sum.split)

lemma sidecars_ok:
  assumes "is_sqlite_path path" and "set sidecars \<subseteq> {path @ ''-wal'', path @ ''-shm''}"
    and "run_ok pid dk st" and "has_backup path (backup_path c ops dir path) st"
  shows "run_ok pid dk (snd (backup_sidecars c ops (Some dir) sidecars st)) \<and>
    has_backup path (backup_path c ops dir path) (snd (backup_sidecars c ops (Some dir) sidecars st))"
  using assms(2-)
proof (induction sidecars arbitrary: st)
  case (Cons a sidecars)
  obtain res st1 where b: "backup_file c ops (Some dir) a st = (res, st1)"
    by (cases "backup_file c ops (Some dir) a st")
  note one = backup_file_ok [OF Cons.prems(2) b]
  obtain sfx where "a = path @ sfx" "sfx \<in> {''-wal'', ''-shm'', ''-journal''}"
    using Cons.prems(1) by auto
  then have away: "location path \<noteq> location (backup_path c ops dir a)"
      "location (backup_path c ops dir path) \<noteq> location (backup_path c ops dir a)"
    using sidecar_elsewhere(2,3) [OF _ assms(1)] by metis+
  have "has_backup path (backup_path c ops dir path) st1"
    using Cons.prems(3) one(3) [OF away(1)] one(3) [OF away(2)] one(4)
    by (auto simp: has_backup_def)
  then show ?case
    using b Cons.IH [of st1] Cons.IH [of st] Cons.prems one(1) by (cases res) auto
qed simp

lemma update_ok:
  assumes "is_sqlite_path path" and "has_backup path (backup_path c ops dir path) st"
    and "\<And>l. l \<notin> database_files path \<Longrightarrow> dk' l = sr_disk st l"
  shows "step_ok pid (rp_backups (sr_report st)) (Update path updates) (sr_disk st) dk'"
proof -
  let ?b = "location (backup_path c ops dir path)"
  have "?b \<notin> database_files path" if "?b \<noteq> location path"
    using that sidecar_elsewhere(1) [OF _ assms(1), of "''-wal''"] sidecar_elsewhere(1) [OF _ assms(1), of "''-shm''"]
      sidecar_elsewhere(1) [OF _ assms(1), of "''-journal''"]
    by (simp add: database_files_def)
  then have "?b \<noteq> location path \<longrightarrow> dk' ?b = sr_disk st (location path)"
    using assms(2,3) by (simp add: has_backup_def)
  then show ?thesis
    unfolding step_ok_def written_to_def rewritten_def
    using assms(2,3) by (auto simp: has_backup_def simp del: split_paired_All split_paired_Ex)
qed

lemma sqlite_ok:
  assumes "sc_backup cfg = Some dir" and "transactions_local (sc_ops cfg)" and "is_sqlite_path path"
    and "run_ok (fo_pid (sc_ops cfg)) dk st"
  shows "run_ok (fo_pid (sc_ops cfg)) dk (snd (process_sqlite cfg path st))"
proof -
  let ?ops = "sc_ops cfg" and ?c = "sc_crypto cfg" and ?sides = "[path @ ''-wal'', path @ ''-shm'']"
  have tail: "run_ok (fo_pid ?ops) dk (snd (and_then_st (backup_sqlite ?c ?ops (Some dir) path st1) (\<lambda>_ st.
      let (res, dk) = fo_transaction ?ops (length (sr_log st)) (sr_disk st) path updates
      in (res, did (Update path updates) dk st))))"
    if st1: "run_ok (fo_pid ?ops) dk st1" for st1 updates
  proof -
    obtain res st2 where b: "backup_file ?c ?ops (Some dir) path st1 = (res, st2)"
      by (cases "backup_file ?c ?ops (Some dir) path st1")
    note one = backup_file_ok [OF st1 b]
    show ?thesis
    proof (cases res)
      case (Inr u)
      obtain res3 st3 where s: "backup_sidecars ?c ?ops (Some dir) ?sides st2 = (res3, st3)"
        by (cases "backup_sidecars ?c ?ops (Some dir) ?sides st2")
      have two: "run_ok (fo_pid ?ops) dk st3" "has_backup path (backup_path ?c ?ops dir path) st3"
        using sidecars_ok [OF assms(3) _ one(1) one(2) [OF Inr], of ?sides] s by auto
      obtain res4 dk4 where t: "fo_transaction ?ops (length (sr_log st3)) (sr_disk st3) path updates = (res4, dk4)"
        by (cases "fo_transaction ?ops (length (sr_log st3)) (sr_disk st3) path updates")
      have "dk4 l = sr_disk st3 l" if "l \<notin> database_files path" for l
        using assms(2) that t unfolding transactions_local_def by (metis snd_conv)
      then have "run_ok (fo_pid ?ops) dk (did (Update path updates) dk4 st3)"
        by (intro run_ok_did [OF two(1)] update_ok [OF assms(3) two(2)])
      then show ?thesis
        using Inr b s t two(1)
        by (cases res3) (simp_all add: backup_sqlite_def Let_def del: backup_sidecars.simps)
    qed (use b one(1) in \<open>simp add: backup_sqlite_def\<close>)
  qed
  show ?thesis
    unfolding process_sqlite_def
    by (auto simp: Let_def [where 'a = sanitize_run] Let_def [where 'a = u64] run_ok_on_report report_target_def assms
        intro!: tail [unfolded Let_def] split: prod.split sum.split)
qed

lemma file_ok:
  assumes "sc_backup cfg = Some dir" and "transactions_local (sc_ops cfg)" and "run_ok (fo_pid (sc_ops cfg)) dk st"
  shows "run_ok (fo_pid (sc_ops cfg)) dk (process_file cfg explicit path st)"
  using assms by (auto simp: process_file_def text_ok binary_ok sqlite_ok or_report_ok run_ok_on_report split: sum.split)

lemma roots_ok:
  assumes "sc_backup cfg = Some dir" and "transactions_local (sc_ops cfg)" and "run_ok (fo_pid (sc_ops cfg)) dk st"
  shows "run_ok (fo_pid (sc_ops cfg)) dk (process_roots cfg fs seen roots st)"
  by (rule process_roots_keeps [where P = "run_ok (fo_pid (sc_ops cfg)) dk", OF _ assms(3)])
    (simp add: file_invariant_def run_ok_on_report file_ok [OF assms(1,2)])

subsection \<open>The whole run\<close>

lemma run_backup_dir_write: "run_backup_dir cfg home_dir now_unix = Inr backup_dir \<Longrightarrow> sc_write cfg \<Longrightarrow> backup_dir \<noteq> None"
  by (cases "resolve_backup_dir home_dir now_unix (sc_backup cfg)") (auto simp: run_backup_dir_def)

lemma run_sanitize_conversations_roots:
  assumes "run_sanitize_conversations cfg home_dir now_unix fs dk n vars env_file agents paths = Inr st"
  shows "\<exists>backup_dir eng roots. (sc_write cfg \<longrightarrow> backup_dir \<noteq> None) \<and>
    st = process_roots (cfg\<lparr>sc_backup := backup_dir\<rparr>) fs {} roots
      \<lparr>sr_engine = eng, sr_report = report_new, sr_disk = dk, sr_log = []\<rparr>"
proof -
  obtain backup_dir where dir: "run_backup_dir cfg home_dir now_unix = Inr backup_dir"
    using assms by (cases "run_backup_dir cfg home_dir now_unix") (auto simp: run_sanitize_conversations_def)
  obtain eng where "st = process_roots (cfg\<lparr>sc_backup := backup_dir\<rparr>) fs {} (run_roots home_dir agents paths)
      \<lparr>sr_engine = eng, sr_report = report_new, sr_disk = dk, sr_log = []\<rparr>"
    using assms dir by (auto simp: run_sanitize_conversations_def and_then_def split: sum.splits prod.splits)
  then show ?thesis
    using run_backup_dir_write [OF dir] by blast
qed

lemma run_writes_ok:
  assumes "run_sanitize_conversations cfg home_dir now_unix fs dk n vars env_file agents paths = Inr st"
    and "transactions_local (sc_ops cfg)" and "sc_write cfg"
  shows "run_ok (fo_pid (sc_ops cfg)) dk st"
proof -
  obtain dir eng roots where
    st: "st = process_roots (cfg\<lparr>sc_backup := Some dir\<rparr>) fs {} roots
      \<lparr>sr_engine = eng, sr_report = report_new, sr_disk = dk, sr_log = []\<rparr>"
    using run_sanitize_conversations_roots [OF assms(1)] assms(3) by auto
  show ?thesis
    using roots_ok [of "cfg\<lparr>sc_backup := Some dir\<rparr>" dir dk
        "\<lparr>sr_engine = eng, sr_report = report_new, sr_disk = dk, sr_log = []\<rparr>" fs "{}" roots] assms(2)
    by (simp add: st run_ok_def)
qed

lemma run_dry:
  assumes "run_sanitize_conversations cfg home_dir now_unix fs dk n vars env_file agents paths = Inr st"
    and "\<not> sc_write cfg"
  shows "sr_disk st = dk \<and> sr_log st = [] \<and> rp_backups (sr_report st) = []"
proof -
  obtain backup_dir eng roots where
    st: "st = process_roots (cfg\<lparr>sc_backup := backup_dir\<rparr>) fs {} roots
      \<lparr>sr_engine = eng, sr_report = report_new, sr_disk = dk, sr_log = []\<rparr>"
    using run_sanitize_conversations_roots [OF assms(1)] by blast
  have "untouched dk [] [] st"
    unfolding st by (rule dry_run_roots) (use assms(2) in \<open>simp_all add: untouched_def report_new_def\<close>)
  then show ?thesis
    by (simp add: untouched_def)
qed

end
