(* ===== verification/Cli.thy ===== *)
theory Cli
  imports Conversation_Files Child_Env
begin

text \<open>
  The command line (\<^verbatim>\<open>src/cli.rs\<close>): which command is run, with which patterns, what it prints and
  the exit code. The parser of the arguments (clap), the file system and starting the proxy and the
  child are parameters.
\<close>

section \<open>Commands\<close>

datatype command_kind =
    Detect_pattern "bytes list"
  | Sanitize_conversations "bytes list"
  | Wrapper "bytes list"

definition subcommand_args :: "bytes list \<Rightarrow> bytes \<Rightarrow> bytes list" where
  "subcommand_args args command_name = command_name # drop 2 args"

definition dispatch_args :: "bytes list \<Rightarrow> command_kind" where
  "dispatch_args args =
     (if 1 < length args \<and> args ! 1 = ''detect-pattern''
      then Detect_pattern (subcommand_args args ''crebro detect-pattern'')
      else if 1 < length args \<and> args ! 1 = ''sanitize-conversations''
      then Sanitize_conversations (subcommand_args args ''crebro sanitize-conversations'')
      else Wrapper args)"

record pattern_source =
  ps_builtin :: pattern_set
  ps_read_file :: "bytes \<Rightarrow> crebro_error + bytes"
  ps_toml :: "bytes \<Rightarrow> raw_pattern_file option"
  ps_regex :: "bytes \<Rightarrow> regex option"

definition load_credential_patterns :: "pattern_source \<Rightarrow> bytes option \<Rightarrow> crebro_error + pattern_set" where
  "load_credential_patterns src path =
     (case path of
        None \<Rightarrow> Inr (ps_builtin src)
      | Some p \<Rightarrow>
          and_then (ps_read_file src p) (\<lambda>tx.
            if \<not> utf8_valid tx then Inl Io else patterns_from_toml (ps_toml src) (ps_regex src) tx))"

section \<open>Detecting patterns\<close>

record detect_pattern_report =
  dr_matched :: bool
  dr_matches :: "auto_redact_match list"

definition detect_pattern_report_of :: "pattern_set \<Rightarrow> bytes \<Rightarrow> detect_pattern_report" where
  "detect_pattern_report_of ps tx =
     (let matches = auto_redact_matches ps tx in \<lparr>dr_matched = (matches \<noteq> []), dr_matches = matches\<rparr>)"

definition format_detect_pattern_human :: "detect_pattern_report \<Rightarrow> bytes" where
  "format_detect_pattern_human report =
     (if dr_matches report = [] then ''no credential pattern match''
      else ''matched '' @ print_radix 10 (length (dr_matches report)) @ '' credential pattern(s): '' @
           str_join '', '' (map am_pattern (dr_matches report)))"

record detect_cli =
  dc_patterns_file :: "bytes option"
  dc_json :: bool
  dc_quiet :: bool
  dc_text :: bytes

text \<open>What is printed, if anything, and the exit code; \<open>pretty\<close> is \<^verbatim>\<open>serde_json::to_string_pretty\<close>.\<close>

definition run_with_detect_pattern_cli ::
  "pattern_source \<Rightarrow> (detect_pattern_report \<Rightarrow> crebro_error + bytes) \<Rightarrow> detect_cli \<Rightarrow>
   crebro_error + bytes option \<times> int" where
  "run_with_detect_pattern_cli src pretty cli =
     and_then (load_credential_patterns src (dc_patterns_file cli)) (\<lambda>ps.
       let report = detect_pattern_report_of ps (dc_text cli);
           code = (if dr_matched report then 0 else 1)
       in if dc_json cli then and_then (pretty report) (\<lambda>out. Inr (Some out, code))
          else if dc_quiet cli then Inr (None, code)
          else Inr (Some (format_detect_pattern_human report), code))"

section \<open>Cleaning stored conversations\<close>

datatype sanitize_agent_arg = All_agents | Agent sanitize_agent

fun agent_of_arg :: "sanitize_agent_arg \<Rightarrow> sanitize_agent list" where
  "agent_of_arg (Agent a) = [a]"
| "agent_of_arg All_agents = []"

definition sanitize_agents :: "sanitize_agent_arg list \<Rightarrow> sanitize_agent list" where
  "sanitize_agents args =
     (if All_agents \<in> set args then [Codex, Claude, Gemini, Opencode]
      else concat (map agent_of_arg args))"

definition sanitize_exit_code :: "sanitize_report \<Rightarrow> int" where
  "sanitize_exit_code report = (if rp_errors report = [] then 0 else 1)"

definition sanitize_summary :: "bool \<Rightarrow> sanitize_report \<Rightarrow> bytes list" where
  "sanitize_summary write' report =
     [''scanned '' @ print_radix 10 (unat (rp_files_scanned report)) @ '' files and '' @
      print_radix 10 (unat (rp_databases_scanned report)) @ '' sqlite databases; '' @
      print_radix 10 (unat (rp_files_changed report)) @ '' files changed, '' @
      print_radix 10 (unat (rp_rows_changed report)) @ '' sqlite rows changed; '' @
      print_radix 10 (unat (rp_redactions report)) @ '' redactions'' @ (if write' then [] else '' (dry run)'')] @
     (if rp_findings report = [] then []
      else [''reported '' @ print_radix 10 (length (rp_findings report)) @
            '' unregistered credential-like pattern matches'']) @
     (if rp_errors report = [] then []
      else [''reported '' @ print_radix 10 (length (rp_errors report)) @ '' non-fatal errors''])"

record sanitize_cli =
  sl_write :: bool
  sl_agents :: "sanitize_agent_arg list"
  sl_paths :: "bytes list"
  sl_env_file :: bytes
  sl_patterns_file :: "bytes option"
  sl_backup_dir :: "bytes option"
  sl_json :: bool
  sl_strict :: bool

text \<open>What the command is given by its surroundings: the file system with its operations, the variables, the clock,
  random numbers. \<open>yw_pretty\<close> is \<^verbatim>\<open>serde_json::to_string_pretty\<close>.\<close>

record sanitize_world =
  yw_crypto :: crypto
  yw_rand :: "nat \<Rightarrow> nat"
  yw_patterns :: pattern_source
  yw_ops :: file_ops
  yw_keys :: nat
  yw_home_dir :: "bytes option"
  yw_now_unix :: nat
  yw_fs :: "bytes \<Rightarrow> node"
  yw_disk :: disk
  yw_vars :: "(bytes \<times> bytes) list"
  yw_env_file :: "bytes \<Rightarrow> file_read"
  yw_pretty :: "sanitize_report \<Rightarrow> crebro_error + bytes"

definition sanitize_config_of :: "sanitize_world \<Rightarrow> sanitize_cli \<Rightarrow> pattern_set \<Rightarrow> sanitize_config" where
  "sanitize_config_of w cli ps =
     \<lparr>sc_crypto = yw_crypto w, sc_rand = yw_rand w, sc_patterns = ps, sc_ops = yw_ops w,
      sc_write = sl_write cli, sc_backup = sl_backup_dir cli, sc_strict = sl_strict cli\<rparr>"

text \<open>What was run, the lines that are printed and the exit code.\<close>

definition run_with_sanitize_cli ::
  "sanitize_world \<Rightarrow> sanitize_cli \<Rightarrow> crebro_error + sanitize_run \<times> bytes list \<times> int" where
  "run_with_sanitize_cli w cli =
     and_then (load_credential_patterns (yw_patterns w) (sl_patterns_file cli)) (\<lambda>ps.
     and_then (run_sanitize_conversations (sanitize_config_of w cli ps) (yw_home_dir w) (yw_now_unix w)
                 (yw_fs w) (yw_disk w) (yw_keys w) (yw_vars w) (yw_env_file w (sl_env_file cli))
                 (sanitize_agents (sl_agents cli)) (sl_paths cli)) (\<lambda>st.
     and_then (if sl_json cli then and_then (yw_pretty w (sr_report st)) (\<lambda>out. Inr [out])
               else Inr (sanitize_summary (sl_write cli) (sr_report st))) (\<lambda>printed.
       Inr (st, printed, sanitize_exit_code (sr_report st)))))"

section \<open>Wrapping a child process\<close>

text \<open>
  The registry the proxy starts with: the credentials of the environment, then the ones of the
  dotenv file, which is read after the first ones were registered.
\<close>

definition initial_registry ::
  "crypto \<Rightarrow> pattern_set \<Rightarrow> nat \<Rightarrow> (bytes \<times> bytes) list \<Rightarrow> file_read \<Rightarrow> crebro_error + registry" where
  "initial_registry c ps n vars env_file =
     (case ingest_all c (discover_env_candidates_with_patterns ps 512 vars) (with_generated_keys c n) of
        (Inl err, r) \<Rightarrow> Inl err
      | (Inr _, r) \<Rightarrow>
          and_then (discover_dotenv_candidates_with_patterns ps 512 env_file) (\<lambda>found.
            case ingest_all c found r of
              (Inl err, r) \<Rightarrow> Inl err
            | (Inr _, r) \<Rightarrow> Inr r))"

text \<open>
  Running the wrapper ends with an exit code or an error, or it panics: \<^verbatim>\<open>std::env::vars\<close> does so
  when a variable is not UTF-8.
\<close>

datatype wrapper_result = Panicked | Returned "crebro_error + int"

record wrapper_world =
  ww_crypto :: crypto
  ww_patterns :: pattern_source
  ww_keys :: nat
  ww_vars :: "(bytes \<times> bytes) list"
  ww_env_file :: file_read
  ww_proxy :: "registry \<Rightarrow> pattern_set \<Rightarrow> crebro_error + proxy_child_env_config"
  ww_child :: "bytes \<times> bytes list \<times> (bytes \<rightharpoonup> bytes) \<Rightarrow> crebro_error + int option"

definition child_exit_code :: "int option \<Rightarrow> int" where
  "child_exit_code status = (case status of Some code \<Rightarrow> code | None \<Rightarrow> 1)"

definition run_with_cli :: "wrapper_world \<Rightarrow> bytes option \<Rightarrow> bytes list \<Rightarrow> wrapper_result" where
  "run_with_cli w patterns_file command =
     (case load_credential_patterns (ww_patterns w) patterns_file of
        Inl err \<Rightarrow> Returned (Inl err)
      | Inr ps \<Rightarrow>
          (case initial_registry (ww_crypto w) ps (ww_keys w) (ww_vars w) (ww_env_file w) of
             Inl err \<Rightarrow> Returned (Inl err)
           | Inr r \<Rightarrow>
               (case ww_proxy w r ps of
                  Inl err \<Rightarrow> Returned (Inl err)
                | Inr config \<Rightarrow>
                    (if \<not> list_all (\<lambda>(k, v). utf8_valid k \<and> utf8_valid v) (ww_vars w) then Panicked
                     else Returned
                       (and_then (build_child_command_with_env command (proxy_child_environment (ww_vars w) config))
                         (\<lambda>cmd. and_then (ww_child w cmd) (\<lambda>status. Inr (child_exit_code status))))))))"

text \<open>The exit code of the program (\<^verbatim>\<open>src/main.rs\<close>): an error is logged and ends with 1; a panic of the main task
  ends with the runtime's own code, 101.\<close>

definition main_exit_code :: "wrapper_result \<Rightarrow> int" where
  "main_exit_code res =
     (case res of Panicked \<Rightarrow> 101 | Returned (Inl err) \<Rightarrow> 1 | Returned (Inr code) \<Rightarrow> code)"

section \<open>What the commands do\<close>

lemma sort_key_nonempty: "sort_key f xs = [] \<longleftrightarrow> xs = []"
  by (metis set_empty set_sort)

lemma keep_disjoint_nonempty: "xs \<noteq> [] \<Longrightarrow> keep_disjoint ov [] xs \<noteq> []"
proof -
  assume "xs \<noteq> []"
  then obtain x ys where "xs = x # ys"
    by (cases xs) auto
  then have "x \<in> set (keep_disjoint ov [] xs)"
    using keep_disjoint_mono [of "[x]" ov ys] by simp
  then show ?thesis by auto
qed

lemma select_matches_nonempty: "select_longest_non_overlapping_matches ms = [] \<longleftrightarrow> ms = []"
proof (cases "ms = []")
  case False
  then have "keep_disjoint match_overlaps []
      (sort_key (\<lambda>m. (- int (am_end m - am_start m), am_start m, am_end m)) ms) \<noteq> []"
    by (intro keep_disjoint_nonempty) (simp add: sort_key_nonempty)
  then show ?thesis
    using False by (simp add: select_longest_non_overlapping_matches_def Let_def sort_key_nonempty)
qed (simp add: select_longest_non_overlapping_matches_def)

text \<open>The exit code is 0 just when some pattern matches the text.\<close>

lemma detect_exit_code:
  assumes "run_with_detect_pattern_cli src pretty cli = Inr (out, code)"
  shows "\<exists>ps. load_credential_patterns src (dc_patterns_file cli) = Inr ps \<and>
    (code = 0 \<longleftrightarrow> (\<exists>p \<in> set (ps_patterns ps). cp_regex p (dc_text cli) \<noteq> []))"
proof -
  obtain ps where ps: "load_credential_patterns src (dc_patterns_file cli) = Inr ps"
    using assms by (cases "load_credential_patterns src (dc_patterns_file cli)")
      (auto simp: run_with_detect_pattern_cli_def)
  define report where "report = detect_pattern_report_of ps (dc_text cli)"
  have "code = (if dr_matched report then 0 else 1)"
    using assms by (auto simp: run_with_detect_pattern_cli_def ps Let_def report_def and_then_eq_Inr split: if_splits)
  moreover have "dr_matched report \<longleftrightarrow> (\<exists>p \<in> set (ps_patterns ps). cp_regex p (dc_text cli) \<noteq> [])"
    by (simp add: report_def detect_pattern_report_of_def Let_def auto_redact_matches_def select_matches_nonempty)
  ultimately show ?thesis
    using ps by simp
qed

lemma agents_all: "set (sanitize_agents args) = (if All_agents \<in> set args then UNIV else {a. Agent a \<in> set args})"
proof -
  have "a \<in> {Codex, Claude, Gemini, Opencode}" for a
    by (cases a) simp_all
  moreover have "set (concat (map agent_of_arg args)) = {a. Agent a \<in> set args}"
  proof (induction args)
    case (Cons arg args)
    then show ?case by (cases arg) auto
  qed simp
  ultimately show ?thesis
    by (auto simp: sanitize_agents_def)
qed

end
