(* ===== verification/Gateway.thy ===== *)
theory Gateway
  imports Byte_Source Restore Json_Stream Stats
begin

text \<open>
  The gateway (\<^verbatim>\<open>src/gateway/server.rs\<close>, \<^verbatim>\<open>provider.rs\<close>, \<^verbatim>\<open>upstream.rs\<close>): a provider request is
  received, its credential is observed, its JSON body sanitized, the request sent upstream and the
  response restored as it arrives. The HTTP libraries are the parameter \<open>http_lib\<close>; headers are
  the list of their names, in lower case as \<^verbatim>\<open>HeaderName\<close> has them, and values. A body is the list
  of the chunks it delivers, the last of which may be an error.
\<close>

section \<open>Providers and URLs\<close>

datatype provider_family = OpenAi | Anthropic | Gemini_family | Unknown

definition is_gemini_path :: "bytes \<Rightarrow> bool" where
  "is_gemini_path path \<longleftrightarrow>
     str_contains path ''/v1beta/'' \<or>
     (let lower = to_ascii_lowercase path
      in str_contains lower '':generatecontent'' \<or> str_contains lower '':streamgeneratecontent'' \<or>
         str_contains lower '':counttokens'' \<or> str_contains lower '':embedcontent'' \<or>
         str_contains lower '':batchembedcontents'')"

definition infer_provider_from_path :: "bytes \<Rightarrow> provider_family" where
  "infer_provider_from_path path =
     (if str_contains path ''/v1/messages'' then Anthropic
      else if is_gemini_path path then Gemini_family
      else if str_contains path ''/v1/'' then OpenAi
      else Unknown)"

definition join_upstream_url :: "bytes \<Rightarrow> bytes \<Rightarrow> bytes" where
  "join_upstream_url base path_and_query =
     (let base = rev (dropWhile (\<lambda>ch. ch = CHR 0x2F) (rev base))
      in if starts_with path_and_query ''/'' then base @ path_and_query
         else base @ ''/'' @ path_and_query)"

section \<open>Messages\<close>

type_synonym headers = "(bytes \<times> bytes) list"

text \<open>
  A streamed body is the items that reading it to its end yields; the flag says that the stream
  owns a guard of the registry until then.
\<close>

datatype upstream_body = Whole bytes | Streamed bool "(crebro_error + bytes) list"

record gateway_request =
  gr_method :: bytes
  gr_path :: bytes
  gr_path_and_query :: "bytes option"
  gr_headers :: headers
  gr_body :: source

record upstream_request =
  ur_method :: bytes
  ur_url :: bytes
  ur_headers :: headers
  ur_body :: upstream_body

record upstream_response =
  us_status :: nat
  us_headers :: headers
  us_body :: source

record gateway_response =
  gp_status :: nat
  gp_headers :: headers
  gp_body :: upstream_body

text \<open>\<^verbatim>\<open>HeaderValue::to_str\<close> and \<^verbatim>\<open>from_bytes\<close>, \<^verbatim>\<open>axum::body::to_bytes\<close> and sending, which reads the
  body to its end; the last two may fail, with a message. (The method of a request was parsed by
  the library that parses it again, so it is not refused.)\<close>

record http_lib =
  hl_to_str :: "bytes \<Rightarrow> bytes option"
  hl_header_value :: "bytes \<Rightarrow> bytes option"
  hl_to_bytes :: "source \<Rightarrow> nat \<Rightarrow> bytes + bytes"
  hl_send :: "upstream_request \<Rightarrow> bytes + upstream_response"

record 'f gateway_env =
  gw_crypto :: crypto
  gw_serde :: serde
  gw_matcher :: matcher_lib
  gw_http :: http_lib
  gw_sanitizer :: json_sanitizer
  gw_patterns :: pattern_set
  gw_format :: "'f stats_format"
  gw_recorder :: stats_recorder
  gw_now :: u64
  gw_upstream_base :: bytes
  gw_auth_secret :: "u64 option"
  gw_threshold :: nat

text \<open>
  The registry is behind a lock. \<open>gs_guard\<close> says that a handler that has not returned keeps a write
  guard of it: reading or writing the registry waits until that guard is dropped.
\<close>

record 'f gateway_state =
  gs_san :: san_state
  gs_stats :: "'f option"
  gs_guard :: bool

abbreviation gs_registry :: "'f gateway_state \<Rightarrow> registry" where
  "gs_registry st \<equiv> snd (gs_san st)"

definition header_get :: "headers \<Rightarrow> bytes \<Rightarrow> bytes option" where
  "header_get hs name = map_of hs name"

definition header_str :: "http_lib \<Rightarrow> headers \<Rightarrow> bytes \<Rightarrow> bytes option" where
  "header_str http hs name = Option.bind (header_get hs name) (hl_to_str http)"

definition is_json_request :: "http_lib \<Rightarrow> headers \<Rightarrow> bool" where
  "is_json_request http hs \<longleftrightarrow>
     (case header_str http hs ''content-type'' of
        None \<Rightarrow> False
      | Some v \<Rightarrow> eq_ignore_ascii_case (str_trim (hd (split_on '';'' v))) ''application/json'')"

definition should_stream_json :: "http_lib \<Rightarrow> headers \<Rightarrow> nat \<Rightarrow> bool" where
  "should_stream_json http hs threshold \<longleftrightarrow>
     (case Option.bind (header_str http hs ''content-length'') (from_str_radix 10) of
        None \<Rightarrow> True
      | Some len \<Rightarrow> threshold < len)"

definition PROVIDER_KEY_HEADERS :: "bytes list" where
  "PROVIDER_KEY_HEADERS = [''x-api-key'', ''api-key'', ''x-goog-api-key'', ''anthropic-api-key'']"

definition is_provider_auth_header :: "bytes \<Rightarrow> bool" where
  "is_provider_auth_header key \<longleftrightarrow>
     key = ''authorization'' \<or> list_ex (eq_ignore_ascii_case key) PROVIDER_KEY_HEADERS"

definition should_skip_request_header :: "bytes \<Rightarrow> bool \<Rightarrow> bool" where
  "should_skip_request_header key json \<longleftrightarrow>
     key = ''host'' \<or> key = ''content-length'' \<or> key = ''transfer-encoding'' \<or>
     (json \<and> key = ''content-encoding'') \<or> is_provider_auth_header key"

section \<open>The credential of the client\<close>

datatype observed_auth_kind = Bearer | Header bytes

record observed_auth =
  oa_secret_id :: u64
  oa_kind :: observed_auth_kind

text \<open>The first ASCII white space ends the scheme.\<close>

definition bearer_token :: "bytes \<Rightarrow> bytes option" where
  "bearer_token value' =
     (let value' = trim_start value';
          scheme = takeWhile (\<lambda>ch. \<not> is_ascii_whitespace ch) value';
          token = str_trim (dropWhile (\<lambda>ch. \<not> is_ascii_whitespace ch) value')
      in if scheme = value' then None
         else if \<not> eq_ignore_ascii_case scheme ''bearer'' then None
         else if token = [] then None else Some token)"

definition is_observable_secret :: "pattern_set \<Rightarrow> bytes \<Rightarrow> bytes \<Rightarrow> bool" where
  "is_observable_secret ps label value' \<longleftrightarrow>
     value' \<noteq> ''crebro-local-placeholder'' \<and> is_secret_candidate ps label value'"

text \<open>What is found in the headers: the label to register, the value, and where it was.\<close>

definition observed_bearer :: "http_lib \<Rightarrow> pattern_set \<Rightarrow> headers \<Rightarrow> (bytes \<times> bytes \<times> observed_auth_kind) option" where
  "observed_bearer http ps hs =
     (case Option.bind (header_str http hs ''authorization'') bearer_token of
        None \<Rightarrow> None
      | Some token \<Rightarrow>
          (if is_observable_secret ps ''AUTHORIZATION'' token
           then Some (''AUTHORIZATION'', token, Bearer) else None))"

fun observed_key :: "http_lib \<Rightarrow> pattern_set \<Rightarrow> headers \<Rightarrow> bytes list \<Rightarrow> (bytes \<times> bytes \<times> observed_auth_kind) option" where
  "observed_key http ps hs [] = None"
| "observed_key http ps hs (name # names) =
     (case header_str http hs name of
        None \<Rightarrow> observed_key http ps hs names
      | Some v \<Rightarrow>
          (if is_observable_secret ps name v then Some (name, v, Header name)
           else observed_key http ps hs names))"

definition observed_credential :: "http_lib \<Rightarrow> pattern_set \<Rightarrow> headers \<Rightarrow> (bytes \<times> bytes \<times> observed_auth_kind) option" where
  "observed_credential http ps hs =
     (case observed_bearer http ps hs of
        Some found \<Rightarrow> Some found
      | None \<Rightarrow> observed_key http ps hs PROVIDER_KEY_HEADERS)"

definition register_observed_auth_header ::
  "crypto \<Rightarrow> http_lib \<Rightarrow> pattern_set \<Rightarrow> headers \<Rightarrow> registry \<Rightarrow> (crebro_error + observed_auth option) \<times> registry" where
  "register_observed_auth_header c http ps hs r =
     (case observed_credential http ps hs of
        None \<Rightarrow> (Inr None, r)
      | Some (label, value', kind) \<Rightarrow>
          and_then_st (ingest c (secret_label label) value' r) (\<lambda>ident r.
            (Inr (Some \<lparr>oa_secret_id = ident, oa_kind = kind\<rparr>), r)))"

text \<open>With the lock: the registry is written only when a credential was found. \<^const>\<open>None\<close>: it waits.\<close>

definition register_observed ::
  "'f gateway_env \<Rightarrow> headers \<Rightarrow> 'f gateway_state \<Rightarrow>
   ((crebro_error + observed_auth option) \<times> 'f gateway_state) option" where
  "register_observed env hs st =
     (if observed_credential (gw_http env) (gw_patterns env) hs \<noteq> None \<and> gs_guard st then None
      else case register_observed_auth_header (gw_crypto env) (gw_http env) (gw_patterns env) hs (gs_registry st) of
        (res, r) \<Rightarrow> Some (res, st\<lparr>gs_san := (fst (gs_san st), r)\<rparr>))"

definition secret_header_value :: "http_lib \<Rightarrow> bytes \<Rightarrow> crebro_error + bytes" where
  "secret_header_value http value' =
     ok_or (Gateway ''provider auth contains invalid header bytes'') (hl_header_value http value')"

definition bearer_header_value :: "http_lib \<Rightarrow> bytes \<Rightarrow> crebro_error + bytes" where
  "bearer_header_value http value' = secret_header_value http (''Bearer '' @ value')"

definition apply_observed :: "http_lib \<Rightarrow> observed_auth_kind \<Rightarrow> bytes \<Rightarrow> crebro_error + (bytes \<times> bytes)" where
  "apply_observed http kind value' =
     (case kind of
        Bearer \<Rightarrow> and_then (bearer_header_value http value') (\<lambda>v. Inr (''authorization'', v))
      | Header name \<Rightarrow> and_then (secret_header_value http value') (\<lambda>v. Inr (name, v)))"

definition apply_configured_provider_auth ::
  "http_lib \<Rightarrow> provider_family \<Rightarrow> bytes \<Rightarrow> crebro_error + (bytes \<times> bytes)" where
  "apply_configured_provider_auth http provider value' =
     (case provider of
        Anthropic \<Rightarrow> and_then (secret_header_value http value') (\<lambda>v. Inr (''x-api-key'', v))
      | Gemini_family \<Rightarrow> and_then (secret_header_value http value') (\<lambda>v. Inr (''x-goog-api-key'', v))
      | OpenAi \<Rightarrow> and_then (bearer_header_value http value') (\<lambda>v. Inr (''authorization'', v))
      | Unknown \<Rightarrow> and_then (bearer_header_value http value') (\<lambda>v. Inr (''authorization'', v)))"

text \<open>The credential header that is sent, if any.\<close>

definition auth_headers ::
  "'f gateway_env \<Rightarrow> provider_family \<Rightarrow> observed_auth option \<Rightarrow> registry \<Rightarrow> crebro_error + headers" where
  "auth_headers env provider observed r =
     (case gw_auth_secret env of
        Some secret_id \<Rightarrow>
          and_then (restore_to_vec (gw_crypto env) r secret_id []) (\<lambda>auth.
          and_then (apply_configured_provider_auth (gw_http env) provider auth) (\<lambda>h. Inr [h]))
      | None \<Rightarrow>
          (case observed of
             None \<Rightarrow> Inr []
           | Some oa \<Rightarrow>
               and_then (restore_to_vec (gw_crypto env) r (oa_secret_id oa) []) (\<lambda>auth.
               and_then (apply_observed (gw_http env) (oa_kind oa) auth) (\<lambda>h. Inr [h]))))"

text \<open>The registry is read only when there is a credential to send. \<^const>\<open>None\<close>: it waits.\<close>

definition credential_to_send ::
  "'f gateway_env \<Rightarrow> provider_family \<Rightarrow> observed_auth option \<Rightarrow> 'f gateway_state \<Rightarrow> (crebro_error + headers) option" where
  "credential_to_send env provider observed st =
     (if (gw_auth_secret env \<noteq> None \<or> observed \<noteq> None) \<and> gs_guard st then None
      else Some (auth_headers env provider observed (gs_registry st)))"

section \<open>Request bodies\<close>

definition stats_of_report :: "'f gateway_env \<Rightarrow> sanitizer_report \<Rightarrow> 'f gateway_state \<Rightarrow> 'f gateway_state" where
  "stats_of_report env report st = st\<lparr>gs_stats :=
     record_sanitizer_report (gw_format env) (gw_now env) (gw_recorder env) (gs_registry st) report (gs_stats st)\<rparr>"

definition stats_of_error :: "'f gateway_env \<Rightarrow> crebro_error \<Rightarrow> 'f gateway_state \<Rightarrow> 'f gateway_state" where
  "stats_of_error env err st = st\<lparr>gs_stats :=
     record_error (gw_format env) (gw_now env) (gw_recorder env) err (gs_stats st)\<rparr>"

definition chunk_failed :: "bytes \<Rightarrow> crebro_error" where
  "chunk_failed e = Gateway (''failed to read request chunk: '' @ e)"

fun stream_request_body :: "source \<Rightarrow> (crebro_error + bytes) list" where
  "stream_request_body [] = []"
| "stream_request_body (Got chunk # src) = Inr chunk # stream_request_body src"
| "stream_request_body (Failed e # src) = Inl (chunk_failed e) # stream_request_body src"

text \<open>The stream that \<^verbatim>\<open>unfold\<close> makes: what it yields until it ends, and the state then.\<close>

fun sanitize_stream_items ::
  "'f gateway_env \<Rightarrow> stream_state \<Rightarrow> source \<Rightarrow> 'f gateway_state \<Rightarrow> (crebro_error + bytes) list \<times> 'f gateway_state" where
  "sanitize_stream_items env ss [] st =
     (case finish_stream ss (gs_san st) of
        Inl err \<Rightarrow> ([Inl err], stats_of_error env err st)
      | Inr (tail, report) \<Rightarrow>
          (if tail = [] then ([], st) else ([Inr tail], stats_of_report env report st)))"
| "sanitize_stream_items env ss (Failed e # src) st = ([Inl (chunk_failed e)], st)"
| "sanitize_stream_items env ss (Got chunk # src) st =
     (case push_stream_chunk (gw_crypto env) (gw_serde env) (gw_sanitizer env) chunk ss (gs_san st) of
        (Inl err, san) \<Rightarrow> ([Inl err], stats_of_error env err (st\<lparr>gs_san := san\<rparr>))
      | (Inr (out, ss), san) \<Rightarrow>
          (case sanitize_stream_items env ss src (st\<lparr>gs_san := san\<rparr>) of
             (items, st) \<Rightarrow> (if out = [] then items else Inr out # items, st)))"

text \<open>
  The body of the request to be sent: it is there, or it is the stream that sanitizes the client's
  body when it is read, and owns a write guard of the registry until it has been read or dropped.
\<close>

datatype prepared_body = Prepared upstream_body | Sanitizing source

text \<open>\<^verbatim>\<open>write_owned\<close> of the registry: \<^const>\<open>None\<close> while another guard is kept.\<close>

definition sanitize_json_body_stream ::
  "source \<Rightarrow> 'f gateway_state \<Rightarrow> ((crebro_error + prepared_body) \<times> 'f gateway_state) option" where
  "sanitize_json_body_stream body st =
     (if gs_guard st then None else Some (Inr (Sanitizing body), st\<lparr>gs_guard := True\<rparr>))"

definition sanitize_json_body ::
  "'f gateway_env \<Rightarrow> headers \<Rightarrow> source \<Rightarrow> 'f gateway_state \<Rightarrow>
   ((crebro_error + prepared_body) \<times> 'f gateway_state) option" where
  "sanitize_json_body env hs body st =
     (if should_stream_json (gw_http env) hs (gw_threshold env) then sanitize_json_body_stream body st
      else case hl_to_bytes (gw_http env) body (gw_threshold env) of
        Inl e \<Rightarrow> Some (Inl (Gateway (''failed to read request body: '' @ e)), st)
      | Inr body \<Rightarrow>
          (if gs_guard st then None
           else case sanitize_json (gw_crypto env) (gw_serde env) (gw_sanitizer env) body (gs_san st) of
             (Inl err, san) \<Rightarrow> Some (Inl err, st\<lparr>gs_san := san\<rparr>)
           | (Inr (sanitized, report), san) \<Rightarrow>
               Some (Inr (Prepared (Whole sanitized)), stats_of_report env report (st\<lparr>gs_san := san\<rparr>))))"

definition sanitize_request_body ::
  "'f gateway_env \<Rightarrow> headers \<Rightarrow> source \<Rightarrow> bool \<Rightarrow> 'f gateway_state \<Rightarrow>
   ((crebro_error + prepared_body) \<times> 'f gateway_state) option" where
  "sanitize_request_body env hs body json st =
     (if json then sanitize_json_body env hs body st
      else Some (Inr (Prepared (Streamed False (stream_request_body body))), st))"

text \<open>The body is read to its end while it is sent; then its guard is dropped.\<close>

fun read_body :: "'f gateway_env \<Rightarrow> prepared_body \<Rightarrow> 'f gateway_state \<Rightarrow> upstream_body \<times> 'f gateway_state" where
  "read_body env (Prepared body) st = (body, st)"
| "read_body env (Sanitizing body) st =
     (case sanitize_stream_items env streaming_state body st of
        (items, st) \<Rightarrow> (Streamed True items, st\<lparr>gs_guard := False\<rparr>))"

section \<open>Responses\<close>

fun restore_response_items ::
  "crypto \<Rightarrow> registry \<Rightarrow> response_restorer \<Rightarrow> source \<Rightarrow> (crebro_error + bytes) list" where
  "restore_response_items c r rr [] =
     (case restorer_finish c r rr of
        Inl err \<Rightarrow> [Inl err]
      | Inr out \<Rightarrow> if out = [] then [] else [Inr out])"
| "restore_response_items c r rr (Failed e # src) = [Inl crebro_error.Http]"
| "restore_response_items c r rr (Got chunk # src) =
     (case push_chunk c chunk r rr of
        (Inl err, rr) \<Rightarrow> [Inl err]
      | (Inr out, rr) \<Rightarrow>
          (if out = [] then restore_response_items c r rr src
           else Inr out # restore_response_items c r rr src))"

definition restore_upstream_response_body ::
  "'f gateway_env \<Rightarrow> registry \<Rightarrow> source \<Rightarrow> crebro_error + upstream_body" where
  "restore_upstream_response_body env r body =
     and_then (restorer_new (gw_matcher env) r) (\<lambda>rr.
       Inr (Streamed True (restore_response_items (gw_crypto env) r rr body)))"

section \<open>One request\<close>

text \<open>\<^verbatim>\<open>GatewayHttpError\<close>: the status of an error; its message is only logged.\<close>

fun gateway_status :: "crebro_error \<Rightarrow> nat" where
  "gateway_status (Redaction m) = 400"
| "gateway_status (UnregisteredCredential p) = 400"
| "gateway_status err = 502"

definition error_response :: "nat \<Rightarrow> gateway_response" where
  "error_response status = \<lparr>gp_status = status, gp_headers = [], gp_body = Whole ''crebro gateway error''\<rparr>"

definition response_headers :: "headers \<Rightarrow> headers" where
  "response_headers = filter (\<lambda>(key, value').
     key \<noteq> ''content-length'' \<and> key \<noteq> ''transfer-encoding'' \<and> key \<noteq> ''content-encoding'')"

text \<open>What was sent upstream, if anything, and the response of the client.\<close>

record 'f gateway_exchange =
  gx_sent :: "upstream_request option"
  gx_response :: gateway_response
  gx_state :: "'f gateway_state"

definition refuse :: "crebro_error \<Rightarrow> upstream_request option \<Rightarrow> 'f gateway_state \<Rightarrow> 'f gateway_exchange" where
  "refuse err sent st =
     \<lparr>gx_sent = sent, gx_response = error_response (gateway_status err), gx_state = st\<rparr>"

text \<open>
  How handling one request ends: with an answer, or waiting for the lock of the registry, when
  nobody but a handler that waits itself could drop the guard. In the second case what was sent
  until then is kept, too.
\<close>

datatype 'f handled = Answered "'f gateway_exchange" | Waits "upstream_request option" "'f gateway_state"

text \<open>Restoring the response needs a read guard.\<close>

definition answer ::
  "'f gateway_env \<Rightarrow> upstream_request \<Rightarrow> 'f gateway_state \<Rightarrow> 'f handled" where
  "answer env request st =
     (case hl_send (gw_http env) request of
        Inl e \<Rightarrow> Answered (refuse crebro_error.Http (Some request) st)
      | Inr response \<Rightarrow>
          (if gs_guard st then Waits (Some request) st
           else case restore_upstream_response_body env (gs_registry st) (us_body response) of
             Inl err \<Rightarrow> Answered (refuse err (Some request) st)
           | Inr body \<Rightarrow> Answered
               \<lparr>gx_sent = Some request,
                gx_response = \<lparr>gp_status = us_status response,
                  gp_headers = response_headers (us_headers response), gp_body = body\<rparr>,
                gx_state = st\<rparr>))"

definition handle :: "'f gateway_env \<Rightarrow> gateway_request \<Rightarrow> 'f gateway_state \<Rightarrow> 'f handled" where
  "handle env req st =
     (let path_and_query = (case gr_path_and_query req of None \<Rightarrow> ''/'' | Some p \<Rightarrow> p);
          provider = infer_provider_from_path (gr_path req);
          hs = gr_headers req;
          json = is_json_request (gw_http env) hs
      in case register_observed env hs st of
           None \<Rightarrow> Waits None st
         | Some (Inl err, st) \<Rightarrow> Answered (refuse err None st)
         | Some (Inr observed, st) \<Rightarrow>
             (case sanitize_request_body env hs (gr_body req) json st of
                None \<Rightarrow> Waits None st
              | Some (Inl err, st) \<Rightarrow> Answered (refuse err None (stats_of_error env err st))
              | Some (Inr prepared, st) \<Rightarrow>
                  (case credential_to_send env provider observed st of
                     None \<Rightarrow> Waits None st
                   | Some (Inl err) \<Rightarrow> Answered (refuse err None st)
                   | Some (Inr auth) \<Rightarrow>
                       (case read_body env prepared st of
                          (body, st) \<Rightarrow> answer env
                            \<lparr>ur_method = gr_method req,
                             ur_url = join_upstream_url (gw_upstream_base env) path_and_query,
                             ur_headers = filter (\<lambda>(key, value'). \<not> should_skip_request_header key json) hs @ auth,
                             ur_body = body\<rparr> st))))"

text \<open>What the handler returns, if it does.\<close>

definition proxy :: "'f gateway_env \<Rightarrow> gateway_request \<Rightarrow> 'f gateway_state \<Rightarrow> 'f gateway_exchange option" where
  "proxy env req st = (case handle env req st of Answered x \<Rightarrow> Some x | Waits sent st \<Rightarrow> None)"

fun handled_state :: "'f handled \<Rightarrow> 'f gateway_state" where
  "handled_state (Answered x) = gx_state x"
| "handled_state (Waits sent st) = st"

text \<open>
  Requests that come one after the other, the next when the one before was answered and its
  response read (which drops the read guard of the response), or when it waits.
\<close>

fun serve :: "'f gateway_env \<Rightarrow> gateway_request list \<Rightarrow> 'f gateway_state \<Rightarrow> 'f handled list \<times> 'f gateway_state" where
  "serve env [] st = ([], st)"
| "serve env (req # reqs) st =
     (let h = handle env req st
      in case serve env reqs (handled_state h) of (hs, st) \<Rightarrow> (h # hs, st))"

section \<open>Streams and their chunks\<close>

text \<open>What the reader of a stream gets: the bytes of all items, or the first error.\<close>

definition stream_bytes :: "(crebro_error + bytes) list \<Rightarrow> crebro_error + bytes" where
  "stream_bytes = try_collect (\<lambda>item. item)"

lemma stream_bytes_simps [simp]:
  "stream_bytes [] = Inr []"
  "stream_bytes (Inl err # items) = Inl err"
  "stream_bytes (Inr out # items) = and_then (stream_bytes items) (\<lambda>rest. Inr (out @ rest))"
  by (simp_all add: stream_bytes_def)

lemma stream_bytes_nonempty:
  "stream_bytes (if out = [] then items else Inr out # items) = and_then (stream_bytes items) (\<lambda>rest. Inr (out @ rest))"
  by (cases "stream_bytes items") simp_all

lemma restore_stream_bytes:
  "stream_bytes (restore_response_items c r rr (map Got chunks)) = restore_chunks c (map (\<lambda>chunk. (chunk, r)) chunks) r rr"
proof (induction chunks arbitrary: rr)
  case Nil
  show ?case
    by (cases "restorer_finish c r rr") auto
next
  case (Cons chunk chunks)
  obtain res rr1 where "push_chunk c chunk r rr = (res, rr1)"
    by (cases "push_chunk c chunk r rr")
  then show ?case
    using stream_bytes_nonempty Cons.IH [of rr1] by (cases res) auto
qed

lemma sanitize_stream_bytes:
  "stream_bytes (fst (sanitize_stream_items env ss (map Got chunks) st)) =
     (case push_stream_chunks (gw_crypto env) (gw_serde env) (gw_sanitizer env) chunks ss (gs_san st) of
        (Inl err, san) \<Rightarrow> Inl err
      | (Inr (out, ss), san) \<Rightarrow> and_then (finish_stream ss san) (\<lambda>(tail, report). Inr (out @ tail)))"
proof (induction chunks arbitrary: ss st)
  case Nil
  show ?case
    by (auto split: sum.split)
next
  case (Cons chunk chunks)
  obtain res san where push: "push_stream_chunk (gw_crypto env) (gw_serde env) (gw_sanitizer env) chunk ss (gs_san st) = (res, san)"
    by (cases "push_stream_chunk (gw_crypto env) (gw_serde env) (gw_sanitizer env) chunk ss (gs_san st)")
  show ?case
  proof (cases res)
    case (Inr a)
    obtain out ss1 where a: "a = (out, ss1)"
      by (cases a)
    obtain items st2 where items: "sanitize_stream_items env ss1 (map Got chunks) (st\<lparr>gs_san := san\<rparr>) = (items, st2)"
      by (cases "sanitize_stream_items env ss1 (map Got chunks) (st\<lparr>gs_san := san\<rparr>)")
    obtain res2 san2 where rest: "push_stream_chunks (gw_crypto env) (gw_serde env) (gw_sanitizer env) chunks ss1 san = (res2, san2)"
      by (cases "push_stream_chunks (gw_crypto env) (gw_serde env) (gw_sanitizer env) chunks ss1 san")
    have IH: "stream_bytes items =
        (case res2 of Inl err \<Rightarrow> Inl err
         | Inr (out, ss) \<Rightarrow> and_then (finish_stream ss san2) (\<lambda>(tail, report). Inr (out @ tail)))"
      using Cons.IH [of ss1 "st\<lparr>gs_san := san\<rparr>"] by (simp add: items rest split: sum.splits)
    show ?thesis
      using push Inr a items rest IH
      by (cases res2) (auto simp: stream_bytes_nonempty finish_stream_def split: prod.splits)
  qed (use push in simp)
qed

lemma sanitize_stream_whole:
  "stream_bytes (fst (sanitize_stream_items env ss (map Got chunks) st)) =
     stream_bytes (fst (sanitize_stream_items env ss [Got (concat chunks)] st))"
  using sanitize_stream_bytes [of env ss chunks st] sanitize_stream_bytes [of env ss "[concat chunks]" st]
  by (simp add: push_stream_chunks_concat)

text \<open>No report of a streamed body is recorded: the tail is always empty.\<close>

lemma sanitize_stream_stats:
  assumes "stream_bytes (fst (sanitize_stream_items env ss (map Got chunks) st)) = Inr out"
  shows "gs_stats (snd (sanitize_stream_items env ss (map Got chunks) st)) = gs_stats st"
  using assms
proof (induction chunks arbitrary: ss st out)
  case Nil
  then show ?case
    by (auto simp: finish_stream_def split: if_splits)
next
  case (Cons chunk chunks)
  obtain res san where push: "push_stream_chunk (gw_crypto env) (gw_serde env) (gw_sanitizer env) chunk ss (gs_san st) = (res, san)"
    by (cases "push_stream_chunk (gw_crypto env) (gw_serde env) (gw_sanitizer env) chunk ss (gs_san st)")
  show ?case
  proof (cases res)
    case (Inr a)
    obtain out1 ss1 where a: "a = (out1, ss1)"
      by (cases a)
    obtain items st2 where items: "sanitize_stream_items env ss1 (map Got chunks) (st\<lparr>gs_san := san\<rparr>) = (items, st2)"
      by (cases "sanitize_stream_items env ss1 (map Got chunks) (st\<lparr>gs_san := san\<rparr>)")
    have "stream_bytes (if out1 = [] then items else Inr out1 # items) = Inr out"
      using Cons.prems by (simp add: push Inr a items split: if_splits)
    then obtain rest where "stream_bytes items = Inr rest"
      unfolding stream_bytes_nonempty by (cases "stream_bytes items") auto
    then show ?thesis
      using Cons.IH [of ss1 "st\<lparr>gs_san := san\<rparr>" rest] by (simp add: push Inr a items)
  qed (use Cons.prems push in simp)
qed

section \<open>Credentials\<close>

lemma auth_headers_one: "auth_headers env provider observed r = Inr hs \<Longrightarrow> length hs \<le> 1"
  by (cases "gw_auth_secret env"; cases observed) (auto simp: auth_headers_def and_then_eq_Inr)

lemma skipped_auth: "is_provider_auth_header key \<Longrightarrow> should_skip_request_header key json"
  by (simp add: should_skip_request_header_def)

text \<open>Of the credentials of the client only the one that was chosen is sent.\<close>

lemma sent_credentials:
  "filter (\<lambda>(key, value'). is_provider_auth_header key)
     (filter (\<lambda>(key, value'). \<not> should_skip_request_header key json) hs @ auth) =
   filter (\<lambda>(key, value'). is_provider_auth_header key) auth"
  by (auto simp: filter_empty_conv skipped_auth)

lemma observed_key_SomeE:
  "observed_key http ps hs names = Some (label, v, kind) \<Longrightarrow>
     is_observable_secret ps label v \<and> label \<in> set names \<and> kind = Header label \<and> header_str http hs label = Some v"
  by (induction names) (auto split: option.splits if_splits)

lemma observed_credential_secret:
  "observed_credential http ps hs = Some (label, v, kind) \<Longrightarrow> is_observable_secret ps label v"
  by (auto simp: observed_credential_def observed_bearer_def split: option.splits if_splits dest: observed_key_SomeE)

text \<open>An observed credential is a secret of the registry from then on, and what is sent upstream is
  that secret (up to a collision of HMAC).\<close>

lemma observed_credential_sent:
  assumes inv: "registry_inv c r" and aead: "aead_correct c" and env: "gw_crypto env = c" "gw_auth_secret env = None"
    and found: "observed_credential http ps hs = Some (label, v, kind)"
    and run: "register_observed_auth_header c http ps hs r = (Inr observed, r1)" and fits: "registry_fits r1"
    and later: "registry_step c r1 r2"
  shows "\<exists>s. same_digest c (reg_keys r) s v \<and>
    auth_headers env provider observed r2 = and_then (apply_observed (gw_http env) kind s) (\<lambda>h. Inr [h])"
proof -
  obtain ident where i: "ingest c (secret_label label) v r = (Inr ident, r1)"
    and o: "observed = Some \<lparr>oa_secret_id = ident, oa_kind = kind\<rparr>"
    using run by (auto simp: register_observed_auth_header_def found and_then_st_eq_Inr)
  obtain s where s: "registry_holds c r1 ident s" "same_digest c (reg_keys r) s v"
    using ingest_holds [OF _ aead secret_label_ok i fits] inv by (auto simp: registry_inv_def)
  have "registry_holds c r2 ident s"
    by (rule registry_holds_step [OF later s(1)])
  then have "restore_to_vec c r2 ident [] = Inr s"
    using restore_to_vec_eq [of r2 ident _ c s "[]"] by (auto simp: registry_holds_iff)
  then show ?thesis
    using s(2) by (intro exI [of _ s]) (simp add: auth_headers_def env o)
qed

section \<open>The handler\<close>

lemma register_observed_eq_Some:
  "register_observed env hs st = Some (res, st1) \<longleftrightarrow>
     (observed_credential (gw_http env) (gw_patterns env) hs = None \<or> \<not> gs_guard st) \<and>
     (\<exists>r. register_observed_auth_header (gw_crypto env) (gw_http env) (gw_patterns env) hs (gs_registry st) = (res, r) \<and>
        st1 = st\<lparr>gs_san := (fst (gs_san st), r)\<rparr>)"
  by (auto simp: register_observed_def split: prod.splits)

lemma credential_to_send_eq_Some:
  "credential_to_send env provider observed st = Some res \<longleftrightarrow>
     (gw_auth_secret env = None \<and> observed = None \<or> \<not> gs_guard st) \<and>
     auth_headers env provider observed (gs_registry st) = res"
  by (auto simp: credential_to_send_def)

lemma auth_headers_none: "gw_auth_secret env = None \<Longrightarrow> auth_headers env provider None r = Inr []"
  by (simp add: auth_headers_def)

lemma answer_state [simp]: "handled_state (answer env request st) = st"
  by (simp add: answer_def refuse_def split: sum.split)

lemma answer_sent: "answer env request st = Answered x \<Longrightarrow> gx_sent x = Some request \<and> gx_state x = st"
  by (auto simp: answer_def refuse_def split: sum.splits if_splits)

lemma proxy_eq_Some: "proxy env req st = Some x \<longleftrightarrow> handle env req st = Answered x"
  by (simp add: proxy_def split: handled.split)

text \<open>A request whose body is a stream that is sanitized as it is read has no credential to send.\<close>

lemma proxy_sent:
  assumes run: "proxy env req st = Some x" and sent: "gx_sent x = Some ur"
  obtains observed r prepared st2 auth where
    "register_observed_auth_header (gw_crypto env) (gw_http env) (gw_patterns env) (gr_headers req) (gs_registry st) =
       (Inr observed, r)"
    "sanitize_request_body env (gr_headers req) (gr_body req) (is_json_request (gw_http env) (gr_headers req))
       (st\<lparr>gs_san := (fst (gs_san st), r)\<rparr>) = Some (Inr prepared, st2)"
    "credential_to_send env (infer_provider_from_path (gr_path req)) observed st2 = Some (Inr auth)"
    "ur_headers ur = filter (\<lambda>(key, value').
       \<not> should_skip_request_header key (is_json_request (gw_http env) (gr_headers req))) (gr_headers req) @ auth"
    "read_body env prepared st2 = (ur_body ur, gx_state x)"
  using run sent unfolding proxy_eq_Some handle_def Let_def
  by (auto split: option.splits sum.splits prod.splits simp: register_observed_eq_Some refuse_def dest!: answer_sent)

section \<open>The lock of the registry\<close>

lemma stats_guard [simp]:
  "gs_guard (stats_of_report env report st) = gs_guard st" "gs_guard (stats_of_error env err st) = gs_guard st"
  by (simp_all add: stats_of_report_def stats_of_error_def)

lemma sanitizing_body_iff:
  "sanitize_request_body env hs body json st = Some (Inr (Sanitizing src), st') \<longleftrightarrow>
     json \<and> should_stream_json (gw_http env) hs (gw_threshold env) \<and> \<not> gs_guard st \<and> src = body \<and>
     st' = st\<lparr>gs_guard := True\<rparr>"
  by (auto simp: sanitize_request_body_def sanitize_json_body_def sanitize_json_body_stream_def
      split: sum.splits prod.splits)

lemma prepared_body_guard:
  "sanitize_request_body env hs body json st = Some (Inr (Prepared out), st') \<Longrightarrow> gs_guard st' = gs_guard st"
  by (auto simp: sanitize_request_body_def sanitize_json_body_def sanitize_json_body_stream_def
      split: if_splits sum.splits prod.splits)

text \<open>A body that is refused is refused with 502 when a guard is kept elsewhere: it was not even read.\<close>

lemma refused_body_guard:
  assumes "sanitize_request_body env hs body json st = Some (Inl err, st')"
  shows "gs_guard st' = gs_guard st \<and> (gs_guard st \<longrightarrow> gateway_status err = 502)"
  using assms
  by (auto simp: sanitize_request_body_def sanitize_json_body_def sanitize_json_body_stream_def
      split: if_splits sum.splits prod.splits)

lemma waiting_body_guard:
  "sanitize_request_body env hs body json st = None \<Longrightarrow> gs_guard st"
  by (auto simp: sanitize_request_body_def sanitize_json_body_def sanitize_json_body_stream_def
      split: if_splits sum.splits prod.splits)

text \<open>
  The kind of request that waits for itself: its sanitized stream owns the guard, and the handler
  needs the registry for a credential before it sends that stream.
\<close>

definition waits_for_itself :: "'f gateway_env \<Rightarrow> gateway_request \<Rightarrow> bool" where
  "waits_for_itself env req \<longleftrightarrow>
     is_json_request (gw_http env) (gr_headers req) \<and>
     should_stream_json (gw_http env) (gr_headers req) (gw_threshold env) \<and>
     (gw_auth_secret env \<noteq> None \<or> observed_credential (gw_http env) (gw_patterns env) (gr_headers req) \<noteq> None)"

fun stalled :: "'f handled \<Rightarrow> bool" where
  "stalled (Answered x) \<longleftrightarrow> gx_response x = error_response 502"
| "stalled (Waits sent st) \<longleftrightarrow> True"

lemma observed_iff:
  "register_observed_auth_header c http ps hs r = (Inr observed, r1) \<Longrightarrow>
     observed \<noteq> None \<longleftrightarrow> observed_credential http ps hs \<noteq> None"
  by (auto simp: register_observed_auth_header_def and_then_st_eq_Inr split: option.splits prod.splits)

lemma answer_free: "\<not> gs_guard st \<Longrightarrow> \<exists>x. answer env request st = Answered x"
  by (simp add: answer_def split: sum.split)

lemma handle_answers:
  assumes free: "\<not> gs_guard st" and ok: "\<not> waits_for_itself env req"
  shows "\<exists>x. handle env req st = Answered x \<and> \<not> gs_guard (gx_state x)"
proof -
  let ?json = "is_json_request (gw_http env) (gr_headers req)"
  obtain res r where reg: "register_observed_auth_header (gw_crypto env) (gw_http env) (gw_patterns env)
      (gr_headers req) (gs_registry st) = (res, r)"
    by (cases "register_observed_auth_header (gw_crypto env) (gw_http env) (gw_patterns env)
      (gr_headers req) (gs_registry st)")
  let ?st = "st\<lparr>gs_san := (fst (gs_san st), r)\<rparr>"
  have r: "register_observed env (gr_headers req) st = Some (res, ?st)"
    using free reg by (auto simp: register_observed_eq_Some)
  have sent: "\<exists>x. answer env ur st' = Answered x \<and> \<not> gs_guard (gx_state x)" if "\<not> gs_guard st'" for ur st'
    using answer_free [OF that, of env ur] answer_sent [of env ur st'] that by auto
  show ?thesis
  proof (cases res)
    case (Inr observed)
    obtain body st2 where b: "sanitize_request_body env (gr_headers req) (gr_body req) ?json ?st = Some (body, st2)"
      using waiting_body_guard [of env "gr_headers req" "gr_body req" ?json ?st] free
      by (cases "sanitize_request_body env (gr_headers req) (gr_body req) ?json ?st") auto
    consider (err) err where "body = Inl err" | (there) out where "body = Inr (Prepared out)"
      | (stream) src where "body = Inr (Sanitizing src)"
      by (cases body; cases "projr body") auto
    then show ?thesis
    proof cases
      case err
      then show ?thesis
        using refused_body_guard [of env "gr_headers req" "gr_body req" ?json ?st err st2] b r Inr free
        by (simp add: handle_def Let_def refuse_def)
    next
      case there
      have g: "\<not> gs_guard st2"
        using prepared_body_guard b there free by fastforce
      then show ?thesis
        using b r Inr there sent [OF g]
        by (auto simp: handle_def Let_def refuse_def credential_to_send_def split: sum.split)
    next
      case stream
      have "?json \<and> should_stream_json (gw_http env) (gr_headers req) (gw_threshold env)"
        using b stream by (simp add: sanitizing_body_iff)
      then have "gw_auth_secret env = None \<and> observed = None"
        using ok observed_iff [OF reg [unfolded Inr]] by (auto simp: waits_for_itself_def)
      then show ?thesis
        using b r Inr stream sent
        by (auto simp: handle_def Let_def credential_to_send_def auth_headers_none split: prod.split)
    qed
  qed (use r free in \<open>simp add: handle_def Let_def refuse_def\<close>)
qed

lemma handle_waits_for_itself:
  assumes "\<not> gs_guard st" and "waits_for_itself env req"
    and "register_observed_auth_header (gw_crypto env) (gw_http env) (gw_patterns env) (gr_headers req)
      (gs_registry st) = (Inr observed, r)"
  shows "handle env req st = Waits None (st\<lparr>gs_san := (fst (gs_san st), r), gs_guard := True\<rparr>)"
proof -
  have "register_observed env (gr_headers req) st = Some (Inr observed, st\<lparr>gs_san := (fst (gs_san st), r)\<rparr>)"
    using assms(1,3) by (simp add: register_observed_eq_Some)
  moreover have "gw_auth_secret env \<noteq> None \<or> observed \<noteq> None"
    using assms(2) observed_iff [OF assms(3)] by (auto simp: waits_for_itself_def)
  ultimately show ?thesis
    using assms(1,2)
    by (auto simp: handle_def Let_def sanitize_request_body_def sanitize_json_body_def sanitize_json_body_stream_def
        credential_to_send_def waits_for_itself_def)
qed

text \<open>As long as a handler keeps a guard, others wait as well, or fail before they need the registry.\<close>

lemma handle_stalled:
  assumes guard: "gs_guard st"
  shows "stalled (handle env req st) \<and> gs_guard (handled_state (handle env req st))"
proof (cases "register_observed env (gr_headers req) st")
  case (Some p)
  let ?json = "is_json_request (gw_http env) (gr_headers req)"
  obtain res st1 where p: "p = (res, st1)"
    by (cases p)
  have none: "observed_credential (gw_http env) (gw_patterns env) (gr_headers req) = None" and g: "gs_guard st1"
    using Some guard by (auto simp: p register_observed_eq_Some)
  then have res: "res = Inr None"
    using Some by (auto simp: p register_observed_eq_Some register_observed_auth_header_def)
  have waits: "stalled (answer env ur st') \<and> gs_guard (handled_state (answer env ur st'))" if "gs_guard st'" for ur st'
    using that by (simp add: answer_def refuse_def split: sum.split)
  show ?thesis
  proof (cases "sanitize_request_body env (gr_headers req) (gr_body req) ?json st1")
    case body: (Some q)
    obtain b st2 where q: "q = (b, st2)"
      by (cases q)
    show ?thesis
    proof (cases b)
      case (Inl err)
      then show ?thesis
        using refused_body_guard [OF body [unfolded q Inl]] g Some body
        by (simp add: handle_def Let_def p q res refuse_def)
    next
      case (Inr prepared)
      then obtain out where out: "prepared = Prepared out"
        using body g by (cases prepared) (simp_all add: q sanitizing_body_iff)
      then have g2: "gs_guard st2"
        using prepared_body_guard body g Inr q by fastforce
      show ?thesis
      proof (cases "gw_auth_secret env")
        case None
        then show ?thesis
          using Some body waits [OF g2] by (simp add: handle_def Let_def p q res Inr out credential_to_send_def auth_headers_none)
      qed (use Some body g2 in \<open>simp add: handle_def Let_def p q res Inr out credential_to_send_def\<close>)
    qed
  qed (use Some g in \<open>simp add: handle_def Let_def p res\<close>)
qed (use guard in \<open>simp add: handle_def Let_def\<close>)

lemma serve_append:
  "serve env (reqs @ reqs') st =
     (case serve env reqs st of (hs, st1) \<Rightarrow> (case serve env reqs' st1 of (hs', st2) \<Rightarrow> (hs @ hs', st2)))"
  by (induction reqs arbitrary: st) (auto simp: Let_def split: prod.split)

lemma serve_length: "length (fst (serve env reqs st)) = length reqs"
  by (induction reqs arbitrary: st) (simp_all add: Let_def case_prod_beta)

lemma serve_answers:
  assumes "\<not> gs_guard st" and "\<And>req. req \<in> set reqs \<Longrightarrow> \<not> waits_for_itself env req"
  shows "\<exists>xs. fst (serve env reqs st) = map Answered xs \<and> \<not> gs_guard (snd (serve env reqs st))"
  using assms
proof (induction reqs arbitrary: st)
  case (Cons req reqs)
  obtain x where x: "handle env req st = Answered x" "\<not> gs_guard (gx_state x)"
    using handle_answers Cons.prems by (metis list.set_intros(1))
  obtain xs where "fst (serve env reqs (gx_state x)) = map Answered xs" "\<not> gs_guard (snd (serve env reqs (gx_state x)))"
    using Cons.IH [OF x(2)] Cons.prems(2) by auto
  then show ?case
    by (auto simp: x Let_def split: prod.split intro!: exI [of _ "x # xs"])
qed auto

lemma serve_stalled:
  "gs_guard st \<Longrightarrow> h \<in> set (fst (serve env reqs st)) \<Longrightarrow> stalled h"
proof (induction reqs arbitrary: st)
  case (Cons req reqs)
  then show ?case
    using handle_stalled [OF Cons.prems(1), of env req] by (auto simp: Let_def split: prod.splits)
qed simp

end
