(* ===== verification/Instances.thy ===== *)
theory Instances
  imports Restore Json_Stream Websocket Cli Gateway
begin

text \<open>
  Concrete providers for the parameters of the model, at which the hypotheses of the
  properties hold: transparent primitives that satisfy the contracts of theory
  \<open>Secrets_Crypto\<close>, a naive multi-pattern search that satisfies the contract of
  \<^verbatim>\<open>aho_corasick\<close>, and a registry with one secret.
\<close>

section \<open>Primitives\<close>

definition hex_digit :: "nat \<Rightarrow> char" where
  "hex_digit n = hex_digits ! (n mod 16)"

definition plain_crypto :: crypto where
  "plain_crypto =
     \<lparr>hmac_sha256 = (\<lambda>k m. Some m), chacha_seal = (\<lambda>k n m. Some m),
      chacha_open = (\<lambda>k n ct. Some ct), os_rng = (\<lambda>n. replicate 32 (char_of n)),
      hex_encode = (\<lambda>bs. concat (map (\<lambda>c. [hex_digit (byte_val c div 16), hex_digit (byte_val c)]) bs))\<rparr>"

lemma plain_crypto_simps [simp]:
  "hmac_sha256 plain_crypto k m = Some m"
  "chacha_seal plain_crypto k n m = Some m"
  "chacha_open plain_crypto k n m = Some m"
  by (simp_all add: plain_crypto_def)

lemma plain_hmac_total [simp]: "hmac_total plain_crypto"
  by (simp add: hmac_total_def)

lemma plain_aead_correct [simp]: "aead_correct plain_crypto"
  by (simp add: aead_correct_def)

lemma plain_aead_accepts [simp]: "aead_accepts plain_crypto m"
  by (simp add: aead_accepts_def)

lemma hex_digit_in: "hex_digit n \<in> set hex_digits"
  unfolding hex_digit_def by (rule nth_mem) (simp add: hex_digits_def)

lemma plain_hex_lowercase [simp]: "hex_lowercase plain_crypto"
  by (auto simp: hex_lowercase_def plain_crypto_def hex_digit_in)

lemma plain_digest [simp]: "keyed_digest plain_crypto k m = Inr m"
  by (simp add: keyed_digest_def)

lemma plain_fingerprint [simp]:
  "keyed_fingerprint plain_crypto k m = Inr (from_le_bytes (take 8 m))"
  by (simp add: keyed_fingerprint_def)

lemma plain_cache_key [simp]:
  "registry_cache_key plain_crypto r bs = Inr (to_le_bytes (reg_version r) @ bs)"
  by (simp add: registry_cache_key_def hmac_cache_key_def)

lemma plain_caching [simp]: "caching plain_crypto keys U"
  by (simp add: caching_def keys_distinct_def hmac_cache_key_def)

lemma plain_same_digest: "same_digest plain_crypto keys a b \<longleftrightarrow> a = b"
  by (auto simp: same_digest_def)

section \<open>A registry with one secret\<close>

definition one_secret :: "bytes \<Rightarrow> registry" where
  "one_secret s = snd (ingest plain_crypto ''KEY'' s (with_generated_keys plain_crypto 0))"

definition one_entry :: "bytes \<Rightarrow> secret_entry" where
  "one_entry s =
     \<lparr>e_id = 1, e_label = ''KEY'', e_len = length s, e_digest = s,
      e_prefilter = from_le_bytes (take 8 s),
      e_placeholder = ''{{CREBRO_SECRET:v1:KEY:s_'' @ hex_encode plain_crypto (take 6 (''KEY'' @ s)) @ ''}}'',
      e_capsule = \<lparr>cap_nonce = os_rng plain_crypto 5, cap_ciphertext = s\<rparr>\<rparr>"

lemma one_secret_entries: "s \<noteq> [] \<Longrightarrow> reg_entries (one_secret s) = [one_entry s]"
  by (simp add: one_secret_def one_entry_def ingest_def register_new_def with_generated_keys_def
      session_keys_generate_def registry_new_def placeholder_new_def capsule_encrypt_def
      push_entry_def Let_def)

lemma one_secret_placeholders:
  "s \<noteq> [] \<Longrightarrow> reg_placeholders (one_secret s) = [(e_placeholder (one_entry s), 1)]"
  by (simp add: one_secret_def one_entry_def ingest_def register_new_def with_generated_keys_def
      session_keys_generate_def registry_new_def placeholder_new_def capsule_encrypt_def
      push_entry_def Let_def)

lemma key_label [simp]: "label_ok ''KEY''"
  by (simp add: label_ok_def label_char_def is_ascii_alphanumeric_def is_ascii_upper_def)

lemma new_inv [simp]: "registry_inv plain_crypto (with_generated_keys plain_crypto 0)"
  by (simp add: registry_inv_def with_generated_keys_def session_keys_generate_def registry_wf_new
      registry_fits_def) (simp add: registry_new_def)

lemma one_secret_wf [simp]: "s \<noteq> [] \<Longrightarrow> registry_wf plain_crypto (one_secret s)"
  using ingest_wf [of plain_crypto "with_generated_keys plain_crypto 0" "''KEY''" s] new_inv
  by (simp add: one_secret_def [symmetric] registry_inv_def registry_fits_def one_secret_entries)

lemma one_secret_inv [simp]: "s \<noteq> [] \<Longrightarrow> registry_inv plain_crypto (one_secret s)"
  by (simp add: registry_inv_def registry_fits_def one_secret_entries)

lemma one_secret_secrets [simp]: "s \<noteq> [] \<Longrightarrow> secrets_of plain_crypto (one_secret s) = [s]"
  by (simp add: secrets_of_def one_secret_entries map_filter_simps secret_of_def one_entry_def)

section \<open>A naive search\<close>

text \<open>
  The first pattern that starts at a position is reported, and the search goes on after it.
\<close>

fun naive_from :: "nat \<Rightarrow> bytes list \<Rightarrow> nat \<Rightarrow> bytes \<Rightarrow> (nat \<times> nat \<times> nat) list" where
  "naive_from 0 pats i bs = []"
| "naive_from (Suc fuel) pats i bs =
     (if bs = [] then []
      else case List.find (\<lambda>k. prefix (pats ! k) bs) [0..<length pats] of
        None \<Rightarrow> naive_from fuel pats (Suc i) (tl bs)
      | Some k \<Rightarrow> (k, i, i + length (pats ! k)) #
          naive_from fuel pats (i + length (pats ! k)) (drop (length (pats ! k)) bs))"

definition naive_find :: "bytes list \<Rightarrow> automaton" where
  "naive_find pats bs = naive_from (length bs) pats 0 bs"

definition naive_build :: "bytes list \<Rightarrow> automaton option" where
  "naive_build pats = (if [] \<in> set pats then None else Some (naive_find pats))"

definition naive_lib :: matcher_lib where
  "naive_lib = \<lparr>ac_build = naive_build, hash_order = (\<lambda>xs. xs)\<rparr>"

definition search_ok :: "bytes list \<Rightarrow> bytes \<Rightarrow> nat \<Rightarrow> (nat \<times> nat \<times> nat) list \<Rightarrow> bool" where
  "search_ok pats bs i ms \<longleftrightarrow>
     (\<forall>(k, s, e) \<in> set ms. i \<le> s \<and> k < length pats \<and> occurs_at (pats ! k) bs s \<and>
        e = s + length (pats ! k)) \<and>
     sorted_wrt (\<lambda>(_, _, e) (_, s, _). e \<le> s) ms \<and>
     (\<forall>k < length pats. \<forall>j \<ge> i. occurs_at (pats ! k) bs j \<longrightarrow>
        (\<exists>(k', s, e) \<in> set ms. s < j + length (pats ! k) \<and> j < e))"

lemma search_ok_end:
  assumes "[] \<notin> set pats" and "length bs \<le> i"
  shows "search_ok pats bs i []"
proof -
  have "\<not> occurs_at (pats ! k) bs j" if "k < length pats" "i \<le> j" for k j
  proof
    assume "occurs_at (pats ! k) bs j"
    then have "length (pats ! k) = 0"
      using assms(2) that(2) occurs_atD(1) [of "pats ! k" bs j] by arith
    then show False
      using assms(1) nth_mem [OF that(1)] by simp
  qed
  then show ?thesis
    by (simp add: search_ok_def)
qed

lemma search_ok_skip:
  assumes "search_ok pats bs (Suc i) ms" and none: "\<And>k. k < length pats \<Longrightarrow> \<not> occurs_at (pats ! k) bs i"
  shows "search_ok pats bs i ms"
proof -
  have "Suc i \<le> j" if "i \<le> j" "occurs_at (pats ! k) bs j" "k < length pats" for k j
    using none [OF that(3)] that by (cases "i = j") auto
  then show ?thesis
    using assms(1) by (fastforce simp: search_ok_def)
qed

lemma search_ok_hit:
  assumes ok: "search_ok pats bs (i + length (pats ! k)) ms" and k: "k < length pats"
    and o: "occurs_at (pats ! k) bs i" and ne: "[] \<notin> set pats"
  shows "search_ok pats bs i ((k, i, i + length (pats ! k)) # ms)"
proof -
  have "\<exists>(k', s, e) \<in> set ((k, i, i + length (pats ! k)) # ms). s < j + length (pats ! k1) \<and> j < e"
    if j: "k1 < length pats" "i \<le> j" "occurs_at (pats ! k1) bs j" for k1 j
  proof (cases "i + length (pats ! k) \<le> j")
    case True
    then show ?thesis
      using ok j by (auto simp: search_ok_def)
  next
    case False
    have "0 < length (pats ! k1)"
      using ne nth_mem [OF j(1)] by (cases "pats ! k1") auto
    then have "i < j + length (pats ! k1)" "j < i + length (pats ! k)"
      using False j(2) by linarith+
    then show ?thesis by simp
  qed
  moreover have "\<forall>(k', s, e) \<in> set ms. i + length (pats ! k) \<le> s"
    using ok by (auto simp: search_ok_def)
  ultimately show ?thesis
    using ok k o unfolding search_ok_def by fastforce
qed

lemma naive_from_ok:
  assumes "[] \<notin> set pats" and "length (drop i bs) \<le> fuel" and "i \<le> length bs"
  shows "search_ok pats bs i (naive_from fuel pats i (drop i bs))"
  using assms(2,3)
proof (induction fuel arbitrary: i)
  case 0
  then show ?case
    using search_ok_end [OF assms(1), of bs i] by simp
next
  case (Suc fuel)
  show ?case
  proof (cases "length bs \<le> i")
    case True
    then show ?thesis
      using search_ok_end [OF assms(1) True] by simp
  next
    case i: False
    show ?thesis
    proof (cases "List.find (\<lambda>k. prefix (pats ! k) (drop i bs)) [0..<length pats]")
      case None
      have "search_ok pats bs (Suc i) (naive_from fuel pats (Suc i) (drop (Suc i) bs))"
        using Suc i by (intro Suc.IH) auto
      moreover have "\<not> occurs_at (pats ! k) bs i" if "k < length pats" for k
        using None that by (auto simp: find_None_iff occurs_at_prefix)
      ultimately show ?thesis
        using i None search_ok_skip by (simp add: drop_Suc tl_drop)
    next
      case (Some k)
      have k: "k < length pats" "occurs_at (pats ! k) bs i"
        using Some i by (auto simp: find_Some_iff occurs_at_prefix)
      have "0 < length (pats ! k)" "i + length (pats ! k) \<le> length bs"
        using assms(1) nth_mem [OF k(1)] occurs_atD(1) [OF k(2)] by auto
      moreover from this have "length (drop (i + length (pats ! k)) bs) \<le> fuel"
        using Suc.prems(1) unfolding length_drop by linarith
      ultimately have "search_ok pats bs (i + length (pats ! k))
          (naive_from fuel pats (i + length (pats ! k)) (drop (i + length (pats ! k)) bs))"
        using Suc.IH by blast
      from search_ok_hit [OF this k assms(1)] show ?thesis
        using i Some by (simp add: add.commute)
    qed
  qed
qed

lemma naive_lib_ok [simp]: "lib_ok naive_lib"
proof -
  have "automaton_ok pats (naive_find pats)" if ne: "[] \<notin> set pats" for pats
  proof -
    have "search_ok pats bs 0 (naive_find pats bs)" for bs
      using naive_from_ok [OF ne, of 0 bs "length bs"] by (simp add: naive_find_def)
    then show ?thesis
      unfolding automaton_ok_def search_ok_def by fastforce
  qed
  then show ?thesis
    by (auto simp: lib_ok_def naive_lib_def naive_build_def)
qed


lemma naive_restorer: "s \<noteq> [] \<Longrightarrow> \<exists>rr. restorer_new naive_lib (one_secret s) = Inr rr"
  by (simp add: restorer_new_def matcher_new_def naive_lib_def naive_build_def Let_def
      one_secret_placeholders one_entry_def)

end
