(* ===== verification/Samples.thy ===== *)
theory Samples
  imports Instances
begin

text \<open>
  Concrete inputs at which the properties are applied: the scanner on a registry with one secret,
  a JSON library that knows two documents and all strings, a fresh sanitizer, a proxy and a
  gateway around it.
\<close>

section \<open>Scanning for one secret\<close>

definition one_span :: "bytes \<Rightarrow> nat \<Rightarrow> redaction_span" where
  "one_span s i = \<lparr>sp_start = i, sp_len = length s, sp_id = 1, sp_placeholder = e_placeholder (one_entry s)\<rparr>"

lemma one_entry_simps:
  "e_len (one_entry s) = length s" "e_digest (one_entry s) = s" "e_id (one_entry s) = 1"
  "e_prefilter (one_entry s) = from_le_bytes (take 8 s)"
  by (simp_all add: one_entry_def)

lemma one_secret_window:
  assumes "s \<noteq> []"
  shows "scan_window plain_crypto (one_secret s) bs (length s) i =
    Inr (if sub_bytes bs i (i + length s) = s then [one_span s i] else [])"
  by (simp add: scan_window_def prefilter_window_def verify_window_def candidates_eq [OF one_secret_wf [OF assms]]
    one_secret_entries [OF assms] one_entry_simps one_span_def Let_def)

lemma one_secret_length:
  assumes "s \<noteq> []"
  shows "scan_length plain_crypto (one_secret s) bs (length s) =
    Inr (if length bs < length s then []
         else map (one_span s) (filter (\<lambda>i. sub_bytes bs i (i + length s) = s) [0..<length bs - length s + 1]))"
proof -
  have *: "try_collect (\<lambda>i. Inr (if P i then [f i] else [])) xs = Inr (map f (filter P xs))"
    for P and f :: "nat \<Rightarrow> redaction_span" and xs :: "nat list"
    by (induction xs) auto
  have "scan_window plain_crypto (one_secret s) bs (length s) =
      (\<lambda>i. Inr (if sub_bytes bs i (i + length s) = s then [one_span s i] else []))"
    using one_secret_window [OF assms] by blast
  then show ?thesis
    unfolding scan_length_def by (simp only: *) simp
qed

lemma one_secret_scan:
  assumes "s \<noteq> []"
  shows "scan_string_token plain_crypto bs (one_secret s) =
    Inr (select_longest_non_overlapping (if length bs < length s then []
      else map (one_span s) (filter (\<lambda>i. sub_bytes bs i (i + length s) = s) [0..<length bs - length s + 1])))"
  using assms one_secret_length [OF assms]
  by (auto simp: scan_string_token_def registry_is_empty_def one_secret_entries registry_lengths_def
      one_entry_simps min_secret_len_def select_longest_non_overlapping_def simp del: upt_Suc)

lemma one_placeholder: "e_placeholder (one_entry ''pw'') = ''{{CREBRO_SECRET:v1:KEY:s_4b45597077}}''"
  by (simp add: one_entry_def plain_crypto_def hex_digit_def hex_digits_def)

lemma one_reference:
  "redact_reference plain_crypto (one_secret ''pw'') ''xpwy'' =
     Inr \<lparr>ss_bytes = ''x{{CREBRO_SECRET:v1:KEY:s_4b45597077}}y'', ss_ids = [1]\<rparr>"
  by (simp add: redact_reference_def one_secret_scan sub_bytes_def one_placeholder select_longest_non_overlapping_def
      one_span_def span_overlaps_def redacted_with_def apply_spans_def span_end_def secret_ids_from_spans_def upt_rec)

section \<open>A JSON library\<close>

definition sample_value :: "bytes \<Rightarrow> json" where
  "sample_value s = JObject [(''k'', JString s)]"

definition sample_text :: "bytes \<Rightarrow> bytes" where
  "sample_text s = ''{'' @ [CHR 0x22] @ ''k'' @ [CHR 0x22] @ '':'' @ [CHR 0x22] @ s @ [CHR 0x22] @ ''}''"

definition toy_serde :: serde where
  "toy_serde =
     \<lparr>from_slice = (\<lambda>b.
        if 2 \<le> length b \<and> hd b = CHR 0x22 \<and> last b = CHR 0x22 then Some (JString (butlast (tl b)))
        else if 8 \<le> length b \<and> b = sample_text (butlast (butlast (drop 6 b)))
        then Some (sample_value (butlast (butlast (drop 6 b))))
        else None),
      to_vec = (\<lambda>v. case v of
        JString s \<Rightarrow> Some (CHR 0x22 # s @ [CHR 0x22])
      | JObject [(k, JString s)] \<Rightarrow> if k = ''k'' then Some (sample_text s) else None
      | _ \<Rightarrow> None)\<rparr>"

lemma toy_from_sample [simp]: "from_slice toy_serde (sample_text s) = Some (sample_value s)"
  by (simp add: toy_serde_def sample_text_def butlast_append)

lemma toy_to_sample [simp]: "to_vec toy_serde (sample_value s) = Some (sample_text s)"
  by (simp add: toy_serde_def sample_value_def)

lemma toy_from_string [simp]: "from_slice toy_serde (CHR 0x22 # s @ [CHR 0x22]) = Some (JString s)"
  by (simp add: toy_serde_def)

lemma toy_to_string [simp]: "to_vec toy_serde (JString s) = Some (CHR 0x22 # s @ [CHR 0x22])"
  by (simp add: toy_serde_def)

lemma toy_serde_ok [simp]: "serde_ok toy_serde"
proof -
  have "from_slice toy_serde b = Some v" if v: "to_vec toy_serde v = Some b" for v b
  proof (cases v)
    case (JObject m)
    then obtain s where "v = sample_value s" "b = sample_text s"
      using v by (auto simp: toy_serde_def sample_value_def split: list.splits prod.splits json.splits if_splits)
    then show ?thesis by simp
  next
    case (JString s)
    then have "b = CHR 0x22 # s @ [CHR 0x22]"
      using v by simp
    then show ?thesis
      unfolding JString by (simp only: toy_from_string)
  qed (use v in \<open>simp_all add: toy_serde_def\<close>)
  moreover have "json_wf v" if "from_slice toy_serde b = Some v" for b v
    using that by (auto simp: toy_serde_def sample_value_def split: if_splits)
  ultimately show ?thesis
    by (auto simp: serde_ok_def)
qed

section \<open>A fresh sanitizer\<close>

definition no_patterns :: pattern_set where
  "no_patterns = \<lparr>ps_env = \<lparr>exact_keys = [], key_markers = [''KEY''], common_values = [],
     min_value_len = 2, min_entropy = 1\<rparr>, ps_patterns = []\<rparr>"

definition start_state :: san_state where
  "start_state = (cache_new 4, one_secret ''pw'')"

lemma start_registry [simp]: "snd start_state = one_secret ''pw''"
  by (simp add: start_state_def)

lemma start_chunk [simp]: "rc_chunk (fst start_state) = 65536"
  by (simp add: start_state_def cache_new_def cache_new_with_chunk_size_def)

lemma start_inv: "san_inv plain_crypto U Ob start_state"
  by (simp add: san_inv_def start_state_def cache_new_def cache_coherent_new)

lemma start_walk_inv [simp]: "walk_inv plain_crypto lib ps U start_state"
  by (simp add: walk_inv_def start_inv)

lemma no_matches [simp]: "auto_register_pattern_matches c no_patterns tx r = (Inr False, r)"
  by (simp add: auto_register_pattern_matches_def auto_redact_matches_def no_patterns_def
      select_longest_non_overlapping_matches_def)

lemma no_angle_tag_free: "CHR ''<'' \<notin> set s \<Longrightarrow> tag_free s"
proof -
  assume s: "CHR ''<'' \<notin> set s"
  have "\<not> occurs_in pat s" if "CHR ''<'' \<in> set pat" for pat
  proof
    assume "occurs_in pat s"
    then obtain i where "sub_bytes s i (i + length pat) = pat"
      by (auto simp: occurs_in_def occurs_at_def)
    then have "set pat \<subseteq> set s"
      by (metis set_drop_subset set_take_subset sub_bytes_def subset_trans)
    then show False
      using s that by blast
  qed
  then show ?thesis
    by (simp add: tag_free_def OPEN_TAG_def CLOSE_TAG_def)
qed

lemma sample_string_run:
  "\<exists>rc'. sanitize_decoded_string plain_crypto no_patterns ''xpwy'' start_state =
     (Inr (''x{{CREBRO_SECRET:v1:KEY:s_4b45597077}}y'', [1]), (rc', one_secret ''pw''))"
proof -
  have "scannable plain_crypto (one_secret ''pw'') UNIV (\<lambda>_ _. False) (rc_chunk (fst start_state)) ''xpwy''"
    by (simp add: scannable_def chunks_agree_def)
  then obtain rc' where plain: "sanitize_plain_part plain_crypto ''xpwy'' start_state =
      (Inr (''x{{CREBRO_SECRET:v1:KEY:s_4b45597077}}y'', [1]), (rc', one_secret ''pw''))"
    using sanitize_plain_part_spec [of plain_crypto UNIV "\<lambda>_ _. False" "fst start_state" "one_secret ''pw''" "''xpwy''"]
      start_inv [of UNIV "\<lambda>_ _. False"]
    by (auto simp: one_reference start_state_def)
  have tags: "tag_free ''xpwy''"
    by (rule no_angle_tag_free) simp
  have "utf8_valid ''x{{CREBRO_SECRET:v1:KEY:s_4b45597077}}y''"
    by (rule utf8_valid_ascii) auto
  then show ?thesis
    using plain directives_none [OF tags, of plain_crypto "sanitize_plain_part plain_crypto" "fst start_state" "snd start_state"]
    by (auto simp: sanitize_decoded_string_def start_state_def checked_utf8_def registry_is_empty_def one_secret_entries)
qed

definition sample_sanitizer :: json_sanitizer where
  "sample_sanitizer = \<lparr>js_patterns = no_patterns, js_guidance = False\<rparr>"

definition redacted_sample :: bytes where
  "redacted_sample = ''x{{CREBRO_SECRET:v1:KEY:s_4b45597077}}y''"

lemma sample_path [simp]: "action_for_path [''k''] = Scan"
  by (simp add: action_for_path_def ends_with_def Let_def suffix_def)

lemma sample_value_run:
  "\<exists>rc'. sanitize_value plain_crypto toy_serde no_patterns [] (sample_value ''xpwy'') start_state =
     (Inr (sample_value redacted_sample, [1], []), (rc', one_secret ''pw''))"
  using sample_string_run
  by (auto simp: sample_value_def is_cacheable_object_path_def sanitize_json_string_def redacted_sample_def)

lemma sample_json_run:
  "\<exists>report rc'. sanitize_json plain_crypto toy_serde sample_sanitizer (sample_text ''xpwy'') start_state =
     (Inr (sample_text redacted_sample, report), (rc', one_secret ''pw''))"
  using sample_value_run
  by (auto simp: sanitize_json_def sample_sanitizer_def registry_is_empty_def one_secret_entries
      parse_json_def print_json_def inject_placeholder_guidance_if_needed_def)

lemma sample_value_ok: "value_ok toy_serde UNIV {} (rc_chunk (fst start_state)) (sample_value ''xpwy'')"
proof -
  have "to_vec toy_serde (JObject m) \<noteq> Some ''xpwy''" for m
    by (auto simp: toy_serde_def sample_text_def split: list.splits prod.splits json.splits if_splits)
  then show ?thesis
    by (simp add: sample_value_def plain_string_def object_known_def no_angle_tag_free)
qed

section \<open>A request\<close>

definition sample_lines :: "bytes list" where
  "sample_lines = [''POST / HTTP/1.1'', ''content-type: application/json'', ''content-length: 12'']"

definition sample_head :: bytes where
  "sample_head = str_join CRLF sample_lines"

definition sample_message :: bytes where
  "sample_message = sample_head @ CRLF @ CRLF @ sample_text ''xpwy''"

lemmas text_eval = is_header_def header_name_def split_once_def starts_with_def split_on.simps
  eq_ignore_ascii_case_def to_ascii_lowercase_def to_ascii_lower_def is_ascii_upper_def line_value_def
  str_trim_visible visible_def

lemma sample_line_ok: "l \<in> set sample_lines \<Longrightarrow> \<not> occurs_in CRLF l"
  using occurs_in_chars [of CRLF l] by (auto simp: sample_lines_def)

lemma sample_head_lines [simp]: "head_lines sample_head = sample_lines"
  using split_joined_lines [of "butlast sample_lines" "last sample_lines"] sample_line_ok
  by (simp add: head_lines_def sample_head_def sample_lines_def)

lemma sample_head_utf8 [simp]: "utf8_valid sample_head"
  unfolding sample_head_def sample_lines_def by (rule utf8_valid_ascii) auto

lemma sample_content_type: "header_value sample_head ''content-type'' = Some ''application/json''"
  unfolding header_value_lines [OF sample_head_utf8] by (simp add: sample_lines_def text_eval)

lemma sample_json_head [simp]: "is_json_http_body sample_head" "is_redactable_http_body sample_head"
  by (simp_all add: is_redactable_http_body_def is_json_http_body_def content_type_def sample_content_type
      media_type_def text_eval)

lemma sample_content_length [simp]: "content_length sample_head = Some 12"
proof -
  have "str_trim ''12'' = ''12''"
    by (simp add: text_eval)
  moreover have "header_value sample_head ''content-length'' = Some ''12''"
    unfolding header_value_lines [OF sample_head_utf8] by (simp add: sample_lines_def text_eval)
  ultimately show ?thesis
    by (simp add: content_length_def from_str_radix_def digit_val_def is_ascii_digit_def)
qed

lemma sample_accept_encoding [simp]: "header_value sample_head ''accept-encoding'' = None"
  unfolding header_value_lines [OF sample_head_utf8] by (simp add: sample_lines_def text_eval)

lemma sample_head_closed: "crlf_lines sample_lines = sample_head @ CRLF"
  using crlf_lines_butlast [of "butlast sample_lines" "last sample_lines"]
  by (simp add: sample_head_def sample_lines_def)

lemma sample_header_end: "find_header_end (sample_head @ CRLF @ CRLF @ body) = Some (length sample_head)"
proof -
  have "\<forall>l \<in> set sample_lines. l \<noteq> [] \<and> \<not> occurs_in CRLF l"
    using sample_line_ok by (auto simp: sample_lines_def)
  from find_header_end_lines [OF _ this, of body] show ?thesis
    by (simp add: sample_head_closed) (simp add: sample_lines_def)
qed

definition sample_request :: http_head where
  "sample_request = \<lparr>hh_bytes = sample_message, hh_delimiter_start = length sample_head\<rparr>"

lemma sample_request_simps [simp]:
  "head_without_delimiter sample_request = sample_head" "extra_bytes sample_request = sample_text ''xpwy''"
  "hh_bytes sample_request = sample_message"
  by (simp_all add: sample_request_def sample_message_def head_without_delimiter_def extra_bytes_def)

lemma sample_text_length: "length (sample_text s) = 8 + length s"
  by (simp add: sample_text_def)

lemma sample_head_length: "length sample_head = 67"
  by (simp add: sample_head_def sample_lines_def)

definition no_format :: "stats_file stats_format" where
  "no_format = \<lparr>stats_from_slice = Some, stats_to_vec_pretty = Some\<rparr>"

definition sample_env :: "stats_file proxy_env" where
  "sample_env =
     \<lparr>env_crypto = plain_crypto, env_serde = toy_serde, env_matcher = naive_lib, env_sanitizer = sample_sanitizer,
      env_format = no_format, env_recorder = \<lparr>stats_enabled = True\<rparr>, env_now = 0, env_tap = False,
      env_allowlist = {''example.com:443''}, env_mitm = True\<rparr>"

definition sample_state :: "stats_file proxy_state" where
  "sample_state = \<lparr>px_san = start_state, px_stats = None, px_tap = []\<rparr>"

lemma sample_env_simps [simp]:
  "env_crypto sample_env = plain_crypto" "env_serde sample_env = toy_serde" "env_matcher sample_env = naive_lib"
  "env_sanitizer sample_env = sample_sanitizer" "px_san sample_state = start_state"
  by (simp_all add: sample_env_def sample_state_def)

lemma sample_message_end: "find_header_end sample_message = Some (length sample_head)"
  unfolding sample_message_def by (rule sample_header_end)

lemma sample_message_length: "length sample_message = 83"
  by (simp add: sample_message_def sample_text_length sample_head_length)

lemma sample_read: "read_http_head [Got sample_message] = (Inr sample_request, [])"
  by (simp add: read_http_head_def read_head_from.simps [of "[]"] sample_message_end sample_message_length
      sample_request_def head_limit_def sample_message_def [THEN arg_cong [where f = "\<lambda>x. x = []"]])

lemma sample_rest: "read_remaining_body sample_request src = (Inr sample_request, src)"
  by (simp add: read_remaining_body_def sample_text_length)

lemma sample_body_run:
  "\<exists>report rc'. sanitize_http_body sample_env sample_head (sample_text ''xpwy'') start_state =
     (Inr (sample_text redacted_sample, report), (rc', one_secret ''pw''))"
  using sample_json_run by (simp add: sanitize_http_body_def)

lemma sample_redacted_length: "length (sample_text redacted_sample) = 47"
  by (simp add: sample_text_length redacted_sample_def)

lemma sample_rewritten:
  "rewrite_http_head_for_body sample_head 47 True =
     Inr (crlf_lines [''POST / HTTP/1.1'', ''content-type: application/json'', ''content-length: 47''])"
proof -
  have "print_radix 10 47 = ''47''"
    by (simp add: print_radix.simps [of 10] digit_char_def char_of_eq_iff)
  then show ?thesis
    by (simp add: rewrite_http_head_for_body_def sample_lines_def body_header_line_def content_length_line_def
        map_filter_simps text_eval)
qed

lemma sample_request_run:
  "\<exists>sent st' rc'. sanitize_http_request sample_env sample_request sample_state = (Inr sent, st') \<and> sent \<noteq> [] \<and>
     length sent < 2 ^ 64 \<and> px_san st' = (rc', one_secret ''pw'')"
proof -
  obtain report rc' where body: "sanitize_http_body sample_env sample_head (sample_text ''xpwy'') start_state =
      (Inr (sample_text redacted_sample, report), (rc', one_secret ''pw''))"
    using sample_body_run by blast
  let ?head = "crlf_lines [''POST / HTTP/1.1'', ''content-type: application/json'', ''content-length: 47'']"
  have "sample_text redacted_sample \<noteq> sample_text ''xpwy''"
    using sample_redacted_length by (auto simp: sample_text_length dest!: arg_cong [where f = length])
  then have "\<exists>st'. sanitize_http_request sample_env sample_request sample_state =
      (Inr (?head @ CRLF @ sample_text redacted_sample), st') \<and> px_san st' = (rc', one_secret ''pw'')"
    using body by (simp add: sanitize_http_request_def sanitize_recorded_def sample_redacted_length sample_rewritten Let_def
        del: crlf_lines_simps)
  moreover have "length (?head @ CRLF @ sample_text redacted_sample) < 2 ^ 64"
    using sample_redacted_length by simp
  ultimately show ?thesis
    by blast
qed

end
