(* ===== verification/Boundary_Sample.thy ===== *)
theory Boundary_Sample
  imports Instances Long_Strings
begin

text \<open>
  A registry with three secrets and a string of 65542 bytes in which they overlap in a row at the end
  of the first chunk: the input at which a secret is lost.
\<close>

section \<open>Registering with the transparent primitives\<close>

definition plain_entry :: "u64 \<Rightarrow> nat \<Rightarrow> bytes \<Rightarrow> bytes \<Rightarrow> secret_entry" where
  "plain_entry ident draws label s =
     \<lparr>e_id = ident, e_label = label, e_len = length s, e_digest = s,
      e_prefilter = from_le_bytes (take 8 s),
      e_placeholder =
        ''{{CREBRO_SECRET:v1:'' @ label @ '':s_'' @ hex_encode plain_crypto (take 6 (label @ s)) @ ''}}'',
      e_capsule = \<lparr>cap_nonce = os_rng plain_crypto draws, cap_ciphertext = s\<rparr>\<rparr>"

lemma plain_entry_simps [simp]:
  "e_len (plain_entry i n label s) = length s" "e_digest (plain_entry i n label s) = s"
  "e_id (plain_entry i n label s) = i"
  by (simp_all add: plain_entry_def)

lemma ingest_plain_new:
  assumes "s \<noteq> []" and "s \<notin> e_digest ` set (reg_entries r)"
  shows "reg_entries (snd (ingest plain_crypto label s r)) =
    reg_entries r @ [plain_entry (word_of_nat (length (reg_entries r) + 1)) (reg_draws r) label s]"
proof -
  have "List.find (\<lambda>e. e_digest e = s \<and> e_len e = length s) (reg_entries r) = None"
    using assms(2) by (auto simp: find_None_iff)
  then show ?thesis
    using assms(1)
    by (simp add: ingest_def register_new_def placeholder_new_def capsule_encrypt_def push_entry_def Let_def
        plain_entry_def)
qed

text \<open>A hit is an occurrence of the secret of an entry.\<close>

lemma plain_window_hit:
  assumes "registry_wf plain_crypto r"
  shows "window_hit plain_crypto r bs sp \<longleftrightarrow>
    span_end sp \<le> length bs \<and>
    (\<exists>e \<in> set (reg_entries r). sp_id sp = e_id e \<and> sp_placeholder sp = e_placeholder e \<and> sp_len sp = e_len e \<and>
       sub_bytes bs (sp_start sp) (span_end sp) = e_digest e)"
proof -
  have "e_digest e \<noteq> [] \<and> e_len e = length (e_digest e) \<and>
      prefilter_window plain_crypto r (e_digest e) = Inr (e_prefilter e)" if "e \<in> set (reg_entries r)" for e
    by (rule entry_wfD [OF assms that]) auto
  then show ?thesis
    by (fastforce simp: window_hit_def)
qed

section \<open>The registry and the string\<close>

definition three_secrets :: registry where
  "three_secrets =
     snd (ingest plain_crypto ''C'' ''stuv'' (snd (ingest plain_crypto ''B'' ''qrs''
       (snd (ingest plain_crypto ''A'' ''pq'' (with_generated_keys plain_crypto 0))))))"

definition boundary_string :: bytes where
  "boundary_string = replicate 65535 CHR ''x'' @ ''pqrstuv''"

lemma label_plain [simp]: "label_ok ''A''" "label_ok ''B''" "label_ok ''C''"
  by (simp_all add: label_ok_def label_char_def is_ascii_alphanumeric_def is_ascii_upper_def)

lemma new_entries [simp]: "reg_entries (with_generated_keys plain_crypto 0) = []"
  by (simp add: with_generated_keys_def session_keys_generate_def registry_new_def)

lemma three_entries:
  obtains i j k where "reg_entries three_secrets =
    [plain_entry 1 i ''A'' ''pq'', plain_entry 2 j ''B'' ''qrs'', plain_entry 3 k ''C'' ''stuv'']"
  unfolding three_secrets_def by (simp add: ingest_plain_new)

lemma three_secrets_wf: "registry_wf plain_crypto three_secrets"
proof -
  let ?r0 = "with_generated_keys plain_crypto 0"
  let ?r1 = "snd (ingest plain_crypto ''A'' ''pq'' ?r0)"
  let ?r2 = "snd (ingest plain_crypto ''B'' ''qrs'' ?r1)"
  have "registry_wf plain_crypto ?r0"
    using new_inv by (simp add: registry_inv_def)
  then have "registry_wf plain_crypto ?r1"
    by (rule ingest_wf) (simp_all add: registry_fits_def ingest_plain_new)
  then have "registry_wf plain_crypto ?r2"
    by (rule ingest_wf) (simp_all add: registry_fits_def ingest_plain_new)
  then show ?thesis
    unfolding three_secrets_def by (rule ingest_wf) (simp_all add: registry_fits_def ingest_plain_new)
qed

lemma boundary_length: "length boundary_string = 65542"
  by (simp add: boundary_string_def)

lemma boundary_sub_bytes: "sub_bytes boundary_string (65535 + i) (65535 + j) = sub_bytes ''pqrstuv'' i j"
  by (simp add: boundary_string_def sub_bytes_def)

text \<open>Only the last seven bytes matter.\<close>

lemma boundary_occurrence:
  assumes "sub_bytes boundary_string i (i + length s) = s" and "s \<noteq> []" and "CHR ''x'' \<notin> set s"
  obtains j where "i = 65535 + j" "sub_bytes ''pqrstuv'' j (j + length s) = s"
proof -
  have "65535 \<le> i"
  proof (rule ccontr)
    assume i: "\<not> 65535 \<le> i"
    obtain n where n: "length s = Suc n"
      using assms(2) by (cases s) auto
    have "sub_bytes boundary_string i (i + length s) =
        take (Suc n) (replicate (65535 - i) CHR ''x'' @ ''pqrstuv'')"
      using i by (simp add: sub_bytes_def boundary_string_def n)
    also have "replicate (65535 - i) CHR ''x'' = CHR ''x'' # replicate (65535 - i - 1) CHR ''x''"
      using i by (metis Suc_diff_1 not_le replicate_Suc zero_less_diff)
    finally show False
      using assms(1,3) by (metis append_Cons list.set_intros(1) take_Suc_Cons)
  qed
  then obtain j where j: "i = 65535 + j"
    by (metis le_Suc_ex)
  then show ?thesis
    using that assms(1) boundary_sub_bytes [of j "j + length s"] by (simp add: add.assoc)
qed

lemma tail_occurrences:
  "sub_bytes ''pqrstuv'' j (j + 2) = ''pq'' \<longleftrightarrow> j = 0"
  "sub_bytes ''pqrstuv'' j (j + 3) = ''qrs'' \<longleftrightarrow> j = 1"
  "sub_bytes ''pqrstuv'' j (j + 4) = ''stuv'' \<longleftrightarrow> j = 3"
  by (auto simp: sub_bytes_def drop_Cons' take_Cons' split: if_splits)

lemma boundary_places:
  assumes "sub_bytes boundary_string i (i + n) = s"
  shows "n = 2 \<Longrightarrow> s = ''pq'' \<Longrightarrow> i = 65535" "n = 3 \<Longrightarrow> s = ''qrs'' \<Longrightarrow> i = 65536"
    "n = 4 \<Longrightarrow> s = ''stuv'' \<Longrightarrow> i = 65538"
proof -
  have place: "\<exists>j. i = 65535 + j \<and> sub_bytes ''pqrstuv'' j (j + n) = s"
    if "n = length s" "s \<noteq> []" "CHR ''x'' \<notin> set s"
    using boundary_occurrence [of i s] assms that by metis
  show "n = 2 \<Longrightarrow> s = ''pq'' \<Longrightarrow> i = 65535"
    using place tail_occurrences(1) by auto
  show "n = 3 \<Longrightarrow> s = ''qrs'' \<Longrightarrow> i = 65536"
    using place tail_occurrences(2) by auto
  show "n = 4 \<Longrightarrow> s = ''stuv'' \<Longrightarrow> i = 65538"
    using place tail_occurrences(3) by auto
qed

text \<open>The hits of an entry are the places of its secret.\<close>

definition hit_at :: "secret_entry \<Rightarrow> nat \<Rightarrow> redaction_span" where
  "hit_at e i = \<lparr>sp_start = i, sp_len = e_len e, sp_id = e_id e, sp_placeholder = e_placeholder e\<rparr>"

lemma hit_at_simps [simp]:
  "sp_start (hit_at e i) = i" "sp_len (hit_at e i) = e_len e" "span_end (hit_at e i) = i + e_len e"
  by (simp_all add: hit_at_def span_end_def)

lemma boundary_hits:
  assumes entries: "reg_entries three_secrets = [a, g, d]"
    and digests: "e_digest a = ''pq''" "e_digest g = ''qrs''" "e_digest d = ''stuv''"
    and lens: "e_len a = 2" "e_len g = 3" "e_len d = 4"
  shows "window_hit plain_crypto three_secrets boundary_string sp \<longleftrightarrow>
    sp = hit_at a 65535 \<or> sp = hit_at g 65536 \<or> sp = hit_at d 65538"
proof -
  note hit = plain_window_hit [OF three_secrets_wf, of boundary_string]
  have here: "sub_bytes boundary_string 65535 65537 = ''pq''" "sub_bytes boundary_string 65536 65539 = ''qrs''"
    "sub_bytes boundary_string 65538 65542 = ''stuv''"
    using boundary_sub_bytes [of 0 2] boundary_sub_bytes [of 1 4] boundary_sub_bytes [of 3 7]
    by (simp_all add: sub_bytes_def)
  show ?thesis
  proof
    assume "window_hit plain_crypto three_secrets boundary_string sp"
    then obtain e where e: "e \<in> {a, g, d}" "sp_id sp = e_id e" "sp_placeholder sp = e_placeholder e"
      "sp_len sp = e_len e" "sub_bytes boundary_string (sp_start sp) (span_end sp) = e_digest e"
      by (auto simp: hit entries)
    then have sp: "sp = hit_at e (sp_start sp)"
      by (simp add: hit_at_def)
    show "sp = hit_at a 65535 \<or> sp = hit_at g 65536 \<or> sp = hit_at d 65538"
      using e(1,4,5) boundary_places [of "sp_start sp" "sp_len sp" "e_digest e"] digests lens sp
      unfolding span_end_def by fastforce
  next
    assume "sp = hit_at a 65535 \<or> sp = hit_at g 65536 \<or> sp = hit_at d 65538"
    then show "window_hit plain_crypto three_secrets boundary_string sp"
      using here digests lens by (auto simp: hit entries boundary_length hit_at_def span_end_def)
  qed
qed

lemma three_hits:
  "\<exists>a g d. lost_at_boundary plain_crypto three_secrets boundary_string 65536 a g d \<and>
     sub_bytes boundary_string (sp_start a) (span_end a) = ''pq''"
proof -
  obtain i j k where three: "reg_entries three_secrets =
      [plain_entry 1 i ''A'' ''pq'', plain_entry 2 j ''B'' ''qrs'', plain_entry 3 k ''C'' ''stuv'']"
    by (rule three_entries)
  define a g d where "a = plain_entry 1 i ''A'' ''pq''" and "g = plain_entry 2 j ''B'' ''qrs''"
    and "d = plain_entry 3 k ''C'' ''stuv''"
  have entries: "reg_entries three_secrets = [a, g, d]"
    by (simp add: three a_def g_def d_def)
  have digests: "e_digest a = ''pq''" "e_digest g = ''qrs''" "e_digest d = ''stuv''"
    and lens: "e_len a = 2" "e_len g = 3" "e_len d = 4"
    by (simp_all add: a_def g_def d_def)
  note hits = boundary_hits [OF entries digests lens]
  have max_len: "max_secret_len three_secrets = 4"
    by (simp add: max_secret_len_def entries lens)
  have "lost_at_boundary plain_crypto three_secrets boundary_string 65536
      (hit_at a 65535) (hit_at g 65536) (hit_at d 65538)"
    unfolding lost_at_boundary_def hits max_len by (simp add: span_overlaps_def boundary_length lens)
  moreover have "sub_bytes boundary_string (sp_start (hit_at a 65535)) (span_end (hit_at a 65535)) = ''pq''"
    using boundary_sub_bytes [of 0 2] by (simp add: sub_bytes_def lens)
  ultimately show ?thesis
    by blast
qed

end
