(* ===== verification/Cache_History.thy ===== *)
theory Cache_History
  imports Redaction_Cache
begin

text \<open>
  The redaction cache over time: a history is any list of the operations that change it. Every
  history keeps the bound and the order of use, and a key that was used stays in the cache until
  as many others were used as it has room for.
\<close>

section \<open>Histories\<close>

datatype cache_op =
    Insert_op bytes cache_entry
  | Lookup_op bytes
  | Flush_op u64
  | Redact_op registry bytes

fun run_op :: "crypto \<Rightarrow> cache_op \<Rightarrow> redaction_cache \<Rightarrow> redaction_cache" where
  "run_op c (Insert_op key entry) rc = cache_insert key entry rc"
| "run_op c (Lookup_op key) rc = snd (cached_entry key rc)"
| "run_op c (Flush_op version) rc = cache_flush version rc"
| "run_op c (Redact_op r bs) rc = snd (sanitize_string_detailed c bs r rc)"

definition run_ops :: "crypto \<Rightarrow> cache_op list \<Rightarrow> redaction_cache \<Rightarrow> redaction_cache" where
  "run_ops c ops = fold (run_op c) ops"

section \<open>The bound\<close>

text \<open>A cache with the limit \<open>m\<close> whose order of use is right.\<close>

definition bounded_by :: "nat \<Rightarrow> redaction_cache \<Rightarrow> bool" where
  "bounded_by m rc \<longleftrightarrow> cache_ok rc \<and> rc_max rc = m"

lemma bounded_insert: "bounded_by m rc \<Longrightarrow> bounded_by m (cache_insert key entry rc)"
  by (simp add: bounded_by_def cache_insert_ok)

lemma bounded_lookup: "bounded_by m rc \<Longrightarrow> bounded_by m (snd (cached_entry key rc))"
proof -
  assume ok: "bounded_by m rc"
  obtain found rc' where g: "cached_entry key rc = (found, rc')"
    by fastforce
  show ?thesis
    using cache_ok_cached_entry [of rc key] cached_entry_keeps(3) [OF g] g ok by (simp add: bounded_by_def)
qed

lemma bounded_flush: "bounded_by m rc \<Longrightarrow> bounded_by m (cache_flush v rc)"
  by (simp add: bounded_by_def cache_ok_flush) (simp add: cache_flush_def)

lemma bounded_sync: "bounded_by m rc \<Longrightarrow> bounded_by m (sync_registry_version r rc)"
  by (simp add: sync_registry_version_def bounded_flush)

lemma bounded_counters [simp]:
  "bounded_by m (count_hit rc) = bounded_by m rc" "bounded_by m (count_miss rc) = bounded_by m rc"
  "bounded_by m (count_scan rc) = bounded_by m rc"
  by (simp_all add: bounded_by_def)

lemma bounded_and_then:
  assumes "bounded_by m (snd x)" and "\<And>a rc. bounded_by m rc \<Longrightarrow> bounded_by m (snd (f a rc))"
  shows "bounded_by m (snd (and_then_st x f))"
  using assms by (cases x; cases "fst x") auto

lemma bounded_scan_and_store: "bounded_by m rc \<Longrightarrow> bounded_by m (snd (scan_and_store c key bs r rc))"
  unfolding scan_and_store_def by (rule bounded_and_then) (simp_all add: bounded_insert)

lemma bounded_spans_for_window: "bounded_by m rc \<Longrightarrow> bounded_by m (snd (spans_for_window c w r rc))"
  unfolding spans_for_window_def
proof (rule bounded_and_then)
  fix key rc1 assume "bounded_by m rc1"
  then have "bounded_by m (snd (cached_entry key rc1))"
    by (rule bounded_lookup)
  then show "bounded_by m (snd (case cached_entry key rc1 of
      (Some NoSecret, rc) \<Rightarrow> (Inr [], count_hit rc)
    | (Some (Spans spans), rc) \<Rightarrow> (Inr spans, count_hit rc)
    | (_, rc) \<Rightarrow> scan_and_store c key w r rc))"
    using bounded_scan_and_store
    by (cases "cached_entry key rc1") (auto split: option.split cache_entry.split)
qed simp

lemma bounded_scan_chunks: "bounded_by m rc \<Longrightarrow> bounded_by m (snd (scan_chunks c bs r overlap chunk starts rc))"
proof (induction starts arbitrary: rc)
  case (Cons start starts)
  show ?case
    unfolding scan_chunks.simps Let_def
    by (intro bounded_and_then bounded_spans_for_window Cons) simp_all
qed simp

lemma bounded_sanitize_string:
  assumes "bounded_by m rc"
  shows "bounded_by m (snd (sanitize_string_detailed c bs r rc))"
proof -
  note sync = bounded_sync [OF assms, of r]
  have large: "bounded_by m (snd (sanitize_large_string_detailed c bs r rc))"
    unfolding sanitize_large_string_detailed_def Let_def
    by (intro bounded_and_then bounded_scan_chunks sync) simp
  have look: "bounded_by m (snd (case cached_entry key rc1 of
      (Some NoSecret, rc) \<Rightarrow> (Inr (unchanged bs), count_hit rc)
    | (Some (Spans spans), rc) \<Rightarrow> (Inr (redacted_with bs spans), count_hit rc)
    | (Some (Sanitized out ids _), rc) \<Rightarrow> (Inr \<lparr>ss_bytes = out, ss_ids = ids\<rparr>, count_hit rc)
    | (None, rc) \<Rightarrow> and_then_st (scan_and_store c key bs r rc) (\<lambda>spans rc. (Inr (redacted_with bs spans), rc))))"
    if "bounded_by m rc1" for key rc1
  proof -
    obtain found rc2 where g: "cached_entry key rc1 = (found, rc2)"
      by fastforce
    have rc2: "bounded_by m rc2"
      using bounded_lookup [OF that, of key] g by simp
    have "bounded_by m (snd (and_then_st (scan_and_store c key bs r rc2) (\<lambda>spans rc. (Inr (redacted_with bs spans), rc))))"
      by (rule bounded_and_then [OF bounded_scan_and_store [OF rc2]]) simp
    then show ?thesis
      using g rc2 by (simp split: option.split cache_entry.split del: and_then_st_simps)
  qed
  have "bounded_by m (snd (registry_cache_key c r bs, sync_registry_version r rc))"
    using sync by simp
  from bounded_and_then [OF this look] show ?thesis
    using assms large unfolding sanitize_string_detailed_def Let_def by (simp del: and_then_st_simps)
qed

lemma bounded_run_op: "bounded_by m rc \<Longrightarrow> bounded_by m (run_op c op rc)"
  by (cases op) (simp_all add: bounded_insert bounded_lookup bounded_flush bounded_sanitize_string)

lemma bounded_run_ops: "bounded_by m rc \<Longrightarrow> bounded_by m (run_ops c ops rc)"
  unfolding run_ops_def by (induction ops arbitrary: rc) (simp_all add: bounded_run_op)

lemma bounded_new: "bounded_by m (cache_new_with_chunk_size m n)"
  by (simp add: bounded_by_def cache_ok_new) (simp add: cache_new_with_chunk_size_def)

section \<open>What was used stays\<close>

text \<open>The key is held, and only keys of \<open>T\<close> were used after it.\<close>

definition recent :: "bytes \<Rightarrow> cache_entry \<Rightarrow> bytes set \<Rightarrow> redaction_cache \<Rightarrow> bool" where
  "recent k e T rc \<longleftrightarrow>
     map_of (rc_entries rc) k = Some e \<and> (\<exists>a b. rc_order rc = a @ k # b \<and> set b \<subseteq> T)"

lemma recent_used:
  "recent k e T rc \<Longrightarrow> key \<in> T \<Longrightarrow> key \<noteq> k \<Longrightarrow> rc_order rc' = filter (\<lambda>x. x \<noteq> key) (rc_order rc) @ [key] \<Longrightarrow>
     map_of (rc_entries rc') k = Some e \<Longrightarrow> recent k e T rc'"
  unfolding recent_def by fastforce

lemma recent_lookup:
  assumes "recent k e T rc" and "key \<in> T \<or> key = k"
  shows "recent k e T (snd (cached_entry key rc))"
proof (cases "map_of (rc_entries rc) key")
  case (Some entry)
  then have order: "rc_order (snd (cached_entry key rc)) = filter (\<lambda>x. x \<noteq> key) (rc_order rc) @ [key]"
    and entries: "rc_entries (snd (cached_entry key rc)) = rc_entries rc"
    by (simp_all add: cached_entry_def cache_touch_def Let_def)
  show ?thesis
  proof (cases "key = k")
    case True
    have "rc_order (snd (cached_entry key rc)) = filter (\<lambda>x. x \<noteq> key) (rc_order rc) @ k # []"
      using order True by simp
    then show ?thesis
      using assms(1) entries unfolding recent_def by (metis empty_subsetI list.set(1))
  next
    case False
    then show ?thesis
      using assms recent_used [OF assms(1) _ False order] entries by (auto simp: recent_def)
  qed
qed (use assms in \<open>simp add: cached_entry_def\<close>)

lemma recent_insert:
  assumes "recent k e T rc" and ok: "bounded_by m rc" and key: "key \<in> T" "key \<noteq> k"
    and room: "finite T" "card T < m"
  shows "recent k e T (cache_insert key entry rc)"
proof -
  have cok: "cache_ok rc" and m: "rc_max rc = m" "m \<noteq> 0"
    using ok room by (simp_all add: bounded_by_def)
  obtain a b where order: "rc_order rc = a @ k # b" "set b \<subseteq> T" and held: "map_of (rc_entries rc) k = Some e"
    using assms(1) by (auto simp: recent_def)
  show ?thesis
  proof (cases "key \<in> fst ` set (rc_entries rc) \<or> length (rc_entries rc) < rc_max rc")
    case True
    have "cache_insert key entry rc = pushed key entry rc"
      by (rule cache_insert_not_full [OF cok _ True]) (simp add: m)
    then show ?thesis
      using recent_used [OF assms(1) key, of "pushed key entry rc"] held key(2) by (simp add: update_conv')
  next
    case False
    then have fresh: "key \<notin> fst ` set (rc_entries rc)" and full: "length (rc_entries rc) = rc_max rc"
      using cok by (auto simp: cache_ok_def)
    have "rc_max rc \<noteq> 0"
      using m by simp
    then obtain old ord where
      evicted: "rc_order rc = old # ord" "rc_order (cache_insert key entry rc) = ord @ [key]"
        "rc_entries (cache_insert key entry rc) = AList.delete old (AList.update key entry (rc_entries rc))"
      by (rule cache_insert_full [OF cok _ fresh full, of entry])
    have dist: "distinct (rc_order rc)" and keys: "set (rc_order rc) = fst ` set (rc_entries rc)"
      using cok by (simp_all add: cache_ok_def)
    have "a \<noteq> []"
    proof
      assume "a = []"
      then have b: "insert k (set b) = fst ` set (rc_entries rc)" "k \<notin> set b" "distinct b"
        using order(1) dist keys by auto
      have "card (fst ` set (rc_entries rc)) = m"
        using cok full m(1) by (metis cache_ok_def distinct_card length_map list.set_map)
      then have "Suc (card (set b)) = m"
        using b by (metis List.finite_set card_insert_disjoint)
      moreover have "insert key (set b) \<subseteq> T" "key \<notin> set b"
        using key(1) order(2) fresh b(1) by auto
      then have "Suc (card (set b)) \<le> card T"
        using card_mono [OF room(1), of "insert key (set b)"] by simp
      ultimately show False
        using room(2) by simp
    qed
    then obtain a' where a': "a = old # a'" "ord = a' @ k # b"
      using order(1) evicted(1) by (cases a) auto
    then have "old \<noteq> k"
      using dist order(1) by auto
    then show ?thesis
      using a' evicted(2,3) order(2) key held
      unfolding recent_def
      by (intro conjI exI [of _ a'] exI [of _ "b @ [key]"]) (simp_all add: delete_conv' update_conv')
  qed
qed

lemma recent_inserted:
  assumes "bounded_by m rc" and "0 < m"
  shows "recent k e T (cache_insert k e rc)"
proof -
  have cok: "cache_ok rc" and m: "rc_max rc = m"
    using assms by (simp_all add: bounded_by_def)
  have "\<exists>a. rc_order (cache_insert k e rc) = a @ k # []"
  proof (cases "k \<in> fst ` set (rc_entries rc) \<or> length (rc_entries rc) < rc_max rc")
    case True
    then show ?thesis
      using cache_insert_not_full [OF cok _ True] assms(2) m by simp
  next
    case False
    then have "k \<notin> fst ` set (rc_entries rc)" "length (rc_entries rc) = rc_max rc"
      using cok by (auto simp: cache_ok_def)
    moreover have "rc_max rc \<noteq> 0"
      using assms(2) m by simp
    ultimately show ?thesis
      by (metis cache_insert_full [OF cok, of k e])
  qed
  then show ?thesis
    using cache_insert_lookup [OF cok, of k e] assms(2) m unfolding recent_def by (metis empty_subsetI list.set(1))
qed

text \<open>Uses of the cache that leave the entry of \<open>k\<close> alone, and the keys they name.\<close>

fun uses_others :: "bytes \<Rightarrow> cache_op \<Rightarrow> bool" where
  "uses_others k (Insert_op key entry) \<longleftrightarrow> key \<noteq> k"
| "uses_others k (Lookup_op key) \<longleftrightarrow> True"
| "uses_others k (Flush_op version) \<longleftrightarrow> False"
| "uses_others k (Redact_op r bs) \<longleftrightarrow> False"

fun op_keys :: "cache_op \<Rightarrow> bytes set" where
  "op_keys (Insert_op key entry) = {key}"
| "op_keys (Lookup_op key) = {key}"
| "op_keys (Flush_op version) = {}"
| "op_keys (Redact_op r bs) = {}"

lemma finite_op_keys [simp]: "finite (op_keys op)"
  by (cases op) simp_all

lemma recent_run_ops:
  assumes "recent k e T rc" and "bounded_by m rc" and "list_all (uses_others k) ops"
    and "(\<Union>op \<in> set ops. op_keys op) - {k} \<subseteq> T" and "finite T" and "card T < m"
  shows "recent k e T (run_ops c ops rc)"
  using assms(1-4) unfolding run_ops_def
proof (induction ops arbitrary: rc)
  case (Cons op ops)
  have "recent k e T (run_op c op rc)"
  proof (cases op)
    case (Insert_op key entry)
    then show ?thesis
      using Cons.prems recent_insert [OF Cons.prems(1,2) _ _ assms(5,6)] by auto
  next
    case (Lookup_op key)
    then show ?thesis
      using Cons.prems recent_lookup [OF Cons.prems(1)] by auto
  qed (use Cons.prems in auto)
  then show ?case
    using Cons.IH [OF _ bounded_run_op [OF Cons.prems(2)]] Cons.prems(3,4) by auto
qed simp

end
