(* ===== verification/Redaction_Properties.thy ===== *)
theory Redaction_Properties
  imports Samples Boundary_Sample Cache_History
begin

text \<open>
  The properties of the redaction core: JSON bodies, the round trip with restoration, the cache,
  the registry, directives and patterns, each with the concrete input at which it is applied.
\<close>

section \<open>JSON bodies\<close>






section \<open>There and back\<close>

text \<open>
  C8. Restoring what was redacted gives the original text back, when the text had no placeholder in
  it, HMAC does not take a part of it for a secret it is not, and no two placeholders are the same.
\<close>

theorem redacted_text_restores:
  assumes "registry_wf c r" and "hex_lowercase c" and "scan_string_token c bs r = Inr spans"
    and "pattern_free (secret_table c r) bs" and "digests_faithful c r bs" and "placeholders_distinct r"
  shows "restore_text (secret_table c r) (apply_spans bs spans) = bs"
  by (rule restore_redacted [OF assms])

lemma plain_digests_faithful: "s \<noteq> [] \<Longrightarrow> digests_faithful plain_crypto (one_secret s) bs"
  by (auto simp: digests_faithful_def one_secret_entries secret_of_def one_entry_def)

lemma one_secret_table:
  "s \<noteq> [] \<Longrightarrow> secret_table plain_crypto (one_secret s) = [(e_placeholder (one_entry s), s)]"
  using entry_of_id [OF one_secret_wf, of s "one_entry s"]
  by (simp add: secret_table_def one_secret_placeholders one_secret_entries map_filter_simps secret_of_def
      one_entry_simps) (simp add: one_entry_def)

lemma redacted_text_restores_witness:
  "restore_text (secret_table plain_crypto (one_secret ''pw'')) redacted_sample = ''xpwy''"
proof -
  obtain spans where run: "scan_string_token plain_crypto ''xpwy'' (one_secret ''pw'') = Inr spans"
    and out: "apply_spans ''xpwy'' spans = redacted_sample"
    using one_reference by (auto simp: redact_reference_def redacted_with_def redacted_sample_def)
  have free: "pattern_free (secret_table plain_crypto (one_secret ''pw'')) ''xpwy''"
    by (auto simp: pattern_free_def one_secret_table one_placeholder occurs_in_split dest!: arg_cong [where f = length])
  have "placeholders_distinct (one_secret ''pw'')"
    by (simp add: placeholders_distinct_def one_secret_entries)
  from redacted_text_restores [OF one_secret_wf plain_hex_lowercase run free plain_digests_faithful this]
  show ?thesis
    by (simp add: out)
qed

section \<open>The cache\<close>

text \<open>
  C12. A string is redacted with the cache and in chunks, whatever strings were redacted before, exactly
  as the scanner redacts the whole of it without either, and the cache stays right: when it fits into
  one chunk, and at any length when no two hits in it overlap. One kind of string is excepted
  (\<open>Ob\<close> relates it to an entry): the canonical JSON of an object whose entry the cache may hold,
  as such a string is answered with the object's entry (\<^verbatim>\<open>cache.rs\<close>, line 260, a finding).
\<close>

theorem cache_does_not_matter:
  assumes "caching c (reg_keys r) U" and "cache_coherent c r U Ob rc"
    and "\<forall>out. \<not> Ob bs out" and "chunks_agree c r U (rc_chunk rc) bs"
  shows "fst (sanitize_string_detailed c bs r rc) = redact_reference c r bs \<and>
    cache_coherent c r U Ob (snd (sanitize_string_detailed c bs r rc))"
  by (rule sanitize_string_reference [OF assms prod.collapse [symmetric]])

lemma one_secret_hit:
  assumes "window_hit plain_crypto (one_secret ''pw'') bs sp"
  shows "sp_len sp = 2" "sp_id sp = 1" "sp_placeholder sp = e_placeholder (one_entry ''pw'')"
    "bs ! sp_start sp = CHR ''p''" "bs ! Suc (sp_start sp) = CHR ''w''"
proof -
  have hit: "sp_len sp = 2" "sp_id sp = 1" "sp_placeholder sp = e_placeholder (one_entry ''pw'')"
    "sub_bytes bs (sp_start sp) (sp_start sp + 2) = ''pw''"
    using assms by (auto simp: window_hit_def one_secret_entries one_entry_simps span_end_def keyed_digest_def)
  then show "sp_len sp = 2" "sp_id sp = 1" "sp_placeholder sp = e_placeholder (one_entry ''pw'')"
    by simp_all
  have "sp_start sp + 2 \<le> length bs"
    using assms hit(1) by (simp add: window_hit_def span_end_def)
  then show "bs ! sp_start sp = CHR ''p''" "bs ! Suc (sp_start sp) = CHR ''w''"
    using arg_cong [OF hit(4), of "\<lambda>t. t ! 0"] arg_cong [OF hit(4), of "\<lambda>t. t ! 1"] by (simp_all add: sub_bytes_def)
qed

text \<open>This secret does not overlap itself, so its hits lie apart in every string.\<close>

lemma one_secret_apart: "hits_apart plain_crypto (one_secret ''pw'') bs"
  unfolding hits_apart_def
proof (intro allI impI)
  fix a b
  assume hits: "window_hit plain_crypto (one_secret ''pw'') bs a" "window_hit plain_crypto (one_secret ''pw'') bs b"
    and "span_overlaps a b"
  note a = one_secret_hit [OF hits(1)] and b = one_secret_hit [OF hits(2)]
  have "sp_start a < sp_start b + 2" "sp_start b < sp_start a + 2"
    using \<open>span_overlaps a b\<close> a(1) b(1) by (simp_all add: span_overlaps_def span_end_def)
  moreover have "sp_start a \<noteq> Suc (sp_start b)" "sp_start b \<noteq> Suc (sp_start a)"
    using a(4,5) b(4,5) by auto
  ultimately have "sp_start a = sp_start b"
    by linarith
  then show "a = b"
    using a(1-3) b(1-3) by (simp add: span_eqI)
qed

lemma cache_does_not_matter_witness:
  "fst (sanitize_string_detailed plain_crypto ''xpwy'' (one_secret ''pw'') (cache_new 4)) =
     Inr \<lparr>ss_bytes = redacted_sample, ss_ids = [1]\<rparr> \<and>
   fst (sanitize_string_detailed plain_crypto (replicate 65535 CHR ''x'' @ ''pwy'') (one_secret ''pw'') (cache_new 4)) =
     redact_reference plain_crypto (one_secret ''pw'') (replicate 65535 CHR ''x'' @ ''pwy'')"
proof -
  have chunk: "rc_chunk (cache_new 4) = 65536"
    and "cache_coherent plain_crypto (one_secret ''pw'') UNIV (\<lambda>_ _. False) (cache_new 4)"
    unfolding cache_new_def by (simp add: cache_new_with_chunk_size_def) (rule cache_coherent_new)
  with cache_does_not_matter [of plain_crypto "one_secret ''pw''" UNIV "\<lambda>_ _. False" "cache_new 4"]
  have run: "chunks_agree plain_crypto (one_secret ''pw'') UNIV 65536 bs \<Longrightarrow>
      fst (sanitize_string_detailed plain_crypto bs (one_secret ''pw'') (cache_new 4)) =
      redact_reference plain_crypto (one_secret ''pw'') bs" for bs
    by simp
  have all: "fst (sanitize_string_detailed plain_crypto bs (one_secret ''pw'') (cache_new 4)) =
      redact_reference plain_crypto (one_secret ''pw'') bs" for bs
    using one_secret_apart by (intro run) (simp add: chunks_agree_def)
  show ?thesis
    by (intro conjI all) (simp add: all one_reference redacted_sample_def)
qed

text \<open>
  C40. A string longer than a chunk can keep a secret that a scan of the whole string replaces: when
  three hits overlap in a row at the boundary of two chunks, the first loses in its chunk against the
  second, the second in the next chunk against the third, and the first is sent as it is.
\<close>

theorem long_string_keeps_secret:
  assumes "registry_wf c r" and "caching c (reg_keys r) U" and "slices_of bs \<subseteq> U"
    and "cache_coherent c r U Ob rc" and "lost_at_boundary c r bs (rc_chunk rc) a g d"
  shows "(\<exists>spans. scan_string_token c bs r = Inr spans \<and> a \<in> set spans) \<and>
    (\<exists>s. fst (sanitize_string_detailed c bs r rc) = Inr s \<and>
       occurs_in (sub_bytes bs (sp_start a) (span_end a)) (ss_bytes s))"
proof -
  obtain spans where "scan_string_token c bs r = Inr spans"
    using scan_string_token_total assms(2) unfolding caching_def by blast
  then show ?thesis
    using whole_scan_keeps_hit [OF assms(1) _ assms(5)] chunks_lose_hit [OF assms] lost_hit_kept [OF assms(5)] by blast
qed

lemma long_string_keeps_secret_witness:
  "\<exists>s. fst (sanitize_string_detailed plain_crypto boundary_string three_secrets (cache_new 4)) = Inr s \<and>
     occurs_in ''pq'' (ss_bytes s)"
proof -
  have chunk: "rc_chunk (cache_new 4) = 65536"
    and coherent: "cache_coherent plain_crypto three_secrets UNIV (\<lambda>_ _. False) (cache_new 4)"
    unfolding cache_new_def by (simp add: cache_new_with_chunk_size_def) (rule cache_coherent_new)
  obtain a g d where lost: "lost_at_boundary plain_crypto three_secrets boundary_string (rc_chunk (cache_new 4)) a g d"
    "sub_bytes boundary_string (sp_start a) (span_end a) = ''pq''"
    unfolding chunk using three_hits by blast
  show ?thesis
    using long_string_keeps_secret [OF three_secrets_wf plain_caching subset_UNIV coherent lost(1)] lost(2) by simp
qed



section \<open>The registry\<close>

text \<open>
  C10. Registering any list of secrets, some of which may be refused, keeps the registry well formed,
  keeps every identifier resolving to the same secret, and when all are accepted each is held.
\<close>

theorem registering_keeps_invariant:
  assumes "registry_inv c r" and "\<forall>(label, s) \<in> set xs. label_ok label"
    and "ingest_all c xs r = (res, r')" and "registry_fits r'"
  shows "registry_inv c r' \<and>
    (\<forall>ident s. registry_holds c r ident s \<longrightarrow> registry_holds c r' ident s) \<and>
    (res = Inr () \<longrightarrow> (\<forall>(label, s) \<in> set xs.
       \<exists>ident s'. registry_holds c r' ident s' \<and> same_digest c (reg_keys r) s' s))"
proof -
  have step: "registry_step c r r'"
    using store.put_all_step [OF assms(2), of c r] assms(3) by (simp add: ingest_all_def)
  have inv': "registry_inv c r'"
    by (rule step_inv [OF step assms(1,4)])
  show ?thesis
    using inv' registry_holds_step [OF step] store.put_all_holds [OF assms(2,1) _ inv'] assms(3)
    by (auto simp: ingest_all_def)
qed

lemma registering_keeps_invariant_witness:
  "registry_inv plain_crypto (snd (ingest_all plain_crypto [(''B'', ''other'')] (one_secret ''pw''))) \<and>
   (\<exists>ident. registry_holds plain_crypto (snd (ingest_all plain_crypto [(''B'', ''other'')] (one_secret ''pw''))) ident ''other'')"
proof -
  obtain res r' where run: "ingest_all plain_crypto [(''B'', ''other'')] (one_secret ''pw'') = (res, r')"
    by (cases "ingest_all plain_crypto [(''B'', ''other'')] (one_secret ''pw'')")
  obtain ident r1 where one: "ingest plain_crypto ''B'' ''other'' (one_secret ''pw'') = (Inr ident, r1)"
    using ingest_accepts [of plain_crypto "''other''" "''B''" "one_secret ''pw''"]
    by (cases "ingest plain_crypto ''B'' ''other'' (one_secret ''pw'')") auto
  then have res: "res = Inr ()" "r' = r1"
    using run by (auto simp: ingest_all_def)
  have label: "label_ok ''B''"
    by (simp add: label_ok_def label_char_def is_ascii_alphanumeric_def is_ascii_upper_def)
  have "registry_fits r1"
    using one by (cases rule: ingest_cases) (auto simp: registry_fits_def one_secret_entries)
  with registering_keeps_invariant [OF one_secret_inv _ run] res label show ?thesis
    by (auto simp: run same_digest_def)
qed

section \<open>Directives\<close>

text \<open>
  C13. The directive parser accepts exactly the texts of the grammar, and finds their segments: it
  returns the ranges of a segmentation of the prompt into non-empty texts and declared secrets,
  free of tags, and there is only one such segmentation.
\<close>

theorem directives_follow_grammar:
  "(\<exists>parts. parse_ranges input = Inr parts \<and> map (segment_of input) parts = segs) \<longleftrightarrow>
   segments_ok segs \<and> unparse segs = input"
proof
  assume "\<exists>parts. parse_ranges input = Inr parts \<and> map (segment_of input) parts = segs"
  then show "segments_ok segs \<and> unparse segs = input"
    using parse_ranges_sound [of input 0] by (auto simp: parse_ranges_def)
next
  assume "segments_ok segs \<and> unparse segs = input"
  then show "\<exists>parts. parse_ranges input = Inr parts \<and> map (segment_of input) parts = segs"
    using parse_ranges_complete [of segs 0 input] by (simp add: parse_ranges_def)
qed

text \<open>
  C14. A string with directives: when it is accepted, every text declared in it is held by the
  registry, and the result is placeholders woven with fragments in which no secret of the registry,
  the declared ones included, occurs. (The whole result need not be free of them: a declared text
  may be a part of a placeholder, as CREBRO is.) Assumed of the parts of the string, and of the text
  they make, are the exceptions of C12 (\<open>scannable\<close>): none is the canonical JSON of an object in the
  cache, and each fits into one chunk or has no two hits that overlap.
\<close>

theorem declared_secrets_redacted:
  assumes "san_inv c U Ob (rc, r)" and "\<And>t. t \<in> slices_of s \<Longrightarrow> scannable c r' U Ob (rc_chunk rc) t"
    and "\<And>x ids st. replace_user_secret_directives_with c s (sanitize_plain_part c) (rc, r) =
      (Inr (Some (x, ids)), st) \<Longrightarrow> scannable c r' U Ob (rc_chunk rc) (dt_text x)"
    and "parse_user_secret_directives c s r = (Inr (Some parts), r1)"
    and "sanitize_decoded_string c pats s (rc, r) = (Inr (out, ids), (rc', r'))"
    and "registry_fits r'"
  shows "string_redacted c r' r' out \<and>
    (\<exists>ps. parse_ranges s = Inr ps \<and>
       (\<forall>a b. Parsed_secret a b \<in> set ps \<longrightarrow>
          (\<exists>ident s'. registry_holds c r' ident s' \<and> same_digest c (reg_keys r') s' (sub_bytes s a b))))"
  using sanitize_decoded_string_directives [OF assms(1) _ _ assms(4,5,6)] assms(2,3) by blast

lemma slices_length: "t \<in> slices_of s \<Longrightarrow> length t \<le> length s"
  by (auto simp: slices_of_def sub_bytes_def)

lemma sample_directive:
  "parse_ranges ''<cb>pw</cb>'' = Inr [Parsed_secret 4 6]"
proof -
  have tags: "tag_free ''pw''"
    by (rule no_angle_tag_free) simp
  have "drop 0 ''<cb>pw</cb>'' = [] @ OPEN_TAG @ ''pw'' @ CLOSE_TAG @ []"
    by (simp add: OPEN_TAG_def CLOSE_TAG_def)
  from parse_ranges_step [OF this tag_free_Nil tags] show ?thesis
    by (simp add: parse_ranges_def parse_ranges_from.simps [of _ 11])
qed

lemma sample_directive_registered:
  "parse_user_secret_directives plain_crypto ''<cb>pw</cb>'' (one_secret ''pw'') =
     (Inr (Some [Secret_part (e_placeholder (one_entry ''pw'')) 1]), one_secret ''pw'')"
proof -
  have "ingest plain_crypto l ''pw'' (one_secret ''pw'') = (Inr 1, one_secret ''pw'')" for l
    by (simp add: ingest_def one_secret_entries one_entry_simps)
  moreover have "placeholder_for (one_secret ''pw'') 1 = Some (e_placeholder (one_entry ''pw''))"
    by (simp add: placeholder_for_def entry_of_def one_secret_entries)
  moreover have "str_contains ''<cb>pw</cb>'' OPEN_TAG"
    by (simp add: str_contains_iff occurs_in_def occurs_at_def sub_bytes_def OPEN_TAG_def exI [of _ 0])
  ultimately show ?thesis
    by (simp add: parse_user_secret_directives_def sample_directive is_plain_def sub_bytes_def)
qed

lemma declared_secrets_redacted_witness:
  "sanitize_decoded_string plain_crypto no_patterns ''<cb>pw</cb>'' start_state =
     (Inr (e_placeholder (one_entry ''pw''), [1]), start_state) \<and>
   string_redacted plain_crypto (one_secret ''pw'') (one_secret ''pw'') (e_placeholder (one_entry ''pw''))"
proof -
  have u: "utf8_valid (e_placeholder (one_entry ''pw''))"
    unfolding one_placeholder by (rule utf8_valid_ascii) auto
  have rep: "replace_user_secret_directives_with plain_crypto ''<cb>pw</cb>'' (sanitize_plain_part plain_crypto)
      (cache_new 4, one_secret ''pw'') =
      (Inr (Some (\<lparr>dt_text = e_placeholder (one_entry ''pw''), dt_ids = [1]\<rparr>, [])), (cache_new 4, one_secret ''pw''))"
    using u by (simp add: replace_user_secret_directives_with_def sample_directive_registered)
  have chunk: "rc_chunk (cache_new 4) = 65536"
    using start_chunk by (simp add: start_state_def)
  have run: "sanitize_decoded_string plain_crypto no_patterns ''<cb>pw</cb>'' (cache_new 4, one_secret ''pw'') =
      (Inr (e_placeholder (one_entry ''pw''), [1]), (cache_new 4, one_secret ''pw''))"
    by (simp add: sanitize_decoded_string_def rep)
  have "length t \<le> 65536" if "t \<in> slices_of ''<cb>pw</cb>''" for t
    using slices_length [OF that] by simp
  then have "string_redacted plain_crypto (one_secret ''pw'') (one_secret ''pw'') (e_placeholder (one_entry ''pw''))"
    using declared_secrets_redacted [OF start_inv [of UNIV "\<lambda>_ _. False", unfolded start_state_def] _ _
        sample_directive_registered run] rep
    by (auto simp: scannable_def chunks_agree_def chunk one_placeholder registry_fits_def one_secret_entries)
  then show ?thesis
    using run by (simp add: start_state_def)
qed

section \<open>Streamed JSON\<close>

text \<open>
  C11. The streaming JSON sanitizer, fed a JSON text without spaces in any chunks, writes what the
  walk over the tree writes that knows the path of every string from the tree, and counts the bytes;
  it fails where the walk fails.
\<close>

theorem streamed_json_follows_tree:
  assumes "raw_wf v" and "concat chunks = raw_text v"
  shows "push_stream_chunks c lib js chunks streaming_state st =
    and_then_st (walk_raw c lib (js_patterns js) [] v st) (\<lambda>(out, ids, pats) st.
      (Inr (out, with_counts (length (raw_text v)) (length out) (reported_to ids pats streaming_state)), st))"
proof -
  have "st_input_bytes streaming_state = 0" "st_output_bytes streaming_state = 0"
    by (simp_all add: streaming_state_def)
  then show ?thesis
    by (auto simp: push_stream_chunks_eq assms(2) stream_walks_text [OF assms(1)] and_then_st_assoc intro!: and_then_st_cong)
qed

definition quoted :: "bytes \<Rightarrow> bytes" where
  "quoted s = CHR 0x22 # s @ [CHR 0x22]"

lemma streamed_json_follows_tree_witness:
  "\<exists>ss st. push_stream_chunks plain_crypto toy_serde sample_sanitizer [''['' @ quoted ''a'', '',1]''] streaming_state
       (cache_new 4, with_generated_keys plain_crypto 0) =
     (Inr (''['' @ quoted ''a'' @ '',1]'', ss), st)"
proof -
  let ?v = "Raw_array [Raw_string ''a'', Raw_literal ''1'']"
  have "raw_wf ?v"
    by (simp add: literal_ok_def)
  moreover have shown: "raw_text ?v = ''['' @ quoted ''a'' @ '',1]''"
    by (simp add: quote_raw_json_string_def quoted_def)
  moreover have "registry_is_empty (with_generated_keys plain_crypto 0)"
    by (simp add: registry_is_empty_def with_generated_keys_def session_keys_generate_def registry_new_def)
  then have "walk_raw plain_crypto toy_serde no_patterns [] ?v (cache_new 4, with_generated_keys plain_crypto 0) =
      (Inr (raw_text ?v, [], []), (cache_new 4, with_generated_keys plain_crypto 0))"
    by (intro walk_raw_plain(1))
      (auto simp: has_credential_patterns_def no_patterns_def might_contain_directive_bytes_def
        contains_bytes_def contains_ascii_case_insensitive_def any_window_def OPEN_TAG_def CLOSE_TAG_def escaped_lt_def)
  ultimately show ?thesis
    using streamed_json_follows_tree [of ?v "[''['' @ quoted ''a'', '',1]'']" plain_crypto toy_serde sample_sanitizer
        "(cache_new 4, with_generated_keys plain_crypto 0)"]
    by (simp add: sample_sanitizer_def)
qed

section \<open>Texts\<close>

lemma placeholder_utf8:
  assumes "registry_wf c r" and "hex_lowercase c" and "e \<in> set (reg_entries r)"
  shows "utf8_valid (e_placeholder e)"
proof -
  have new: "placeholder_new c (e_label e) (e_digest e) (k_placeholder (reg_keys r)) = Inr (e_placeholder e)"
    and label: "label_ok (e_label e)"
    by (rule entry_wfD [OF assms(1,3)]; assumption)+
  obtain out where p: "e_placeholder e = ''{{CREBRO_SECRET:v1:'' @ e_label e @ '':s_'' @ hex_encode c (take 6 out) @ ''}}''"
    using new unfolding placeholder_new_def and_then_eq_Inr sum.inject by (metis (no_types))
  have "utf8_valid (e_label e)"
    using label by (intro utf8_valid_ascii)
      (auto simp: label_ok_def list_all_iff label_char_def is_ascii_alphanumeric_def is_ascii_upper_def
        is_ascii_lower_def is_ascii_digit_def)
  moreover have "utf8_valid (hex_encode c bs)" for bs
    using assms(2) by (intro utf8_valid_ascii) (auto simp: hex_lowercase_def hex_digits_def dest!: spec [of _ bs] subsetD)
  moreover have "utf8_valid ''{{CREBRO_SECRET:v1:''" "utf8_valid '':s_''" "utf8_valid ''}}''"
    by (rule utf8_valid_ascii; auto)+
  ultimately show ?thesis
    unfolding p by (intro utf8_valid_append)
qed

text \<open>
  C34. A text that is valid UTF-8, without directives, is never refused: when the credentials found in
  it could be registered, it is redacted, and the result is valid UTF-8 again, as no span cuts a
  character. The secrets of the registry are valid UTF-8, and HMAC does not take a part of the text
  for a secret it is not. (The text is not the canonical JSON of an object in the cache, and one
  chunk long or without overlapping hits.)
\<close>

theorem utf8_text_accepted:
  assumes "san_inv c U Ob (rc, r)" and "utf8_valid s" and "tag_free s"
    and "auto_register_pattern_matches c ps s r = (Inr b, r')" and "registry_fits r'"
    and "scannable c r' U Ob (rc_chunk rc) s"
    and "hex_lowercase c" and "digests_faithful c r' s" and "\<forall>t \<in> set (secrets_of c r'). utf8_valid t"
  shows "\<exists>out ids rc'. sanitize_decoded_string c ps s (rc, r) = (Inr (out, ids), (rc', r')) \<and>
    utf8_valid out \<and> string_redacted c r' r' out"
proof -
  have step: "registry_step c r r'"
    using auto_register_step [of c r ps s] assms(4) by simp
  have inv': "registry_inv c r'" and wf: "registry_wf c r'"
    using step_inv [OF step san_inv_registry [OF assms(1)] assms(5)] by (auto simp: registry_inv_def)
  from sanitize_plain_part_spec [OF san_inv_step [OF assms(1) step inv'] assms(6)] obtain out ids rc' where
    plain: "sanitize_plain_part c s (rc, r') = (Inr (out, ids), (rc', r'))"
    and ref: "redact_reference c r' s = Inr \<lparr>ss_bytes = out, ss_ids = ids\<rparr>"
    by blast
  have redacted: "string_redacted c r' r' out"
    using redact_reference_redacted [OF wf ref] by simp
  obtain spans where spans: "scan_string_token c s r' = Inr spans" "apply_spans s spans = out"
    using ref by (auto simp: redact_reference_def redacted_with_def)
  have "utf8_valid (sub_bytes s (sp_start sp) (span_end sp))" if hit: "window_hit c r' s sp" for sp
  proof -
    obtain e where "e \<in> set (reg_entries r')"
      "keyed_digest c (k_match (reg_keys r')) (sub_bytes s (sp_start sp) (span_end sp)) = Inr (e_digest e)"
      using hit by (auto simp: window_hit_def)
    then have "e \<in> set (reg_entries r')" "secret_of c r' e = Some (sub_bytes s (sp_start sp) (span_end sp))"
      using assms(8) by (simp_all add: digests_faithful_def)
    then show ?thesis
      using assms(9) by (auto simp: secrets_of_iff)
  qed
  from redaction_utf8 [OF wf spans(1) assms(2) this placeholder_utf8 [OF wf assms(7)]]
  have utf8: "utf8_valid out"
    by (simp add: spans(2))
  have none: "redact_reference c r' s = Inr (unchanged s)" if "registry_is_empty r'"
    using that by (intro redact_reference_early) simp
  show ?thesis
  proof (cases "registry_is_empty r'")
    case True
    then have "out = s"
      using ref none by (simp add: unchanged_def)
    then show ?thesis
      using True assms(2,4) redacted by (simp add: sanitize_decoded_string_def directives_none [OF assms(3)])
  next
    case False
    then show ?thesis
      using plain utf8 redacted assms(4)
      by (simp add: sanitize_decoded_string_def directives_none [OF assms(3)] checked_utf8_def)
  qed
qed

lemma utf8_text_accepted_witness:
  "\<exists>out ids rc'. sanitize_decoded_string plain_crypto no_patterns ''xpwy'' start_state =
     (Inr (out, ids), (rc', one_secret ''pw'')) \<and> utf8_valid out \<and>
     string_redacted plain_crypto (one_secret ''pw'') (one_secret ''pw'') out"
proof -
  have "scannable plain_crypto (one_secret ''pw'') UNIV (\<lambda>_ _. False) (rc_chunk (cache_new 4)) ''xpwy''"
    using start_chunk by (simp add: scannable_def chunks_agree_def start_state_def)
  moreover have "utf8_valid ''xpwy''" "utf8_valid ''pw''"
    by (rule utf8_valid_ascii; auto)+
  moreover have "set (secrets_of plain_crypto (one_secret ''pw'')) = {''pw''}"
    by (auto simp: secrets_of_iff one_secret_entries secret_of_def one_entry_simps)
  moreover have "tag_free ''xpwy''"
    by (rule no_angle_tag_free) simp
  ultimately show ?thesis
    using utf8_text_accepted [of plain_crypto UNIV "\<lambda>_ _. False" "cache_new 4" "one_secret ''pw''" "''xpwy''"
        no_patterns False "one_secret ''pw''"]
      start_inv [of UNIV "\<lambda>_ _. False"] plain_digests_faithful [of "''pw''" "''xpwy''"]
    by (simp add: start_state_def registry_fits_def one_secret_entries)
qed

section \<open>Patterns\<close>

lemma compile_patterns_ok:
  "(\<exists>ps. compile_patterns regex_new ids raws = Inr ps) \<longleftrightarrow>
     distinct (map raw_id raws) \<and> set (map raw_id raws) \<inter> ids = {} \<and>
     list_all (\<lambda>raw. str_trim (raw_id raw) \<noteq> [] \<and> regex_new (raw_regex raw) \<noteq> None) raws"
proof (induction regex_new ids raws rule: compile_patterns.induct)
  case (2 regex_new ids raw raws)
  show ?case
  proof (cases "str_trim (raw_id raw) = [] \<or> raw_id raw \<in> ids \<or> regex_new (raw_regex raw) = None")
    case False
    then obtain rx where rx: "regex_new (raw_regex raw) = Some rx" by auto
    have "(\<exists>ps. compile_patterns regex_new ids (raw # raws) = Inr ps) \<longleftrightarrow>
        (\<exists>ps. compile_patterns regex_new (insert (raw_id raw) ids) raws = Inr ps)"
      using False rx by (auto simp: and_then_eq_Inr)
    then show ?thesis
      using 2 False rx by auto
  qed auto
qed simp

text \<open>
  A pattern file is accepted exactly when it has key markers and its rules have identifiers
  that are not blank, all different, and expressions that compile.
\<close>

theorem pattern_file_accepted:
  "(\<exists>ps. into_pattern_set regex_new raw = Inr ps) \<longleftrightarrow>
     key_markers (raw_env raw) \<noteq> [] \<and> distinct (map raw_id (raw_patterns raw)) \<and>
     list_all (\<lambda>p. str_trim (raw_id p) \<noteq> [] \<and> regex_new (raw_regex p) \<noteq> None) (raw_patterns raw)"
proof -
  have "(\<exists>ps. into_pattern_set regex_new raw = Inr ps) \<longleftrightarrow>
      (\<exists>env. into_rules (raw_env raw) = Inr env) \<and> (\<exists>ps. compile_patterns regex_new {} (raw_patterns raw) = Inr ps)"
    by (auto simp: into_pattern_set_def and_then_eq_Inr)
  then show ?thesis
    by (simp add: compile_patterns_ok into_rules_def)
qed

end
