(* ===== verification/Http_Properties.thy ===== *)
theory Http_Properties
  imports Redaction_Properties
begin

text \<open>
  The properties of the intercepting proxy: reading and rewriting messages, what is sent upstream,
  and how chunked and event-stream responses are restored, each with the concrete input at which it
  is applied.
\<close>

section \<open>Reading messages\<close>

text \<open>
  C15. A message whose head fits the limit and announces the length of its body is read whole, and
  nothing else of the connection, however the network cuts it into reads.
\<close>

theorem message_read_whole:
  assumes "delivers src bs" and "find_header_end bs = Some i" and "i + 4 + 1024 \<le> head_limit"
    and "content_length (take i bs) = Some n" and "length bs = i + 4 + n"
  shows "\<exists>h src1 src2. read_http_head src = (Inr h, src1) \<and> head_without_delimiter h = take i bs \<and>
    read_remaining_body h src1 = (Inr \<lparr>hh_bytes = bs, hh_delimiter_start = i\<rparr>, src2) \<and> delivers src2 []"
proof -
  obtain h src1 where h: "read_http_head src = (Inr h, src1)" "head_read bs i h src1"
    using read_http_head_finds [OF assms(1-3)] by blast
  have "length (hh_bytes h) \<le> i + 4 + n"
    using h(2) assms(5) by (auto simp: head_read_def)
  then obtain src2 where "read_remaining_body h src1 = (Inr \<lparr>hh_bytes = bs, hh_delimiter_start = i\<rparr>, src2)"
    "delivers src2 []"
    using read_remaining_body_reads [OF h(2) assms(4)] assms(5) by auto
  then show ?thesis
    using h(1) head_readD(1) [OF h(2)] by blast
qed

lemma message_read_whole_witness:
  "\<exists>h src1 src2. read_http_head [Got (take 70 sample_message), Got (drop 70 sample_message)] = (Inr h, src1) \<and>
     read_remaining_body h src1 = (Inr sample_request, src2)"
proof -
  have "delivers [Got (take 70 sample_message), Got (drop 70 sample_message)] sample_message"
    using sample_message_length by (auto simp: take_is_prefix)
  moreover have "take (length sample_head) sample_message = sample_head"
    by (simp add: sample_message_def)
  ultimately show ?thesis
    using message_read_whole [OF _ sample_message_end, of _ 12] sample_head_length sample_message_length
    by (fastforce simp: head_limit_def sample_request_def)
qed

text \<open>
  C35. Reading a head ends, whatever the other side sends and however long it goes on: the result is
  settled by the first 32769 reads, a head that is returned is no longer than the limit, and what
  follows those reads is left on the connection.
\<close>

theorem head_reading_ends:
  assumes "length src = head_limit + 1"
  shows "\<exists>res rest. (\<forall>later. read_http_head (src @ later) = (res, rest @ later)) \<and>
    (\<forall>h. res = Inr h \<longrightarrow> length (hh_bytes h) \<le> head_limit \<and>
       find_header_end (hh_bytes h) = Some (hh_delimiter_start h))"
proof -
  obtain res rest where run: "read_http_head src = (res, rest)"
    by fastforce
  have "read_http_head (src @ later) = (res, rest @ later)" for later
    using read_head_from_append [of "[]" src later] assms run by (simp add: read_http_head_def)
  moreover have "length (hh_bytes h) \<le> head_limit \<and> find_header_end (hh_bytes h) = Some (hh_delimiter_start h)"
    if "res = Inr h" for h
    using read_head_from_bounds [of "[]" src h rest] run that
    by (simp add: read_http_head_def find_header_end_def)
  ultimately show ?thesis
    by blast
qed

text \<open>A client that sends one byte at a time and never an empty line.\<close>

lemma head_reading_ends_witness:
  "\<exists>res rest. \<forall>later. read_http_head (replicate 32769 (Got ''a'') @ later) = (res, rest @ later)"
  using head_reading_ends [of "replicate 32769 (Got ''a'')"] by (auto simp: head_limit_def)

section \<open>Rewriting heads\<close>

text \<open>
  C16. A head rewritten for a new body frames exactly that body: the receiver finds its end where the
  proxy put it, reads the new length, and the fields of the old head but for those that are stripped.
\<close>

theorem rewritten_head_frames_body:
  assumes "rewrite_http_head_for_body head (length body) strip = Inr out"
    and "hd (head_lines head) \<noteq> []" and "length body < 2 ^ 64"
  shows "\<exists>head'. message_parts (out @ CRLF @ body) = Some (head', body) \<and>
    content_length head' = Some (length body) \<and>
    (\<forall>name. \<not> eq_ignore_ascii_case name ''content-length'' \<longrightarrow>
       list_all (\<lambda>h. \<not> eq_ignore_ascii_case name h) (stripped_headers strip) \<longrightarrow>
       header_value head' name = header_value head name) \<and>
    list_all (\<lambda>h. header_value head' h = None) (stripped_headers strip)"
proof -
  let ?head = "take (length out - 2) out"
  note fields = rewritten_body_parts(2) [OF assms]
  note spec = rewrite_body_spec [OF assms(1,3)]
  have "content_length ?head = Some (length body)"
    using spec(1) by (simp add: content_length_def fields)
  then show ?thesis
    using rewritten_body_parts(1) [OF assms] spec(2,3) by (auto simp: fields list_all_iff)
qed

lemma rewritten_head_frames_body_witness:
  "\<exists>out head'. rewrite_http_head_for_body sample_head 2 True = Inr out \<and>
     message_parts (out @ CRLF @ ''[]'') = Some (head', ''[]'') \<and> content_length head' = Some 2"
proof -
  obtain out where out: "rewrite_http_head_for_body sample_head (length ''[]'') True = Inr out"
    by (simp add: rewrite_http_head_for_body_def Let_def)
  have "hd (head_lines sample_head) \<noteq> []"
    by (simp add: sample_lines_def)
  moreover have len: "length ''[]'' = 2"
    by simp
  ultimately obtain head' where "message_parts (out @ CRLF @ ''[]'') = Some (head', ''[]'')" "content_length head' = Some 2"
    using rewritten_head_frames_body [OF out, unfolded len] by auto
  then show ?thesis
    using out [unfolded len] by blast
qed

section \<open>What is sent upstream\<close>

lemma remaining_body_wf:
  assumes "read_http_head src0 = (Inr request, src)" and "read_remaining_body request src = (Inr whole, src')"
  shows "find_header_end (hh_bytes whole) = Some (hh_delimiter_start whole)"
    "head_without_delimiter whole = head_without_delimiter request"
proof -
  have e: "find_header_end (hh_bytes request) = Some (hh_delimiter_start request)"
    using read_head_from_bounds [of "[]" src0 request src] assms(1)
    by (simp add: read_http_head_def find_header_end_def)
  obtain rest where whole: "whole = request\<lparr>hh_bytes := hh_bytes request @ rest\<rparr>"
    using assms(2)
    by (cases "read_exact (case content_length (head_without_delimiter request) of None \<Rightarrow> 0 | Some n \<Rightarrow> n) src")
      (auto simp: read_remaining_body_def Let_def split: if_splits prod.splits sum.splits intro: that [of "[]"] that)
  show "find_header_end (hh_bytes whole) = Some (hh_delimiter_start whole)"
    using find_header_end_append [OF e] by (simp add: whole)
  show "head_without_delimiter whole = head_without_delimiter request"
    using find_header_end_bound [OF e] by (simp add: whole head_without_delimiter_def)
qed

text \<open>
  A request without bytes of a second one behind its body (which the proxy would take for a part of the
  body, a finding).
\<close>

definition not_pipelined :: "http_head \<Rightarrow> bool" where
  "not_pipelined request \<longleftrightarrow>
     (\<forall>n. content_length (head_without_delimiter request) = Some n \<longrightarrow> length (extra_bytes request) \<le> n)"

lemma remaining_body_length:
  assumes "read_http_head src0 = (Inr request, src)" and "read_remaining_body request src = (Inr whole, src')"
    and n: "content_length (head_without_delimiter request) = Some n" and "not_pipelined request"
  shows "length (extra_bytes whole) = n"
proof -
  have "find_header_end (hh_bytes request) = Some (hh_delimiter_start request)"
    using read_head_from_bounds [of "[]" src0 request src] assms(1)
    by (simp add: read_http_head_def find_header_end_def)
  then have fits: "hh_delimiter_start request + 4 \<le> length (hh_bytes request)"
    by (rule find_header_end_bound)
  have le: "length (extra_bytes request) \<le> n"
    using assms(4) n by (simp add: not_pipelined_def)
  show ?thesis
  proof (cases "length (extra_bytes request) < n")
    case True
    then obtain body where body: "read_exact (n - length (extra_bytes request)) src = (Inr body, src')"
      and whole: "whole = request\<lparr>hh_bytes := hh_bytes request @ body\<rparr>"
      using assms(2) n by (auto simp: read_remaining_body_def Let_def split: prod.splits sum.splits)
    have "extra_bytes whole = extra_bytes request @ body"
      using fits by (simp add: whole extra_bytes_def)
    then show ?thesis
      using read_exact_length [OF body] le by simp
  qed (use assms(2) n le in \<open>auto simp: read_remaining_body_def\<close>)
qed

text \<open>
  What is sent for a request whose body is read: one message with the sanitized body, framed by the
  length that it announces, whether the head was rewritten or the request is sent as it came.
\<close>

lemma sent_request:
  assumes "read_http_head src0 = (Inr request, src)" and "hd (head_lines (head_without_delimiter request)) \<noteq> []"
    and "body_is_read request" and "ex_upstream (forward_http env conn request src st) \<noteq> []"
    and "length (ex_upstream (forward_http env conn request src st)) < 2 ^ 64"
  obtains whole src' head body report where
    "read_remaining_body request src = (Inr whole, src')"
    "sanitize_http_body env (head_without_delimiter request) (extra_bytes whole) (px_san st) =
      (Inr (body, report), px_san (ex_state (forward_http env conn request src st)))"
    "message_parts (ex_upstream (forward_http env conn request src st)) = Some (head, body)"
    "not_pipelined request \<longrightarrow> content_length head = Some (length body)"
    "header_value head ''accept-encoding'' = None"
proof -
  let ?ex = "forward_http env conn request src st"
  obtain whole src' where whole: "read_remaining_body request src = (Inr whole, src')"
    and sent: "sanitize_http_request env whole st = (Inr (ex_upstream ?ex), ex_state ?ex)"
    using forward_http_sent [OF refl assms(4)] by blast
  note wf = remaining_body_wf [OF assms(1) whole]
  have read: "body_is_read whole" and rwf: "request_wf whole"
    using assms(2,3) wf by (simp_all add: body_is_read_def request_wf_def)
  obtain head body report where
    run: "sanitize_http_body env (head_without_delimiter whole) (extra_bytes whole) (px_san st) =
      (Inr (body, report), px_san (ex_state ?ex))"
    and parts: "message_parts (ex_upstream ?ex) = Some (head, body)" "header_value head ''accept-encoding'' = None"
    and framed: "ex_upstream ?ex \<noteq> hh_bytes whole \<longrightarrow> content_length head = Some (length body)"
    using sanitize_http_request_read [OF sent read rwf assms(5)] by blast
  obtain n where n: "content_length (head_without_delimiter request) = Some n"
    using assms(3) by (auto simp: body_is_read_def)
  have "content_length head = Some (length body)" if one: "not_pipelined request"
  proof (cases "ex_upstream ?ex = hh_bytes whole")
    case True
    then have "head = head_without_delimiter request" "body = extra_bytes whole"
      using parts(1) request_parts [OF rwf] wf(2) by simp_all
    then show ?thesis
      using remaining_body_length [OF assms(1) whole n one] n by simp
  qed (use framed in simp)
  then show ?thesis
    using that whole run parts wf(2) by auto
qed



lemma forward_http_cases:
  assumes "forward_http env conn request src st = ex"
  shows "ex_upstream ex = [] \<and> ex_client ex = [] \<and> (\<exists>err. ex_result ex = Inl err) \<or>
    (\<exists>whole src'. read_remaining_body request src = (Inr whole, src') \<and>
       sanitize_http_request env whole st = (Inr (ex_upstream ex), ex_state ex))"
  using assms by (auto simp: forward_http_def failed_exchange_def split: sum.splits prod.splits)

lemma nothing_sent:
  assumes "read_http_head src0 = (Inr request, src)" and "body_is_read request"
    and "ex_upstream (forward_http env conn request src st) = []"
  shows "ex_client (forward_http env conn request src st) = [] \<and>
    (\<exists>err. ex_result (forward_http env conn request src st) = Inl err)"
proof -
  have False if whole: "read_remaining_body request src = (Inr whole, src')"
    and sent: "sanitize_http_request env whole st = (Inr [], st')" for whole src' st'
  proof -
    note wf = remaining_body_wf [OF assms(1) whole]
    have "hh_bytes whole \<noteq> []"
      using find_header_end_bound [OF wf(1)] by auto
    then show False
      using sent assms(2) wf(2)
      by (auto simp: sanitize_http_request_def body_is_read_def Let_def and_then_st_eq_Inr split: if_splits)
  qed
  then show ?thesis
    using forward_http_cases [OF refl, of env conn request src st] assms(3) by auto
qed

text \<open>
  C22. End to end, for a request whose body is text (announced by its length, and not JSON): either it is
  refused, then neither side is written to and the exchange ends with an error; or the upstream gets one
  message, framed by the length of its body (unless the client sent more bytes than it announced,
  \<open>not_pipelined\<close>), whose body is placeholders woven with fragments in which no
  secret of the registry occurs, those declared or found in the body itself included. Assumed of the body's
  parts, and of the text its directives make, are the exceptions of C12 (\<open>scannable\<close>).
\<close>

theorem text_request_redacted:
  assumes "read_http_head src0 = (Inr request, src)" and "hd (head_lines (head_without_delimiter request)) \<noteq> []"
    and "body_is_read request" and "\<not> is_json_http_body (head_without_delimiter request)"
    and "forward_http env conn request src st = ex" and "length (ex_upstream ex) < 2 ^ 64"
    and "san_inv (env_crypto env) U Ob (px_san st)" and "registry_fits (px_registry (ex_state ex))"
    and "\<And>whole src' t. read_remaining_body request src = (Inr whole, src') \<Longrightarrow> t \<in> slices_of (extra_bytes whole) \<Longrightarrow>
      scannable (env_crypto env) (px_registry (ex_state ex)) U Ob (rc_chunk (fst (px_san st))) t"
    and "\<And>whole src' x ids san. read_remaining_body request src = (Inr whole, src') \<Longrightarrow>
      replace_user_secret_directives_with (env_crypto env) (extra_bytes whole)
        (sanitize_plain_part (env_crypto env)) (px_san st) = (Inr (Some (x, ids)), san) \<Longrightarrow>
      scannable (env_crypto env) (px_registry (ex_state ex)) U Ob (rc_chunk (fst (px_san st))) (dt_text x)"
  shows "ex_upstream ex = [] \<and> ex_client ex = [] \<and> (\<exists>err. ex_result ex = Inl err) \<or>
    (\<exists>whole src' head body. read_remaining_body request src = (Inr whole, src') \<and>
       message_parts (ex_upstream ex) = Some (head, body) \<and>
       (not_pipelined request \<longrightarrow> content_length head = Some (length body)) \<and>
       string_redacted (env_crypto env) (px_registry (ex_state ex)) (px_registry (ex_state ex)) body \<and>
       (\<forall>ps a b. parse_ranges (extra_bytes whole) = Inr ps \<longrightarrow> Parsed_secret a b \<in> set ps \<longrightarrow>
          (\<exists>ident s. registry_holds (env_crypto env) (px_registry (ex_state ex)) ident s \<and>
             same_digest (env_crypto env) (reg_keys (px_registry (ex_state ex))) s (sub_bytes (extra_bytes whole) a b))))"
proof (cases "ex_upstream ex = []")
  case True
  have "ex_client ex = [] \<and> (\<exists>err. ex_result ex = Inl err)"
    using assms(5) True nothing_sent [OF assms(1,3), of env conn st] by simp
  then show ?thesis
    using True by simp
next
  case False
  obtain whole src' head body report where whole: "read_remaining_body request src = (Inr whole, src')"
    and san: "sanitize_http_body env (head_without_delimiter request) (extra_bytes whole) (px_san st) =
      (Inr (body, report), px_san (ex_state ex))"
    and parts: "message_parts (ex_upstream ex) = Some (head, body)"
      "not_pipelined request \<longrightarrow> content_length head = Some (length body)"
    using sent_request [OF assms(1-3), of env conn st] False assms(5,6) by metis
  obtain ids where run: "sanitize_decoded_string (env_crypto env) (js_patterns (env_sanitizer env)) (extra_bytes whole)
      (fst (px_san st), px_registry st) = (Inr (body, ids), (fst (px_san (ex_state ex)), px_registry (ex_state ex)))"
    using san assms(4)
    by (auto simp: sanitize_http_body_def sanitize_text_payload_def and_then_st_eq_Inr split: if_splits)
  have inv: "san_inv (env_crypto env) U Ob (fst (px_san st), px_registry st)"
    using assms(7) by simp
  have "string_redacted (env_crypto env) (px_registry (ex_state ex)) (px_registry (ex_state ex)) body \<and>
    (\<forall>ps a b. parse_ranges (extra_bytes whole) = Inr ps \<longrightarrow> Parsed_secret a b \<in> set ps \<longrightarrow>
       (\<exists>ident s. registry_holds (env_crypto env) (px_registry (ex_state ex)) ident s \<and>
          same_digest (env_crypto env) (reg_keys (px_registry (ex_state ex))) s (sub_bytes (extra_bytes whole) a b)))"
    using sanitize_decoded_string_redacted [OF inv _ _ run assms(8)] assms(9,10) [OF whole] by auto
  then show ?thesis
    using whole parts by blast
qed

text \<open>An upload of text.\<close>

definition upload_lines :: "bytes list" where
  "upload_lines = [''POST / HTTP/1.1'', ''content-type: text/plain'', ''content-length: 4'']"

definition upload_head :: bytes where
  "upload_head = str_join CRLF upload_lines"

definition text_upload :: http_head where
  "text_upload = \<lparr>hh_bytes = upload_head @ CRLF @ CRLF @ ''xpwy'', hh_delimiter_start = length upload_head\<rparr>"

lemma upload_line_ok: "\<forall>l \<in> set upload_lines. l \<noteq> [] \<and> \<not> occurs_in CRLF l"
proof -
  have "\<not> occurs_in CRLF l" if "l \<in> set upload_lines" for l
    using occurs_in_chars [of CRLF l] that by (auto simp: upload_lines_def)
  then show ?thesis
    by (auto simp: upload_lines_def)
qed

lemma upload_head_facts [simp]:
  "head_lines upload_head = upload_lines" "utf8_valid upload_head" "length upload_head = 60"
proof -
  show "head_lines upload_head = upload_lines"
    using split_joined_lines [of "butlast upload_lines" "last upload_lines"] upload_line_ok
    by (simp add: head_lines_def upload_head_def upload_lines_def)
  show "utf8_valid upload_head"
    unfolding upload_head_def upload_lines_def by (rule utf8_valid_ascii) auto
  show "length upload_head = 60"
    by (simp add: upload_head_def upload_lines_def)
qed

lemma upload_fields [simp]:
  "content_length upload_head = Some 4" "\<not> is_json_http_body upload_head" "is_redactable_http_body upload_head"
proof -
  have field: "header_value upload_head ''content-type'' = Some ''text/plain''"
    "header_value upload_head ''content-length'' = Some ''4''"
    unfolding header_value_lines [OF upload_head_facts(2)] by (simp_all add: upload_lines_def text_eval)
  moreover have "str_trim ''4'' = ''4''"
    by (simp add: text_eval)
  ultimately show "content_length upload_head = Some 4"
    by (simp add: content_length_def from_str_radix_def digit_val_def is_ascii_digit_def)
  show "\<not> is_json_http_body upload_head" "is_redactable_http_body upload_head"
    by (simp_all add: is_redactable_http_body_def is_json_http_body_def is_text_http_body_def content_type_def field(1)
        media_type_def text_eval ends_with_def suffix_def)
qed

lemma text_upload_parts [simp]:
  "head_without_delimiter text_upload = upload_head" "extra_bytes text_upload = ''xpwy''"
  by (simp_all add: text_upload_def head_without_delimiter_def extra_bytes_def)

lemma text_upload_read: "read_http_head [Got (hh_bytes text_upload)] = (Inr text_upload, [])"
proof -
  have closed: "crlf_lines upload_lines = upload_head @ CRLF"
    using crlf_lines_butlast [of "butlast upload_lines" "last upload_lines"]
    by (simp add: upload_head_def upload_lines_def)
  have "find_header_end (hh_bytes text_upload) = Some (length upload_head)"
    using find_header_end_lines [OF _ upload_line_ok, of "''xpwy''"]
    by (simp add: closed text_upload_def) (simp add: upload_lines_def)
  then show ?thesis
    by (simp add: read_http_head_def read_head_from.simps [of "[]"] head_limit_def text_upload_def)
qed

lemma text_upload_run:
  "\<exists>sent st' rc'. sanitize_http_request sample_env text_upload sample_state = (Inr sent, st') \<and> sent \<noteq> [] \<and>
     length sent < 2 ^ 64 \<and> px_san st' = (rc', one_secret ''pw'')"
proof -
  obtain rc' where "sanitize_decoded_string plain_crypto no_patterns ''xpwy'' start_state =
      (Inr (redacted_sample, [1]), (rc', one_secret ''pw''))"
    using sample_string_run by (auto simp: redacted_sample_def)
  moreover have "utf8_valid ''xpwy''"
    by (rule utf8_valid_ascii) auto
  ultimately obtain report where
    body: "sanitize_http_body sample_env upload_head ''xpwy'' start_state = (Inr (redacted_sample, report), (rc', one_secret ''pw''))"
    by (simp add: sanitize_http_body_def sanitize_text_payload_def sample_sanitizer_def)
  let ?head = "crlf_lines [''POST / HTTP/1.1'', ''content-type: text/plain'', ''content-length: 39'']"
  have "print_radix 10 39 = ''39''"
    by (simp add: print_radix.simps [of 10] digit_char_def char_of_eq_iff)
  then have head: "rewrite_http_head_for_body upload_head 39 True = Inr ?head"
    by (simp add: rewrite_http_head_for_body_def upload_lines_def body_header_line_def content_length_line_def
        map_filter_simps text_eval)
  have "length redacted_sample = 39" "redacted_sample \<noteq> ''xpwy''"
    by (simp_all add: redacted_sample_def)
  then have "\<exists>st'. sanitize_http_request sample_env text_upload sample_state =
      (Inr (?head @ CRLF @ redacted_sample), st') \<and> px_san st' = (rc', one_secret ''pw'')"
    using body head by (simp add: sanitize_http_request_def sanitize_recorded_def Let_def del: crlf_lines_simps)
  moreover have "length (?head @ CRLF @ redacted_sample) < 2 ^ 64"
    by (simp add: redacted_sample_def)
  ultimately show ?thesis
    by blast
qed

lemma text_request_redacted_witness:
  "\<exists>head body. message_parts (ex_upstream (forward_http sample_env (Inr (\<lambda>_. [])) text_upload [] sample_state)) =
       Some (head, body) \<and> content_length head = Some (length body) \<and>
     string_redacted plain_crypto (one_secret ''pw'') (one_secret ''pw'') body"
proof -
  let ?ex = "forward_http sample_env (Inr (\<lambda>_. [])) text_upload [] sample_state"
  obtain sent st' rc' where run: "sanitize_http_request sample_env text_upload sample_state = (Inr sent, st')"
    and sent: "sent \<noteq> []" "length sent < 2 ^ 64" and st': "px_san st' = (rc', one_secret ''pw'')"
    using text_upload_run by blast
  have rest: "read_remaining_body text_upload src = (Inr text_upload, src)" for src
    by (simp add: read_remaining_body_def)
  have ex: "ex_upstream ?ex = sent" "px_registry (ex_state ?ex) = one_secret ''pw''"
    using run st' by (simp_all add: forward_http_def rest read_http_head_def read_head_from.simps failed_exchange_def)
  have short: "scannable plain_crypto (one_secret ''pw'') UNIV (\<lambda>_ _. False) 65536 t" if "t \<in> slices_of ''xpwy''" for t
    using slices_length [OF that] by (simp add: scannable_def chunks_agree_def)
  have "tag_free ''xpwy''"
    by (rule no_angle_tag_free) simp
  then have none: "replace_user_secret_directives_with plain_crypto ''xpwy'' f start_state = (Inr None, start_state)" for f
    using directives_none [of "''xpwy''" plain_crypto f "cache_new 4" "one_secret ''pw''"] by (simp add: start_state_def)
  have read: "body_is_read text_upload" and one: "not_pipelined text_upload"
    and first: "hd (head_lines (head_without_delimiter text_upload)) \<noteq> []"
    by (simp_all add: body_is_read_def not_pipelined_def upload_lines_def)
  show ?thesis
    using text_request_redacted [OF text_upload_read first read _ refl, of sample_env "Inr (\<lambda>_. [])" sample_state
        UNIV "\<lambda>_ _. False"] sent ex one short start_inv [of UNIV "\<lambda>_ _. False"]
    by (auto simp: rest none registry_fits_def one_secret_entries)
qed

text \<open>
  C23. A body that is not announced by a length, as in a chunked request, is not read and not
  redacted: the bytes of it that came with the head are sent upstream as they are.
\<close>

theorem unannounced_body_not_redacted:
  assumes "content_length (head_without_delimiter request) = None"
    and "\<not> has_header (head_without_delimiter request) ''accept-encoding''"
  shows "ex_upstream (forward_http env (Inr upstream) request src st) = hh_bytes request"
proof -
  have "read_remaining_body request src = (Inr request, src)"
    by (simp add: read_remaining_body_def assms(1))
  moreover have "sanitize_http_request env request st = (Inr (hh_bytes request), st)"
    by (simp add: sanitize_http_request_unread [OF assms(1)] strip_http_message_header_def assms(2))
  ultimately show ?thesis
    by (auto simp: forward_http_def failed_exchange_def split: prod.split sum.split)
qed

definition chunked_head :: bytes where
  "chunked_head = str_join CRLF [''POST / HTTP/1.1'', ''transfer-encoding: chunked'']"

definition chunked_request :: http_head where
  "chunked_request =
     \<lparr>hh_bytes = chunked_head @ CRLF @ CRLF @ frame_bytes (''4'', ''xpwy'') @ last_chunk,
      hh_delimiter_start = length chunked_head\<rparr>"

lemma chunked_head_lines: "head_lines chunked_head = [''POST / HTTP/1.1'', ''transfer-encoding: chunked'']"
proof -
  have "\<not> occurs_in CRLF l" if "l \<in> {''POST / HTTP/1.1'', ''transfer-encoding: chunked''}" for l
    using that occurs_in_chars [of CRLF l] by auto
  then show ?thesis
    using split_joined_lines [of "[''POST / HTTP/1.1'']" "''transfer-encoding: chunked''"]
    by (simp add: head_lines_def chunked_head_def)
qed

lemma chunked_head_utf8: "utf8_valid chunked_head"
  unfolding chunked_head_def by (rule utf8_valid_ascii) auto

lemma chunked_request_head: "head_without_delimiter chunked_request = chunked_head"
  by (simp add: chunked_request_def head_without_delimiter_def)

lemma unannounced_body_not_redacted_witness:
  "ex_upstream (forward_http sample_env (Inr (\<lambda>_. [])) chunked_request [] sample_state) =
     chunked_head @ CRLF @ CRLF @ ''4'' @ CRLF @ ''xpwy'' @ CRLF @ last_chunk"
proof -
  have value': "header_value chunked_head name = lines_value [''transfer-encoding: chunked''] name" for name
    by (simp add: header_value_lines [OF chunked_head_utf8] chunked_head_lines)
  have "content_length chunked_head = None" "\<not> has_header chunked_head ''accept-encoding''"
    by (simp_all add: content_length_def has_header_def value' text_eval)
  then show ?thesis
    using unannounced_body_not_redacted [of chunked_request sample_env "\<lambda>_. []" "[]" sample_state]
    by (simp add: chunked_request_head) (simp add: chunked_request_def frame_bytes_def)
qed

section \<open>Responses\<close>

text \<open>
  C18. A JSON or text response of known length reaches the client with every placeholder replaced by
  its secret and, when that changed it, with its new length announced.
\<close>

theorem plain_response_restored:
  assumes "lib_ok (env_matcher env)" and "hex_lowercase (env_crypto env)" and "registry_wf (env_crypto env) r"
    and "restorer_new (env_matcher env) r = Inr rr"
    and "body_is_read response" and "request_wf response" and "utf8_valid (head_without_delimiter response)"
    and "length (restore_text (secret_table (env_crypto env) r) (extra_bytes response)) < 2 ^ 64"
  shows "\<exists>out head. restore_http_response env r response = Inr out \<and>
    message_parts out = Some (head, restore_text (secret_table (env_crypto env) r) (extra_bytes response)) \<and>
    (out = hh_bytes response \<or>
     content_length head = Some (length (restore_text (secret_table (env_crypto env) r) (extra_bytes response))))"
proof -
  let ?head = "head_without_delimiter response"
  let ?body = "restore_text (secret_table (env_crypto env) r) (extra_bytes response)"
  note body = restore_body_text [OF assms(1-4)]
  have ne: "hd (head_lines ?head) \<noteq> []"
    using assms(6) by (simp add: request_wf_def)
  obtain n where n: "content_length ?head = Some n" "n \<noteq> 0" "is_redactable_http_body ?head"
    using assms(5) by (auto simp: body_is_read_def)
  show ?thesis
  proof (cases "?body = extra_bytes response")
    case True
    then show ?thesis
      using n body request_parts [OF assms(6)] by (simp add: restore_http_response_def Let_def)
  next
    case False
    obtain head' where head': "rewrite_http_head_for_body ?head (length ?body) False = Inr head'"
      using assms(7) by (simp add: rewrite_http_head_for_body_def Let_def)
    then have "restore_http_response env r response = Inr (head' @ CRLF @ ?body)"
      using n body False by (simp add: restore_http_response_def Let_def)
    moreover have "content_length (take (length head' - 2) head') = Some (length ?body)"
      using rewrite_body_spec(1) [OF head' assms(8)] rewritten_body_parts(2) [OF head' ne assms(8)]
      by (simp add: content_length_def)
    ultimately show ?thesis
      using rewritten_body_parts(1) [OF head' ne assms(8)] by blast
  qed
qed

lemma plain_response_restored_witness:
  "\<exists>out head. restore_http_response sample_env (one_secret ''pw'') sample_request = Inr out \<and>
     message_parts out = Some (head, restore_text (secret_table plain_crypto (one_secret ''pw'')) (sample_text ''xpwy''))"
proof -
  obtain rr where "restorer_new naive_lib (one_secret ''pw'') = Inr rr"
    using naive_restorer [of "''pw''"] by auto
  moreover have "pattern_free (secret_table plain_crypto (one_secret ''pw'')) (sample_text ''xpwy'')"
    by (auto simp: pattern_free_def one_secret_table one_placeholder sample_text_def occurs_in_split
        dest!: arg_cong [where f = length])
  then have "length (restore_text (secret_table plain_crypto (one_secret ''pw'')) (sample_text ''xpwy'')) = 12"
    by (simp add: restore_text_free sample_text_length)
  moreover have "request_wf sample_request"
    using sample_message_end by (simp add: request_wf_def) (simp add: sample_request_def sample_lines_def)
  ultimately show ?thesis
    using plain_response_restored [of sample_env "one_secret ''pw''" _ sample_request]
    by (fastforce simp: body_is_read_def)
qed

text \<open>
  C17. A chunked response of JSON or text reaches the client as one well formed chunked body, under a
  head that says so, and its payload is the upstream's payload with every placeholder replaced by its
  secret, wherever the upstream put the limits of its chunks.
\<close>

theorem chunked_response_restored:
  assumes "lib_ok lib" and "hex_lowercase c" and "registry_wf c r" and "restorer_new lib r = Inr rr"
    and "rewrite_http_head_for_chunked (head_without_delimiter response) = Inr head"
    and "reader_delivers (extra_bytes response, src) (body_bytes frames final trailers @ rest)"
    and "body_ok frames final trailers"
    and "length (restore_text (secret_table c r) (concat (map snd frames))) < 2 ^ 64"
  shows "\<exists>pieces. forward_chunked_http_response c lib r response src =
      (Inr (), head @ CRLF @ body_bytes (hex_frames pieces) ''0'' []) \<and>
    is_chunked_transfer head \<and> header_value head ''content-length'' = None \<and>
    body_ok (hex_frames pieces) ''0'' [] \<and>
    concat (map snd (hex_frames pieces)) = restore_text (secret_table c r) (concat (map snd frames))"
proof -
  have "restore_chunks c (map (\<lambda>chunk. (chunk, r)) (map snd frames)) r rr =
      Inr (restore_text (secret_table c r) (concat (map fst (map (\<lambda>chunk. (chunk, r)) (map snd frames)))))"
    by (rule restored_chunks_text [OF assms(1-4)]) auto
  then have restored: "restore_chunks c (map (\<lambda>chunk. (chunk, r)) (map snd frames)) r rr =
      Inr (restore_text (secret_table c r) (concat (map snd frames)))"
    by (simp add: comp_def)
  obtain pieces where pieces: "forward_chunked_http_response c lib r response src =
      (Inr (), head @ CRLF @ body_bytes (hex_frames pieces) ''0'' [])"
    and tx: "concat pieces = restore_text (secret_table c r) (concat (map snd frames))"
    using forward_chunked_runs [OF assms(5,4,6,7) restored] by blast
  have "length p \<le> length (concat pieces)" if "p \<in> set pieces" for p
    using that by (auto dest!: split_list)
  then have "body_ok (hex_frames pieces) ''0'' []"
    using assms(8) tx by (intro hex_frames_ok) fastforce
  then show ?thesis
    using pieces tx rewrite_chunked_spec(1,2) [OF assms(5)] by (auto simp: hex_frames_payload)
qed

definition chunked_response :: http_head where
  "chunked_response =
     \<lparr>hh_bytes = chunked_head @ CRLF @ CRLF @ body_bytes (hex_frames [''ab'', ''cd'']) ''0'' [],
      hh_delimiter_start = length chunked_head\<rparr>"

lemma chunked_response_parts:
  "head_without_delimiter chunked_response = chunked_head"
  "reader_delivers (extra_bytes chunked_response, []) (body_bytes (hex_frames [''ab'', ''cd'']) ''0'' [] @ [])"
  by (simp_all add: chunked_response_def head_without_delimiter_def extra_bytes_def reader_delivers_def)

lemma short_pattern_free:
  "length bs < 37 \<Longrightarrow> pattern_free (secret_table plain_crypto (one_secret ''pw'')) bs"
  by (auto simp: pattern_free_def one_secret_table one_placeholder occurs_in_split dest!: arg_cong [where f = length])

lemma chunked_response_restored_witness:
  "\<exists>head pieces. forward_chunked_http_response plain_crypto naive_lib (one_secret ''pw'') chunked_response [] =
      (Inr (), head @ CRLF @ body_bytes (hex_frames pieces) ''0'' []) \<and>
    concat (map snd (hex_frames pieces)) = ''abcd''"
proof -
  obtain rr where rr: "restorer_new naive_lib (one_secret ''pw'') = Inr rr"
    using naive_restorer [of "''pw''"] by auto
  obtain head where head: "rewrite_http_head_for_chunked (head_without_delimiter chunked_response) = Inr head"
    by (simp add: chunked_response_parts(1) rewrite_http_head_for_chunked_def chunked_head_utf8 Let_def)
  have "body_ok (hex_frames [''ab'', ''cd'']) ''0'' []"
    by (rule hex_frames_ok) simp
  with chunked_response_restored [OF naive_lib_ok plain_hex_lowercase one_secret_wf rr head chunked_response_parts(2)]
  show ?thesis
    by (simp add: hex_frames_payload restore_text_free short_pattern_free del: restore_text.simps) blast
qed

text \<open>
  C19. A response of server-sent events does not depend on how it is cut into chunks: what is written
  is what one chunk with the whole payload would give.
\<close>

theorem event_stream_ignores_chunks:
  assumes "sse_restorer_new lib r = Inr sse" and "frames \<noteq> []"
    and "rewrite_http_head_for_chunked (head_without_delimiter response) = Inr head"
    and "reader_delivers (extra_bytes response, src) (body_bytes frames final trailers @ rest)"
    and "body_ok frames final trailers"
    and "restore_sse_chunks c js r [concat (map snd frames)] sse = Inr tx"
  shows "\<exists>pieces. forward_sse_chunked_http_response c lib js r response src =
      (Inr (), head @ CRLF @ body_bytes (hex_frames pieces) ''0'' []) \<and> concat (map snd (hex_frames pieces)) = tx"
proof -
  have "restore_sse_chunks c js r (map snd frames) sse = Inr tx"
    using restore_sse_concat [of "map snd frames" c js r sse] assms(2,6) by simp
  from forward_sse_runs [OF assms(3,1,4,5) this] show ?thesis
    by (simp add: hex_frames_payload)
qed

lemma sample_table_text: "table_text (secret_table plain_crypto (one_secret ''pw''))"
proof -
  have "utf8_valid ''{{CREBRO_SECRET:v1:KEY:s_4b45597077}}''" "utf8_valid ''pw''"
    by (rule utf8_valid_ascii; auto)+
  then show ?thesis
    by (simp add: table_text_def one_secret_table one_placeholder)
qed

lemma sample_fragment_finish:
  assumes "fragments_for plain_crypto (one_secret ''pw'') (secret_table plain_crypto (one_secret ''pw'')) fr"
    and "fr_pending fr = []"
  shows "fragment_finish plain_crypto what (one_secret ''pw'') fr = Inr []"
  using restore_fragments_text [OF secret_table_ok sample_table_text _ assms(1), of "[]" what] assms(2)
  by (simp add: clean_cuts_def one_secret_table)

lemma event_stream_ignores_chunks_witness:
  "\<exists>head pieces. forward_sse_chunked_http_response plain_crypto naive_lib toy_serde (one_secret ''pw'') chunked_response [] =
      (Inr (), head @ CRLF @ body_bytes (hex_frames pieces) ''0'' []) \<and>
    concat (map snd (hex_frames pieces)) = ''abcd''"
proof -
  obtain rr where "restorer_new naive_lib (one_secret ''pw'') = Inr rr"
    using naive_restorer [of "''pw''"] by auto
  then obtain fr where fr: "fragment_restorer_new naive_lib (one_secret ''pw'') = Inr fr"
    by (auto simp: fragment_restorer_new_def restorer_new_def)
  note for' = fragment_restorer_new_for [OF naive_lib_ok one_secret_wf plain_hex_lowercase fr]
  have sse: "sse_restorer_new naive_lib (one_secret ''pw'') = Inr \<lparr>sse_buffer = [], sse_text = fr\<rparr>"
    using fr by (simp add: sse_restorer_new_def)
  obtain head where head: "rewrite_http_head_for_chunked (head_without_delimiter chunked_response) = Inr head"
    by (simp add: chunked_response_parts(1) rewrite_http_head_for_chunked_def chunked_head_utf8 Let_def)
  have ok: "body_ok (hex_frames [''ab'', ''cd'']) ''0'' []"
    by (rule hex_frames_ok) simp
  have payload: "concat (map snd (hex_frames [''ab'', ''cd''])) = ''abcd''"
    by (simp add: hex_frames_payload)
  have ne: "hex_frames [''ab'', ''cd''] \<noteq> []"
    by (simp add: hex_frames_def)
  have single: "restore_sse_chunks plain_crypto toy_serde (one_secret ''pw'') [''abcd''] \<lparr>sse_buffer = [], sse_text = fr\<rparr> = Inr ''abcd''"
  proof -
    have find: "find_sse_event_end ''abcd'' = None"
      using occurs_in_chars [of "[LF, LF]" "''abcd''"] occurs_in_chars [of "CRLF @ CRLF" "''abcd''"]
      by (auto simp: find_sse_event_end_def str_find_None occurs_in_def split: option.splits)
    have "utf8_valid ''abcd''"
      by (rule utf8_valid_ascii) auto
    moreover have "str_lines [] ''abcd'' = [''abcd'']"
      by simp
    ultimately have "restore_event plain_crypto toy_serde (one_secret ''pw'') ''abcd'' fr = (Inr ''abcd'', fr)"
      by (simp add: restore_event_def restore_sse_line_def strip_prefix_def ends_with_def suffix_def)
    then show ?thesis
      using for' by (simp add: sse_push_chunk_def sse_events.simps find sse_finish_def sample_fragment_finish)
  qed
  show ?thesis
    using event_stream_ignores_chunks [OF sse ne head chunked_response_parts(2) ok, unfolded payload, OF single] by blast
qed

section \<open>Texts in pieces\<close>

text \<open>
  C20. The texts of a streamed answer, cut into fragments by the service, are restored as their
  concatenation would be, when no cut falls right behind the first byte of a placeholder.
\<close>

theorem fragments_restored_as_whole:
  assumes "lib_ok lib" and "registry_wf c r" and "hex_lowercase c" and "fragment_restorer_new lib r = Inr fr"
    and "table_text (secret_table c r)" and "list_all utf8_valid txs" and "clean_cuts (secret_table c r) [] txs"
  shows "restore_fragments c what r txs fr = Inr (restore_text (secret_table c r) (concat txs))"
proof (cases "secret_table c r = []")
  note fr = fragment_restorer_new_for [OF assms(1-4)]
  case True
  then have "fr_placeholders fr = []"
    using fr(1) by (simp add: fragments_for_def)
  then show ?thesis
    using restore_fragments_empty [of fr c r txs what] fr assms(6) restore_text_free [of "[]" "concat txs"] True
    by (simp add: list_all_iff pattern_free_def)
next
  note fr = fragment_restorer_new_for [OF assms(1-4)]
  case False
  show ?thesis
    using restore_fragments_text [OF secret_table_ok [OF assms(2,3)] assms(5) False fr(1), of txs what] fr(2) assms(6,7)
    by (simp add: list_all_iff utf8_valid_ascii)
qed

lemma sample_fragment_restorer:
  obtains fr where "fragment_restorer_new naive_lib (one_secret ''pw'') = Inr fr"
proof -
  obtain rr where "restorer_new naive_lib (one_secret ''pw'') = Inr rr"
    using naive_restorer [of "''pw''"] by auto
  then show ?thesis
    using that by (auto simp: fragment_restorer_new_def restorer_new_def)
qed

lemma fragments_restored_as_whole_witness:
  "\<exists>fr. fragment_restorer_new naive_lib (one_secret ''pw'') = Inr fr \<and>
     restore_fragments plain_crypto ''SSE'' (one_secret ''pw'') [''ab'', ''cd''] fr = Inr ''abcd''"
proof -
  obtain fr where fr: "fragment_restorer_new naive_lib (one_secret ''pw'') = Inr fr"
    by (rule sample_fragment_restorer)
  have "clean_cut (secret_table plain_crypto (one_secret ''pw'')) (concat us) (concat vs)"
    if "[''ab'', ''cd''] = us @ vs" for us vs
  proof -
    have "concat us @ concat vs = ''abcd''"
      using arg_cong [OF that, of concat] by simp
    moreover have "pattern_free (secret_table plain_crypto (one_secret ''pw'')) ''abcd''"
      by (rule short_pattern_free) simp
    ultimately show ?thesis
      by (auto simp: clean_cut_def pattern_free_def dest: occurs_inI)
  qed
  then have "clean_cuts (secret_table plain_crypto (one_secret ''pw'')) [] [''ab'', ''cd'']"
    unfolding clean_cuts_def by simp
  moreover have "list_all utf8_valid [''ab'', ''cd'']"
    by (auto intro!: utf8_valid_ascii)
  ultimately show ?thesis
    using fragments_restored_as_whole [OF naive_lib_ok one_secret_wf plain_hex_lowercase fr sample_table_text,
        of "[''ab'', ''cd'']" "''SSE''"] fr
    by (simp add: restore_text_free short_pattern_free del: restore_text.simps)
qed

text \<open>
  C21. A placeholder that arrives in two fragments, the first of one byte, leaves as a placeholder:
  the byte is not held back, and the secret is not restored.
\<close>

theorem first_byte_fragment_not_restored:
  assumes "lib_ok lib" and "registry_wf c r" and "hex_lowercase c" and "fragment_restorer_new lib r = Inr fr"
    and "table_text (secret_table c r)" and "(p, s) \<in> set (secret_table c r)"
  shows "restore_fragments c what r [take 1 p, drop 1 p] fr = Inr p"
  using first_byte_cut [OF fragment_restorer_new_for [OF assms(1-4)] secret_table_ok [OF assms(2,3)] assms(5,6)] .

lemma first_byte_fragment_not_restored_witness:
  "\<exists>fr. fragment_restorer_new naive_lib (one_secret ''pw'') = Inr fr \<and>
     restore_fragments plain_crypto ''SSE'' (one_secret ''pw'') [''{'', ''{CREBRO_SECRET:v1:KEY:s_4b45597077}}''] fr =
       Inr ''{{CREBRO_SECRET:v1:KEY:s_4b45597077}}''"
proof -
  obtain fr where fr: "fragment_restorer_new naive_lib (one_secret ''pw'') = Inr fr"
    by (rule sample_fragment_restorer)
  show ?thesis
    using first_byte_fragment_not_restored [OF naive_lib_ok one_secret_wf plain_hex_lowercase fr sample_table_text,
        of "''{{CREBRO_SECRET:v1:KEY:s_4b45597077}}''" "''pw''" "''SSE''"] fr
    by (simp add: one_secret_table one_placeholder)
qed

section \<open>Statistics\<close>

text \<open>
  Recording a report adds to the counter of every placeholder the number of times its secret was
  redacted, and to that of every pattern the number of its matches; counters stop at the largest
  64-bit number instead of wrapping around.
\<close>

theorem report_is_counted:
  assumes "format_ok fmt" and "stats_enabled rec"
  shows "secret_count (stats_of fmt (record_sanitizer_report fmt now rec r report file)) p =
      min u64_max (secret_count (stats_of fmt file) p +
        length (filter (\<lambda>ident. map_option fst (stats_identity_for r ident) = Some p) (sr_secret_ids report))) \<and>
    pattern_count (stats_of fmt (record_sanitizer_report fmt now rec r report file)) p =
      min u64_max (pattern_count (stats_of fmt file) p + count_list (sr_pattern_ids report) p)"
  using record_report_counts [OF assms] by blast

lemma report_is_counted_witness:
  "pattern_count (stats_of no_format (record_sanitizer_report no_format 7 \<lparr>stats_enabled = True\<rparr> (one_secret ''pw'')
     \<lparr>sr_input_bytes = 0, sr_output_bytes = 0, sr_cache_stats = rc_stats (cache_new 4), sr_secret_ids = [],
      sr_pattern_ids = [''a'', ''b'', ''a'']\<rparr> None)) ''a'' = 2"
proof -
  have "format_ok no_format"
    by (simp add: format_ok_def no_format_def)
  from report_is_counted [OF this, of "\<lparr>stats_enabled = True\<rparr>" 7 "one_secret ''pw''"
      "\<lparr>sr_input_bytes = 0, sr_output_bytes = 0, sr_cache_stats = rc_stats (cache_new 4), sr_secret_ids = [],
      sr_pattern_ids = [''a'', ''b'', ''a'']\<rparr>" None "''a''"]
  show ?thesis
    by (simp add: stats_of_def read_stats_file_def stats_file_default_def pattern_count_def u64_max_def)
qed

end
