(* ===== verification/Websocket_Properties.thy ===== *)
theory Websocket_Properties
  imports Http_Properties
begin

text \<open>
  The properties of the websocket relay: frames, the relay as a transition system and what it sends,
  fragments, the restorer and the handshake, each with the concrete input at which it is applied.
\<close>

section \<open>Frames\<close>

text \<open>
  C28. A frame that is written is read back as it was, in both directions, masked or not, whatever
  the length of its payload up to the limit and however the network cuts it.
\<close>

theorem frame_read_as_written:
  assumes "opcode < 16" and "length payload \<le> MAX_TEXT_MESSAGE_BYTES"
    and "masked \<Longrightarrow> (\<exists>key. random = Some key \<and> length key = 4)"
    and "write_frame random fin opcode payload masked = Inr out" and "delivers src (out @ rest)"
  shows "\<exists>src'. read_frame masked src =
      (Inr (Some \<lparr>fm_fin = fin, fm_opcode = opcode, fm_payload = payload\<rparr>), src') \<and> delivers src' rest"
  using read_frame_written [OF assms(1,2) _ assms(4,5)] assms(3) by blast

lemma frame_read_as_written_witness:
  "\<exists>out. write_frame (Some ''abcd'') True OPCODE_TEXT ''hi'' True = Inr out \<and>
     fst (read_frame True [Got out]) = Inr (Some \<lparr>fm_fin = True, fm_opcode = OPCODE_TEXT, fm_payload = ''hi''\<rparr>)"
proof -
  obtain out where out: "write_frame (Some ''abcd'') True OPCODE_TEXT ''hi'' True = Inr out" "out \<noteq> []"
    by (auto simp: write_frame_def frame_head_def Let_def)
  have "delivers [Got out] (out @ [])"
    using out(2) by simp
  from frame_read_as_written [OF _ _ _ out(1) this] out(1) show ?thesis
    by (auto simp: OPCODE_TEXT_def MAX_TEXT_MESSAGE_BYTES_def)
qed

section \<open>The relay as a transition system\<close>

inductive reaches :: "'f proxy_env \<Rightarrow> 'f relay \<Rightarrow> 'f relay \<Rightarrow> bool" for env and rl where
  start: "reaches env rl rl"
| turn: "reaches env rl rl1 \<Longrightarrow> relay_step env event rl1 = (res, rl2) \<Longrightarrow> reaches env rl rl2"

lemma reaches_ok: "reaches env rl rl' \<Longrightarrow> relay_ok rl \<Longrightarrow> relay_ok rl'"
  by (induction rule: reaches.induct) (simp, metis relay_step_ok snd_conv)

lemma run_reaches_from: "reaches env rl0 rl \<Longrightarrow> reaches env rl0 (snd (relay_with_rewrite env events rl))"
proof (induction events arbitrary: rl)
  case (Cons event events)
  obtain res rl1 where st: "relay_step env event rl = (res, rl1)"
    by (cases "relay_step env event rl")
  have "reaches env rl0 rl1"
    by (rule turn [OF Cons.prems st])
  then show ?case
    using st Cons.IH [of rl1] by (cases res) auto
qed simp

lemmas run_reaches = run_reaches_from [OF reaches.start]

text \<open>
  C29. Neither buffer of the relay ever holds more than the limit for a text message, whatever frames
  arrive from both sides in whatever order, the failed turns included, and a buffer is only in use
  for a text message.
\<close>

theorem relay_buffers_bounded:
  assumes "reaches env rl rl'" and "cs_buffer (rl_client rl) = message_buffer_default"
    and "us_buffer (rl_upstream rl) = message_buffer_default"
  shows "length (mb_payload (cs_buffer (rl_client rl'))) \<le> MAX_TEXT_MESSAGE_BYTES \<and>
    length (mb_payload (us_buffer (rl_upstream rl'))) \<le> MAX_TEXT_MESSAGE_BYTES \<and>
    (mb_opcode (cs_buffer (rl_client rl')) \<noteq> Some OPCODE_TEXT \<longrightarrow> mb_payload (cs_buffer (rl_client rl')) = [])"
proof -
  have "relay_ok rl'"
    by (rule reaches_ok [OF assms(1)]) (simp add: relay_ok_def assms(2,3))
  then show ?thesis
    by (auto simp: relay_ok_def buffer_ok_def)
qed

definition sample_relay :: "stats_file relay" where
  "sample_relay =
     \<lparr>rl_client = \<lparr>cs_buffer = message_buffer_default, cs_state = sample_state, cs_written = [],
        cs_randoms = [Some ''abcd'']\<rparr>,
      rl_upstream = \<lparr>us_buffer = message_buffer_default, us_restorer = None, us_written = []\<rparr>\<rparr>"

lemma relay_buffers_bounded_witness:
  "length (mb_payload (cs_buffer (rl_client (snd (relay_with_rewrite sample_env
     [From_client (Inr (Some (text_frame False ''ab''))), From_client (Inr (Some (continuation_frame False ''cd'')))]
     sample_relay))))) \<le> MAX_TEXT_MESSAGE_BYTES"
  by (rule conjunct1 [OF relay_buffers_bounded [OF run_reaches]]) (simp_all add: sample_relay_def)

text \<open>
  C7. All the relay ever writes to the upstream are masked frames, and the text frames among them are,
  one by one and in order, what sanitizing the client's text messages gives, each put together from
  its fragments first; none is left out as long as the relay goes on. Whoever reads what was written
  reads exactly these frames. The masks are the four bytes the operating system gives.
\<close>

theorem relay_sends_sanitized_text:
  assumes "relay_with_rewrite env events rl = (res, rl')"
    and "cs_buffer (rl_client rl) = message_buffer_default" and "us_buffer (rl_upstream rl) = message_buffer_default"
    and "\<And>key. Some key \<in> set (cs_randoms (rl_client rl)) \<Longrightarrow> length key = 4"
  shows "\<exists>sent. cs_written (rl_client rl') = cs_written (rl_client rl) @ concat (map snd sent) \<and>
    prefix (text_payloads (map fst sent))
      (sanitize_messages env (text_messages None (client_frames events)) (px_san (cs_state (rl_client rl)))) \<and>
    (res = Inr False \<longrightarrow> text_payloads (map fst sent) =
      sanitize_messages env (text_messages None (client_frames events)) (px_san (cs_state (rl_client rl)))) \<and>
    list_all (\<lambda>(f, out). frame_sent f out) sent \<and>
    (\<forall>src rest. list_all (\<lambda>(f, out). length (fm_payload f) \<le> MAX_TEXT_MESSAGE_BYTES) sent \<and>
      delivers src (concat (map snd sent) @ rest) \<longrightarrow> read_frames (length sent) src = map fst sent)"
proof -
  have "relay_ok rl" and "masks_ok (rl_client rl)"
    using assms(2-4) by (simp_all add: relay_ok_def masks_ok_def)
  from relay_sends [OF assms(1) this(2,1)] obtain sent where sent: "sends sent (rl_client rl) (rl_client rl')"
    "prefix (texts_of sent) (left_to_send env (client_frames events) (rl_client rl))"
    "res = Inr False \<longrightarrow> texts_of sent = left_to_send env (client_frames events) (rl_client rl)"
    by blast
  then show ?thesis
    using assms(2) frames_read_back [of sent]
    by (intro exI [of _ sent]) (auto simp: sends_def left_to_send_def pending_text_def message_buffer_default_def)
qed

lemma relay_sends_sanitized_text_witness:
  "\<exists>sent res rl'. relay_with_rewrite sample_env
       [From_client (Inr (Some (text_frame False []))),
        From_client (Inr (Some (continuation_frame True (sample_text ''xpwy''))))] sample_relay = (res, rl') \<and>
     cs_written (rl_client rl') = concat (map snd sent) \<and>
     prefix (text_payloads (map fst sent)) [sample_text redacted_sample]"
proof -
  let ?events = "[From_client (Inr (Some (text_frame False []))),
    From_client (Inr (Some (continuation_frame True (sample_text ''xpwy''))))]"
  obtain res rl' where run: "relay_with_rewrite sample_env ?events sample_relay = (res, rl')"
    by (cases "relay_with_rewrite sample_env ?events sample_relay")
  obtain report rc' where "sanitize_json plain_crypto toy_serde sample_sanitizer (sample_text ''xpwy'') start_state =
      (Inr (sample_text redacted_sample, report), (rc', one_secret ''pw''))"
    using sample_json_run by blast
  then have "sanitize_messages sample_env (text_messages None (client_frames ?events))
      (px_san (cs_state (rl_client sample_relay))) = [sample_text redacted_sample]"
    by (simp add: text_frame_def continuation_frame_def opcode_defs sanitize_client_payload_def sample_relay_def)
  then show ?thesis
    using relay_sends_sanitized_text [OF run] run by (fastforce simp: sample_relay_def)
qed

section \<open>Fragments\<close>

text \<open>
  C30. A text message in fragments is handled exactly as the one frame with its whole text, so a
  secret cut by a fragment boundary is redacted like any other.
\<close>

theorem fragments_handled_as_whole:
  assumes "cs_buffer cs = message_buffer_default"
    and "length (p @ concat qs @ q) \<le> MAX_TEXT_MESSAGE_BYTES"
  shows "handle_client_frames env
      (text_frame False p # map (continuation_frame False) qs @ [continuation_frame True q]) cs =
    handle_client_frame env (text_frame True (p @ concat qs @ q)) cs"
  by (rule fragments_run [OF assms])

lemma fragments_handled_as_whole_witness:
  "handle_client_frames sample_env
     [text_frame False ''xp'', continuation_frame False [], continuation_frame True ''wy''] (rl_client sample_relay) =
   handle_client_frame sample_env (text_frame True ''xpwy'') (rl_client sample_relay)"
  using fragments_handled_as_whole [of "rl_client sample_relay" "''xp''" "[[]]" "''wy''" sample_env]
  by (simp add: sample_relay_def MAX_TEXT_MESSAGE_BYTES_def)

section \<open>Restored text\<close>

text \<open>
  When the registry has changed since the last message, the text that was held back as the start
  of a placeholder is dropped: the message is restored as if nothing had come before.
\<close>

theorem changed_registry_drops_pending:
  assumes "wr_version wr \<noteq> reg_version r" and "ws_restorer_new env r = Inr fresh"
  shows "restore_upstream_text env r payload (Some wr) = restore_upstream_text env r payload None"
  using restorer_replaced [OF assms(1), where env = env and payload = payload] assms(2) by (simp add: prod_eq_iff)

lemma changed_registry_drops_pending_witness:
  "\<exists>wr. fr_pending (wr_text wr) = ''{{CREBRO'' \<and>
     restore_upstream_text sample_env (one_secret ''pw'') ''_SECRET'' (Some wr) =
       restore_upstream_text sample_env (one_secret ''pw'') ''_SECRET'' None"
proof -
  obtain fr where fr: "fragment_restorer_new naive_lib (one_secret ''pw'') = Inr fr"
    by (rule sample_fragment_restorer)
  let ?wr = "\<lparr>wr_version = reg_version (one_secret ''pw'') + 1, wr_text = fr\<lparr>fr_pending := ''{{CREBRO''\<rparr>\<rparr>"
  have "restore_upstream_text sample_env (one_secret ''pw'') ''_SECRET'' (Some ?wr) =
      restore_upstream_text sample_env (one_secret ''pw'') ''_SECRET'' None"
    by (rule changed_registry_drops_pending) (simp_all add: ws_restorer_new_def fr)
  then show ?thesis
    by (intro exI [of _ ?wr]) simp
qed

section \<open>The handshake\<close>

text \<open>
  C31. When the relay starts, neither side was told of an extension the other offered, so no frame is
  compressed behind the back of the sanitizer. No early byte is lost: the client had sent none, and the
  relay goes on reading from the upstream right behind the empty line that ends its head.
\<close>

theorem handshake_strips_extensions:
  assumes "forward_websocket (Inr upstream) request = (Ws_relay src, sent, answered)"
  shows "\<exists>head head'. sent = head @ CRLF \<and> header_value head ws_extensions = None \<and>
    answered = head' @ CRLF \<and> header_value head' ws_extensions = None \<and> extra_bytes request = [] \<and>
    (\<forall>bs. delivers (upstream sent) bs \<longrightarrow> (\<exists>i. find_header_end bs = Some i \<and> delivers src (drop (i + 4) bs)))"
  by (rule forward_websocket_plain [OF assms])

definition sample_upgrade :: http_head where
  "sample_upgrade = \<lparr>hh_bytes = sample_head @ CRLF @ CRLF, hh_delimiter_start = length sample_head\<rparr>"

definition switching :: bytes where
  "switching = ''HTTP/1.1 101 Switching Protocols''"

lemma switching_read:
  "read_http_head [Got (switching @ CRLF @ CRLF)] =
     (Inr \<lparr>hh_bytes = switching @ CRLF @ CRLF, hh_delimiter_start = length switching\<rparr>, [])"
proof -
  have "\<not> occurs_in CRLF switching"
    using occurs_in_chars [of CRLF switching] by (auto simp: switching_def)
  then have "find_header_end (switching @ CRLF @ CRLF) = Some (length switching)"
    using find_header_end_lines [of "[switching]" "[]"] by (simp add: switching_def)
  then show ?thesis
    by (simp add: read_http_head_def read_head_from.simps [of "[]"] head_limit_def switching_def)
qed

lemma handshake_strips_extensions_witness:
  "\<exists>sent answered head. forward_websocket (Inr (\<lambda>_. [Got (switching @ CRLF @ CRLF)])) sample_upgrade =
       (Ws_relay [], sent, answered) \<and> sent = head @ CRLF \<and> header_value head ws_extensions = None"
proof -
  have u: "utf8_valid switching"
    unfolding switching_def by (rule utf8_valid_ascii) auto
  have parts: "head_without_delimiter sample_upgrade = sample_head" "extra_bytes sample_upgrade = []"
    by (simp_all add: sample_upgrade_def head_without_delimiter_def extra_bytes_def)
  have "\<not> occurs_in CRLF switching"
    using occurs_in_chars [of CRLF switching] by (auto simp: switching_def)
  then have "head_lines switching = [switching]"
    using split_joined_lines [of "[]" switching] by (simp add: head_lines_def)
  moreover have "str_contains switching '' 101 ''"
    by (simp add: switching_def str_contains_def)
  moreover have "head_without_delimiter \<lparr>hh_bytes = switching @ CRLF @ CRLF, hh_delimiter_start = length switching\<rparr> = switching"
    "extra_bytes \<lparr>hh_bytes = switching @ CRLF @ CRLF, hh_delimiter_start = length switching\<rparr> = []"
    by (simp_all add: head_without_delimiter_def extra_bytes_def)
  ultimately obtain sent answered where
    run: "forward_websocket (Inr (\<lambda>_. [Got (switching @ CRLF @ CRLF)])) sample_upgrade = (Ws_relay [], sent, answered)"
    using u switching_read
    by (simp add: forward_websocket_def parts strip_header_def answer_websocket_def Let_def
        response_is_switching_protocols_def)
  from handshake_strips_extensions [OF this] run show ?thesis
    by blast
qed

end
