(* ===== verification/Gateway_Properties.thy ===== *)
theory Gateway_Properties
  imports Websocket_Properties
begin

text \<open>
  The properties of the gateway: what it sends upstream, with which credential, when it answers at
  all, and what the client gets back, each with the concrete input at which it is applied.
\<close>

section \<open>A sample gateway\<close>

definition sample_http :: http_lib where
  "sample_http =
     \<lparr>hl_to_str = Some, hl_header_value = Some,
      hl_to_bytes = (\<lambda>src limit. case src of [Got bs] \<Rightarrow> Inr bs | _ \<Rightarrow> Inl ''length limit exceeded''),
      hl_send = (\<lambda>_. Inl ''connection refused'')\<rparr>"

definition sample_gateway :: "u64 option \<Rightarrow> stats_file gateway_env" where
  "sample_gateway auth =
     \<lparr>gw_crypto = plain_crypto, gw_serde = toy_serde, gw_matcher = naive_lib, gw_http = sample_http,
      gw_sanitizer = sample_sanitizer, gw_patterns = no_patterns, gw_format = no_format,
      gw_recorder = \<lparr>stats_enabled = True\<rparr>, gw_now = 0, gw_upstream_base = ''https://example.com'',
      gw_auth_secret = auth, gw_threshold = 1024\<rparr>"

definition sample_gateway_state :: "stats_file gateway_state" where
  "sample_gateway_state = \<lparr>gs_san = start_state, gs_stats = None, gs_guard = False\<rparr>"

definition provider_request :: "headers \<Rightarrow> gateway_request" where
  "provider_request hs =
     \<lparr>gr_method = ''POST'', gr_path = ''/v1/responses'', gr_path_and_query = Some ''/v1/responses'',
      gr_headers = (''content-type'', ''application/json'') # hs, gr_body = [Got (sample_text ''xpwy'')]\<rparr>"

lemma sample_gateway_simps [simp]:
  "gw_crypto (sample_gateway auth) = plain_crypto" "gw_serde (sample_gateway auth) = toy_serde"
  "gw_matcher (sample_gateway auth) = naive_lib" "gw_http (sample_gateway auth) = sample_http"
  "gw_sanitizer (sample_gateway auth) = sample_sanitizer" "gw_patterns (sample_gateway auth) = no_patterns"
  "gw_auth_secret (sample_gateway auth) = auth" "gw_threshold (sample_gateway auth) = 1024"
  "gs_san sample_gateway_state = start_state" "\<not> gs_guard sample_gateway_state"
  "gr_headers (provider_request hs) = (''content-type'', ''application/json'') # hs"
  "gr_body (provider_request hs) = [Got (sample_text ''xpwy'')]"
  "hl_to_str sample_http = Some" "hl_header_value sample_http = Some"
  by (simp_all add: sample_gateway_def sample_gateway_state_def provider_request_def sample_http_def)

lemma provider_request_json [simp]: "is_json_request sample_http ((''content-type'', ''application/json'') # hs)"
  by (simp add: is_json_request_def header_str_def header_get_def text_eval)

lemma provider_request_whole [simp]:
  "\<not> should_stream_json sample_http [(''content-type'', ''application/json''), (''content-length'', ''12'')] 1024"
  by (simp add: should_stream_json_def header_str_def header_get_def from_str_radix_def digit_val_def is_ascii_digit_def)

section \<open>What is sent upstream\<close>

lemma sanitize_request_body_whole:
  assumes "sanitize_request_body env hs body True st = Some (Inr prepared, st')"
    and "\<not> should_stream_json (gw_http env) hs (gw_threshold env)"
  shows "\<exists>bs sanitized report. hl_to_bytes (gw_http env) body (gw_threshold env) = Inr bs \<and>
    sanitize_json (gw_crypto env) (gw_serde env) (gw_sanitizer env) bs (gs_san st) =
      (Inr (sanitized, report), gs_san st') \<and> prepared = Prepared (Whole sanitized)"
  using assms
  by (auto simp: sanitize_request_body_def sanitize_json_body_def stats_of_report_def
      split: sum.splits prod.splits if_splits)


lemma sample_observed_none [simp]:
  "register_observed_auth_header plain_crypto sample_http no_patterns
     [(''content-type'', ''application/json''), (''content-length'', ''12'')] r = (Inr None, r)"
  by (simp add: register_observed_auth_header_def observed_credential_def observed_bearer_def header_str_def
      header_get_def PROVIDER_KEY_HEADERS_def)

lemma sample_to_bytes [simp]: "hl_to_bytes sample_http [Got bs] n = Inr bs"
  by (simp add: sample_http_def)

lemma gateway_sample_run:
  "\<exists>x rc'. proxy (sample_gateway None) (provider_request [(''content-length'', ''12'')]) sample_gateway_state = Some x \<and>
     map_option ur_body (gx_sent x) = Some (Whole (sample_text redacted_sample)) \<and>
     gs_san (gx_state x) = (rc', one_secret ''pw'')"
proof -
  obtain report rc' where "sanitize_json plain_crypto toy_serde sample_sanitizer (sample_text ''xpwy'') start_state =
      (Inr (sample_text redacted_sample, report), (rc', one_secret ''pw''))"
    using sample_json_run by blast
  moreover have "(fst start_state, one_secret ''pw'') = start_state"
    by (simp add: start_state_def)
  ultimately show ?thesis
    by (simp add: proxy_def handle_def register_observed_def sanitize_request_body_def sanitize_json_body_def
        credential_to_send_def auth_headers_def answer_def refuse_def stats_of_report_def sample_http_def [THEN arg_cong [where f = hl_send]] Let_def)
qed


section \<open>Credentials\<close>

text \<open>
  The registry a credential was looked up in is the one the handler leaves behind: between the two
  a body is read only if there is no credential.
\<close>

lemma sent_auth:
  assumes "sanitize_request_body env hs body json st = Some (Inr prepared, st1)"
    and "credential_to_send env provider observed st1 = Some (Inr auth)"
    and "read_body env prepared st1 = (out, st2)"
  shows "auth_headers env provider observed (gs_registry st2) = Inr auth"
proof (cases prepared)
  case (Sanitizing src)
  then have "gw_auth_secret env = None \<and> observed = None"
    using assms(1,2) by (auto simp: sanitizing_body_iff credential_to_send_eq_Some)
  then show ?thesis
    using assms(2) by (auto simp: credential_to_send_eq_Some auth_headers_none)
qed (use assms(2,3) in \<open>simp add: credential_to_send_eq_Some\<close>)

lemma prepared_body_step:
  assumes "sanitize_request_body env hs body json st = Some (Inr (Prepared out), st')"
  shows "registry_step (gw_crypto env) (gs_registry st) (gs_registry st')"
proof (cases json)
  case True
  then have "\<not> should_stream_json (gw_http env) hs (gw_threshold env)"
    using assms
    by (auto simp: sanitize_request_body_def sanitize_json_body_def sanitize_json_body_stream_def split: if_splits)
  then obtain bs sanitized report where
    "sanitize_json (gw_crypto env) (gw_serde env) (gw_sanitizer env) bs (gs_san st) = (Inr (sanitized, report), gs_san st')"
    using sanitize_request_body_whole [of env hs body st "Prepared out" st'] assms True by auto
  then show ?thesis
    using sanitize_json_step [of "gw_crypto env" "gs_san st" "gw_serde env" "gw_sanitizer env" bs] by simp
qed (use assms in \<open>simp add: sanitize_request_body_def\<close>)

text \<open>
  C25. Of the credentials in the client's headers none is forwarded as it is: at most one credential
  header is sent, and it is the one the gateway made from a secret of its registry.
\<close>

theorem one_credential_sent:
  assumes "proxy env req st = Some x" and "gx_sent x = Some ur"
  shows "\<exists>observed r auth.
    register_observed_auth_header (gw_crypto env) (gw_http env) (gw_patterns env) (gr_headers req) (gs_registry st) =
      (Inr observed, r) \<and>
    auth_headers env (infer_provider_from_path (gr_path req)) observed (gs_registry (gx_state x)) = Inr auth \<and>
    filter (\<lambda>(key, value'). is_provider_auth_header key) (ur_headers ur) =
      filter (\<lambda>(key, value'). is_provider_auth_header key) auth \<and> length auth \<le> 1"
proof (rule proxy_sent [OF assms])
  let ?json = "is_json_request (gw_http env) (gr_headers req)"
  let ?provider = "infer_provider_from_path (gr_path req)"
  fix observed r prepared st2 auth
  assume reg: "register_observed_auth_header (gw_crypto env) (gw_http env) (gw_patterns env) (gr_headers req)
      (gs_registry st) = (Inr observed, r)"
    and body: "sanitize_request_body env (gr_headers req) (gr_body req) ?json (st\<lparr>gs_san := (fst (gs_san st), r)\<rparr>) =
      Some (Inr prepared, st2)"
    and auth: "credential_to_send env ?provider observed st2 = Some (Inr auth)"
    and hs: "ur_headers ur = filter (\<lambda>(key, value'). \<not> should_skip_request_header key ?json) (gr_headers req) @ auth"
    and read: "read_body env prepared st2 = (ur_body ur, gx_state x)"
  have "auth_headers env ?provider observed (gs_registry (gx_state x)) = Inr auth"
    using sent_auth [OF body auth read] .
  then show ?thesis
    using reg auth_headers_one by (auto simp: hs sent_credentials simp del: filter_append filter_filter)
qed

lemma one_credential_sent_witness:
  "\<exists>x ur. proxy (sample_gateway None) (provider_request [(''content-length'', ''12'')]) sample_gateway_state = Some x \<and>
     gx_sent x = Some ur \<and> filter (\<lambda>(key, value'). is_provider_auth_header key) (ur_headers ur) = []"
proof -
  obtain x ur where x: "proxy (sample_gateway None) (provider_request [(''content-length'', ''12'')]) sample_gateway_state = Some x"
    "gx_sent x = Some ur"
    using gateway_sample_run by auto
  from one_credential_sent [OF x] x show ?thesis
    by (auto simp: auth_headers_def)
qed

text \<open>
  C24. When the gateway has no credential of its own, the one it found in the client's headers is what
  is sent, in the same header: the secret it was registered as is restored to the same bytes, unless
  HMAC collides.
\<close>

theorem client_credential_forwarded:
  assumes "proxy env req st = Some x" and "gx_sent x = Some ur" and "gw_auth_secret env = None"
    and "observed_credential (gw_http env) (gw_patterns env) (gr_headers req) = Some (label, v, kind)"
    and "registry_inv (gw_crypto env) (gs_registry st)" and "aead_correct (gw_crypto env)"
    and "registry_fits (gs_registry (gx_state x))"
  shows "\<exists>s h. same_digest (gw_crypto env) (reg_keys (gs_registry st)) s v \<and>
    apply_observed (gw_http env) kind s = Inr h \<and>
    ur_headers ur = filter (\<lambda>(key, value').
      \<not> should_skip_request_header key (is_json_request (gw_http env) (gr_headers req))) (gr_headers req) @ [h]"
proof (rule proxy_sent [OF assms(1,2)])
  let ?json = "is_json_request (gw_http env) (gr_headers req)"
  let ?provider = "infer_provider_from_path (gr_path req)"
  fix observed r prepared st2 auth
  assume reg: "register_observed_auth_header (gw_crypto env) (gw_http env) (gw_patterns env) (gr_headers req)
      (gs_registry st) = (Inr observed, r)"
    and body: "sanitize_request_body env (gr_headers req) (gr_body req) ?json (st\<lparr>gs_san := (fst (gs_san st), r)\<rparr>) =
      Some (Inr prepared, st2)"
    and auth: "credential_to_send env ?provider observed st2 = Some (Inr auth)"
    and hs: "ur_headers ur = filter (\<lambda>(key, value'). \<not> should_skip_request_header key ?json) (gr_headers req) @ auth"
    and read: "read_body env prepared st2 = (ur_body ur, gx_state x)"
  have "observed \<noteq> None"
    using reg assms(4) by (auto simp: register_observed_auth_header_def and_then_st_eq_Inr)
  then obtain out where out: "prepared = Prepared out"
    using body auth by (cases prepared) (auto simp: sanitizing_body_iff credential_to_send_eq_Some)
  then have state: "gx_state x = st2"
    using read by simp
  have step: "registry_step (gw_crypto env) r (gs_registry st2)"
    using prepared_body_step [OF body [unfolded out]] by simp
  have "registry_fits r"
    by (rule step_fits [OF step]) (use assms(7) state in simp)
  from observed_credential_sent [OF assms(5,6) refl assms(3,4) reg this step, of ?provider]
  obtain s where s: "same_digest (gw_crypto env) (reg_keys (gs_registry st)) s v"
    "auth_headers env ?provider observed (gs_registry st2) =
      and_then (apply_observed (gw_http env) kind s) (\<lambda>h. Inr [h])"
    by blast
  then show ?thesis
    using hs auth by (cases "apply_observed (gw_http env) kind s") (auto simp: credential_to_send_eq_Some)
qed

definition text_request :: gateway_request where
  "text_request =
     \<lparr>gr_method = ''POST'', gr_path = ''/v1/responses'', gr_path_and_query = Some ''/v1/responses'',
      gr_headers = [(''content-type'', ''text/plain''), (''x-api-key'', ''abcd'')], gr_body = []\<rparr>"

lemma sample_observed_key:
  "observed_credential sample_http no_patterns [(''content-type'', ''text/plain''), (''x-api-key'', ''abcd'')] =
   Some (''x-api-key'', ''abcd'', Header ''x-api-key'')"
proof -
  have "from_utf8_lossy ''abcd'' = ''abcd''"
    by (rule from_utf8_lossy_valid, rule utf8_valid_ascii) auto
  moreover have "to_ascii_uppercase ''x-api-key'' = ''X-API-KEY''"
    by (simp add: to_ascii_uppercase_def to_ascii_upper_def is_ascii_lower_def char_of_eq_iff)
  moreover have "log 2 (4 :: real) = 2"
    using log_pow_cancel [of 2 2] by simp
  ultimately have "is_observable_secret no_patterns ''x-api-key'' ''abcd''"
    by (simp add: is_observable_secret_def is_secret_candidate_def env_is_secret_candidate_def no_patterns_def
        to_ascii_lowercase_def to_ascii_lower_def is_ascii_upper_def is_ascii_digit_def rough_entropy_def unique_bytes_def str_contains_def
        del: from_utf8_lossy.simps)
  then show ?thesis
    by (simp add: observed_credential_def observed_bearer_def header_str_def header_get_def PROVIDER_KEY_HEADERS_def)
qed

lemma client_credential_forwarded_witness:
  "\<exists>x ur. proxy (sample_gateway None) text_request (sample_gateway_state\<lparr>gs_san := (cache_new 4, one_secret ''abcd'')\<rparr>) = Some x \<and>
     gx_sent x = Some ur \<and> ur_headers ur = [(''content-type'', ''text/plain''), (''x-api-key'', ''abcd'')]"
proof -
  let ?st = "sample_gateway_state\<lparr>gs_san := (cache_new 4, one_secret ''abcd'')\<rparr>"
  have "ingest plain_crypto l ''abcd'' (one_secret ''abcd'') = (Inr 1, one_secret ''abcd'')" for l
    by (simp add: ingest_def one_secret_entries one_entry_simps)
  then have reg: "register_observed_auth_header plain_crypto sample_http no_patterns
      [(''content-type'', ''text/plain''), (''x-api-key'', ''abcd'')] (one_secret ''abcd'') =
      (Inr (Some \<lparr>oa_secret_id = 1, oa_kind = Header ''x-api-key''\<rparr>), one_secret ''abcd'')"
    by (simp add: register_observed_auth_header_def sample_observed_key)
  have json: "\<not> is_json_request sample_http [(''content-type'', ''text/plain''), (''x-api-key'', ''abcd'')]"
    by (simp add: is_json_request_def header_str_def header_get_def text_eval)
  have restored: "restore_to_vec plain_crypto (one_secret ''abcd'') 1 [] = Inr ''abcd''"
    using restore_to_vec_eq [of "one_secret ''abcd''" 1 "one_entry ''abcd''" plain_crypto "''abcd''" "[]"]
    by (simp add: entry_of_def one_secret_entries secret_of_def one_entry_def)
  obtain x ur where x: "proxy (sample_gateway None) text_request ?st = Some x" "gx_sent x = Some ur"
    "gs_registry (gx_state x) = one_secret ''abcd''"
    using reg json restored
    by (simp add: proxy_def handle_def register_observed_def credential_to_send_def text_request_def
        sanitize_request_body_def auth_headers_def
        apply_observed_def secret_header_value_def answer_def refuse_def Let_def
        sample_http_def [THEN arg_cong [where f = hl_send]])
  have hs: "gr_headers text_request = [(''content-type'', ''text/plain''), (''x-api-key'', ''abcd'')]"
    by (simp add: text_request_def)
  from client_credential_forwarded [OF x(1,2), of "''x-api-key''" "''abcd''" "Header ''x-api-key''"] show ?thesis
    using x json
    by (auto simp: hs sample_observed_key same_digest_def registry_fits_def one_secret_entries apply_observed_def
        secret_header_value_def should_skip_request_header_def is_provider_auth_header_def PROVIDER_KEY_HEADERS_def
        eq_ignore_ascii_case_def to_ascii_lowercase_def to_ascii_lower_def is_ascii_upper_def)
qed

section \<open>Streamed requests\<close>

text \<open>
  C27. The report of a streamed body is never recorded: when the stream is read to its end without an
  error, the statistics are what they were before, whatever was redacted.
\<close>

theorem streamed_report_not_recorded:
  assumes "stream_bytes (fst (sanitize_stream_items env ss (map Got chunks) st)) = Inr out"
  shows "gs_stats (snd (sanitize_stream_items env ss (map Got chunks) st)) = gs_stats st"
  by (rule sanitize_stream_stats [OF assms])

lemma streamed_report_not_recorded_witness:
  "gs_stats (snd (sanitize_stream_items (sample_gateway None) streaming_state (map Got [''['', '']''])
     sample_gateway_state)) = None"
proof -
  have "stream_bytes (fst (sanitize_stream_items (sample_gateway None) streaming_state (map Got [''['', '']''])
      sample_gateway_state)) = Inr ''[]''"
    by (simp add: push_stream_chunk_def push_stream_byte_def streaming_state_def observe_structural_byte_def
        begin_container_def end_container_def take_pending_object_key_def finish_stream_def Let_def)
  from streamed_report_not_recorded [OF this] show ?thesis
    by (simp add: sample_gateway_state_def)
qed

text \<open>
  C9. One request stops the gateway. Requests are answered one after the other, each leaving the
  registry unlocked, until one comes that waits for itself: a JSON request whose body is sanitized
  as it is sent, with a credential to send along. Its body keeps the write lock of the registry
  while the handler waits to look the credential up. From then on every request waits as well,
  or fails with status 502 before it needs the registry.
\<close>

theorem gateway_stalls:
  assumes "\<not> gs_guard st" and "\<And>req. req \<in> set before \<Longrightarrow> \<not> waits_for_itself env req"
    and "waits_for_itself env req"
    and "register_observed_auth_header (gw_crypto env) (gw_http env) (gw_patterns env) (gr_headers req)
      (gs_registry (snd (serve env before st))) = (Inr observed, r)"
  shows "\<exists>answers st1 hs. fst (serve env (before @ req # later) st) = map Answered answers @ Waits None st1 # hs \<and>
    length answers = length before \<and> length hs = length later \<and> gs_guard st1 \<and> list_all stalled hs"
proof -
  let ?st = "snd (serve env before st)"
  let ?st1 = "?st\<lparr>gs_san := (fst (gs_san ?st), r), gs_guard := True\<rparr>"
  obtain answers where answers: "fst (serve env before st) = map Answered answers" and free: "\<not> gs_guard ?st"
    using serve_answers [OF assms(1,2)] by blast
  have "handle env req ?st = Waits None ?st1"
    by (rule handle_waits_for_itself [OF free assms(3,4)])
  then have "fst (serve env (before @ req # later) st) =
      map Answered answers @ Waits None ?st1 # fst (serve env later ?st1)"
    using answers by (auto simp: serve_append Let_def split: prod.split)
  moreover have "list_all stalled (fst (serve env later ?st1))"
    using serve_stalled [of ?st1 _ env later] by (simp add: list_all_iff)
  moreover have "length answers = length before"
    using arg_cong [OF answers, of length] by (simp add: serve_length)
  ultimately show ?thesis
    by (intro exI [of _ answers] exI [of _ ?st1] exI [of _ "fst (serve env later ?st1)"]) (simp add: serve_length)
qed

lemma gateway_stalls_witness:
  "\<exists>st1 h. fst (serve (sample_gateway (Some 1)) [provider_request [], text_request] sample_gateway_state) =
     [Waits None st1, h] \<and> gs_guard st1 \<and> stalled h"
proof -
  have stream: "should_stream_json sample_http [(''content-type'', ''application/json'')] 1024"
    by (simp add: should_stream_json_def header_str_def header_get_def)
  have "register_observed_auth_header plain_crypto sample_http no_patterns
      [(''content-type'', ''application/json'')] (one_secret ''pw'') = (Inr None, one_secret ''pw'')"
    by (simp add: register_observed_auth_header_def observed_credential_def observed_bearer_def header_str_def
        header_get_def PROVIDER_KEY_HEADERS_def)
  moreover have "waits_for_itself (sample_gateway (Some 1)) (provider_request [])"
    using stream by (simp add: waits_for_itself_def)
  ultimately have "\<exists>answers st1 hs. fst (serve (sample_gateway (Some 1)) ([] @ provider_request [] # [text_request])
      sample_gateway_state) = map Answered answers @ Waits None st1 # hs \<and>
      length answers = length ([] :: gateway_request list) \<and> length hs = length [text_request] \<and> gs_guard st1 \<and> list_all stalled hs"
    by (intro gateway_stalls) (simp_all add: start_state_def)
  then show ?thesis
    by (auto simp: length_Suc_conv)
qed

section \<open>Responses\<close>

text \<open>
  C26. What the client reads of a response is the upstream's body with every placeholder replaced by
  its secret, wherever the network cut the body.
\<close>

theorem gateway_response_restored:
  assumes "lib_ok (gw_matcher env)" and "hex_lowercase (gw_crypto env)" and "registry_wf (gw_crypto env) r"
    and "restorer_new (gw_matcher env) r = Inr rr"
  shows "\<exists>items. restore_upstream_response_body env r (map Got chunks) = Inr (Streamed True items) \<and>
    stream_bytes items = Inr (restore_text (secret_table (gw_crypto env) r) (concat chunks))"
  using restored_chunks_text [OF assms, of "map (\<lambda>chunk. (chunk, r)) chunks" r]
  by (auto simp: restore_upstream_response_body_def assms(4) restore_stream_bytes comp_def)

lemma gateway_response_restored_witness:
  "\<exists>items. restore_upstream_response_body (sample_gateway None) (one_secret ''pw'') [Got ''ab'', Got ''cd''] =
       Inr (Streamed True items) \<and> stream_bytes items = Inr ''abcd''"
proof -
  obtain rr where "restorer_new naive_lib (one_secret ''pw'') = Inr rr"
    using naive_restorer [of "''pw''"] by auto
  then show ?thesis
    using gateway_response_restored [of "sample_gateway None" "one_secret ''pw''" rr "[''ab'', ''cd'']"]
    by (simp add: restore_text_free short_pattern_free del: restore_text.simps)
qed

end
