(* ===== verification/Hardening.thy ===== *)
theory Hardening
  imports Rust_Str "HOL-Library.Multiset"
begin

text \<open>
  \<^verbatim>\<open>src/hardening/\<close> and \<^verbatim>\<open>src/secrets/secure_buf.rs\<close>: the system calls with which the process and
  the buffers of secrets are protected, the report of what succeeded, and the life of a buffer.
  The operating system is a parameter that answers each call, given the calls before it: \<open>None\<close> is
  the return code 0, \<open>Some\<close> the text of the error. An address is a number, the null pointer 0.
\<close>

section \<open>The report\<close>

record hardening_status =
  hs_attempted :: "bytes list"
  hs_succeeded :: "bytes list"
  hs_unsupported :: "bytes list"
  hs_failed :: "(bytes \<times> bytes) list"

definition hardening_status_default :: hardening_status where
  "hardening_status_default =
     \<lparr>hs_attempted = [], hs_succeeded = [], hs_unsupported = [], hs_failed = []\<rparr>"

definition status_attempt :: "bytes \<Rightarrow> hardening_status \<Rightarrow> hardening_status" where
  "status_attempt operation s = s\<lparr>hs_attempted := hs_attempted s @ [operation]\<rparr>"

definition status_success :: "bytes \<Rightarrow> hardening_status \<Rightarrow> hardening_status" where
  "status_success operation s = s\<lparr>hs_succeeded := hs_succeeded s @ [operation]\<rparr>"

definition status_unsupported :: "bytes \<Rightarrow> hardening_status \<Rightarrow> hardening_status" where
  "status_unsupported operation s = s\<lparr>hs_unsupported := hs_unsupported s @ [operation]\<rparr>"

definition status_failure :: "bytes \<Rightarrow> bytes \<Rightarrow> hardening_status \<Rightarrow> hardening_status" where
  "status_failure operation reason s = s\<lparr>hs_failed := hs_failed s @ [(operation, reason)]\<rparr>"

lemmas status_defs = hardening_status_default_def status_attempt_def status_success_def
  status_unsupported_def status_failure_def

section \<open>System calls\<close>

datatype sys_call =
    Setrlimit_core nat nat
  | Prctl_set_dumpable nat
  | Mlock nat nat
  | Madvise_dontdump nat nat
  | Munlock nat nat

type_synonym os = "sys_call list \<Rightarrow> sys_call \<Rightarrow> bytes option"

datatype target = Linux | Other_unix | Windows | Other_target

text \<open>One attempt: note it, make the call, note the outcome.\<close>

definition attempt_call ::
  "os \<Rightarrow> bytes \<Rightarrow> sys_call \<Rightarrow> hardening_status \<times> sys_call list \<Rightarrow> hardening_status \<times> sys_call list" where
  "attempt_call os operation call =
     (\<lambda>(status, calls).
       let status = status_attempt operation status
       in ((case os calls call of
              None \<Rightarrow> status_success operation status
            | Some reason \<Rightarrow> status_failure operation reason status), calls @ [call]))"

definition unix_harden_process :: "os \<Rightarrow> bool \<Rightarrow> sys_call list \<Rightarrow> hardening_status \<times> sys_call list" where
  "unix_harden_process os linux calls =
     (let (status, calls) =
            attempt_call os ''setrlimit_core_zero'' (Setrlimit_core 0 0) (hardening_status_default, calls)
      in if linux then attempt_call os ''prctl_set_dumpable_zero'' (Prctl_set_dumpable 0) (status, calls)
         else (status_unsupported ''prctl_set_dumpable_zero'' status, calls))"

definition windows_harden_process :: hardening_status where
  "windows_harden_process =
     status_unsupported ''prctl_set_dumpable_zero''
       (status_unsupported ''setrlimit_core_zero'' hardening_status_default)"

definition harden_process :: "os \<Rightarrow> target \<Rightarrow> sys_call list \<Rightarrow> hardening_status \<times> sys_call list" where
  "harden_process os t calls =
     (case t of
        Linux \<Rightarrow> unix_harden_process os True calls
      | Other_unix \<Rightarrow> unix_harden_process os False calls
      | Windows \<Rightarrow> (windows_harden_process, calls)
      | Other_target \<Rightarrow> (status_unsupported ''process_hardening'' hardening_status_default, calls))"

definition unix_secure_region ::
  "os \<Rightarrow> bool \<Rightarrow> nat \<Rightarrow> nat \<Rightarrow> sys_call list \<Rightarrow> hardening_status \<times> sys_call list" where
  "unix_secure_region os linux ptr len calls =
     (if ptr = 0 \<or> len = 0 then (hardening_status_default, calls)
      else
        (let (status, calls) = attempt_call os ''mlock'' (Mlock ptr len) (hardening_status_default, calls)
         in if linux then attempt_call os ''madvise_dontdump'' (Madvise_dontdump ptr len) (status, calls)
            else (status_unsupported ''madvise_dontdump'' status, calls)))"

definition windows_secure_region :: "nat \<Rightarrow> nat \<Rightarrow> hardening_status" where
  "windows_secure_region ptr len =
     (if ptr = 0 \<or> len = 0 then hardening_status_default
      else status_unsupported ''virtual_lock'' hardening_status_default)"

definition secure_region ::
  "os \<Rightarrow> target \<Rightarrow> nat \<Rightarrow> nat \<Rightarrow> sys_call list \<Rightarrow> hardening_status \<times> sys_call list" where
  "secure_region os t ptr len calls =
     (case t of
        Linux \<Rightarrow> unix_secure_region os True ptr len calls
      | Other_unix \<Rightarrow> unix_secure_region os False ptr len calls
      | Windows \<Rightarrow> (windows_secure_region ptr len, calls)
      | Other_target \<Rightarrow> (status_unsupported ''secure_region'' hardening_status_default, calls))"

definition unix_release_secure_region :: "nat \<Rightarrow> nat \<Rightarrow> sys_call list \<Rightarrow> sys_call list" where
  "unix_release_secure_region ptr len calls =
     (if ptr \<noteq> 0 \<and> len \<noteq> 0 then calls @ [Munlock ptr len] else calls)"

definition release_secure_region :: "target \<Rightarrow> nat \<Rightarrow> nat \<Rightarrow> sys_call list \<Rightarrow> sys_call list" where
  "release_secure_region t ptr len calls =
     (if t = Linux \<or> t = Other_unix then unix_release_secure_region ptr len calls else calls)"

section \<open>Secure buffers\<close>

text \<open>A buffer is where its vector is allocated and what it holds. \<open>zeroize\<close> is what
  \<^verbatim>\<open>Vec::zeroize\<close> leaves as the contents of the vector.\<close>

record secure_buf =
  sb_ptr :: nat
  sb_bytes :: bytes

definition secure_buf_new ::
  "os \<Rightarrow> target \<Rightarrow> nat \<Rightarrow> bytes \<Rightarrow> sys_call list \<Rightarrow> secure_buf \<times> sys_call list" where
  "secure_buf_new os t ptr bs calls =
     (\<lparr>sb_ptr = ptr, sb_bytes = bs\<rparr>, snd (secure_region os t ptr (length bs) calls))"

definition expose :: "secure_buf \<Rightarrow> bytes" where
  "expose b = sb_bytes b"

definition secure_buf_len :: "secure_buf \<Rightarrow> nat" where
  "secure_buf_len b = length (sb_bytes b)"

definition zeroize_now :: "(bytes \<Rightarrow> bytes) \<Rightarrow> secure_buf \<Rightarrow> secure_buf" where
  "zeroize_now zeroize b = b\<lparr>sb_bytes := zeroize (sb_bytes b)\<rparr>"

definition secure_buf_drop :: "(bytes \<Rightarrow> bytes) \<Rightarrow> target \<Rightarrow> secure_buf \<Rightarrow> sys_call list \<Rightarrow> sys_call list" where
  "secure_buf_drop zeroize t b calls =
     (let b = zeroize_now zeroize b
      in release_secure_region t (sb_ptr b) (length (sb_bytes b)) calls)"

section \<open>The report accounts for every attempt\<close>

definition status_wf :: "hardening_status \<Rightarrow> bool" where
  "status_wf s \<longleftrightarrow>
     mset (hs_attempted s) = mset (hs_succeeded s) + mset (map fst (hs_failed s)) \<and>
     distinct (hs_attempted s @ hs_unsupported s)"

lemma status_wf_default [simp]: "status_wf hardening_status_default"
  by (simp add: status_wf_def status_defs)

lemma status_wf_unsupported:
  "status_wf s \<Longrightarrow> operation \<notin> set (hs_attempted s @ hs_unsupported s) \<Longrightarrow>
     status_wf (status_unsupported operation s)"
  by (auto simp: status_wf_def status_unsupported_def)

lemma attempt_call_wf:
  assumes "status_wf s" and "operation \<notin> set (hs_attempted s @ hs_unsupported s)"
  shows "status_wf (fst (attempt_call os operation call (s, calls)))"
  using assms by (auto simp: status_wf_def attempt_call_def status_defs Let_def split: option.splits)

lemma attempt_call_noted:
  "hs_attempted (fst (attempt_call os operation call (s, calls))) = hs_attempted s @ [operation]"
  "hs_unsupported (fst (attempt_call os operation call (s, calls))) = hs_unsupported s"
  "snd (attempt_call os operation call (s, calls)) = calls @ [call]"
  by (auto simp: attempt_call_def status_defs Let_def split: option.splits)

text \<open>The operations a target is asked for.\<close>

fun process_operations :: "target \<Rightarrow> bytes set" where
  "process_operations Other_target = {''process_hardening''}"
| "process_operations _ = {''setrlimit_core_zero'', ''prctl_set_dumpable_zero''}"

lemma harden_process_accounts:
  "status_wf (fst (harden_process os t calls)) \<and>
   set (hs_attempted (fst (harden_process os t calls))) \<union> set (hs_unsupported (fst (harden_process os t calls))) =
     process_operations t"
  by (cases t)
    (auto simp: harden_process_def unix_harden_process_def windows_harden_process_def Let_def status_wf_def
      attempt_call_def status_defs split: option.splits)

lemma secure_region_accounts:
  "status_wf (fst (secure_region os t ptr len calls))"
  by (cases t)
    (auto simp: secure_region_def unix_secure_region_def windows_secure_region_def Let_def status_wf_def
      attempt_call_def status_defs split: option.splits)

section \<open>Which regions are locked\<close>

text \<open>
  The effect of the calls on the locked regions: \<^verbatim>\<open>mlock\<close> locks when it answers 0, \<^verbatim>\<open>munlock\<close> unlocks,
  the others do neither. \<open>before\<close> is the history the system answers by.
\<close>

fun replay_locks :: "os \<Rightarrow> sys_call list \<Rightarrow> (nat \<times> nat) set \<Rightarrow> sys_call list \<Rightarrow> (nat \<times> nat) set" where
  "replay_locks os before locked [] = locked"
| "replay_locks os before locked (call # calls) =
     replay_locks os (before @ [call])
       (case call of
          Mlock ptr len \<Rightarrow> if os before call = None then insert (ptr, len) locked else locked
        | Munlock ptr len \<Rightarrow> locked - {(ptr, len)}
        | _ \<Rightarrow> locked) calls"

definition locked_regions :: "os \<Rightarrow> sys_call list \<Rightarrow> (nat \<times> nat) set" where
  "locked_regions os calls = replay_locks os [] {} calls"

lemma replay_append:
  "replay_locks os before locked (xs @ ys) = replay_locks os (before @ xs) (replay_locks os before locked xs) ys"
  by (induction xs arbitrary: before locked) simp_all

lemma locked_regions_append:
  "locked_regions os (xs @ ys) = replay_locks os xs (locked_regions os xs) ys"
  by (simp add: locked_regions_def replay_append)

lemma locked_regions_Nil [simp]: "locked_regions os [] = {}"
  by (simp add: locked_regions_def)

definition is_unix :: "target \<Rightarrow> bool" where
  "is_unix t \<longleftrightarrow> t = Linux \<or> t = Other_unix"

text \<open>Making a buffer locks its region exactly when the system lets it.\<close>

lemma secure_region_locks:
  assumes "is_unix t" and "ptr \<noteq> 0" and "len \<noteq> 0"
  shows "locked_regions os (snd (secure_region os t ptr len calls)) =
    (if os calls (Mlock ptr len) = None then insert (ptr, len) (locked_regions os calls) else locked_regions os calls)"
  using assms
  by (auto simp: is_unix_def secure_region_def unix_secure_region_def Let_def attempt_call_def locked_regions_append
      split: prod.splits)

text \<open>Releasing a region of a known length unlocks it.\<close>

lemma release_unlocks:
  assumes "is_unix t" and "ptr \<noteq> 0" and "len \<noteq> 0"
  shows "locked_regions os (release_secure_region t ptr len calls) = locked_regions os calls - {(ptr, len)}"
  using assms by (auto simp: is_unix_def release_secure_region_def unix_release_secure_region_def locked_regions_append)

text \<open>The crate clears the vector it has overwritten with zeros.\<close>

definition zeroize_clears :: "(bytes \<Rightarrow> bytes) \<Rightarrow> bool" where
  "zeroize_clears zeroize \<longleftrightarrow> (\<forall>bs. zeroize bs = [])"

text \<open>Dropping a buffer clears it first and releases a region of length 0, which is no call at all.\<close>

lemma drop_makes_no_call:
  "zeroize_clears zeroize \<Longrightarrow> secure_buf_drop zeroize t b calls = calls"
  by (simp add: secure_buf_drop_def zeroize_now_def zeroize_clears_def release_secure_region_def
      Let_def unix_release_secure_region_def)

text \<open>Buffers that are made and dropped one after the other.\<close>

fun buffers_in_turn :: "(bytes \<Rightarrow> bytes) \<Rightarrow> os \<Rightarrow> target \<Rightarrow> (nat \<times> bytes) list \<Rightarrow> sys_call list \<Rightarrow> sys_call list" where
  "buffers_in_turn zeroize os t [] calls = calls"
| "buffers_in_turn zeroize os t ((ptr, bs) # bufs) calls =
     (case secure_buf_new os t ptr bs calls of
        (b, calls) \<Rightarrow> buffers_in_turn zeroize os t bufs (secure_buf_drop zeroize t b calls))"

lemma secure_region_keeps_locks:
  "locked_regions os calls \<subseteq> locked_regions os (snd (secure_region os t ptr len calls))"
  by (cases t)
    (auto simp: secure_region_def unix_secure_region_def windows_secure_region_def Let_def attempt_call_def
      locked_regions_append split: prod.splits)

lemma buffers_keep_locks:
  "zeroize_clears zeroize \<Longrightarrow>
     locked_regions os calls \<subseteq> locked_regions os (buffers_in_turn zeroize os t bufs calls)"
proof (induction bufs arbitrary: calls)
  case (Cons buf bufs)
  obtain ptr bs where "buf = (ptr, bs)"
    by (cases buf)
  then show ?case
    using Cons secure_region_keeps_locks [of os calls t ptr "length bs"]
    by (fastforce simp: secure_buf_new_def drop_makes_no_call)
qed simp

lemma dropped_buffers_locked:
  assumes "zeroize_clears zeroize" and "is_unix t" and "\<forall>calls call. os calls call = None"
    and "\<forall>(ptr, bs) \<in> set bufs. ptr \<noteq> 0 \<and> bs \<noteq> []"
  shows "locked_regions os (buffers_in_turn zeroize os t bufs calls) =
    locked_regions os calls \<union> (\<lambda>(ptr, bs). (ptr, length bs)) ` set bufs"
  using assms(4)
proof (induction bufs arbitrary: calls)
  case (Cons buf bufs)
  obtain ptr bs where buf: "buf = (ptr, bs)"
    by (cases buf)
  have "locked_regions os (snd (secure_region os t ptr (length bs) calls)) =
      insert (ptr, length bs) (locked_regions os calls)"
    using secure_region_locks [OF assms(2), of ptr "length bs" os calls] assms(3) Cons.prems buf by simp
  then show ?case
    using Cons buf by (simp add: secure_buf_new_def drop_makes_no_call [OF assms(1)])
qed simp

text \<open>No buffer is ever unlocked.\<close>

lemma secure_region_no_munlock:
  "set (snd (secure_region os t ptr len calls)) \<subseteq> set calls \<union> {Mlock ptr len, Madvise_dontdump ptr len}"
  by (cases t)
    (auto simp: secure_region_def unix_secure_region_def Let_def attempt_call_def split: prod.splits if_splits)

lemma buffers_no_munlock:
  assumes "zeroize_clears zeroize" and "Munlock p n \<notin> set calls"
  shows "Munlock p n \<notin> set (buffers_in_turn zeroize os t bufs calls)"
  using assms(2)
proof (induction bufs arbitrary: calls)
  case (Cons buf bufs)
  obtain ptr bs where buf: "buf = (ptr, bs)"
    by (cases buf)
  have "Munlock p n \<notin> set (snd (secure_region os t ptr (length bs) calls))"
    using secure_region_no_munlock [of os t ptr "length bs" calls] Cons.prems by auto
  then show ?case
    using Cons.IH buf by (simp add: secure_buf_new_def drop_makes_no_call [OF assms(1)])
qed simp

end
