(* ===== verification/Qa_Upstream.thy ===== *)
theory Qa_Upstream
  imports Gateway
begin

text \<open>
  The upstream with which crebro is tested (\<^verbatim>\<open>src/bin/crebro-qa-upstream.rs\<close>): it refuses a request
  in which a forbidden text arrived, records the others and answers as a provider would. The record
  file is the list of its lines.
\<close>

section \<open>State\<close>

record recorded_request =
  rq_method :: bytes
  rq_path_and_query :: bytes
  rq_provider :: bytes
  rq_headers :: "bytes \<rightharpoonup> bytes list"
  rq_body_len :: nat
  rq_body_utf8_lossy :: bytes

text \<open>\<open>qa_write\<close> tells whether a line is serialised and appended, \<open>qa_display\<close> prints a JSON value.\<close>

record qa_state =
  qa_forbidden :: "bytes list"
  qa_recording :: bool
  qa_max_body :: nat
  qa_http :: http_lib
  qa_serde :: serde
  qa_display :: "json \<Rightarrow> bytes"
  qa_write :: "recorded_request \<Rightarrow> bool"

record qa_request =
  qr_method :: bytes
  qr_path :: bytes
  qr_query :: "bytes option"
  qr_path_and_query :: "bytes option"
  qr_headers :: headers
  qr_body :: source

record qa_answer =
  qs_status :: nat
  qs_headers :: headers
  qs_body :: bytes

text \<open>The state that the arguments give: empty forbidden texts are left out.\<close>

definition qa_forbidden_of :: "bytes list \<Rightarrow> bytes list" where
  "qa_forbidden_of args = filter (\<lambda>value. value \<noteq> []) args"

section \<open>Forbidden texts\<close>

definition contains_forbidden :: "bytes \<Rightarrow> bytes list \<Rightarrow> bool" where
  "contains_forbidden bs forbidden =
     list_ex (\<lambda>needle. needle \<noteq> [] \<and> any_window (length needle) (\<lambda>window. window = needle) bs) forbidden"

definition qa_is_provider_auth_header :: "bytes \<Rightarrow> bool" where
  "qa_is_provider_auth_header name \<longleftrightarrow>
     name = ''authorization'' \<or> eq_ignore_ascii_case name ''x-api-key'' \<or>
     eq_ignore_ascii_case name ''api-key'' \<or> eq_ignore_ascii_case name ''x-goog-api-key'' \<or>
     eq_ignore_ascii_case name ''anthropic-api-key''"

definition headers_contain_forbidden :: "headers \<Rightarrow> bytes list \<Rightarrow> bool" where
  "headers_contain_forbidden hs forbidden =
     list_ex (\<lambda>(name, value). \<not> qa_is_provider_auth_header name \<and> contains_forbidden value forbidden) hs"

section \<open>Recording\<close>

definition redacted_value :: "http_lib \<Rightarrow> bytes \<Rightarrow> bytes \<Rightarrow> bytes" where
  "redacted_value http name value =
     (if qa_is_provider_auth_header name then ''<redacted>''
      else case hl_to_str http value of Some tx \<Rightarrow> tx | None \<Rightarrow> ''<non-utf8>'')"

fun redacted_headers_from :: "http_lib \<Rightarrow> (bytes \<rightharpoonup> bytes list) \<Rightarrow> headers \<Rightarrow> (bytes \<rightharpoonup> bytes list)" where
  "redacted_headers_from http out [] = out"
| "redacted_headers_from http out ((name, value) # hs) =
     redacted_headers_from http
       (out(name \<mapsto> (case out name of Some vs \<Rightarrow> vs | None \<Rightarrow> []) @ [redacted_value http name value])) hs"

definition redacted_headers :: "http_lib \<Rightarrow> headers \<Rightarrow> (bytes \<rightharpoonup> bytes list)" where
  "redacted_headers http hs = redacted_headers_from http Map.empty hs"

fun provider_debug :: "provider_family \<Rightarrow> bytes" where
  "provider_debug OpenAi = ''OpenAi''"
| "provider_debug Anthropic = ''Anthropic''"
| "provider_debug Gemini_family = ''Gemini''"
| "provider_debug Unknown = ''Unknown''"

definition record_request ::
  "qa_state \<Rightarrow> qa_request \<Rightarrow> provider_family \<Rightarrow> bytes \<Rightarrow> recorded_request list \<Rightarrow> recorded_request list" where
  "record_request st req provider body file =
     (if \<not> qa_recording st then file
      else
        (let rec = \<lparr>rq_method = qr_method req,
               rq_path_and_query = (case qr_path_and_query req of Some v \<Rightarrow> v | None \<Rightarrow> ''/''),
               rq_provider = provider_debug provider,
               rq_headers = redacted_headers (qa_http st) (qr_headers req),
               rq_body_len = length body,
               rq_body_utf8_lossy = from_utf8_lossy body\<rparr>
         in if qa_write st rec then file @ [rec] else file))"

section \<open>Answering\<close>

fun json_contains_stream_true :: "json \<Rightarrow> bool" where
  "json_contains_stream_true (JObject m) =
     (\<exists>kv \<in> set m. fst kv = ''stream'' \<and> snd kv = JBool True \<or> json_contains_stream_true (snd kv))"
| "json_contains_stream_true (JArray items) = (\<exists>item \<in> set items. json_contains_stream_true item)"
| "json_contains_stream_true _ = False"

definition is_streaming_request :: "serde \<Rightarrow> bytes option \<Rightarrow> bytes \<Rightarrow> bool" where
  "is_streaming_request lib query body \<longleftrightarrow>
     (case query of None \<Rightarrow> False | Some q \<Rightarrow> str_contains q ''alt=sse'') \<or>
     (case from_slice lib body of None \<Rightarrow> False | Some value \<Rightarrow> json_contains_stream_true value)"

text \<open>In the texts below a backquote stands for the double quote; every line ends with a line feed.\<close>

definition event_lines :: "bytes list \<Rightarrow> bytes" where
  "event_lines ls = concat (map (\<lambda>l. map (\<lambda>c. if c = CHR 0x60 then CHR 0x22 else c) l @ [CHR 0x0A]) ls)"

definition ANTHROPIC_EVENTS :: bytes where
  "ANTHROPIC_EVENTS = event_lines
     [''event: message_start'',
      ''data: {`type`:`message_start`,`message`:{`id`:`msg_crebro_qa`,`type`:`message`,'' @
       ''`role`:`assistant`,`content`:[],`model`:`crebro-qa`,`stop_reason`:null,'' @
       ''`usage`:{`input_tokens`:1,`output_tokens`:0}}}'',
      [],
      ''event: content_block_start'',
      ''data: {`type`:`content_block_start`,`index`:0,`content_block`:{`type`:`text`,`text`:``}}'',
      [],
      ''event: content_block_delta'',
      ''data: {`type`:`content_block_delta`,`index`:0,`delta`:{`type`:`text_delta`,'' @
       ''`text`:`crebro qa ok`}}'',
      [],
      ''event: content_block_stop'',
      ''data: {`type`:`content_block_stop`,`index`:0}'',
      [],
      ''event: message_delta'',
      ''data: {`type`:`message_delta`,`delta`:{`stop_reason`:`end_turn`,`stop_sequence`:null},'' @
       ''`usage`:{`output_tokens`:3}}'',
      [],
      ''event: message_stop'',
      ''data: {`type`:`message_stop`}'',
      []]"

definition GEMINI_EVENTS :: bytes where
  "GEMINI_EVENTS = event_lines
     [''data: {`candidates`:[{`content`:{`role`:`model`,`parts`:[{`text`:`crebro qa ok`}]},'' @
       ''`finishReason`:`STOP`}]}'',
      []]"

definition OPENAI_EVENTS :: bytes where
  "OPENAI_EVENTS = event_lines
     [''data: {`id`:`chatcmpl-crebro-qa`,`object`:`chat.completion.chunk`,`choices`:[{`index`:0,'' @
       ''`delta`:{`role`:`assistant`,`content`:`crebro qa ok`},`finish_reason`:null}]}'',
      [],
      ''data: {`id`:`chatcmpl-crebro-qa`,`object`:`chat.completion.chunk`,`choices`:[{`index`:0,'' @
       ''`delta`:{},`finish_reason`:`stop`}]}'',
      [],
      ''data: [DONE]'',
      []]"

definition streaming_response :: "provider_family \<Rightarrow> qa_answer" where
  "streaming_response provider =
     \<lparr>qs_status = 200,
      qs_headers = [(''content-type'', ''text/event-stream''), (''cache-control'', ''no-cache'')],
      qs_body = (case provider of
          Anthropic \<Rightarrow> ANTHROPIC_EVENTS
        | Gemini_family \<Rightarrow> GEMINI_EVENTS
        | _ \<Rightarrow> OPENAI_EVENTS)\<rparr>"

text \<open>The values that \<^verbatim>\<open>json!\<close> builds, with the keys of each object in their order.\<close>

fun qa_message :: "provider_family \<Rightarrow> json" where
  "qa_message Anthropic = JObject [
     (''content'', JArray [JObject [(''text'', JString ''crebro qa ok''), (''type'', JString ''text'')]]),
     (''id'', JString ''msg_crebro_qa''),
     (''model'', JString ''crebro-qa''),
     (''role'', JString ''assistant''),
     (''stop_reason'', JString ''end_turn''),
     (''type'', JString ''message''),
     (''usage'', JObject [(''input_tokens'', JNumber ''1''), (''output_tokens'', JNumber ''3'')])]"
| "qa_message Gemini_family = JObject [
     (''candidates'', JArray [JObject [
        (''content'', JObject [
          (''parts'', JArray [JObject [(''text'', JString ''crebro qa ok'')]]), (''role'', JString ''model'')]),
        (''finishReason'', JString ''STOP'')]]),
     (''usageMetadata'', JObject [(''candidatesTokenCount'', JNumber ''3''),
        (''promptTokenCount'', JNumber ''1''), (''totalTokenCount'', JNumber ''4'')])]"
| "qa_message _ = JObject [
     (''choices'', JArray [JObject [
        (''finish_reason'', JString ''stop''),
        (''index'', JNumber ''0''),
        (''message'', JObject [(''content'', JString ''crebro qa ok''), (''role'', JString ''assistant'')])]]),
     (''id'', JString ''chatcmpl-crebro-qa''),
     (''object'', JString ''chat.completion''),
     (''usage'', JObject [(''completion_tokens'', JNumber ''3''), (''prompt_tokens'', JNumber ''1''),
        (''total_tokens'', JNumber ''4'')])]"

definition qa_response :: "qa_state \<Rightarrow> provider_family \<Rightarrow> bool \<Rightarrow> qa_answer" where
  "qa_response st provider streaming =
     (if streaming then streaming_response provider
      else \<lparr>qs_status = 200, qs_headers = [(''content-type'', ''application/json'')],
            qs_body = qa_display st (qa_message provider)\<rparr>)"

text \<open>A text of the handler's own is answered as \<^verbatim>\<open>text/plain\<close>.\<close>

definition plain_answer :: "nat \<Rightarrow> bytes \<Rightarrow> qa_answer" where
  "plain_answer status body =
     \<lparr>qs_status = status, qs_headers = [(''content-type'', ''text/plain; charset=utf-8'')], qs_body = body\<rparr>"

definition qa_handle :: "qa_state \<Rightarrow> qa_request \<Rightarrow> recorded_request list \<Rightarrow> qa_answer \<times> recorded_request list" where
  "qa_handle st req file =
     (case hl_to_bytes (qa_http st) (qr_body req) (qa_max_body st) of
        Inl _ \<Rightarrow> (plain_answer 413 ''crebro qa body too large'', file)
      | Inr body \<Rightarrow>
          (if contains_forbidden body (qa_forbidden st) \<or> headers_contain_forbidden (qr_headers req) (qa_forbidden st)
           then (plain_answer 400 ''crebro qa forbidden canary reached upstream'', file)
           else
             (let provider = infer_provider_from_path (qr_path req);
                  file = record_request st req provider body file
              in (qa_response st provider (is_streaming_request (qa_serde st) (qr_query req) body), file))))"

section \<open>What is refused\<close>

lemma contains_forbidden_iff:
  "contains_forbidden bs forbidden \<longleftrightarrow> (\<exists>needle \<in> set forbidden. needle \<noteq> [] \<and> occurs_in needle bs)"
  by (auto simp: contains_forbidden_def list_ex_iff contains_bytes_iff [symmetric] contains_bytes_def)

text \<open>What is kept of each header, in the order of the request.\<close>

lemma redacted_headers_from_value:
  "redacted_headers_from http out hs name =
     (case map (redacted_value http name) (map snd (filter (\<lambda>h. fst h = name) hs)) of
        [] \<Rightarrow> out name
      | v # vs \<Rightarrow> Some ((case out name of Some us \<Rightarrow> us | None \<Rightarrow> []) @ v # vs))"
proof (induction hs arbitrary: out)
  case (Cons h hs)
  obtain n v where h: "h = (n, v)"
    by (cases h)
  define vs where "vs = (case out n of Some vs \<Rightarrow> vs | None \<Rightarrow> []) @ [redacted_value http n v]"
  have "redacted_headers_from http out (h # hs) name = redacted_headers_from http (out(n \<mapsto> vs)) hs name"
    by (simp add: h vs_def)
  also note Cons.IH
  finally show ?case
    by (cases "n = name") (auto simp: h vs_def split: list.split)
qed simp

lemma redacted_headers_value:
  "redacted_headers http hs name =
     (let vs = map (redacted_value http name) (map snd (filter (\<lambda>h. fst h = name) hs))
      in if vs = [] then None else Some vs)"
  by (auto simp: redacted_headers_def redacted_headers_from_value Let_def split: list.splits)

lemma refused_iff:
  "contains_forbidden body forbidden \<or> headers_contain_forbidden hs forbidden \<longleftrightarrow>
     (\<exists>needle \<in> set forbidden. needle \<noteq> [] \<and> (occurs_in needle body \<or>
        (\<exists>(name, v) \<in> set hs. \<not> qa_is_provider_auth_header name \<and> occurs_in needle v)))"
  by (auto simp: headers_contain_forbidden_def contains_forbidden_iff list_ex_iff)

lemma qa_response_status: "qs_status (qa_response st provider streaming) = 200"
  by (simp add: qa_response_def streaming_response_def)

text \<open>Of a credential only the mark is kept, once for each header of the name.\<close>

lemma redacted_headers_credential:
  assumes "redacted_headers http hs name = Some vs" and "qa_is_provider_auth_header name"
  shows "set vs = {''<redacted>''}"
proof -
  have "vs \<noteq> []" and vs: "vs = map (redacted_value http name) (map snd (filter (\<lambda>h. fst h = name) hs))"
    using assms(1) by (auto simp: redacted_headers_value Let_def split: if_splits)
  have "set vs \<subseteq> {''<redacted>''}"
    using assms(2) unfolding vs by (auto simp: redacted_value_def)
  then show ?thesis
    using \<open>vs \<noteq> []\<close> by (metis set_empty subset_singletonD)
qed

text \<open>What a recorded line holds.\<close>

lemma record_request_line:
  assumes "utf8_valid body"
  shows "record_request st req provider body file = file \<or>
    (\<exists>rec. record_request st req provider body file = file @ [rec] \<and> qa_recording st \<and>
      rq_body_utf8_lossy rec = body \<and>
      (\<forall>name vs. qa_is_provider_auth_header name \<longrightarrow> rq_headers rec name = Some vs \<longrightarrow> set vs = {''<redacted>''}))"
  using assms
  by (auto simp: record_request_def Let_def from_utf8_lossy_valid dest: redacted_headers_credential split: if_splits)

text \<open>An object whose entry \<open>stream\<close> is true, somewhere inside a value.\<close>

inductive stream_inside :: "json \<Rightarrow> bool" where
  Here: "(''stream'', JBool True) \<in> set m \<Longrightarrow> stream_inside (JObject m)"
| In_object: "(key, value) \<in> set m \<Longrightarrow> stream_inside value \<Longrightarrow> stream_inside (JObject m)"
| In_array: "item \<in> set items \<Longrightarrow> stream_inside item \<Longrightarrow> stream_inside (JArray items)"

lemma contains_stream_inside: "json_contains_stream_true v \<Longrightarrow> stream_inside v"
proof (induction v rule: json_contains_stream_true.induct)
  case (1 m)
  then obtain key v where kv: "(key, v) \<in> set m"
    "key = ''stream'' \<and> v = JBool True \<or> json_contains_stream_true v"
    by auto
  then show ?case
    using 1(1) [OF kv(1)] by (auto intro: stream_inside.intros)
qed (auto intro: stream_inside.intros)

lemma stream_inside_contained: "stream_inside v \<Longrightarrow> json_contains_stream_true v"
  by (induction rule: stream_inside.induct) force+

lemma json_contains_stream_true_iff: "json_contains_stream_true v \<longleftrightarrow> stream_inside v"
  using contains_stream_inside stream_inside_contained by blast

end
