(* ===== verification/Tool_Properties.thy ===== *)
theory Tool_Properties
  imports Samples Hardening Qa_Upstream Atomic_Write
begin

text \<open>
  The properties of the command line tools: sanitizing the files of past conversations, reading
  secrets from dotenv files, the environment of the child process, the buffers of secrets, and the
  upstream of the tests.
\<close>

section \<open>Conversations\<close>

text \<open>
  C37. A text of a past conversation without directive tags (\<open>tag_free\<close>) keeps its length: every
  secret in it is replaced by a text of its own length that is not the secret, the same one wherever the
  secret occurs, now and later in the run, and what is kept of the text holds no secret, those found in the
  text itself included. (A text with directives loses their tags, and so does not keep its length.)
\<close>

theorem conversation_text_replaced:
  assumes "engine_ok c eng" and "aead_correct c" and "tag_free tx"
    and "sanitize_text c rand ps tx eng = (Inr res, eng')" and "registry_fits (ce_registry eng')"
  shows "length (tr_text res) = length tx \<and> bytes_replaced c eng' tx (tr_text res) \<and>
    engine_ok c eng' \<and> ce_replacements eng \<subseteq>\<^sub>m ce_replacements eng'"
  using sanitize_text_plain_spec [OF assms] bytes_replaced_length by blast

definition sample_engine :: conversation_engine where
  "sample_engine = \<lparr>ce_registry = one_secret ''pw'', ce_replacements = Map.empty, ce_draws = 0\<rparr>"

lemma sample_engine_run:
  "sanitize_text plain_crypto (\<lambda>_. 0) no_patterns ''xpwy'' sample_engine =
     (Inr \<lparr>tr_text = ''xaay'', tr_redactions = 1\<rparr>,
      \<lparr>ce_registry = one_secret ''pw'', ce_replacements = [1 \<mapsto> ''aa''], ce_draws = 2\<rparr>)"
proof -
  have spans: "scan_string_token plain_crypto ''xpwy'' (one_secret ''pw'') = Inr [one_span ''pw'' 1]"
    by (simp add: one_secret_scan sub_bytes_def select_longest_non_overlapping_def one_span_def span_overlaps_def upt_rec)
  have entry: "entry_of (one_secret ''pw'') 1 = Some (one_entry ''pw'')"
    by (simp add: entry_of_def one_secret_entries)
  then have "restore_to_vec plain_crypto (one_secret ''pw'') 1 [] = Inr ''pw''"
    using restore_to_vec_eq [of "one_secret ''pw''" 1 "one_entry ''pw''" plain_crypto "''pw''" "[]"]
    by (simp add: secret_of_def one_entry_def)
  then have replacement: "replacement_for plain_crypto (\<lambda>_. 0) 1 sample_engine =
      (Inr ''aa'', \<lparr>ce_registry = one_secret ''pw'', ce_replacements = [1 \<mapsto> ''aa''], ce_draws = 2\<rparr>)"
  proof -
    have "random_ascii (\<lambda>_. 0) n 2 = ''aa''" for n
      by (simp add: random_ascii_def REPLACEMENT_ALPHABET_def upt_rec)
    moreover have "draw_until_other rand len ''pw'' k ''aa'' n = (''aa'', n)" for rand len k n
      by (cases k) auto
    ultimately show ?thesis
      using entry \<open>restore_to_vec _ _ _ _ = _\<close>
      by (simp add: replacement_for_def sample_engine_def one_entry_simps force_other_def numeral_2_eq_2 Let_def)
  qed
  have "utf8_valid ''xaay''"
    by (rule utf8_valid_ascii) auto
  then show ?thesis
    using replacement
    by (simp add: sanitize_text_def normalize_directives_def on_engine_def parse_user_secret_directives_none no_angle_tag_free
        sample_engine_def spans scanned_spans_def placeholder_spans_def select_replacement_spans_def
        apply_replacement_spans_def one_span_def span_end_def sub_bytes_def Let_def)
qed

lemma conversation_text_replaced_witness:
  "\<exists>eng. sanitize_text plain_crypto (\<lambda>_. 0) no_patterns ''xpwy'' sample_engine =
       (Inr \<lparr>tr_text = ''xaay'', tr_redactions = 1\<rparr>, eng) \<and>
     bytes_replaced plain_crypto eng ''xpwy'' ''xaay''"
proof -
  have "engine_ok plain_crypto sample_engine"
    by (simp add: engine_ok_def sample_engine_def)
  from conversation_text_replaced [OF this plain_aead_correct _ sample_engine_run] show ?thesis
    using sample_engine_run by (simp add: registry_fits_def one_secret_entries no_angle_tag_free)
qed

text \<open>
  C38. A run that writes rewrites a file or a database only when a backup that it reports holds the
  contents the file has at that moment, and rewriting the file leaves that backup as it is (unless the backup
  path is the file itself); every other change is a copy to a backup or a temporary file that could not take its
  place, and a place that the log of the run does not name keeps what it had. SQLite is taken to write
  only the files of the database it updates. A run that does not write changes nothing and makes no backup.
  A later backup of the same path may replace an earlier one: the backup is of the last rewriting.
\<close>

theorem run_writes_only_with_backup:
  assumes "run_sanitize_conversations cfg home_dir now_unix fs dk n vars env_file agents paths = Inr st"
    and "transactions_local (sc_ops cfg)"
  shows "if sc_write cfg
    then log_ok (fo_pid (sc_ops cfg)) (rp_backups (sr_report st)) dk (sr_log st) \<and>
      sr_disk st = disk_after dk (sr_log st) \<and>
      (\<forall>l. (\<forall>(op, _) \<in> set (sr_log st). l \<notin> written_to (fo_pid (sc_ops cfg)) op) \<longrightarrow> sr_disk st l = dk l)
    else sr_disk st = dk \<and> sr_log st = [] \<and> rp_backups (sr_report st) = []"
proof (cases "sc_write cfg")
  case True
  note ok = run_writes_ok [OF assms True, unfolded run_ok_def]
  then show ?thesis
    using log_ok_untouched [OF conjunct1 [OF ok]] True by simp
qed (use run_dry [OF assms(1)] in simp)

text \<open>A directory with one file that holds the declared secret, and a link.\<close>

definition sample_ops :: file_ops where
  "sample_ops =
     \<lparr>fo_sha256 = (\<lambda>bs. bs), fo_pid = 7, fo_canonical = Some, fo_read_error = (\<lambda>_ _. None),
      fo_copy = (\<lambda>_ _ _. Written), fo_write = (\<lambda>_ _. Written), fo_rename = (\<lambda>_ _. None),
      fo_open = (\<lambda>_ _ _. Inl Io), fo_transaction = (\<lambda>_ dk _ _. (Inr (), dk))\<rparr>"

definition sample_config :: sanitize_config where
  "sample_config =
     \<lparr>sc_crypto = plain_crypto, sc_rand = (\<lambda>_. 0), sc_patterns = no_patterns, sc_ops = sample_ops, sc_write = True,
      sc_backup = Some ''/backup'', sc_strict = False\<rparr>"

definition sample_node :: node where
  "sample_node = Directory [Entry ''/a/x.txt'' Regular, Entry ''/a/link'' Symlink]"

definition sample_disk :: disk where
  "sample_disk = [location ''/a/x.txt'' \<mapsto> ''xpwy'']"

lemma sample_candidate: "discover_env_candidates_with_patterns no_patterns 512 [(''KEY'', ''pw'')] = [(''KEY'', ''pw'')]"
proof -
  have "utf8_valid ''KEY''" "from_utf8_lossy ''pw'' = ''pw''" "to_ascii_lowercase ''pw'' = ''pw''"
    "to_ascii_uppercase ''KEY'' = ''KEY''" "str_contains ''KEY'' ''KEY''" "secret_label ''KEY'' = ''KEY''"
    "\<not> is_ascii_digit CHR ''p''"
    by code_simp+
  then show ?thesis
    by (simp add: discover_env_candidates_with_patterns_def is_secret_candidate_def env_is_secret_candidate_def
        no_patterns_def rough_entropy_def unique_bytes_def Let_def del: from_utf8_lossy.simps)
qed

lemma sample_ingest: "ingest plain_crypto ''KEY'' ''pw'' (with_generated_keys plain_crypto 0) = (Inr 1, one_secret ''pw'')"
  by (simp add: one_secret_def ingest_def register_new_def with_generated_keys_def
      session_keys_generate_def registry_new_def placeholder_new_def capsule_encrypt_def
      push_entry_def Let_def)

lemma sample_engines:
  "ingest_candidates plain_crypto [(''KEY'', ''pw'')] (conversation_new plain_crypto 0) = (Inr (), sample_engine)"
  "ingest_candidates plain_crypto [] sample_engine = (Inr (), sample_engine)"
  using sample_ingest
  by (simp_all add: ingest_candidates_def on_engine_def ingest_all_def conversation_new_def sample_engine_def)

definition sample_backup :: bytes where
  "sample_backup = backup_path plain_crypto sample_ops ''/backup'' ''/a/x.txt''"

lemma sample_file_written:
  assumes "sr_engine st = sample_engine" and "sr_disk st = sample_disk" and "sr_log st = []"
    and "sr_report st = report_new"
    and "st' = process_path sample_config True ''/a'' sample_node st"
  shows "\<exists>dk. sr_log st' =
      [(Backup ''/a/x.txt'' sample_backup, sample_disk(location sample_backup \<mapsto> ''xpwy'')), (Replace ''/a/x.txt'', dk)]"
    "sr_disk st' (location ''/a/x.txt'') = Some ''xaay''"
    "rp_backups (sr_report st') = [(''/a/x.txt'', sample_backup)]"
proof -
  have facts: "utf8_valid ''xpwy''" "is_candidate_text_path ''/a/x.txt''" "\<not> is_sqlite_path ''/a/x.txt''"
    by code_simp+
  let ?tmp = "location (temporary_path 7 ''/a/x.txt'')"
  obtain states where w: "write_file_atomic Written None 7 ''/a/x.txt'' ''xaay''
      (sample_disk(location sample_backup \<mapsto> ''xpwy'')) = (Inr (), states)"
    by (simp add: write_file_atomic_def Let_def)
  note at_end = write_file_atomic_last [OF w, simplified]
  have st': "st' = did (Replace ''/a/x.txt'') (last states)
      (on_report (\<lambda>rp. rp\<lparr>rp_backups := rp_backups rp @ [(''/a/x.txt'', sample_backup)]\<rparr>)
        (did (Backup ''/a/x.txt'' sample_backup) (sample_disk(location sample_backup \<mapsto> ''xpwy''))
          (on_report (\<lambda>rp. report_target (changed_target ''/a/x.txt'' ''text-file'' 1) (count_changed rp))
            ((on_report count_scanned st)\<lparr>sr_engine := sr_engine st'\<rparr>))))"
    using assms(1-4) sample_engine_run facts w
    unfolding assms(5)
    by (simp add: sample_node_def process_file_def process_text_file_def write_if_def or_report_def sample_config_def
        backup_and_write_file_def backup_file_def read_file_def copy_file_def sample_backup_def
        sample_disk_def Let_def sample_ops_def)
  show "\<exists>dk. sr_log st' = [(Backup ''/a/x.txt'' sample_backup, sample_disk(location sample_backup \<mapsto> ''xpwy'')), (Replace ''/a/x.txt'', dk)]"
    by (subst st') (simp add: assms(3))
  show "sr_disk st' (location ''/a/x.txt'') = Some ''xaay''"
    by (subst st') (use temporary_elsewhere [of 7 "''/a/x.txt''"] in \<open>simp add: at_end\<close>)
  show "rp_backups (sr_report st') = [(''/a/x.txt'', sample_backup)]"
    by (subst st') (simp add: assms(4) report_new_def)
qed

lemma run_writes_only_with_backup_witness:
  "\<exists>st. run_sanitize_conversations sample_config None 0 (\<lambda>_. sample_node) sample_disk 0 [(''KEY'', ''pw'')]
       File_not_found [] [''/a''] = Inr st \<and>
     sr_disk st (location ''/a/x.txt'') = Some ''xaay'' \<and>
     (\<exists>backup. (''/a/x.txt'', backup) \<in> set (rp_backups (sr_report st)) \<and> sr_disk st (location backup) = Some ''xpwy'')"
proof -
  let ?fresh = "\<lparr>sr_engine = sample_engine, sr_report = report_new, sr_disk = sample_disk, sr_log = []\<rparr>"
  let ?st = "process_path sample_config True ''/a'' sample_node ?fresh"
  have run: "run_sanitize_conversations sample_config None 0 (\<lambda>_. sample_node) sample_disk
      0 [(''KEY'', ''pw'')] File_not_found [] [''/a''] = Inr ?st"
    by (simp add: run_sanitize_conversations_def run_backup_dir_def sample_config_def resolve_backup_dir_def
        sample_candidate sample_engines discover_dotenv_candidates_with_patterns_def run_roots_def Let_def)
  have settings: "transactions_local (sc_ops sample_config)" "sc_write sample_config"
    by (simp_all add: transactions_local_def sample_config_def sample_ops_def)
  note written = sample_file_written [where st = ?fresh and st' = ?st, OF sanitize_run.select_convs(1,3,4,2) refl]
  note ok = run_writes_only_with_backup [OF run settings(1)]
  obtain dk where lg: "sr_log ?st = [(Backup ''/a/x.txt'' sample_backup, sample_disk(location sample_backup \<mapsto> ''xpwy'')),
      (Replace ''/a/x.txt'', dk)]"
    using written(1) by blast
  have away: "location sample_backup \<noteq> location ''/a/x.txt''"
    by code_simp
  then have "dk (location sample_backup) = Some ''xpwy''" and "sr_disk ?st = dk"
    using ok settings(2) written(3) unfolding lg by (auto simp: step_ok_def rewritten_def sample_disk_def)
  then show ?thesis
    using run written(2,3) by auto
qed

text \<open>
  C32. A sanitized file is replaced whole or not at all: whatever step the write stops at, by an error or
  because the process is killed, the file holds its old contents or the new ones, and no file but the
  temporary one beside it is touched. A success leaves the new contents and no temporary file; an
  error leaves the file as it was.
\<close>

theorem atomic_write:
  assumes "write_file_atomic wrote renamed pid path bs dk = (res, states)"
  shows "(\<forall>dk' \<in> set states.
            (dk' (location path) = dk (location path) \<or> dk' (location path) = Some bs) \<and>
            (\<forall>l. l \<notin> {location path, location (temporary_path pid path)} \<longrightarrow> dk' l = dk l)) \<and>
         (case res of
            Inl err \<Rightarrow> last states (location path) = dk (location path)
          | Inr _ \<Rightarrow> last states = dk(location path \<mapsto> bs, location (temporary_path pid path) := None))"
proof -
  let ?tmp = "location (temporary_path pid path)" and ?n = "case wrote of Failed_after n _ \<Rightarrow> n | _ \<Rightarrow> length bs"
  have other: "\<forall>dk' \<in> set (dk # write_states ?tmp bs ?n dk). \<forall>l. l \<noteq> ?tmp \<longrightarrow> dk' l = dk l"
    by (auto simp: write_states_elsewhere)
  have same: "\<forall>dk' \<in> set (dk # write_states ?tmp bs ?n dk). dk' (location path) = dk (location path)"
    using other temporary_elsewhere [of pid path] by metis
  have ends: "last (write_states ?tmp bs ?n dk) (location path) = dk (location path)"
    using same by (simp add: last_in_set)
  have new: "dk(?tmp \<mapsto> bs, location path \<mapsto> bs, ?tmp := None) = dk(location path \<mapsto> bs, ?tmp := None)"
    by (simp add: fun_upd_def fun_eq_iff)
  show ?thesis
    using assms other same ends temporary_elsewhere [of pid path] new
    by (auto simp: write_file_atomic_def Let_def write_states_last split: write_answer.splits option.splits)
qed

lemma atomic_write_witness:
  "\<exists>res states.
     write_file_atomic Written None 7 ''a/b.txt'' ''new'' [location ''a/b.txt'' \<mapsto> ''old''] = (res, states) \<and>
     res = Inr () \<and> length states = 6 \<and>
     (\<forall>dk' \<in> set states. dk' (location ''a/b.txt'') = Some ''old'' \<or> dk' (location ''a/b.txt'') = Some ''new'') \<and>
     last states = [location ''a/b.txt'' \<mapsto> ''new''](location ''a/.b.txt.crebro-tmp-7'' := None)"
proof -
  let ?dk = "[location ''a/b.txt'' \<mapsto> ''old'']"
  obtain res states where run: "write_file_atomic Written None 7 ''a/b.txt'' ''new'' ?dk = (res, states)"
    by (cases "write_file_atomic Written None 7 ''a/b.txt'' ''new'' ?dk")
  have tmp: "temporary_path 7 ''a/b.txt'' = ''a/.b.txt.crebro-tmp-7''"
    by code_simp
  have res: "res = Inr ()" and len: "length states = 6"
    using run by (auto simp: write_file_atomic_def write_states_def Let_def)
  show ?thesis
    using atomic_write [OF run] run res len by (auto simp: tmp)
qed

section \<open>Dotenv files\<close>

text \<open>
  C39. A dotenv file of quoted assignments is read back as it was written: its candidates are the
  assignments that look like secrets, in order, up to the limit.
\<close>

theorem dotenv_read_as_written:
  assumes "kvs \<noteq> []" and "list_all (\<lambda>(key, v). env_name key \<and> LF \<notin> set v) kvs"
  shows "fst (parse_dotenv_candidates_from_bytes ps limit (str_join [LF] (map quoted_assignment kvs))) =
    take limit (List.map_filter (\<lambda>kv. candidate_of ps (Some kv)) kvs)"
  using dotenv_quoted_file [OF assms(1)] assms(2) by (simp add: list_all_iff)

lemma dotenv_read_as_written_witness:
  "fst (parse_dotenv_candidates_from_bytes no_patterns 512 (''API_KEY='' @ [CHR 0x22] @ ''abcd'' @ [CHR 0x22])) =
     List.map_filter (\<lambda>kv. candidate_of no_patterns (Some kv)) [(''API_KEY'', ''abcd'')]"
proof -
  have "utf8_valid ''API_KEY''"
    by (rule utf8_valid_ascii) auto
  then have "env_name ''API_KEY''"
    by (simp add: env_name_def is_ascii_whitespace_def)
  then show ?thesis
    using dotenv_read_as_written [of "[(''API_KEY'', ''abcd'')]" no_patterns 512]
    by (simp add: quoted_assignment_def map_filter_simps split: option.split)
qed

section \<open>The child process\<close>

text \<open>
  The child sees every variable that leads its traffic through the proxy, whatever its parent
  had set, and the hosts excluded from the proxy are those of the parent, in order, followed by the
  loop-back hosts that were missing.
\<close>

theorem child_environment_proxied:
  "list_all (\<lambda>(k, v). proxy_child_environment base_env config k = Some v) (proxy_child_env_overrides config) \<and>
   no_proxy_values (proxy_child_environment base_env config ''NO_PROXY'') =
     add_missing (no_proxy_values (extend_env Map.empty base_env ''NO_PROXY'')) LOOPBACKS \<and>
   no_proxy_values (proxy_child_environment base_env config ''no_proxy'') =
     add_missing (no_proxy_values (extend_env Map.empty base_env ''no_proxy'')) LOOPBACKS"
proof -
  have other: "extend_env env (proxy_child_env_overrides config) k = env k" if "k \<in> {''NO_PROXY'', ''no_proxy''}" for env k
    by (rule extend_env_other) (use that overrides_not_no_proxy in force)
  have merged: "no_proxy_values (Some (str_join '','' (add_missing (no_proxy_values v) LOOPBACKS))) =
      add_missing (no_proxy_values v) LOOPBACKS" for v
    using no_proxy_merged [of "[]" "\<lambda>_. v"] by (simp add: merge_loopback_no_proxy_def)
  have "list_all (\<lambda>(k, v). proxy_child_environment base_env config k = Some v) (proxy_child_env_overrides config)"
    unfolding list_all_iff using child_env_overrides by blast
  then show ?thesis
    by (simp add: proxy_child_environment_def merge_loopback_no_proxy_def other merged)
qed

section \<open>Buffers of secrets\<close>

text \<open>
  C36. On Unix every buffer that is made and dropped stays locked in memory: dropping it clears the
  vector first and then asks to release a region of length 0, so however many buffers come and go,
  \<^verbatim>\<open>munlock\<close> is never called.
\<close>

theorem dropped_buffers_stay_locked:
  assumes "zeroize_clears zeroize" and "is_unix t" and "\<forall>calls call. os calls call = None"
    and "\<forall>(ptr, bs) \<in> set bufs. ptr \<noteq> 0 \<and> bs \<noteq> []"
  shows "locked_regions os (buffers_in_turn zeroize os t bufs []) = (\<lambda>(ptr, bs). (ptr, length bs)) ` set bufs \<and>
    (\<forall>ptr len. Munlock ptr len \<notin> set (buffers_in_turn zeroize os t bufs []))"
  using dropped_buffers_locked [OF assms, of "[]"] buffers_no_munlock [OF assms(1), of _ _ "[]"] by simp

lemma dropped_buffers_stay_locked_witness:
  "locked_regions (\<lambda>_ _. None)
     (buffers_in_turn (\<lambda>_. []) (\<lambda>_ _. None) Linux [(4096, ''pw''), (8192, ''key'')] []) = {(4096, 2), (8192, 3)}"
  using dropped_buffers_stay_locked [of "\<lambda>_. []" Linux "\<lambda>_ _. None" "[(4096, ''pw''), (8192, ''key'')]"]
  by (auto simp: zeroize_clears_def is_unix_def numeral_2_eq_2 numeral_3_eq_3 simp del: buffers_in_turn.simps)

section \<open>The upstream of the tests\<close>

text \<open>
  The upstream with which crebro is tested refuses a request just when a forbidden text is in its
  body or in a header that is no credential; then it records nothing. Of a request that it accepts it
  records at most one line, with a body free of the forbidden texts and without the credentials.
\<close>

theorem qa_upstream_refuses_forbidden:
  assumes "hl_to_bytes (qa_http st) (qr_body req) (qa_max_body st) = Inr body" and "utf8_valid body"
    and "qa_handle st req file = (ans, file')"
  shows "(qs_status ans = 400 \<longleftrightarrow>
      (\<exists>needle \<in> set (qa_forbidden st). needle \<noteq> [] \<and> (occurs_in needle body \<or>
        (\<exists>(name, v) \<in> set (qr_headers req). \<not> qa_is_provider_auth_header name \<and> occurs_in needle v)))) \<and>
    (file' = file \<or> (\<exists>rec. file' = file @ [rec] \<and> qs_status ans = 200 \<and> qa_recording st \<and>
      (\<forall>needle \<in> set (qa_forbidden st). needle \<noteq> [] \<longrightarrow> \<not> occurs_in needle (rq_body_utf8_lossy rec)) \<and>
      (\<forall>name vs. qa_is_provider_auth_header name \<longrightarrow> rq_headers rec name = Some vs \<longrightarrow> set vs = {''<redacted>''})))"
proof -
  let ?refused = "contains_forbidden body (qa_forbidden st) \<or> headers_contain_forbidden (qr_headers req) (qa_forbidden st)"
  have refused: "?refused \<longleftrightarrow>
      (\<exists>needle \<in> set (qa_forbidden st). needle \<noteq> [] \<and> (occurs_in needle body \<or>
        (\<exists>(name, v) \<in> set (qr_headers req). \<not> qa_is_provider_auth_header name \<and> occurs_in needle v)))"
    by (rule refused_iff)
  show ?thesis
  proof (cases ?refused)
    case True
    then show ?thesis
      using assms(1,3) refused by (auto simp: qa_handle_def plain_answer_def)
  next
    case False
    then have accepted: "qs_status ans = 200"
        "file' = record_request st req (infer_provider_from_path (qr_path req)) body file"
      using assms(1,3) qa_response_status by (auto simp: qa_handle_def Let_def)
    have clean: "\<forall>needle \<in> set (qa_forbidden st). needle \<noteq> [] \<longrightarrow> \<not> occurs_in needle body"
      using False by (auto simp: contains_forbidden_iff)
    consider "file' = file" | rec where "file' = file @ [rec]" "qa_recording st" "rq_body_utf8_lossy rec = body"
        "\<forall>name vs. qa_is_provider_auth_header name \<longrightarrow> rq_headers rec name = Some vs \<longrightarrow> set vs = {''<redacted>''}"
      using record_request_line [OF assms(2)] accepted(2) by metis
    then show ?thesis
      using accepted(1) clean False refused by cases auto
  qed
qed

definition sample_qa_state :: qa_state where
  "sample_qa_state =
     \<lparr>qa_forbidden = qa_forbidden_of [''pw'', []], qa_recording = True, qa_max_body = 1024,
      qa_http =
        \<lparr>hl_to_str = Some, hl_header_value = Some,
         hl_to_bytes = (\<lambda>src limit. case src of [Got bs] \<Rightarrow> Inr bs | _ \<Rightarrow> Inl ''length limit exceeded''),
         hl_send = (\<lambda>_. Inl ''connection refused'')\<rparr>,
      qa_serde = toy_serde, qa_display = (\<lambda>_. []), qa_write = (\<lambda>_. True)\<rparr>"

definition sample_qa_request :: "bytes \<Rightarrow> qa_request" where
  "sample_qa_request body =
     \<lparr>qr_method = ''POST'', qr_path = ''/v1/chat'', qr_query = None, qr_path_and_query = Some ''/v1/chat'',
      qr_headers = [(''authorization'', ''pw'')], qr_body = [Got body]\<rparr>"

lemma qa_upstream_refuses_forbidden_witness:
  "qs_status (fst (qa_handle sample_qa_state (sample_qa_request ''xpwy'') [])) = 400 \<and>
   qs_status (fst (qa_handle sample_qa_state (sample_qa_request ''xy'') [])) \<noteq> 400"
proof -
  have body: "hl_to_bytes (qa_http sample_qa_state) (qr_body (sample_qa_request bs)) (qa_max_body sample_qa_state) = Inr bs" for bs
    by (simp add: sample_qa_state_def sample_qa_request_def)
  have valid: "utf8_valid ''xpwy''" "utf8_valid ''xy''"
    by (rule utf8_valid_ascii, auto)+
  have hit: "occurs_in ''pw'' ''xpwy''" "\<not> occurs_in ''pw'' ''xy''"
    by (simp_all add: contains_bytes_iff [symmetric] contains_bytes_def any_window_def sub_bytes_def upt_rec)
  have "qs_status (fst (qa_handle sample_qa_state (sample_qa_request bs) [])) = 400 \<longleftrightarrow> occurs_in ''pw'' bs"
    if "utf8_valid bs" for bs
    using qa_upstream_refuses_forbidden [OF body that, of "[]"]
    by (cases "qa_handle sample_qa_state (sample_qa_request bs) []")
      (simp add: sample_qa_state_def sample_qa_request_def qa_forbidden_of_def qa_is_provider_auth_header_def)
  then show ?thesis
    using valid hit by blast
qed

end
