(* ===== verification/Startup.thy ===== *)
theory Startup
  imports Gateway Websocket Cli
begin

text \<open>
  How the servers start: the configurations of the gateway (\<^verbatim>\<open>src/gateway/server.rs\<close>) and of the proxy
  (\<^verbatim>\<open>src/proxy/server.rs\<close>), the states they begin with, the loop that accepts connections, the file
  of the certificate authority (\<^verbatim>\<open>src/proxy/ca.rs\<close>) and the lines of the key log
  (\<^verbatim>\<open>src/gateway/tls.rs\<close>). What binds, connects and signs is the parameter \<open>startup_world\<close>; the
  libraries are taken from a given environment.
\<close>

section \<open>Configurations\<close>

record gateway_config =
  gc_listen_addr :: bytes
  gc_upstream_base :: bytes
  gc_auth_secret :: "u64 option"
  gc_cache_entries :: nat
  gc_threshold :: nat
  gc_patterns :: pattern_set
  gc_stats_path :: "bytes option"
  gc_keylog_file :: "bytes option"
  gc_guidance :: bool

definition gateway_config_default :: "pattern_set \<Rightarrow> gateway_config" where
  "gateway_config_default builtin =
     \<lparr>gc_listen_addr = ''127.0.0.1:0'', gc_upstream_base = [], gc_auth_secret = None,
      gc_cache_entries = 4096, gc_threshold = 256 * 1024, gc_patterns = builtin,
      gc_stats_path = None, gc_keylog_file = None, gc_guidance = True\<rparr>"

text \<open>The certificate authority of a configuration is known by the path of its file.\<close>

record proxy_config =
  pc_listen_addr :: bytes
  pc_connect_targets :: "bytes list"
  pc_registry :: registry
  pc_patterns :: pattern_set
  pc_cache_entries :: nat
  pc_stats_path :: "bytes option"
  pc_mitm :: bool
  pc_upstream_tls :: bool
  pc_keylog_file :: "bytes option"
  pc_guidance :: bool
  pc_ca :: "bytes option"

definition DEFAULT_CONNECT_TARGETS :: "bytes list" where
  "DEFAULT_CONNECT_TARGETS =
     [''api.anthropic.com:443'', ''api.openai.com:443'', ''chatgpt.com:443'',
      ''generativelanguage.googleapis.com:443'']"

definition proxy_config_default :: "registry \<Rightarrow> pattern_set \<Rightarrow> proxy_config" where
  "proxy_config_default generated builtin =
     \<lparr>pc_listen_addr = ''127.0.0.1:0'', pc_connect_targets = DEFAULT_CONNECT_TARGETS,
      pc_registry = generated, pc_patterns = builtin, pc_cache_entries = 4096, pc_stats_path = None,
      pc_mitm = True, pc_upstream_tls = True, pc_keylog_file = None, pc_guidance = True, pc_ca = None\<rparr>"

definition json_sanitizer_new :: "nat \<Rightarrow> pattern_set \<Rightarrow> bool \<Rightarrow> redaction_cache \<times> json_sanitizer" where
  "json_sanitizer_new max_cache_entries patterns guidance =
     (cache_new max_cache_entries, \<lparr>js_patterns = patterns, js_guidance = guidance\<rparr>)"

section \<open>Files\<close>

text \<open>\<open>nanos\<close> is the time since the epoch, 0 when the clock is before it.\<close>

definition default_ca_pem_path :: "bytes option \<Rightarrow> bytes option \<Rightarrow> bytes \<Rightarrow> nat \<Rightarrow> nat \<Rightarrow> bytes" where
  "default_ca_pem_path crebro_home home temp_dir pid nanos =
     (let base =
        (case crebro_home of
           Some dir \<Rightarrow> dir
         | None \<Rightarrow> (case home of
             Some dir \<Rightarrow> path_join dir ''.crebro''
           | None \<Rightarrow> path_join temp_dir ''crebro''))
      in path_join (path_join base ''ca'')
           (''session-root-'' @ print_radix 10 pid @ ''-'' @ print_radix 10 nanos @ ''.pem''))"

text \<open>A line of the key log.\<close>

definition key_log_line :: "crypto \<Rightarrow> bytes \<Rightarrow> bytes \<Rightarrow> bytes \<Rightarrow> bytes" where
  "key_log_line c label client_random secret =
     label @ '' '' @ hex_encode c client_random @ '' '' @ hex_encode c secret @ [CHR 0x0A]"

section \<open>Starting\<close>

text \<open>A listener is what \<^verbatim>\<open>bind\<close> makes of an address; its own address may be refused as well. An
  error of these is its text.\<close>

record 'f startup_world =
  sw_bind :: "bytes \<Rightarrow> bytes + bytes"
  sw_local_addr :: "bytes \<Rightarrow> bytes + bytes"
  sw_client :: "bytes option \<Rightarrow> crebro_error + http_lib"
  sw_key_log :: "bytes \<Rightarrow> crebro_error + unit"
  sw_generate_ca :: "crebro_error + bytes"
  sw_stats_file :: "bytes \<Rightarrow> 'f option"

definition listen_on :: "'f startup_world \<Rightarrow> bytes \<Rightarrow> bytes \<Rightarrow> crebro_error + bytes" where
  "listen_on w kind listen_addr =
     (case sw_bind w listen_addr of
        Inl err \<Rightarrow> Inl (crebro_error.Gateway (''failed to bind '' @ kind @ '': '' @ err))
      | Inr listener \<Rightarrow>
          (case sw_local_addr w listener of
             Inl err \<Rightarrow> Inl (crebro_error.Gateway (''failed to read '' @ kind @ '' address: '' @ err))
           | Inr addr \<Rightarrow> Inr addr))"

definition handle_url :: "bytes \<Rightarrow> bytes" where
  "handle_url addr = ''http://'' @ addr"

definition stats_at :: "'f startup_world \<Rightarrow> bytes option \<Rightarrow> 'f option" where
  "stats_at w path = Option.bind path (sw_stats_file w)"

definition spawn_gateway ::
  "'f startup_world \<Rightarrow> 'f gateway_env \<Rightarrow> gateway_config \<Rightarrow> registry \<Rightarrow>
   crebro_error + bytes \<times> 'f gateway_env \<times> 'f gateway_state" where
  "spawn_gateway w libs config r =
     (if gc_upstream_base config = [] then Inl (crebro_error.Config ''missing upstream base URL'')
      else
        and_then (listen_on w ''gateway'' (gc_listen_addr config)) (\<lambda>addr.
        and_then (sw_client w (gc_keylog_file config)) (\<lambda>client.
          let (cache, sanitizer) =
                json_sanitizer_new (gc_cache_entries config) (gc_patterns config) (gc_guidance config)
          in Inr (addr,
               libs\<lparr>gw_http := client, gw_sanitizer := sanitizer, gw_patterns := gc_patterns config,
                    gw_recorder := \<lparr>stats_enabled = gc_stats_path config \<noteq> None\<rparr>,
                    gw_upstream_base := gc_upstream_base config, gw_auth_secret := gc_auth_secret config,
                    gw_threshold := gc_threshold config\<rparr>,
               \<lparr>gs_san = (cache, r), gs_stats = stats_at w (gc_stats_path config),
                 gs_guard = False\<rparr>))))"

record proxy_handle =
  ph_addr :: bytes
  ph_ca_bundle_path :: "bytes option"

definition proxy_ca :: "'f startup_world \<Rightarrow> proxy_config \<Rightarrow> crebro_error + bytes option" where
  "proxy_ca w config =
     (if pc_mitm config then
        (case pc_ca config of
           Some ca \<Rightarrow> Inr (Some ca)
         | None \<Rightarrow> and_then (sw_generate_ca w) (\<lambda>ca. Inr (Some ca)))
      else Inr None)"

definition spawn_proxy ::
  "'f startup_world \<Rightarrow> 'f proxy_env \<Rightarrow> proxy_config \<Rightarrow>
   crebro_error + proxy_handle \<times> 'f proxy_env \<times> 'f proxy_state" where
  "spawn_proxy w libs config =
     and_then (listen_on w ''proxy'' (pc_listen_addr config)) (\<lambda>addr.
     and_then (proxy_ca w config) (\<lambda>ca.
     and_then (case pc_keylog_file config of Some path \<Rightarrow> sw_key_log w path | None \<Rightarrow> Inr ()) (\<lambda>_.
       let (cache, sanitizer) =
             json_sanitizer_new (pc_cache_entries config) (pc_patterns config) (pc_guidance config)
       in Inr (\<lparr>ph_addr = addr, ph_ca_bundle_path = ca\<rparr>,
            libs\<lparr>env_sanitizer := sanitizer,
                 env_recorder := \<lparr>stats_enabled = pc_stats_path config \<noteq> None\<rparr>,
                 env_allowlist := normalized_allowlist (pc_connect_targets config),
                 env_mitm := pc_mitm config\<rparr>,
            \<lparr>px_san = (cache, pc_registry config), px_stats = stats_at w (pc_stats_path config),
             px_tap = []\<rparr>))))"

text \<open>The connections that are handled, of what \<^verbatim>\<open>accept\<close> returns.\<close>

datatype 'c accepted = Connection 'c | Accept_failed

fun accept_loop :: "'c accepted list \<Rightarrow> 'c list" where
  "accept_loop [] = []"
| "accept_loop (Connection conn # events) = conn # accept_loop events"
| "accept_loop (Accept_failed # events) = []"

text \<open>The options of the wrapper that configure its proxy, the proxy, and what its child is told of it.\<close>

record wrapper_cli =
  wc_listen_addr :: bytes
  wc_stats_path :: "bytes option"
  wc_keylog_file :: "bytes option"
  wc_no_guidance :: bool

definition wrapper_proxy_config :: "wrapper_cli \<Rightarrow> registry \<Rightarrow> pattern_set \<Rightarrow> registry \<Rightarrow> pattern_set \<Rightarrow> proxy_config" where
  "wrapper_proxy_config cli r patterns generated builtin =
     (proxy_config_default generated builtin)
       \<lparr>pc_listen_addr := wc_listen_addr cli, pc_registry := r, pc_patterns := patterns,
        pc_stats_path := wc_stats_path cli, pc_keylog_file := wc_keylog_file cli,
        pc_guidance := \<not> wc_no_guidance cli\<rparr>"

definition child_config_of :: "proxy_handle \<Rightarrow> proxy_child_env_config" where
  "child_config_of h = \<lparr>cc_proxy_url = handle_url (ph_addr h), cc_ca_bundle_path = ph_ca_bundle_path h\<rparr>"

section \<open>What a server starts with\<close>

lemma new_sanitizer_inv:
  assumes "registry_inv c r" and "caching c (reg_keys r) U"
  shows "san_inv c U Ob (fst (json_sanitizer_new n ps guidance), r)"
  using assms by (simp add: san_inv_def json_sanitizer_new_def cache_new_def cache_coherent_new)

text \<open>A gateway that starts has an upstream, the configuration and a state for which the invariant of
  the sanitizer holds.\<close>

lemma spawn_gateway_starts:
  assumes "spawn_gateway w libs config r = Inr (addr, env, st)"
    and "registry_inv c r" and "caching c (reg_keys r) U"
  shows "gw_upstream_base env \<noteq> [] \<and> gw_threshold env = gc_threshold config \<and>
    gw_auth_secret env = gc_auth_secret config \<and> san_inv c U Ob (gs_san st)"
  using assms(1) new_sanitizer_inv [OF assms(2,3), of Ob "gc_cache_entries config" "gc_patterns config" "gc_guidance config"]
  by (auto simp: spawn_gateway_def json_sanitizer_new_def and_then_eq_Inr split: if_splits)

text \<open>The proxy of the wrapper serves the targets of the default list and no other, intercepts them, and
  tells its child where the certificate is.\<close>

lemma wrapper_proxy_starts:
  assumes "spawn_proxy w libs (wrapper_proxy_config cli r patterns generated builtin) = Inr (h, env, st)"
    and "registry_inv c r" and "caching c (reg_keys r) U"
  shows "san_inv c U Ob (px_san st) \<and> env_mitm env \<and> cc_ca_bundle_path (child_config_of h) \<noteq> None \<and>
    (\<forall>target. to_ascii_lowercase target \<in> env_allowlist env \<longleftrightarrow>
       (\<exists>t \<in> set DEFAULT_CONNECT_TARGETS. eq_ignore_ascii_case target t))"
  using assms(1) new_sanitizer_inv [OF assms(2,3), of Ob 4096 patterns "\<not> wc_no_guidance cli"]
  by (auto simp: spawn_proxy_def proxy_ca_def wrapper_proxy_config_def proxy_config_default_def
      json_sanitizer_new_def child_config_of_def and_then_eq_Inr normalized_allowlist_def eq_ignore_ascii_case_def
      split: option.splits)

text \<open>After the first failed \<^verbatim>\<open>accept\<close> no connection is handled.\<close>

lemma accept_stops_at_failure:
  "accept_loop (map Connection before @ Accept_failed # later) = before"
  by (induction before) simp_all

end
