(* ===== verification/Tls_Setup.thy ===== *)
theory Tls_Setup
  imports Startup Atomic_Write
begin

text \<open>
  The certificate authority of a session (\<^verbatim>\<open>src/proxy/ca.rs\<close>), the connection to an upstream
  (\<^verbatim>\<open>connect_upstream\<close> of \<^verbatim>\<open>src/proxy/server.rs\<close>) and the client of the gateway with its key log
  (\<^verbatim>\<open>src/gateway/tls.rs\<close>). Keys, certificates and handshakes are made by rcgen, rustls and reqwest, which
  are the parameters \<open>ca_lib\<close> and \<open>tls_lib\<close>; a step of theirs that fails gives the text of its error.
  What the code itself decides is the order of the steps, their errors, the configurations it
  builds and the files it writes.
\<close>

unbundle bit_operations_syntax

definition or_else_err :: "('e \<Rightarrow> crebro_error) \<Rightarrow> 'e + 'a \<Rightarrow> crebro_error + 'a" where
  "or_else_err f r = (case r of Inl e \<Rightarrow> Inl (f e) | Inr a \<Rightarrow> Inr a)"

lemma or_else_err_Inr [simp]: "or_else_err f r = Inr a \<longleftrightarrow> r = Inr a"
  by (simp add: or_else_err_def split: sum.splits)

section \<open>A private file\<close>

text \<open>A file with its permission bits. The bits of an open call are used when the file is created, less
  those of the process's mask.\<close>

type_synonym mode = "12 word"
type_synonym moded_disk = "bytes \<rightharpoonup> mode \<times> bytes"

definition private_mode :: mode where
  "private_mode = 0x180"

definition opened_mode :: "mode \<Rightarrow> bytes \<Rightarrow> moded_disk \<Rightarrow> mode" where
  "opened_mode umask path dk = (case dk path of None \<Rightarrow> private_mode AND NOT umask | Some (m, _) \<Rightarrow> m)"

text \<open>The states the disk passes through; \<open>open_err\<close> is the error of opening, \<open>stop\<close> the bytes that were written when
  writing failed, and its error.\<close>

definition write_private_file ::
  "mode \<Rightarrow> crebro_error option \<Rightarrow> (nat \<times> crebro_error) option \<Rightarrow> bytes \<Rightarrow> bytes \<Rightarrow> moded_disk \<Rightarrow>
   (crebro_error + unit) \<times> moded_disk list" where
  "write_private_file umask open_err stop path bs dk =
     (case open_err of
        Some err \<Rightarrow> (Inl err, [dk])
      | None \<Rightarrow>
          (let m = opened_mode umask path dk;
               states = (\<lambda>n. dk # map (\<lambda>k. dk(path \<mapsto> (m, take k bs))) [0..<Suc (min n (length bs))])
           in case stop of
                Some (n, err) \<Rightarrow> (Inl err, states n)
              | None \<Rightarrow> (Inr (), states (length bs))))"

section \<open>The authority\<close>

text \<open>\<open>cl_self_signed\<close> is given whether the certificate may sign others.\<close>

record ('k, 'c) ca_lib =
  cl_self_signed :: "bool \<Rightarrow> 'k \<Rightarrow> bytes + 'c"
  cl_leaf_params :: "bytes list \<Rightarrow> bytes + bytes list"
  cl_signed_by :: "bytes list \<Rightarrow> 'k \<Rightarrow> 'c \<Rightarrow> 'k \<Rightarrow> bytes + 'c"
  cl_pem :: "'c \<Rightarrow> bytes"
  cl_protocol_versions :: "bytes + unit"
  cl_single_cert :: "'c list \<Rightarrow> 'k \<Rightarrow> bytes + unit"

record ('k, 'c) local_ca =
  ca_cert :: 'c
  ca_key_pair :: 'k
  ca_pem_path :: bytes

text \<open>\<open>drawn\<close> is the key pair the library generates. \<open>made_dir\<close> and \<open>write\<close> are the file operations.\<close>

definition generate_session ::
  "('k, 'c) ca_lib \<Rightarrow> bytes + 'k \<Rightarrow> bytes \<Rightarrow> (bytes \<Rightarrow> crebro_error + unit) \<Rightarrow>
   (bytes \<Rightarrow> bytes \<Rightarrow> crebro_error + unit) \<Rightarrow> crebro_error + ('k, 'c) local_ca" where
  "generate_session lib drawn pem_path made_dir write =
     and_then (or_else_err (\<lambda>err. crebro_error.Gateway (''failed to generate local CA key: '' @ err)) drawn) (\<lambda>key_pair.
     and_then (or_else_err (\<lambda>err. crebro_error.Gateway (''failed to generate local CA certificate: '' @ err))
                 (cl_self_signed lib True key_pair)) (\<lambda>cert.
     and_then (case path_parent pem_path of None \<Rightarrow> Inr () | Some parent \<Rightarrow> made_dir parent) (\<lambda>_.
     and_then (write pem_path (cl_pem lib cert)) (\<lambda>_.
       Inr \<lparr>ca_cert = cert, ca_key_pair = key_pair, ca_pem_path = pem_path\<rparr>))))"

record ('k, 'c) tls_server_config =
  ts_chain :: "'c list"
  ts_key :: 'k
  ts_client_auth :: bool
  ts_alpn :: "bytes list"

definition server_config_for_host ::
  "('k, 'c) ca_lib \<Rightarrow> bytes + 'k \<Rightarrow> bytes \<Rightarrow> ('k, 'c) local_ca \<Rightarrow> crebro_error + ('k, 'c) tls_server_config" where
  "server_config_for_host lib drawn host ca =
     and_then (or_else_err (\<lambda>err. crebro_error.Gateway (''failed to generate MITM leaf key: '' @ err)) drawn) (\<lambda>leaf_key.
     and_then (or_else_err (\<lambda>err. crebro_error.Gateway (''failed to build MITM leaf params: '' @ err))
                 (cl_leaf_params lib [host])) (\<lambda>params.
     and_then (or_else_err (\<lambda>err. crebro_error.Gateway (''failed to sign MITM leaf certificate: '' @ err))
                 (cl_signed_by lib params leaf_key (ca_cert ca) (ca_key_pair ca))) (\<lambda>leaf.
     and_then (or_else_err (\<lambda>err. Config (''invalid rustls protocol versions: '' @ err)) (cl_protocol_versions lib)) (\<lambda>_.
     and_then (or_else_err (\<lambda>err. crebro_error.Gateway (''failed to build MITM server config: '' @ err))
                 (cl_single_cert lib [leaf, ca_cert ca] leaf_key)) (\<lambda>_.
       Inr \<lparr>ts_chain = [leaf, ca_cert ca], ts_key = leaf_key, ts_client_auth = False, ts_alpn = [''http/1.1'']\<rparr>)))))"

section \<open>Upstream connections\<close>

record 'r tls_client_config =
  tc_roots :: "'r list"
  tc_client_auth :: bool
  tc_alpn :: "bytes list"
  tc_key_log :: "bytes option"

text \<open>\<open>'s\<close> is a TCP stream, \<open>'t\<close> an established TLS session and \<open>'r\<close> a root certificate; a key log is known by the path
  of its file.\<close>

datatype ('s, 't) boxed_stream = Plain_stream 's | Tls_stream 't

record ('r, 's, 't) tls_lib =
  tl_roots :: "'r list"
  tl_protocol_versions :: "bytes + unit"
  tl_tcp :: "bytes \<Rightarrow> bytes + 's"
  tl_server_name :: "bytes \<Rightarrow> bool"
  tl_handshake :: "'r tls_client_config \<Rightarrow> bytes \<Rightarrow> 's \<Rightarrow> bytes + 't"

definition upstream_tls_config :: "('r, 's, 't) tls_lib \<Rightarrow> bytes option \<Rightarrow> 'r tls_client_config" where
  "upstream_tls_config lib key_log =
     \<lparr>tc_roots = tl_roots lib, tc_client_auth = False, tc_alpn = [''http/1.1''], tc_key_log = key_log\<rparr>"

definition connect_upstream ::
  "('r, 's, 't) tls_lib \<Rightarrow> bytes \<Rightarrow> bytes \<Rightarrow> bool \<Rightarrow> bytes option \<Rightarrow> crebro_error + ('s, 't) boxed_stream" where
  "connect_upstream lib target host use_tls key_log =
     and_then (or_else_err (\<lambda>err. Upstream (''failed to connect upstream: '' @ err)) (tl_tcp lib target)) (\<lambda>tcp.
       if \<not> use_tls then Inr (Plain_stream tcp)
       else
         and_then (or_else_err (\<lambda>err. Config (''invalid rustls protocol versions: '' @ err)) (tl_protocol_versions lib)) (\<lambda>_.
           if \<not> tl_server_name lib host then Inl (crebro_error.Gateway (''invalid upstream TLS server name: '' @ host))
           else
             and_then (or_else_err (\<lambda>err. Upstream (''upstream TLS handshake failed: '' @ err))
                         (tl_handshake lib (upstream_tls_config lib key_log) host tcp)) (\<lambda>tls.
               Inr (Tls_stream tls))))"

section \<open>The client of the gateway\<close>

datatype 'r upstream_client = Default_client | Preconfigured_client "'r tls_client_config"

text \<open>\<open>build\<close> is what reqwest answers to the configuration.\<close>

definition build_upstream_client ::
  "'r list \<Rightarrow> bytes + unit \<Rightarrow> (bytes \<Rightarrow> crebro_error + unit) \<Rightarrow> ('r tls_client_config \<Rightarrow> bool) \<Rightarrow> bytes option \<Rightarrow>
   crebro_error + 'r upstream_client" where
  "build_upstream_client roots versions open_key_log build tls_keylog_file =
     (case tls_keylog_file of
        None \<Rightarrow> Inr Default_client
      | Some path \<Rightarrow>
          and_then (or_else_err (\<lambda>err. Config (''invalid rustls protocol versions: '' @ err)) versions) (\<lambda>_.
          and_then (open_key_log path) (\<lambda>_.
            let tls = \<lparr>tc_roots = roots, tc_client_auth = False, tc_alpn = [''h2'', ''http/1.1''], tc_key_log = Some path\<rparr>
            in if build tls then Inr (Preconfigured_client tls) else Inl Http)))"

text \<open>The key log is opened for appending. \<open>log\<close> writes nothing when its lock is poisoned; \<open>stop\<close> is how much of the
  line was written when writing fails, which is only reported.\<close>

definition key_log_append ::
  "crypto \<Rightarrow> bool \<Rightarrow> nat option \<Rightarrow> bytes \<Rightarrow> bytes \<Rightarrow> bytes \<Rightarrow> bytes \<Rightarrow> bytes" where
  "key_log_append c locked stop label client_random secret contents =
     (if \<not> locked then contents
      else contents @ (case stop of
        None \<Rightarrow> key_log_line c label client_random secret
      | Some n \<Rightarrow> take n (key_log_line c label client_random secret)))"

section \<open>What holds of them\<close>

text \<open>A file that did not exist is never open to anyone but its owner, whatever step its writing stops at.\<close>

lemma private_mode_others: "(private_mode AND NOT umask) AND 0x3F = 0"
proof -
  have "private_mode AND 0x3F = 0"
    by (simp add: private_mode_def)
  then show ?thesis
    by (metis and.assoc and.commute zero_and_eq)
qed

lemma private_file_private:
  assumes "write_private_file umask open_err stop path bs dk = (res, states)" and "dk path = None"
    and "dk' \<in> set states" and "dk' path = Some (m, content)"
  shows "m AND 0x3F = 0 \<and> prefix content bs"
  using assms
  by (auto simp: write_private_file_def opened_mode_def Let_def private_mode_others take_is_prefix
      split: option.splits prod.splits)

text \<open>Where TLS is asked for, a plain connection is never handed out, and the session is one the
  handshake made with the host's name under the public roots.\<close>

lemma connect_upstream_tls:
  assumes "connect_upstream lib target host True key_log = Inr stream"
  obtains tcp tls where "stream = Tls_stream tls" and "tl_tcp lib target = Inr tcp" and "tl_server_name lib host"
    and "tl_handshake lib (upstream_tls_config lib key_log) host tcp = Inr tls"
  using assms by (auto simp: connect_upstream_def split: if_splits)

text \<open>The chain presented to the client is the leaf the authority signed for the host and the authority itself, and the
  key is the leaf's.\<close>

lemma server_config_chain:
  assumes "server_config_for_host lib drawn host ca = Inr config"
  obtains leaf_key params leaf where "drawn = Inr leaf_key" and "cl_leaf_params lib [host] = Inr params"
    and "cl_signed_by lib params leaf_key (ca_cert ca) (ca_key_pair ca) = Inr leaf"
    and "ts_chain config = [leaf, ca_cert ca]" and "ts_key config = leaf_key" and "ts_alpn config = [''http/1.1'']"
  using assms by (auto simp: server_config_for_host_def)

end
