(* ===== verification/Spec2Isabelle.thy ===== *)
theory Spec2Isabelle
  imports Gateway_Properties Tool_Properties Tls_Setup
begin

text \<open>
  A verification of crebro, the program that stands between AI tools and their providers: it
  replaces credentials in what the tools send by placeholders, and puts them back into what
  the providers answer. The paths named below are under \<^verbatim>\<open>src/src/\<close>.

  What the program does, and which theory models it.

  A request reaches crebro in one of three ways: through the intercepting HTTP proxy
  (\<^verbatim>\<open>proxy/server.rs\<close>), over a websocket inside it (\<^verbatim>\<open>proxy/websocket.rs\<close>), or through the gateway
  that tools use as their base URL (\<^verbatim>\<open>gateway/\<close>). All of them give the body to the same sanitizer
  (\<^verbatim>\<open>redact/\<close>), which scans every string for the secrets of one registry (\<^verbatim>\<open>secrets/\<close>), and restore
  the answer with the placeholders of the same registry (\<^verbatim>\<open>restore/\<close> and the fragment restorers of
  the proxy). The registry and the cache are shared behind locks; a state of the model is the pair
  \<open>san_state\<close> of both, threaded through every operation, and an operation that may fail returns
  \<open>crebro_error + 'a\<close> (\<^const>\<open>and_then\<close>, \<^const>\<open>and_then_st\<close> are the \<^verbatim>\<open>?\<close> of the source).

  \<^item> \<open>Prelude\<close>, \<open>Rust_Str\<close>, \<open>Rust_Text\<close>: results and state passing, occurrences of one list in another,
    edits, and what the source uses of Rust's standard library: bytes, \<^verbatim>\<open>str\<close> operations, UTF-8 by
    its table of ranges, white space, integers in text. Bytes are \<^verbatim>\<open>char\<close>, a \<^verbatim>\<open>String\<close> is a byte
    list with \<^const>\<open>utf8_valid\<close>.
  \<^item> \<open>Selection\<close>: the choice of the longest disjoint ranges, which the source writes three times;
    the locale \<open>range_selection\<close> is interpreted for spans, pattern matches and replacements.
  \<^item> \<open>Secrets_Crypto\<close>, \<open>Registry\<close> (\<^verbatim>\<open>secrets/\<close>): digests, fingerprints, capsules, placeholders; the
    registry with its index and version, its invariant, and the locale \<open>secret_store\<close> of what a
    registration promises, interpreted on \<^const>\<open>ingest\<close>.
  \<^item> \<open>Scanner\<close>, \<open>Redaction_Cache\<close>, \<open>Cache_History\<close>, \<open>Long_Strings\<close>, \<open>Patterns\<close>, \<open>Directive\<close>, \<open>Text_Sanitizer\<close>
    (\<^verbatim>\<open>redact/scanner.rs\<close>, \<^verbatim>\<open>cache.rs\<close>, \<^verbatim>\<open>directive.rs\<close>, \<^verbatim>\<open>patterns/mod.rs\<close>): scanning and replacing, the
    LRU cache, its coherence and its bounds after any history of operations, the overlapping windows of a
    string longer than a chunk compared with one scan, credential patterns, the directives with which a
    user declares a secret, and a decoded string from end to end.
  \<^item> \<open>Json_Value\<close>, \<open>Json_Sanitizer\<close>, \<open>Json_Walk\<close>, \<open>Json_Stream\<close> (\<^verbatim>\<open>redact/json_sanitizer.rs\<close>,
    \<^verbatim>\<open>field_policy.rs\<close>): the walk over a parsed body, what it leaves of every string, the guidance,
    and the byte-wise sanitizer of streamed bodies, compared with a walk over the tree.
  \<^item> \<open>Restore\<close>, \<open>Fragment_Restorer\<close>, \<open>Sse_Restorer\<close> (\<^verbatim>\<open>restore/\<close>, \<^verbatim>\<open>proxy/server.rs\<close>): placeholders
    back into secrets in a byte stream, in text fragments and in server-sent events.
  \<^item> \<open>Http_Head\<close>, \<open>Byte_Source\<close>, \<open>Http_Chunked\<close>, \<open>Http_Proxy\<close> (\<^verbatim>\<open>proxy/server.rs\<close>), \<open>Payload_Tap\<close>,
    \<open>Stats\<close>: heads and their rewriting, readers that depend on bytes and not on how the network
    cuts them (a source is the list of what \<^verbatim>\<open>read\<close> will return), chunked bodies, one exchange, the
    tap and the statistics.
  \<^item> \<open>Ws_Frame\<close>, \<open>Websocket\<close> (\<^verbatim>\<open>proxy/websocket.rs\<close>): frames, and the relay as a function of the list of
    events that \<^verbatim>\<open>select!\<close> yields, which stands for every interleaving.
  \<^item> \<open>Gateway\<close> (\<^verbatim>\<open>gateway/\<close>): the whole handler, and requests one after the other. The write guard of the
    registry that a streamed body keeps is in the state (\<open>gs_guard\<close>); each operation that locks the registry
    looks at it, and a handler that finds it kept by one that has not returned waits (\<open>Waits\<close>).
  \<^item> \<open>Discovery\<close>, \<open>Conversation\<close>, \<open>Paths\<close>, \<open>Atomic_Write\<close>, \<open>Conversation_Files\<close>, \<open>Child_Env\<close>, \<open>Cli\<close>
    (\<^verbatim>\<open>secrets/discovery.rs\<close>, \<^verbatim>\<open>sanitize.rs\<close>, \<^verbatim>\<open>process.rs\<close>, \<^verbatim>\<open>cli.rs\<close>): secrets from the environment and
    from dotenv files, the tool that sanitizes past conversations, the child's environment, the commands. The
    contents of files are on a disk, which every copy, replacement and update of a run changes and
    which every read reads; the run keeps a log of these operations. Of the replacement of one file every state
    the disk passes through is kept. The tree of directories stays as it is during a run.
  \<^item> \<open>Startup\<close>, \<open>Tls_Setup\<close> (\<^verbatim>\<open>gateway/server.rs\<close>, \<^verbatim>\<open>proxy/server.rs\<close>, \<^verbatim>\<open>proxy/ca.rs\<close>, \<^verbatim>\<open>gateway/tls.rs\<close>): the
    configurations and the states the servers start with, in which the invariants of the sanitizer hold;
    the certificate authority with its private file, and the TLS connection to an upstream, which is never
    plain where TLS was asked for.
  \<^item> \<open>Hardening\<close> (\<^verbatim>\<open>hardening/\<close>, \<^verbatim>\<open>secrets/secure_buf.rs\<close>): the system calls that protect the process and
    the buffers of secrets, as a list that the system answers, and the report of their outcome.
  \<^item> \<open>Qa_Upstream\<close> (\<^verbatim>\<open>bin/crebro-qa-upstream.rs\<close>): the upstream of the tests, which refuses requests in
    which a forbidden text arrived.
  \<^item> \<open>Instances\<close>, \<open>Samples\<close>, \<open>Boundary_Sample\<close>: concrete libraries that satisfy what is assumed of the real ones, and the
    inputs at which the properties are applied.

  What is shown.

  \<^item> Nothing secret leaves: redacted texts are placeholders woven with fragments free of secrets (C1,
    C2, C14), so are the strings of a JSON body (C6), of what the proxy (C4, and C22 for texts) and the
    gateway (C5) send; the text frames of the relay carry what the sanitizer gave (C7). Excepted from C4 to C6
    are strings at the paths of known binary fields, which the code keeps on purpose, strings with
    directive tags (of which C14 speaks), strings equal to the canonical JSON of an object (a finding: the
    cache takes them for the object), and long strings with overlapping hits. Where something does
    leave: C23, C40.
  \<^item> What was replaced comes back: C3, C8, C17 to C20, C24, C26; where it does not: C21.
  \<^item> The optimised code agrees with its reference: C11, C12 (strings of any length), C19, C30.
  \<^item> Messages are framed as the receiver reads them: C4, C15, C16, C28, C31.
  \<^item> State stays right: registry C10, cache C33, relay C29, statistics C27, locked memory C36;
    conversations keep their length (C37, texts without directive tags), and a file is rewritten only
    while a backup holds its contents (C38), whole or not at all (C32).
  \<^item> Grammars and formats: C13, C39. Texts that are never refused: C34. Reading ends: C35.
  \<^item> Who is answered, and with which credential: C9 (one kind of request stops the gateway), C25.

  The theories \<open>*_Properties\<close> hold these properties by subsystem; this one the three of the core.

  Assumptions. HMAC, the authenticated cipher, the generator of random bytes, hexadecimal
  (\<open>crypto\<close>), JSON (\<open>serde\<close>), regular expressions, the matching automaton (\<open>matcher_lib\<close>), HTTP
  libraries, file system and SQLite are parameters. What is used of them is a named hypothesis:
  \<open>hmac_total\<close>, \<open>aead_correct\<close>, \<open>zeroize_clears\<close> (\<^verbatim>\<open>Vec::zeroize\<close> leaves an empty vector), \<open>hex_lowercase\<close>, \<open>caching\<close> and \<open>digests_faithful\<close> (no collision on the
  texts at hand), \<open>serde_ok\<close>, \<open>lib_ok\<close>, \<open>format_ok\<close>; \<open>Instances\<close> satisfies each.

  Bounds. Loops over the rest of an input terminate by a measure; the only recursion that is cut off
  is that of the source itself (eight draws of a replacement, the limits on heads, frames and
  candidates). \<open>registry_fits\<close> asks for fewer than \<open>2 ^ 64 - 1\<close> secrets, beyond which the source's
  identifiers wrap; identifiers, versions and counters are 64-bit words, saturating where the source
  saturates. Lengths are \<open>nat\<close>: they are bounded by memory. A string of at most one cache
  chunk (64 KiB) is scanned whole, a longer one through overlapping windows. By C12 that is the same when no
  two hits in the string overlap, and so C4, C5, C6 and C14 are about strings of both kinds: those in one chunk,
  and longer ones that the registry reads apart (\<open>registry_calm\<close>, \<open>scannable\<close>). C40 shows three
  overlapping hits at the end of a chunk for which it is not the same, and the secret that is left.

  Not modelled, and why. The handshakes of TLS, keys and signatures are calls of libraries; the code
  around them is in \<open>Tls_Setup\<close>. That memory is overwritten changes no value the program computes. Tracing,
  argument parsing by \<^verbatim>\<open>clap\<close>, \<^verbatim>\<open>Debug\<close> output and module declarations are glue. Tasks of the runtime
  are sequenced by the locks, so an operation under the lock is one step; only the relay, the growth
  of the registry between chunks and the lock of the gateway's stream show concurrency, and those
  are modelled as said above.
\<close>

section \<open>Redaction\<close>

text \<open>
  C1. What the scanner leaves of a string is free of secrets: the redacted string is the
  placeholders of the selected spans woven with fragments of the original, and no registered
  secret occurs in any of the fragments.
\<close>

theorem redaction_removes_secrets:
  assumes "registry_wf c r" and "scan_string_token c bs r = Inr spans"
  shows "apply_spans bs spans =
      weave (kept_fragments bs 0 (span_edits spans)) (map sp_placeholder spans) \<and>
    (\<forall>g \<in> set (kept_fragments bs 0 (span_edits spans)).
       \<forall>s \<in> set (secrets_of c r). \<not> occurs_in s g)"
  using apply_spans_weave [OF assms] kept_fragments_secret_free [OF assms]
  by (auto simp: secret_free_def)

lemma redaction_removes_secrets_witness:
  "\<exists>spans. scan_string_token plain_crypto ''xpwy'' (one_secret ''pw'') = Inr spans \<and>
     apply_spans ''xpwy'' spans =
       weave (kept_fragments ''xpwy'' 0 (span_edits spans)) (map sp_placeholder spans) \<and>
     (\<forall>g \<in> set (kept_fragments ''xpwy'' 0 (span_edits spans)). \<not> occurs_in ''pw'' g)"
proof -
  obtain spans where run: "scan_string_token plain_crypto ''xpwy'' (one_secret ''pw'') = Inr spans"
    using scan_string_token_total [OF plain_hmac_total] by blast
  have "registry_wf plain_crypto (one_secret ''pw'')"
    by simp
  from redaction_removes_secrets [OF this run] show ?thesis
    using run by auto
qed

text \<open>
  C2. The scanner is total when HMAC is, and exact: its spans lie in the string, in order and
  apart, each has the length, fingerprint and digest of an entry, and every occurrence of a
  registered secret is hit by a span at least as long as the secret.
\<close>

theorem scanner_exact:
  assumes "hmac_total c" and "registry_wf c r"
  shows "\<exists>spans. scan_string_token c bs r = Inr spans \<and>
    edits_ok (length bs) 0 (span_edits spans) \<and>
    (\<forall>sp \<in> set spans. window_hit c r bs sp) \<and>
    (\<forall>s i. s \<in> set (secrets_of c r) \<and> occurs_at s bs i \<longrightarrow>
       (\<exists>sp \<in> set spans. sp_start sp < i + length s \<and> i < span_end sp \<and> length s \<le> sp_len sp))"
proof -
  obtain spans where run: "scan_string_token c bs r = Inr spans"
    using scan_string_token_total [OF assms(1)] by blast
  then show ?thesis
    using scan_sound [OF assms(2) run] scan_complete [OF assms(2) run] by blast
qed

lemma scanner_exact_witness:
  "\<exists>spans. scan_string_token plain_crypto ''xpwy'' (one_secret ''pw'') = Inr spans \<and>
     (\<exists>sp \<in> set spans. sp_start sp < 3 \<and> 1 < span_end sp \<and> 2 \<le> sp_len sp)"
proof -
  have "registry_wf plain_crypto (one_secret ''pw'')"
    by simp
  from scanner_exact [OF plain_hmac_total this, of "''xpwy''"] obtain spans where
    run: "scan_string_token plain_crypto ''xpwy'' (one_secret ''pw'') = Inr spans"
    and "\<forall>s i. s \<in> set (secrets_of plain_crypto (one_secret ''pw'')) \<and> occurs_at s ''xpwy'' i \<longrightarrow>
      (\<exists>sp \<in> set spans. sp_start sp < i + length s \<and> i < span_end sp \<and> length s \<le> sp_len sp)"
    by blast
  moreover have "occurs_at ''pw'' ''xpwy'' 1"
    by (simp add: occurs_at_def sub_bytes_def)
  ultimately have "\<exists>sp \<in> set spans. sp_start sp < 1 + length ''pw'' \<and> 1 < span_end sp \<and> length ''pw'' \<le> sp_len sp"
    by (metis list.set_intros(1) one_secret_secrets list.distinct(1))
  then show ?thesis
    using run by (auto simp: numeral_2_eq_2 numeral_3_eq_3)
qed

section \<open>Restoration\<close>

text \<open>
  C3. The streaming restorer does not depend on how a response is cut into chunks, even if
  secrets are registered between the chunks: its output is the response with every placeholder
  of the registry replaced by its secret.
\<close>

theorem restoration_ignores_chunks:
  assumes "lib_ok lib" and "hex_lowercase c" and "registry_wf c r0"
    and new: "restorer_new lib r0 = Inr rr"
    and steps: "\<forall>(chunk, r') \<in> set chunks. registry_step c r0 r'" and "registry_step c r0 r"
  shows "restore_chunks c chunks r rr =
    Inr (restore_text (secret_table c r0) (concat (map fst chunks)))"
  by (rule restored_chunks_text [OF assms])

lemma restoration_ignores_chunks_witness:
  "\<exists>rr. restorer_new naive_lib (one_secret ''pw'') = Inr rr \<and>
     restore_chunks plain_crypto [(''ab'', one_secret ''pw''), (''cd'', one_secret ''pw'')]
       (one_secret ''pw'') rr =
     Inr (restore_text (secret_table plain_crypto (one_secret ''pw'')) ''abcd'')"
proof -
  obtain rr where rr: "restorer_new naive_lib (one_secret ''pw'') = Inr rr"
    using naive_restorer [of "''pw''"] by auto
  have "registry_wf plain_crypto (one_secret ''pw'')"
    by simp
  from restoration_ignores_chunks [OF naive_lib_ok plain_hex_lowercase this rr,
      of "[(''ab'', one_secret ''pw''), (''cd'', one_secret ''pw'')]" "one_secret ''pw''"]
  show ?thesis
    using rr by auto
qed

end
